(* ===== verification/Zan_Prelude.thy ===== *)
theory Zan_Prelude
  imports Main "HOL-Library.Word"
begin

text \<open>
  Shared vocabulary of the development: the machine types of the C sources, byte buffers with
  stores and loads at an offset, the little-endian image of a 64-bit word, and the facts on
  lists, words and C division that several components use.
\<close>

unbundle bit_operations_syntax

section \<open>Machine types\<close>

type_synonym u8 = "8 word"
type_synonym u16 = "16 word"
type_synonym u32 = "32 word"
type_synonym u64 = "64 word"

text \<open>A signed \<open>int64_t\<close> is the same 64 bits, read through \<^const>\<open>sint\<close>.\<close>

type_synonym i64 = "64 word"

abbreviation i64_max :: int where "i64_max \<equiv> 9223372036854775807"

text \<open>
  A C string is the list of its bytes before the terminating NUL; a \<open>const char *\<close> that may be
  NULL is an option of it.
\<close>

type_synonym cstr = "u8 list"

definition cstr_ok :: "cstr \<Rightarrow> bool" where
  "cstr_ok s \<longleftrightarrow> 0 \<notin> set s"

named_theorems buf_simps "stores and loads in byte buffers"
named_theorems i64_simps "signed 64-bit values"

section \<open>Byte buffers\<close>

text \<open>\<open>memcpy\<close> of \<open>bs\<close> to offset \<open>off\<close> of a buffer, and the \<open>n\<close> bytes read from there.\<close>

definition buf_store :: "nat \<Rightarrow> u8 list \<Rightarrow> u8 list \<Rightarrow> u8 list" where
  "buf_store off bs d = take off d @ bs @ drop (off + length bs) d"

definition buf_load :: "nat \<Rightarrow> nat \<Rightarrow> u8 list \<Rightarrow> u8 list" where
  "buf_load off n d = take n (drop off d)"

lemma length_buf_store [buf_simps]:
  "off + length bs \<le> length d \<Longrightarrow> length (buf_store off bs d) = length d"
  by (simp add: buf_store_def)

lemma buf_load_store_same [buf_simps]:
  "off + length bs \<le> length d \<Longrightarrow> n = length bs \<Longrightarrow> buf_load off n (buf_store off bs d) = bs"
  by (simp add: buf_store_def buf_load_def)

lemma buf_load_store_below [buf_simps]:
  assumes "off' + n \<le> off" "off + length bs \<le> length d"
  shows "buf_load off' n (buf_store off bs d) = buf_load off' n d"
proof -
  have "take n (drop off' (take off d)) = take n (drop off' d)"
    using assms by (simp add: drop_take min_def)
  then show ?thesis
    using assms by (simp add: buf_store_def buf_load_def)
qed

lemma buf_load_store_above [buf_simps]:
  assumes "off + length bs \<le> off'" "off + length bs \<le> length d"
  shows "buf_load off' n (buf_store off bs d) = buf_load off' n d"
proof -
  have "drop off' (buf_store off bs d) = drop (off' - off - length bs) (drop (off + length bs) d)"
    using assms by (simp add: buf_store_def)
  also have "\<dots> = drop off' d"
    using assms by (simp add: add.commute)
  finally show ?thesis by (simp add: buf_load_def)
qed

lemma buf_load_zeros [buf_simps]:
  "off + n \<le> m \<Longrightarrow> buf_load off n (replicate m 0) = replicate n 0"
  by (simp add: buf_load_def)

section \<open>Little-endian 64-bit values\<close>

fun le_bytes :: "nat \<Rightarrow> u64 \<Rightarrow> u8 list" where
  "le_bytes 0 w = []"
| "le_bytes (Suc n) w = ucast w # le_bytes n (drop_bit 8 w)"

definition le64 :: "u64 \<Rightarrow> u8 list" where
  "le64 w = le_bytes 8 w"

fun un_le64 :: "u8 list \<Rightarrow> u64" where
  "un_le64 [] = 0"
| "un_le64 (b # bs) = ucast b OR push_bit 8 (un_le64 bs)"

lemma length_le_bytes [simp]: "length (le_bytes n w) = n"
  by (induction n arbitrary: w) simp_all

lemma length_le64 [simp]: "length (le64 w) = 8"
  by (simp add: le64_def)

lemma low_byte_or_rest:
  "ucast (ucast w :: u8) OR push_bit 8 (take_bit n (drop_bit 8 w)) = take_bit (8 + n) (w :: u64)"
  by (rule bit_word_eqI) (auto simp: bit_simps)

lemma un_le64_le_bytes: "un_le64 (le_bytes n w) = take_bit (8 * n) w"
  by (induction n arbitrary: w) (simp_all add: low_byte_or_rest)

lemma un_le64_le64 [simp]: "un_le64 (le64 w) = w"
  by (simp add: le64_def un_le64_le_bytes) (rule bit_word_eqI, simp add: bit_simps)

lemma un_le64_zeros [simp]: "un_le64 (replicate n 0) = 0"
  by (induction n) simp_all

section \<open>Signed 64-bit arithmetic\<close>

lemma sint_i64_range: "- 9223372036854775808 \<le> sint (x :: i64)" "sint (x :: i64) \<le> i64_max"
  using sint_ge [of x] sint_lt [of x] by simp_all

lemma sint_i64_add [i64_simps]:
  assumes "- 9223372036854775808 \<le> sint x + sint y" "sint x + sint y \<le> i64_max"
  shows "sint (x + y :: i64) = sint x + sint y"
  using assms by (simp add: sint_word_ariths signed_take_bit_int_eq_self)

section \<open>Ring indices\<close>

lemma mod_ring_Suc: "(a mod c + 1) mod c = (a + 1) mod (c :: nat)"
  by (simp add: mod_Suc_eq)

text \<open>The number of steps from \<open>h\<close> to \<open>t\<close> in a ring of \<open>c\<close> slots.\<close>

definition ring_count :: "nat \<Rightarrow> nat \<Rightarrow> nat \<Rightarrow> nat" where
  "ring_count c h t = (t + c - h) mod c"

lemma ring_count_less: "0 < c \<Longrightarrow> ring_count c h t < c"
  by (simp add: ring_count_def)

lemma ring_count_eq_0: "h < c \<Longrightarrow> t < c \<Longrightarrow> ring_count c h t = 0 \<longleftrightarrow> h = t"
  by (cases "h \<le> t") (auto simp: ring_count_def mod_if)

lemma ring_count_step:
  assumes "h < c" "t < c" "h \<noteq> t"
  shows "ring_count c h t = Suc (ring_count c ((h + 1) mod c) t)"
  using assms by (cases "h \<le> t") (auto simp: ring_count_def mod_if)

lemma ring_count_snoc:
  assumes "h < c" "t < c" "(t + 1) mod c \<noteq> h"
  shows "ring_count c h ((t + 1) mod c) = Suc (ring_count c h t)"
  using assms by (cases "h \<le> t") (auto simp: ring_count_def mod_if)

lemma ring_tail_index:
  assumes "h < c" "t < c"
  shows "(h + ring_count c h t) mod c = t"
  using assms by (cases "h \<le> t") (auto simp: ring_count_def mod_if)

lemma ring_count_le: "h \<le> t \<Longrightarrow> t < c \<Longrightarrow> ring_count c h t = t - h"
  by (simp add: ring_count_def mod_if)

lemma ring_count_wrap: "t < h \<Longrightarrow> h < c \<Longrightarrow> ring_count c h t = t + c - h"
  by (simp add: ring_count_def)

lemma ring_index_before_tail:
  assumes "h < c" "t < c" "k < ring_count c h t"
  shows "(h + k) mod c \<noteq> t"
proof (cases "h \<le> t")
  case True
  with assms show ?thesis by (simp add: ring_count_le)
next
  case False
  with assms have "k < t + c - h" by (simp add: ring_count_wrap)
  with False assms show ?thesis by (cases "h + k < c") (auto simp: mod_if)
qed

lemma ring_count_full:
  assumes "h < c" "t < c" "(t + 1) mod c = h"
  shows "ring_count c h t = c - 1"
  using assms by (cases "h \<le> t") (auto simp: ring_count_def mod_if split: if_splits)

section \<open>Bits of a sum\<close>

lemma or_add: "b < 2 ^ n \<Longrightarrow> push_bit n a OR b = a * 2 ^ n + (b :: nat)"
proof -
  assume "b < 2 ^ n"
  then have b: "take_bit n b = b" by (simp add: take_bit_nat_eq_self)
  have "push_bit n a AND take_bit n b = 0" by (rule bit_eqI) (auto simp: bit_simps)
  then have "push_bit n a AND b = 0" by (simp add: b)
  then have "push_bit n a + b = push_bit n a OR b" by (rule disjunctive_add_eq_or)
  then show ?thesis by (simp add: push_bit_eq_mult)
qed

section \<open>Ranges of words\<close>

lemma u8_less: "unat (a :: u8) < 256"
  using unsigned_less [of a, where ?'a = nat] by simp

lemma u32_less: "unat (g :: u32) < 2 ^ 32"
  using unsigned_less [of g, where ?'a = nat] by simp

section \<open>Searching a list\<close>

text \<open>The position of the first element with a property, walking the list from its head.\<close>

fun first_index :: "('a \<Rightarrow> bool) \<Rightarrow> 'a list \<Rightarrow> nat option" where
  "first_index P [] = None"
| "first_index P (x # xs) = (if P x then Some 0 else map_option Suc (first_index P xs))"

lemma first_index_Some:
  "first_index P xs = Some i \<longleftrightarrow> i < length xs \<and> P (xs ! i) \<and> (\<forall>j < i. \<not> P (xs ! j))"
proof (induction xs arbitrary: i)
  case Nil
  then show ?case by simp
next
  case (Cons x xs)
  show ?case
    by (cases i) (auto simp: Cons.IH All_less_Suc2)
qed

lemma first_index_None: "first_index P xs = None \<longleftrightarrow> (\<forall>x \<in> set xs. \<not> P x)"
  by (induction xs) auto

end
