(* ===== verification/Queue_Contract.thy ===== *)
theory Queue_Contract
  imports Zan_Prelude "HOL-Library.Sublist"
begin

text \<open>
  The contract of the FIFO queues of the runtime: what a provider promises about posting and
  taking, and what every client history gets from it. The dispatch ring and the
  waiter list of a gate (\<open>crt-transition/zanstubs.c\<close>) provide the strict contract; the CDP
  message ring of the CEF driver, which drops its oldest entry when it is full, provides the
  lossy one.
\<close>

section \<open>Histories\<close>

text \<open>
  A post carries the environment's choice \<open>'e\<close> at that call (whether an allocation succeeds)
  and the posted item. A run records the accepted items and the taken ones, in order.
\<close>

datatype ('e, 'a) queue_op = Post 'e 'a | Take

fun queue_run :: "('e \<Rightarrow> 'a \<Rightarrow> 'q \<Rightarrow> bool \<times> 'q) \<Rightarrow> ('q \<Rightarrow> 'a option \<times> 'q) \<Rightarrow>
    ('e, 'a) queue_op list \<Rightarrow> 'q \<Rightarrow> 'a list \<times> 'a list \<times> 'q" where
  "queue_run post take1 [] q = ([], [], q)"
| "queue_run post take1 (Post e x # ops) q =
     (let (ok, q') = post e x q; (acc, taken, q'') = queue_run post take1 ops q'
      in ((if ok then x # acc else acc), taken, q''))"
| "queue_run post take1 (Take # ops) q =
     (let (r, q') = take1 q; (acc, taken, q'') = queue_run post take1 ops q'
      in (acc, (case r of None \<Rightarrow> taken | Some x \<Rightarrow> x # taken), q''))"

section \<open>Contracts\<close>

locale queue_take =
  fixes items :: "'q \<Rightarrow> 'a list"
    and inv :: "'q \<Rightarrow> bool"
    and take1 :: "'q \<Rightarrow> 'a option \<times> 'q"
  assumes take_empty: "inv q \<Longrightarrow> items q = [] \<Longrightarrow> take1 q = (None, q)"
    and take_item: "inv q \<Longrightarrow> items q = x # xs \<Longrightarrow>
      fst (take1 q) = Some x \<and> items (snd (take1 q)) = xs"
    and take_inv: "inv q \<Longrightarrow> inv (snd (take1 q))"
begin

lemma take_result: "inv q \<Longrightarrow> fst (take1 q) = (case items q of [] \<Rightarrow> None | x # _ \<Rightarrow> Some x)"
  by (cases "items q") (auto simp: take_empty take_item)

lemma take_rest: "inv q \<Longrightarrow> items (snd (take1 q)) = tl (items q)"
  by (cases "items q") (auto simp: take_empty take_item)

end

locale fifo_queue = queue_take items inv take1
  for items :: "'q \<Rightarrow> 'a list" and inv :: "'q \<Rightarrow> bool" and take1 :: "'q \<Rightarrow> 'a option \<times> 'q" +
  fixes post :: "'e \<Rightarrow> 'a \<Rightarrow> 'q \<Rightarrow> bool \<times> 'q"
  assumes post_items: "inv q \<Longrightarrow>
      items (snd (post e x q)) = (if fst (post e x q) then items q @ [x] else items q)"
    and post_inv: "inv q \<Longrightarrow> inv (snd (post e x q))"
begin

text \<open>
  First in, first out over a whole history: what was pending, then what was accepted, is what
  was taken, then what is still pending.
\<close>

lemma run_fifo:
  "inv q \<Longrightarrow> queue_run post take1 ops q = (acc, taken, q') \<Longrightarrow>
   inv q' \<and> items q @ acc = taken @ items q'"
proof (induction ops arbitrary: q acc taken q')
  case Nil
  then show ?case by simp
next
  case (Cons op ops)
  show ?case
  proof (cases op)
    case (Post e x)
    obtain ok q1 where p: "post e x q = (ok, q1)" by fastforce
    obtain acc1 taken1 q2 where r: "queue_run post take1 ops q1 = (acc1, taken1, q2)"
      by (metis prod_cases3)
    have "inv q1" "items q1 = (if ok then items q @ [x] else items q)"
      using Cons.prems(1) p post_inv [of q e x] post_items [of q e x] by simp_all
    then show ?thesis
      using Cons.IH [OF _ r] Cons.prems(2) p r Post by auto
  next
    case Take
    obtain r1 q1 where t: "take1 q = (r1, q1)" by fastforce
    obtain acc1 taken1 q2 where r: "queue_run post take1 ops q1 = (acc1, taken1, q2)"
      by (metis prod_cases3)
    have "inv q1" using take_inv [of q] Cons.prems(1) t by simp
    moreover have "items q = (case r1 of None \<Rightarrow> items q1 | Some x \<Rightarrow> x # items q1)"
      using Cons.prems(1) t take_empty [of q] take_item [of q] by (cases "items q") auto
    ultimately show ?thesis
      using Cons.IH [OF _ r] Cons.prems(2) t r Take by (auto split: option.splits)
  qed
qed

end

text \<open>The lossy contract: a full queue drops its oldest item and still accepts the new one.\<close>

locale lossy_queue = queue_take items inv take1
  for items :: "'q \<Rightarrow> 'a list" and inv :: "'q \<Rightarrow> bool" and take1 :: "'q \<Rightarrow> 'a option \<times> 'q" +
  fixes push :: "'a \<Rightarrow> 'q \<Rightarrow> 'q"
    and bound :: nat
    and dropped :: "'q \<Rightarrow> nat"
  assumes push_items: "inv q \<Longrightarrow>
      items (push x q) = (if length (items q) = bound then tl (items q) else items q) @ [x]"
    and push_dropped: "inv q \<Longrightarrow>
      dropped (push x q) = dropped q + (if length (items q) = bound then 1 else 0)"
    and push_inv: "inv q \<Longrightarrow> inv (push x q)"
    and take_dropped: "inv q \<Longrightarrow> dropped (snd (take1 q)) = dropped q"
    and inv_bound: "inv q \<Longrightarrow> length (items q) \<le> bound"
    and bound_pos: "0 < bound"
begin

text \<open>Pushing a batch keeps its newest \<open>bound\<close> items, after what fits of the old ones.\<close>

lemma push_all:
  "inv q \<Longrightarrow> inv (fold push xs q) \<and>
   items (fold push xs q) = drop (length (items q) + length xs - bound) (items q @ xs) \<and>
   dropped (fold push xs q) = dropped q + (length (items q) + length xs - bound)"
proof (induction xs arbitrary: q)
  case Nil
  with inv_bound [of q] show ?case by simp
next
  case (Cons x xs)
  have i: "inv (push x q)" using Cons.prems by (rule push_inv)
  show ?case
  proof (cases "length (items q) = bound")
    case True
    with Cons.prems have it: "items (push x q) = tl (items q) @ [x]"
      and dr: "dropped (push x q) = dropped q + 1"
      by (simp_all add: push_items push_dropped)
    obtain y ys where q: "items q = y # ys"
      using True bound_pos by (cases "items q") auto
    show ?thesis
      using Cons.IH [OF i] it dr True [symmetric] q by (simp add: Suc_diff_le)
  next
    case False
    with Cons.prems inv_bound [of q] have lt: "length (items q) < bound"
      and it: "items (push x q) = items q @ [x]" and dr: "dropped (push x q) = dropped q"
      by (simp_all add: push_items push_dropped)
    show ?thesis
      using Cons.IH [OF i] it dr lt by simp
  qed
qed

text \<open>
  A history of pushes and takes: what is taken, then what waits, is what was pushed, in order,
  without what was dropped.
\<close>

lemma run_lossy:
  "inv q \<Longrightarrow> queue_run (\<lambda>(_ :: unit) x q. (True, push x q)) take1 ops q = (acc, taken, q') \<Longrightarrow>
   inv q' \<and> subseq (taken @ items q') (items q @ acc) \<and>
   length (items q @ acc) + dropped q = length (taken @ items q') + dropped q'"
proof (induction ops arbitrary: q acc taken q')
  case Nil
  then show ?case by simp
next
  case (Cons op ops)
  show ?case
  proof (cases op)
    case (Post e x)
    obtain acc1 taken1 q2 where r: "queue_run (\<lambda>(_ :: unit) x q. (True, push x q)) take1 ops (push x q) = (acc1, taken1, q2)"
      by (metis prod_cases3)
    have IH: "inv q2 \<and> subseq (taken1 @ items q2) (items (push x q) @ acc1) \<and>
        length (items (push x q) @ acc1) + dropped (push x q) = length (taken1 @ items q2) + dropped q2"
      by (rule Cons.IH [OF push_inv [OF Cons.prems(1)] r])
    have e: "acc = x # acc1" "taken = taken1" "q' = q2" using Cons.prems(2) r Post by simp_all
    have "subseq (items (push x q) @ acc1) (items q @ acc)"
      using push_items [OF Cons.prems(1), of x] e(1) by (cases "items q") auto
    moreover have "length (items (push x q)) + dropped (push x q) = length (items q) + 1 + dropped q"
      using push_items [OF Cons.prems(1), of x] push_dropped [OF Cons.prems(1), of x] bound_pos
      by (cases "items q") auto
    ultimately show ?thesis using IH e by (auto intro: subseq_order.order_trans)
  next
    case Take
    obtain r1 q1 where t: "take1 q = (r1, q1)" by fastforce
    obtain acc1 taken1 q2 where r: "queue_run (\<lambda>(_ :: unit) x q. (True, push x q)) take1 ops q1 = (acc1, taken1, q2)"
      by (metis prod_cases3)
    have "inv q1" "dropped q1 = dropped q" using take_inv [of q] take_dropped [of q] Cons.prems(1) t by simp_all
    moreover have "items q = (case r1 of None \<Rightarrow> items q1 | Some x \<Rightarrow> x # items q1)"
      using Cons.prems(1) t take_empty [of q] take_item [of q] by (cases "items q") auto
    ultimately show ?thesis
      using Cons.IH [OF _ r] Cons.prems(2) t r Take by (auto split: option.splits)
  qed
qed

end

end
