(* ===== verification/Dispatch_Queue.thy ===== *)
theory Dispatch_Queue
  imports Queue_Contract
begin

text \<open>
  The UI-thread dispatch queue of \<open>crt-transition/zanstubs.c\<close> (\<open>zan_dispatch_*\<close>): a ring of
  posted closures that starts in a static block of 64 slots and doubles on demand up to
  \<open>2 ^ 20\<close>. Each operation runs under \<open>g_dispatch_mx\<close>, so it is one atomic step of the model;
  whether \<open>malloc\<close> succeeds is an argument of the operations that call it. The ring is shown to
  implement a bounded FIFO queue.
\<close>

section \<open>State\<close>

text \<open>
  \<open>g_dispatch_ring\<close>, \<open>g_dispatch_cap\<close>, \<open>g_dispatch_head\<close> and \<open>g_dispatch_tail\<close>. A slot is a
  \<open>void *\<close>: \<^const>\<open>None\<close> is NULL, also the content of a slot nobody wrote yet. The four
  indices stay below \<open>2 ^ 20\<close> (\<open>dispatch_inv\<close>), so the C \<open>int\<close> arithmetic on them is exact.
  \<open>on_heap\<close> tells \<open>g_dispatch_ring != g_dispatch_static\<close> and \<open>freed\<close> counts the rings handed to
  \<open>free\<close>.
\<close>

record 'f dispatch =
  dq_ring :: "'f option list"
  dq_cap :: nat
  dq_head :: nat
  dq_tail :: nat
  dq_on_heap :: bool
  dq_freed :: nat

definition ZAN_DISPATCH_CAP0 :: nat where "ZAN_DISPATCH_CAP0 = 64"
definition ZAN_DISPATCH_CAP_MAX :: nat where "ZAN_DISPATCH_CAP_MAX = 2 ^ 20"

definition dispatch_boot :: "'f dispatch" where
  "dispatch_boot = \<lparr>dq_ring = replicate ZAN_DISPATCH_CAP0 None, dq_cap = ZAN_DISPATCH_CAP0,
     dq_head = 0, dq_tail = 0, dq_on_heap = False, dq_freed = 0\<rparr>"

section \<open>Operations\<close>

definition zan_dispatch_init :: "'f dispatch \<Rightarrow> 'f dispatch" where
  "zan_dispatch_init s = s\<lparr>dq_head := 0, dq_tail := 0\<rparr>"

text \<open>
  The copying loop \<open>while (i != g_dispatch_tail)\<close> of \<open>zan_dispatch_grow\<close>, from slot \<open>i\<close>; it
  returns the copied slots in order. Running out of fuel (\<^const>\<open>None\<close>) is a loop that does
  not end.
\<close>

fun dispatch_copy :: "nat \<Rightarrow> 'a list \<Rightarrow> nat \<Rightarrow> nat \<Rightarrow> nat \<Rightarrow> 'a list option" where
  "dispatch_copy 0 r c t i = None"
| "dispatch_copy (Suc fuel) r c t i =
     (if i \<noteq> t then map_option (Cons (r ! i)) (dispatch_copy fuel r c t ((i + 1) mod c))
      else Some [])"

definition zan_dispatch_grow :: "bool \<Rightarrow> 'f dispatch \<Rightarrow> (bool \<times> 'f dispatch) option" where
  "zan_dispatch_grow malloc_ok s =
     (if dq_cap s \<ge> ZAN_DISPATCH_CAP_MAX then Some (False, s)
      else let ncap = dq_cap s * 2 in
        if \<not> malloc_ok then Some (False, s)
        else case dispatch_copy (dq_cap s) (dq_ring s) (dq_cap s) (dq_tail s) (dq_head s) of
          None \<Rightarrow> None
        | Some copied \<Rightarrow>
            Some (True, \<lparr>dq_ring = copied @ replicate (ncap - length copied) None, dq_cap = ncap,
              dq_head = 0, dq_tail = length copied, dq_on_heap = True,
              dq_freed = dq_freed s + (if dq_on_heap s then 1 else 0)\<rparr>))"

text \<open>The end of \<open>zan_dispatch_post\<close>: store and advance unless the ring is still full.\<close>

definition dispatch_store :: "nat \<Rightarrow> 'f \<Rightarrow> 'f dispatch \<Rightarrow> int \<times> 'f dispatch" where
  "dispatch_store nxt f s =
     (if nxt \<noteq> dq_head s
      then (1, s\<lparr>dq_ring := (dq_ring s)[dq_tail s := Some f], dq_tail := nxt\<rparr>)
      else (0, s))"

definition zan_dispatch_post ::
    "bool \<Rightarrow> 'f option \<Rightarrow> 'f dispatch \<Rightarrow> (int \<times> 'f dispatch) option" where
  "zan_dispatch_post malloc_ok fn s =
     (case fn of None \<Rightarrow> Some (0, s)
      | Some f \<Rightarrow>
          let nxt = (dq_tail s + 1) mod dq_cap s in
          if nxt = dq_head s then
            (case zan_dispatch_grow malloc_ok s of
               None \<Rightarrow> None
             | Some (grown, s') \<Rightarrow>
                 let nxt' = (if grown then (dq_tail s' + 1) mod dq_cap s' else nxt)
                 in Some (dispatch_store nxt' f s'))
          else Some (dispatch_store nxt f s))"

definition zan_dispatch_take :: "'f dispatch \<Rightarrow> 'f option \<times> 'f dispatch" where
  "zan_dispatch_take s =
     (if dq_head s \<noteq> dq_tail s
      then (dq_ring s ! dq_head s, s\<lparr>dq_head := (dq_head s + 1) mod dq_cap s\<rparr>)
      else (None, s))"

definition zan_dispatch_clear :: "'f dispatch \<Rightarrow> 'f dispatch" where
  "zan_dispatch_clear s = s\<lparr>dq_head := 0, dq_tail := 0\<rparr>"

section \<open>Invariant and abstraction\<close>

definition ring_slots :: "'a list \<Rightarrow> nat \<Rightarrow> nat \<Rightarrow> nat \<Rightarrow> 'a list" where
  "ring_slots r c h n = map (\<lambda>k. r ! ((h + k) mod c)) [0..<n]"

definition dispatch_slots :: "'f dispatch \<Rightarrow> 'f option list" where
  "dispatch_slots s =
     ring_slots (dq_ring s) (dq_cap s) (dq_head s) (ring_count (dq_cap s) (dq_head s) (dq_tail s))"

definition dispatch_items :: "'f dispatch \<Rightarrow> 'f list" where
  "dispatch_items s = map the (dispatch_slots s)"

text \<open>The capacity is a doubling of 64 that never passes the maximum.\<close>

definition dispatch_inv :: "'f dispatch \<Rightarrow> bool" where
  "dispatch_inv s \<longleftrightarrow>
     (\<exists>k \<le> 14. dq_cap s = 64 * 2 ^ k) \<and> length (dq_ring s) = dq_cap s \<and>
     dq_head s < dq_cap s \<and> dq_tail s < dq_cap s \<and> None \<notin> set (dispatch_slots s)"

lemma ring_slots_Suc:
  "h < c \<Longrightarrow> ring_slots r c h (Suc n) = r ! h # ring_slots r c ((h + 1) mod c) n"
  by (auto simp: ring_slots_def upt_conv_Cons map_Suc_upt [symmetric] mod_add_left_eq
      simp del: upt_Suc)

lemma ring_slots_snoc:
  "ring_slots r c h (Suc n) = ring_slots r c h n @ [r ! ((h + n) mod c)]"
  by (simp add: ring_slots_def)

lemma ring_slots_update:
  assumes "h < c" "t < c" "n \<le> ring_count c h t"
  shows "ring_slots (r[t := x]) c h n = ring_slots r c h n"
proof -
  have "t \<noteq> (h + k) mod c" if "k < n" for k
    using ring_index_before_tail [OF assms(1,2), of k] that assms(3) by simp
  then show ?thesis by (simp add: ring_slots_def)
qed

lemma ring_slots_prefix:
  "length xs \<le> c \<Longrightarrow> ring_slots (xs @ ys) c 0 (length xs) = xs"
  by (auto simp: ring_slots_def nth_append intro!: nth_equalityI)

lemma dispatch_slots_prefix:
  "length xs < c \<Longrightarrow> dispatch_slots \<lparr>dq_ring = xs @ ys, dq_cap = c, dq_head = 0,
     dq_tail = length xs, dq_on_heap = b, dq_freed = n\<rparr> = xs"
  by (simp add: dispatch_slots_def ring_count_le ring_slots_prefix)

lemma dispatch_copy_slots:
  "i < c \<Longrightarrow> t < c \<Longrightarrow> ring_count c i t < fuel \<Longrightarrow>
   dispatch_copy fuel r c t i = Some (ring_slots r c i (ring_count c i t))"
proof (induction fuel arbitrary: i)
  case 0
  then show ?case by simp
next
  case (Suc fuel)
  show ?case
  proof (cases "i = t")
    case True
    with Suc.prems show ?thesis by (simp add: ring_count_eq_0 ring_slots_def)
  next
    case False
    with Suc.prems have s: "ring_count c i t = Suc (ring_count c ((i + 1) mod c) t)"
      by (simp add: ring_count_step)
    with False Suc.prems Suc.IH [of "(i + 1) mod c"] show ?thesis
      by (simp add: ring_slots_Suc del: One_nat_def)
  qed
qed

lemma dispatch_inv_cap:
  assumes "dispatch_inv s"
  shows "64 \<le> dq_cap s" "dq_cap s \<le> 2 ^ 20"
proof -
  from assms obtain k where k: "k \<le> 14" "dq_cap s = 64 * 2 ^ k" by (auto simp: dispatch_inv_def)
  show "64 \<le> dq_cap s" using k by simp
  have "(2 :: nat) ^ k \<le> 2 ^ 14" using k(1) by (rule power_increasing) simp
  then show "dq_cap s \<le> 2 ^ 20" using k(2) by simp
qed

lemma dispatch_slots_items:
  "dispatch_inv s \<Longrightarrow> dispatch_slots s = map Some (dispatch_items s)"
  by (auto simp: dispatch_inv_def dispatch_items_def o_def intro!: map_idI [symmetric])
    (metis option.exhaust_sel)

lemma length_dispatch_items:
  "length (dispatch_items s) = ring_count (dq_cap s) (dq_head s) (dq_tail s)"
  by (simp add: dispatch_items_def dispatch_slots_def ring_slots_def)

lemma dispatch_boot_inv: "dispatch_inv dispatch_boot" "dispatch_items dispatch_boot = []"
  by (auto simp: dispatch_inv_def dispatch_boot_def ZAN_DISPATCH_CAP0_def dispatch_slots_def
      dispatch_items_def ring_slots_def ring_count_def intro!: exI [of _ 0])

section \<open>The operations on the abstract queue\<close>

lemma zan_dispatch_take_empty:
  "dispatch_inv s \<Longrightarrow> dispatch_items s = [] \<Longrightarrow> zan_dispatch_take s = (None, s)"
  using length_dispatch_items [of s]
  by (auto simp: zan_dispatch_take_def dispatch_inv_def ring_count_eq_0)

lemma zan_dispatch_take_item:
  assumes "dispatch_inv s" "dispatch_items s = x # xs"
  shows "fst (zan_dispatch_take s) = Some x" "dispatch_items (snd (zan_dispatch_take s)) = xs"
    "dispatch_inv (snd (zan_dispatch_take s))"
proof -
  let ?h = "dq_head s" and ?t = "dq_tail s" and ?c = "dq_cap s"
  let ?s' = "s\<lparr>dq_head := (?h + 1) mod ?c\<rparr>"
  have b: "?h < ?c" "?t < ?c" using assms(1) by (auto simp: dispatch_inv_def)
  have ne: "?h \<noteq> ?t"
    using assms(2) length_dispatch_items [of s] ring_count_eq_0 [OF b] by auto
  have sl: "dispatch_slots s = dq_ring s ! ?h # dispatch_slots ?s'"
    using b ne by (simp add: dispatch_slots_def ring_count_step ring_slots_Suc del: One_nat_def)
  moreover have "dispatch_slots s = Some x # map Some xs"
    using dispatch_slots_items [OF assms(1)] assms(2) by simp
  ultimately have hd: "dq_ring s ! ?h = Some x" and tl: "dispatch_slots ?s' = map Some xs"
    by simp_all
  show "fst (zan_dispatch_take s) = Some x" using ne hd by (simp add: zan_dispatch_take_def)
  show "dispatch_items (snd (zan_dispatch_take s)) = xs"
    using ne tl by (simp add: zan_dispatch_take_def dispatch_items_def o_def)
  show "dispatch_inv (snd (zan_dispatch_take s))"
    using assms(1) b ne tl by (auto simp: zan_dispatch_take_def dispatch_inv_def)
qed

text \<open>Growing keeps the items and leaves room: the doubled ring has a free slot.\<close>

lemma zan_dispatch_grow_result:
  assumes "dispatch_inv s"
  shows "zan_dispatch_grow ok s = Some (False, s) \<and> (dq_cap s = 2 ^ 20 \<or> \<not> ok) \<or>
    (\<exists>s'. zan_dispatch_grow ok s = Some (True, s') \<and> ok \<and> dispatch_inv s' \<and>
       dispatch_items s' = dispatch_items s \<and> dq_cap s' = 2 * dq_cap s \<and>
       (dq_tail s' + 1) mod dq_cap s' \<noteq> dq_head s')"
proof (cases "dq_cap s \<ge> 2 ^ 20 \<or> \<not> ok")
  case True
  then show ?thesis
    using dispatch_inv_cap(2) [OF assms]
    by (auto simp: zan_dispatch_grow_def ZAN_DISPATCH_CAP_MAX_def)
next
  case False
  let ?c = "dq_cap s" and ?n = "ring_count (dq_cap s) (dq_head s) (dq_tail s)"
  let ?sl = "dispatch_slots s"
  let ?s' = "\<lparr>dq_ring = ?sl @ replicate (?c * 2 - length ?sl) None, dq_cap = ?c * 2, dq_head = 0,
    dq_tail = length ?sl, dq_on_heap = True, dq_freed = dq_freed s + (if dq_on_heap s then 1 else 0)\<rparr>"
  have b: "dq_head s < ?c" "dq_tail s < ?c" using assms by (auto simp: dispatch_inv_def)
  have n: "?n < ?c" using b by (simp add: ring_count_less)
  have len: "length ?sl = ?n" by (simp add: dispatch_slots_def ring_slots_def)
  have g: "zan_dispatch_grow ok s = Some (True, ?s')"
    using False dispatch_copy_slots [OF b n, of "dq_ring s"]
    by (simp add: zan_dispatch_grow_def ZAN_DISPATCH_CAP_MAX_def dispatch_slots_def Let_def)
  have sl': "dispatch_slots ?s' = ?sl"
    using n len by (intro dispatch_slots_prefix) simp
  have "\<exists>k \<le> 14. ?c * 2 = 64 * 2 ^ k"
  proof -
    obtain k where k: "k \<le> 14" "?c = 64 * 2 ^ k" using assms by (auto simp: dispatch_inv_def)
    have "k \<noteq> 14" using False k(2) by auto
    with k show ?thesis by (intro exI [of _ "Suc k"]) auto
  qed
  then have "dispatch_inv ?s'"
    using assms n len sl' by (auto simp: dispatch_inv_def)
  moreover have "dispatch_items ?s' = dispatch_items s" by (simp add: dispatch_items_def sl')
  moreover have "(dq_tail ?s' + 1) mod dq_cap ?s' \<noteq> dq_head ?s'" using n len by simp
  ultimately show ?thesis using g False by auto
qed

lemma dispatch_store_room:
  fixes f :: "'f"
  assumes "dispatch_inv s" "(dq_tail s + 1) mod dq_cap s \<noteq> dq_head s"
  defines "r \<equiv> dispatch_store ((dq_tail s + 1) mod dq_cap s) f s"
  shows "fst r = 1" "dispatch_items (snd r) = dispatch_items s @ [f]" "dispatch_inv (snd r)"
    "dq_cap (snd r) = dq_cap s"
proof -
  let ?h = "dq_head s" and ?t = "dq_tail s" and ?c = "dq_cap s"
  have b: "?h < ?c" "?t < ?c" and len: "length (dq_ring s) = ?c"
    using assms(1) by (auto simp: dispatch_inv_def)
  have sl: "dispatch_slots (snd r) = dispatch_slots s @ [Some f]"
    using assms(2) b len
    by (simp add: r_def dispatch_store_def dispatch_slots_def ring_count_snoc ring_slots_snoc
        ring_slots_update ring_tail_index del: One_nat_def)
  show "fst r = 1" "dq_cap (snd r) = ?c" using assms(2) by (simp_all add: r_def dispatch_store_def)
  show "dispatch_items (snd r) = dispatch_items s @ [f]" using sl by (simp add: dispatch_items_def)
  show "dispatch_inv (snd r)"
    using assms(1,2) b len sl by (auto simp: r_def dispatch_inv_def dispatch_store_def)
qed

text \<open>
  The refinement of \<open>zan_dispatch_post\<close>: it always returns; it appends, or it rejects and
  changes nothing, the latter only for a NULL closure or a full ring that cannot grow.
\<close>

definition dispatch_full :: "'f dispatch \<Rightarrow> bool" where
  "dispatch_full s \<longleftrightarrow> length (dispatch_items s) = dq_cap s - 1"

lemma dispatch_full_iff:
  "dispatch_inv s \<Longrightarrow> dispatch_full s \<longleftrightarrow> (dq_tail s + 1) mod dq_cap s = dq_head s"
  unfolding dispatch_full_def length_dispatch_items
  using ring_count_full ring_count_snoc ring_count_less
  by (metis Suc_diff_1 dispatch_inv_def less_irrefl mod_less_divisor not_gr_zero not_less0)

lemma zan_dispatch_post_result:
  assumes "dispatch_inv s"
  shows "zan_dispatch_post ok (Some f) s = Some (0, s) \<and> dispatch_full s \<and>
      (dq_cap s = 2 ^ 20 \<or> \<not> ok) \<or>
    (\<exists>s'. zan_dispatch_post ok (Some f) s = Some (1, s') \<and> dispatch_inv s' \<and>
      dispatch_items s' = dispatch_items s @ [f] \<and>
      \<not> (dispatch_full s \<and> (dq_cap s = 2 ^ 20 \<or> \<not> ok)))"
proof (cases "(dq_tail s + 1) mod dq_cap s = dq_head s")
  case False
  from dispatch_store_room [OF assms this, of f] False show ?thesis
    unfolding zan_dispatch_post_def
    by (intro disjI2) (auto simp: dispatch_full_iff [OF assms] Let_def intro!: prod_eqI)
next
  case True
  from zan_dispatch_grow_result [OF assms, of ok] show ?thesis
  proof (elim disjE conjE exE)
    assume "zan_dispatch_grow ok s = Some (False, s)" "dq_cap s = 2 ^ 20"
    then show ?thesis using True
      by (simp add: zan_dispatch_post_def dispatch_store_def dispatch_full_iff [OF assms])
  next
    assume "zan_dispatch_grow ok s = Some (False, s)" "\<not> ok"
    then show ?thesis using True
      by (simp add: zan_dispatch_post_def dispatch_store_def dispatch_full_iff [OF assms])
  next
    fix s' assume g: "zan_dispatch_grow ok s = Some (True, s')" "ok" "dispatch_inv s'"
      "dispatch_items s' = dispatch_items s" "dq_cap s' = 2 * dq_cap s"
      "(dq_tail s' + 1) mod dq_cap s' \<noteq> dq_head s'"
    have "dq_cap s \<noteq> 2 ^ 20"
      using dispatch_inv_cap(2) [OF g(3)] g(5) by auto
    with g dispatch_store_room [OF g(3,6), of f] True show ?thesis
      by (auto simp: zan_dispatch_post_def Let_def intro!: prod_eqI)
  qed
qed

section \<open>The ring as a FIFO queue\<close>

text \<open>Posting a non-NULL closure, as the queue contract sees it.\<close>

definition dispatch_post_step :: "bool \<Rightarrow> 'f \<Rightarrow> 'f dispatch \<Rightarrow> bool \<times> 'f dispatch" where
  "dispatch_post_step malloc_ok f s =
     (case zan_dispatch_post malloc_ok (Some f) s of None \<Rightarrow> (False, s) | Some (r, s') \<Rightarrow> (r = 1, s'))"

interpretation dispatch_fifo: fifo_queue dispatch_items dispatch_inv zan_dispatch_take dispatch_post_step
proof unfold_locales
  fix s :: "'f dispatch" and x :: 'f and xs :: "'f list" and ok :: bool
  show "dispatch_inv s \<Longrightarrow> dispatch_items s = [] \<Longrightarrow> zan_dispatch_take s = (None, s)"
    by (rule zan_dispatch_take_empty)
  show "dispatch_inv s \<Longrightarrow> dispatch_items s = x # xs \<Longrightarrow>
      fst (zan_dispatch_take s) = Some x \<and> dispatch_items (snd (zan_dispatch_take s)) = xs"
    by (simp add: zan_dispatch_take_item)
  show "dispatch_inv s \<Longrightarrow> dispatch_inv (snd (zan_dispatch_take s))"
    by (cases "dispatch_items s") (simp_all add: zan_dispatch_take_item zan_dispatch_take_empty)
  assume i: "dispatch_inv s"
  show "dispatch_items (snd (dispatch_post_step ok x s)) =
      (if fst (dispatch_post_step ok x s) then dispatch_items s @ [x] else dispatch_items s)"
    and "dispatch_inv (snd (dispatch_post_step ok x s))"
    using zan_dispatch_post_result [OF i, of ok x] i
    by (auto simp: dispatch_post_step_def)
qed

section \<open>Properties\<close>

text \<open>
  C1. Whatever closures workers post and the UI thread takes, in any order and with any
  allocation failures, from the boot state on: every closure whose post answered 1 is taken
  exactly once and in posting order, or is still pending in the ring.
\<close>

theorem dispatch_history_fifo:
  assumes "queue_run dispatch_post_step zan_dispatch_take ops dispatch_boot = (accepted, taken, s)"
  shows "accepted = taken @ dispatch_items s \<and> dispatch_inv s"
  using dispatch_fifo.run_fifo [OF dispatch_boot_inv(1) assms] by (simp add: dispatch_boot_inv(2))

theorem dispatch_history_fifo_witness:
  "\<exists>s. queue_run dispatch_post_step zan_dispatch_take [Post True (7::nat), Post False 8, Take]
      dispatch_boot = ([7, 8], [7], s) \<and> dispatch_items s = [8]"
proof -
  let ?r = "queue_run dispatch_post_step zan_dispatch_take [Post True (7::nat), Post False 8, Take]
    dispatch_boot"
  have "fst ?r = [7, 8]" "fst (snd ?r) = [7]" by code_simp+
  then have r: "?r = ([7, 8], [7], snd (snd ?r))" by (simp add: prod_eq_iff)
  from dispatch_history_fifo [OF r] have "dispatch_items (snd (snd ?r)) = [8]" by simp
  with r show ?thesis by blast
qed

text \<open>
  \<open>zan_dispatch_post\<close> with a closure always returns and answers 0 exactly when the ring
  is full and cannot grow (at \<open>2 ^ 20\<close> slots, or \<open>malloc\<close> fails), leaving the queue as it was;
  otherwise it answers 1 and the closure is the last of the pending ones.
\<close>

theorem zan_dispatch_post_spec:
  assumes "dispatch_inv s"
  shows "\<exists>r s'. zan_dispatch_post malloc_ok (Some f) s = Some (r, s') \<and> dispatch_inv s' \<and>
    (if dispatch_full s \<and> (dq_cap s = 2 ^ 20 \<or> \<not> malloc_ok) then r = 0 \<and> s' = s
     else r = 1 \<and> dispatch_items s' = dispatch_items s @ [f])"
  using zan_dispatch_post_result [OF assms, of malloc_ok f] assms by auto

theorem zan_dispatch_post_spec_witness:
  "dispatch_inv (dispatch_boot :: nat dispatch) \<and>
   (\<exists>s'. zan_dispatch_post True (Some (3::nat)) dispatch_boot = Some (1, s') \<and> dispatch_items s' = [3])"
proof -
  have "\<not> dispatch_full (dispatch_boot :: nat dispatch)"
    by (simp add: dispatch_full_def dispatch_boot_inv(2)) (simp add: dispatch_boot_def ZAN_DISPATCH_CAP0_def)
  with zan_dispatch_post_spec [OF dispatch_boot_inv(1), of True "3 :: nat"] show ?thesis
    by (auto simp: dispatch_boot_inv)
qed

end
