(* ===== verification/C_Text.thy ===== *)
theory C_Text
  imports Zan_Prelude
begin

text \<open>
  Text as the C library sees it: character codes and classes, decimal digits, \<open>strtoul\<close> and the
  decimal output of \<open>snprintf\<close>, and \<open>strncmp\<close>, each as the C standard defines it. The schema
  parser, the shared table and the freestanding libc use them.
\<close>

section \<open>Characters\<close>

abbreviation (input) ch_colon :: u8 where "ch_colon \<equiv> 58"
abbreviation (input) ch_semi :: u8 where "ch_semi \<equiv> 59"
abbreviation (input) ch_i :: u8 where "ch_i \<equiv> 105"
abbreviation (input) ch_f :: u8 where "ch_f \<equiv> 102"
abbreviation (input) ch_s :: u8 where "ch_s \<equiv> 115"
abbreviation (input) ch_0 :: u8 where "ch_0 \<equiv> 48"
abbreviation (input) ch_9 :: u8 where "ch_9 \<equiv> 57"
abbreviation (input) ch_plus :: u8 where "ch_plus \<equiv> 43"
abbreviation (input) ch_minus :: u8 where "ch_minus \<equiv> 45"

definition is_digit :: "u8 \<Rightarrow> bool" where
  "is_digit c \<longleftrightarrow> ch_0 \<le> c \<and> c \<le> ch_9"

definition digit_val :: "u8 \<Rightarrow> nat" where
  "digit_val c = unat (c - ch_0)"

text \<open>\<open>isspace\<close> in the C locale: TAB, LF, VT, FF, CR and space.\<close>

definition is_cspace :: "u8 \<Rightarrow> bool" where
  "is_cspace c \<longleftrightarrow> c = 32 \<or> (9 \<le> c \<and> c \<le> 13)"

section \<open>\<open>strtoul\<close>, base 10\<close>

definition digits_val :: "u8 list \<Rightarrow> nat" where
  "digits_val ds = foldl (\<lambda>a d. 10 * a + digit_val d) 0 ds"

text \<open>
  The value and the text after it, as the C standard defines them: leading white space and one
  sign are skipped, a value out of range is \<open>ULONG_MAX\<close>, a minus sign negates in \<open>unsigned
  long\<close>, and without a digit the end pointer is the start of the text (\<^const>\<open>None\<close> here).
\<close>

definition strtoul_sign :: "cstr \<Rightarrow> bool \<times> cstr" where
  "strtoul_sign p =
     (case p of
        [] \<Rightarrow> (False, [])
      | c # q \<Rightarrow> if c = ch_minus then (True, q) else if c = ch_plus then (False, q) else (False, p))"

definition strtoul_digits :: "bool \<Rightarrow> cstr \<Rightarrow> (u64 \<times> cstr) option" where
  "strtoul_digits neg q =
     (let ds = takeWhile is_digit q; n = digits_val ds
      in if ds = [] then None
         else Some (if n \<ge> 2 ^ 64 then - 1 else if neg then - of_nat n else of_nat n,
                    dropWhile is_digit q))"

definition strtoul10 :: "cstr \<Rightarrow> (u64 \<times> cstr) option" where
  "strtoul10 s = (case strtoul_sign (dropWhile is_cspace s) of (neg, q) \<Rightarrow> strtoul_digits neg q)"

lemma strtoul_sign_shorter: "length (snd (strtoul_sign p)) \<le> length p"
  by (auto simp: strtoul_sign_def split: list.splits)

lemma strtoul_digits_shorter: "strtoul_digits neg q = Some (v, e) \<Longrightarrow> length e \<le> length q"
  by (auto simp: strtoul_digits_def Let_def length_dropWhile_le split: if_splits)

lemma strtoul10_shorter: "strtoul10 s = Some (v, e) \<Longrightarrow> length e \<le> length s"
  using strtoul_sign_shorter [of "dropWhile is_cspace s"] length_dropWhile_le [of is_cspace s]
    strtoul_digits_shorter
  by (fastforce simp: strtoul10_def split: prod.splits)

section \<open>Decimal output\<close>

text \<open>The text \<open>snprintf\<close> writes for \<open>%lu\<close> and \<open>%lld\<close>.\<close>

fun dec_nat :: "nat \<Rightarrow> cstr" where
  "dec_nat n = (if n < 10 then [ch_0 + of_nat n] else dec_nat (n div 10) @ [ch_0 + of_nat (n mod 10)])"

declare dec_nat.simps [simp del]

definition dec_int :: "int \<Rightarrow> cstr" where
  "dec_int i = (if i < 0 then ch_minus # dec_nat (nat (- i)) else dec_nat (nat i))"

lemma unat_digit: "n < 10 \<Longrightarrow> unat (ch_0 + of_nat n :: u8) = 48 + n"
  by (simp add: unat_word_ariths unat_of_nat)

lemma is_digit_digit [simp]: "n < 10 \<Longrightarrow> is_digit (ch_0 + of_nat n)"
  by (simp add: is_digit_def word_le_nat_alt unat_digit)

lemma digit_val_digit [simp]: "n < 10 \<Longrightarrow> digit_val (ch_0 + of_nat n) = n"
  by (simp add: digit_val_def unat_of_nat)

lemma dec_nat_digits: "list_all is_digit (dec_nat n)"
proof (induction n rule: dec_nat.induct)
  case (1 n)
  then show ?case by (cases "n < 10") (simp_all add: dec_nat.simps [of n])
qed

lemma dec_nat_nonempty [simp]: "dec_nat n \<noteq> []"
  by (simp add: dec_nat.simps [of n])

lemma digits_val_snoc [simp]: "digits_val (ds @ [d]) = 10 * digits_val ds + digit_val d"
  by (simp add: digits_val_def)

lemma digits_val_dec_nat [simp]: "digits_val (dec_nat n) = n"
proof (induction n rule: dec_nat.induct)
  case (1 n)
  show ?case
  proof (cases "n < 10")
    case True
    then show ?thesis by (simp add: dec_nat.simps [of n] digits_val_def)
  next
    case False
    with 1 show ?thesis by (simp add: dec_nat.simps [of n])
  qed
qed

lemma digit_class: "is_digit c \<Longrightarrow> \<not> is_cspace c \<and> c \<noteq> ch_plus \<and> c \<noteq> ch_minus \<and> c \<noteq> ch_colon \<and> c \<noteq> ch_semi \<and> c \<noteq> 0"
  by (auto simp: is_digit_def is_cspace_def word_le_nat_alt)

text \<open>Reading back a printed number.\<close>

lemma takeWhile_digits: "list_all is_digit ds \<Longrightarrow> \<not> is_digit c \<Longrightarrow>
   takeWhile is_digit (ds @ c # q) = ds \<and> dropWhile is_digit (ds @ c # q) = c # q"
  by (induction ds) auto

lemma strtoul10_dec_nat:
  assumes "n < 2 ^ 64" "\<not> is_digit c"
  shows "strtoul10 (dec_nat n @ c # q) = Some (of_nat n, c # q)"
proof -
  obtain d ds where d: "dec_nat n = d # ds" by (cases "dec_nat n") auto
  then have "is_digit d" using dec_nat_digits [of n] by simp
  then have "strtoul_sign (dropWhile is_cspace (dec_nat n @ c # q)) = (False, dec_nat n @ c # q)"
    using digit_class [of d] d by (simp add: strtoul_sign_def)
  moreover have "takeWhile is_digit (dec_nat n @ c # q) = dec_nat n"
      "dropWhile is_digit (dec_nat n @ c # q) = c # q"
    using takeWhile_digits [OF dec_nat_digits assms(2)] by blast+
  ultimately show ?thesis using assms(1) by (simp add: strtoul10_def strtoul_digits_def Let_def)
qed

section \<open>Comparing text\<close>

text \<open>\<open>strncmp (a, b, n) == 0\<close> on memory contents: equal up to \<open>n\<close> bytes or a common NUL.\<close>

fun strncmp_eq :: "nat \<Rightarrow> u8 list \<Rightarrow> u8 list \<Rightarrow> bool" where
  "strncmp_eq (Suc n) (x # xs) (y # ys) \<longleftrightarrow> x = y \<and> (x = 0 \<or> strncmp_eq n xs ys)"
| "strncmp_eq 0 xs ys \<longleftrightarrow> True"
| "strncmp_eq (Suc n) _ _ \<longleftrightarrow> False"

text \<open>The C string at the start of a memory area, and \<open>strnlen\<close> of it.\<close>

definition cstr_at :: "u8 list \<Rightarrow> cstr" where
  "cstr_at m = takeWhile (\<lambda>b. b \<noteq> 0) m"

end
