(* ===== verification/Shared_Schema.thy ===== *)
theory Shared_Schema
  imports C_Text
begin

text \<open>
  The column schema of the shared tables (\<open>zt_col\<close>, \<open>zt_align8\<close> and \<open>zt_parse_schema\<close> of
  \<open>crt-transition/zanstubs.c\<close>). A schema text such as \<open>i:hits;s:16:who;\<close> is parsed into columns
  with their byte offsets in a row; the layout it yields is shown to be sound (aligned, disjoint,
  inside the stride, with distinct names), and every printable list of columns is shown to parse
  back.
\<close>

section \<open>Columns\<close>

definition ZT_MAX_COLUMNS :: nat where "ZT_MAX_COLUMNS = 32"
definition ZT_MAX_STRING :: nat where "ZT_MAX_STRING = 65536"
definition ZT_MAX_CAPACITY :: int where "ZT_MAX_CAPACITY = 2 ^ 20"

text \<open>Column types are 0 (int), 1 (float) and 2 (string), as in the source.\<close>

record zt_col =
  col_name :: cstr
  col_type :: nat
  col_size :: nat
  col_offset :: nat

definition zt_align8 :: "nat \<Rightarrow> nat" where
  "zt_align8 v = nat ((int v + 7) AND NOT 7)"

text \<open>The type and size at the head of a column: its type code, its size and the text after it.\<close>

definition zt_parse_type :: "cstr \<Rightarrow> (nat \<times> nat \<times> cstr) option" where
  "zt_parse_type p =
     (case p of
        t # c # q \<Rightarrow>
          if t = ch_i then (if c = ch_colon then Some (0, 8, q) else None)
          else if t = ch_f then (if c = ch_colon then Some (1, 8, q) else None)
          else if t = ch_s then
            (if c \<noteq> ch_colon then None
             else case strtoul10 q of
               None \<Rightarrow> None
             | Some (parsed, e) \<Rightarrow>
                 (case e of
                    [] \<Rightarrow> None
                  | x # e' \<Rightarrow>
                      if x \<noteq> ch_colon \<or> parsed = 0 \<or> parsed > of_nat ZT_MAX_STRING then None
                      else Some (2, unat parsed + 1, e')))
          else None
      | _ \<Rightarrow> None)"

text \<open>The loop of \<open>zt_parse_schema\<close>: the columns so far and the running offset.\<close>

function zt_parse_loop :: "cstr \<Rightarrow> zt_col list \<Rightarrow> nat \<Rightarrow> (zt_col list \<times> nat) option" where
  "zt_parse_loop p cols offset =
     (if p = [] then Some (cols, offset)
      else if length cols \<ge> ZT_MAX_COLUMNS then None
      else case zt_parse_type p of
        None \<Rightarrow> None
      | Some (ty, sz, p') \<Rightarrow>
          let name = takeWhile (\<lambda>c. c \<noteq> ch_semi) p'; rest = dropWhile (\<lambda>c. c \<noteq> ch_semi) p'
          in if rest = [] \<or> name = [] \<or> length name \<ge> 64 then None
             else if \<exists>c \<in> set cols. col_name c = name then None
             else let off = (if ty = 0 \<or> ty = 1 then zt_align8 offset else offset)
                  in zt_parse_loop (tl rest)
                       (cols @ [\<lparr>col_name = name, col_type = ty, col_size = sz, col_offset = off\<rparr>])
                       (off + sz))"
  by pat_completeness auto

lemma zt_parse_type_shorter: "zt_parse_type p = Some (ty, sz, q) \<Longrightarrow> length q < length p"
  by (auto simp: zt_parse_type_def split: list.splits if_splits option.splits
      dest!: strtoul10_shorter)

termination zt_parse_loop
proof (relation "measure (\<lambda>(p, cols, offset). length p)", goal_cases)
  case 1
  then show ?case by simp
next
  case (2 p cols offset x ty y sz p' name rest off)
  have "length (tl rest) \<le> length p'"
    using 2 length_dropWhile_le [of "\<lambda>c. c \<noteq> ch_semi" p'] by auto
  then show ?case
    using 2 zt_parse_type_shorter [of p ty sz p'] by simp
qed

declare zt_parse_loop.simps [simp del]

definition zt_parse_schema :: "cstr option \<Rightarrow> (zt_col list \<times> nat) option" where
  "zt_parse_schema schema =
     (case schema of
        None \<Rightarrow> None
      | Some s \<Rightarrow> if s = [] then None else zt_parse_loop s [] 0)"

section \<open>Soundness of the layout\<close>

lemma zt_align8_eq: "zt_align8 v = (v + 7) div 8 * 8"
proof -
  have "(int v + 7) AND NOT 7 = (int v + 7) div 8 * 8"
  proof -
    have "(int v + 7) AND NOT (mask 3) = push_bit 3 (drop_bit 3 (int v + 7))"
      by (rule bit_eqI) (auto simp: bit_simps)
    then show ?thesis by (simp add: mask_eq_exp_minus_1 push_bit_eq_mult drop_bit_eq_div)
  qed
  then show ?thesis unfolding zt_align8_def by (simp add: nat_mult_distrib nat_div_distrib nat_add_distrib)
qed

lemma zt_align8_ge: "v \<le> zt_align8 v"
  unfolding zt_align8_eq by presburger

lemma zt_align8_dvd: "8 dvd zt_align8 v"
  unfolding zt_align8_eq by simp

lemma zt_align8_less: "zt_align8 v < v + 8"
  unfolding zt_align8_eq by presburger

text \<open>What a parsed schema promises about its columns and the stride of a row.\<close>

definition zt_col_ok :: "nat \<Rightarrow> zt_col \<Rightarrow> bool" where
  "zt_col_ok stride c \<longleftrightarrow>
     (col_type c \<le> 1 \<and> col_size c = 8 \<and> 8 dvd col_offset c \<or>
      col_type c = 2 \<and> 2 \<le> col_size c \<and> col_size c \<le> ZT_MAX_STRING + 1) \<and>
     col_offset c + col_size c \<le> stride \<and>
     0 < length (col_name c) \<and> length (col_name c) < 64 \<and> ch_semi \<notin> set (col_name c)"

definition zt_layout_ok :: "zt_col list \<Rightarrow> nat \<Rightarrow> bool" where
  "zt_layout_ok cols stride \<longleftrightarrow>
     length cols \<le> ZT_MAX_COLUMNS \<and> (\<forall>c \<in> set cols. zt_col_ok stride c) \<and>
     distinct (map col_name cols) \<and>
     sorted_wrt (\<lambda>a b. col_offset a + col_size a \<le> col_offset b) cols"

lemma zt_parse_type_ok:
  assumes "zt_parse_type p = Some (ty, sz, q)"
  shows "ty \<le> 1 \<and> sz = 8 \<or> ty = 2 \<and> 2 \<le> sz \<and> sz \<le> ZT_MAX_STRING + 1"
  using assms
  by (auto simp: zt_parse_type_def ZT_MAX_STRING_def word_less_nat_alt not_less Suc_le_eq unat_gt_0
      split: list.splits if_splits option.splits)

lemma zt_layout_ok_snoc:
  assumes "zt_layout_ok cols offset" "length cols < ZT_MAX_COLUMNS"
    and "offset \<le> col_offset c" "zt_col_ok stride c"
    and "col_name c \<notin> col_name ` set cols" "stride = col_offset c + col_size c"
  shows "zt_layout_ok (cols @ [c]) stride"
  using assms by (fastforce simp: zt_layout_ok_def zt_col_ok_def sorted_wrt_append)

lemma zt_parse_loop_layout:
  "zt_parse_loop p cols offset = Some (cols', stride) \<Longrightarrow> zt_layout_ok cols offset \<Longrightarrow>
   zt_layout_ok cols' stride \<and> offset \<le> stride \<and> (p \<noteq> [] \<longrightarrow> cols' \<noteq> [])"
proof (induction p cols offset rule: zt_parse_loop.induct)
  case (1 p cols offset)
  show ?case
  proof (cases "p = []")
    case True
    with "1.prems" show ?thesis by (simp add: zt_parse_loop.simps [of "[]"])
  next
    case False
    with "1.prems" obtain ty sz p' where t: "length cols < ZT_MAX_COLUMNS"
        "zt_parse_type p = Some (ty, sz, p')"
      by (auto simp: zt_parse_loop.simps [of p] split: if_splits option.splits)
    let ?name = "takeWhile (\<lambda>c. c \<noteq> ch_semi) p'" and ?rest = "dropWhile (\<lambda>c. c \<noteq> ch_semi) p'"
    let ?off = "if ty = 0 \<or> ty = 1 then zt_align8 offset else offset"
    let ?c = "\<lparr>col_name = ?name, col_type = ty, col_size = sz, col_offset = ?off\<rparr>"
    from "1.prems"(1) False t
    have g: "?rest \<noteq> []" "?name \<noteq> []" "length ?name < 64" "\<not> (\<exists>c \<in> set cols. col_name c = ?name)"
        "zt_parse_loop (tl ?rest) (cols @ [?c]) (?off + sz) = Some (cols', stride)"
      by (auto simp: zt_parse_loop.simps [of p] Let_def split: if_splits)
    have "zt_col_ok (?off + sz) ?c"
      using zt_parse_type_ok [OF t(2)] g(2,3) zt_align8_dvd
      by (auto simp: zt_col_ok_def dest: set_takeWhileD)
    then have "zt_layout_ok (cols @ [?c]) (?off + sz)"
      using "1.prems"(2) t(1) g(4) zt_align8_ge
      by (intro zt_layout_ok_snoc [of cols offset]) auto
    moreover have "offset \<le> ?off" using zt_align8_ge by simp
    ultimately show ?thesis
      using "1.IH" [OF False _ t(2) refl refl refl refl _ _ refl] t(1) g
      by (cases "tl ?rest = []")
        (auto simp: zt_parse_loop.simps [of "[]"] simp del: dropWhile_eq_Nil_conv)
  qed
qed

section \<open>Printed schemas parse back\<close>

datatype zt_spec = IntCol cstr | FloatCol cstr | StringCol nat cstr

fun zt_spec_name :: "zt_spec \<Rightarrow> cstr" where
  "zt_spec_name (IntCol name) = name"
| "zt_spec_name (FloatCol name) = name"
| "zt_spec_name (StringCol n name) = name"

fun zt_spec_type :: "zt_spec \<Rightarrow> nat" where
  "zt_spec_type (IntCol name) = 0"
| "zt_spec_type (FloatCol name) = 1"
| "zt_spec_type (StringCol n name) = 2"

fun zt_spec_size :: "zt_spec \<Rightarrow> nat" where
  "zt_spec_size (StringCol n name) = n + 1"
| "zt_spec_size _ = 8"

fun zt_spec_ok :: "zt_spec \<Rightarrow> bool" where
  "zt_spec_ok s \<longleftrightarrow>
     zt_spec_name s \<noteq> [] \<and> length (zt_spec_name s) < 64 \<and> ch_semi \<notin> set (zt_spec_name s) \<and>
     2 \<le> zt_spec_size s \<and> zt_spec_size s \<le> ZT_MAX_STRING + 1"

fun zt_render_head :: "zt_spec \<Rightarrow> cstr" where
  "zt_render_head (IntCol name) = [ch_i, ch_colon]"
| "zt_render_head (FloatCol name) = [ch_f, ch_colon]"
| "zt_render_head (StringCol n name) = ch_s # ch_colon # dec_nat n @ [ch_colon]"

definition zt_render :: "zt_spec list \<Rightarrow> cstr" where
  "zt_render specs = concat (map (\<lambda>s. zt_render_head s @ zt_spec_name s @ [ch_semi]) specs)"

fun zt_columns :: "zt_spec list \<Rightarrow> nat \<Rightarrow> zt_col list \<times> nat" where
  "zt_columns [] offset = ([], offset)"
| "zt_columns (s # specs) offset =
     (let off = (if zt_spec_type s = 0 \<or> zt_spec_type s = 1 then zt_align8 offset else offset);
          (cols, stride) = zt_columns specs (off + zt_spec_size s)
      in (\<lparr>col_name = zt_spec_name s, col_type = zt_spec_type s, col_size = zt_spec_size s,
           col_offset = off\<rparr> # cols, stride))"

lemma not_digit_colon: "\<not> is_digit ch_colon"
  by (simp add: is_digit_def word_le_nat_alt)

lemma zt_parse_type_render:
  assumes "zt_spec_ok s"
  shows "zt_parse_type (zt_render_head s @ q) = Some (zt_spec_type s, zt_spec_size s, q)"
proof (cases s)
  case (StringCol n name)
  with assms have n: "0 < n" "n \<le> 65536" by (auto simp: ZT_MAX_STRING_def)
  then have "strtoul10 (dec_nat n @ ch_colon # q) = Some (of_nat n, ch_colon # q)"
    by (intro strtoul10_dec_nat) (simp_all add: not_digit_colon)
  moreover have "(of_nat n :: u64) \<noteq> 0" "unat (of_nat n :: u64) = n"
    using n by (auto simp: unat_of_nat word_of_nat_eq_0_iff dest: nat_dvd_not_less)
  ultimately show ?thesis
    using StringCol n by (simp add: zt_parse_type_def ZT_MAX_STRING_def word_less_nat_alt)
qed (simp_all add: zt_parse_type_def)

lemma take_name: "x \<notin> set name \<Longrightarrow>
   takeWhile (\<lambda>c. c \<noteq> x) (name @ x # q) = name \<and> dropWhile (\<lambda>c. c \<noteq> x) (name @ x # q) = x # q"
  by (induction name) auto

lemma zt_parse_loop_render:
  "\<forall>s \<in> set specs. zt_spec_ok s \<Longrightarrow> distinct (map col_name cols @ map zt_spec_name specs) \<Longrightarrow>
   length cols + length specs \<le> ZT_MAX_COLUMNS \<Longrightarrow>
   zt_parse_loop (zt_render specs) cols offset =
     Some (cols @ fst (zt_columns specs offset), snd (zt_columns specs offset))"
proof (induction specs arbitrary: cols offset)
  case Nil
  then show ?case by (simp add: zt_render_def zt_parse_loop.simps [of "[]"])
next
  case (Cons s specs)
  let ?off = "if zt_spec_type s = 0 \<or> zt_spec_type s = 1 then zt_align8 offset else offset"
  let ?c = "\<lparr>col_name = zt_spec_name s, col_type = zt_spec_type s, col_size = zt_spec_size s,
    col_offset = ?off\<rparr>"
  let ?p' = "zt_spec_name s @ ch_semi # zt_render specs"
  have r: "zt_render (s # specs) = zt_render_head s @ ?p'" by (simp add: zt_render_def)
  have ne: "zt_render_head s @ ?p' \<noteq> []" by simp
  have ok: "zt_spec_ok s" using Cons.prems(1) by simp
  then have semi: "ch_semi \<notin> set (zt_spec_name s)" by simp
  have fresh: "\<not> (\<exists>c \<in> set cols. col_name c = zt_spec_name s)" using Cons.prems(2) by force
  have step: "zt_parse_loop (zt_render (s # specs)) cols offset =
      zt_parse_loop (zt_render specs) (cols @ [?c]) (?off + zt_spec_size s)"
    unfolding r using zt_parse_type_render [OF ok] take_name [OF semi] ok fresh Cons.prems(3)
    by (subst zt_parse_loop.simps) (auto simp: Let_def)
  show ?case
    unfolding step using Cons.prems
    by (subst Cons.IH) (auto simp: Let_def split: prod.splits)
qed

section \<open>Properties\<close>

text \<open>
  C2. A schema that parses gives at least one column and a sound layout: at most 32 columns
  with distinct names, int and float columns 8 bytes wide at offsets divisible by 8, string
  columns of 2 to 65537 bytes (NUL included), every column inside the stride and no two of them
  overlapping.
\<close>

theorem zt_parse_schema_layout:
  assumes "zt_parse_schema schema = Some (cols, stride)"
  shows "cols \<noteq> [] \<and> zt_layout_ok cols stride"
proof -
  have "zt_layout_ok [] 0" by (simp add: zt_layout_ok_def)
  with assms show ?thesis
    by (auto simp: zt_parse_schema_def split: option.splits if_splits dest!: zt_parse_loop_layout)
qed

definition demo_schema :: cstr where
  "demo_schema = [105, 58, 104, 59, 115, 58, 51, 58, 119, 59, 102, 58, 120, 59]"

definition demo_specs :: "zt_spec list" where
  "demo_specs = [IntCol [104], StringCol 3 [119], FloatCol [120]]"

lemma demo_render: "zt_render demo_specs = demo_schema"
  by code_simp

lemma demo_schema_parse:
  "zt_parse_schema (Some demo_schema) = Some
     ([\<lparr>col_name = [104], col_type = 0, col_size = 8, col_offset = 0\<rparr>,
       \<lparr>col_name = [119], col_type = 2, col_size = 4, col_offset = 8\<rparr>,
       \<lparr>col_name = [120], col_type = 1, col_size = 8, col_offset = 16\<rparr>], 24)"
proof -
  have "zt_parse_loop demo_schema [] 0 = Some (zt_columns demo_specs 0)"
    using zt_parse_loop_render [of demo_specs "[]" 0]
    by (simp add: demo_render) (simp add: demo_specs_def ZT_MAX_COLUMNS_def ZT_MAX_STRING_def)
  moreover have "demo_schema \<noteq> []" by (simp add: demo_schema_def)
  ultimately show ?thesis
    by (simp add: zt_parse_schema_def demo_specs_def zt_align8_eq)
qed

theorem zt_parse_schema_layout_witness:
  "\<exists>cols stride. zt_parse_schema (Some demo_schema) = Some (cols, stride) \<and> length cols = 3 \<and>
     stride = 24 \<and> zt_layout_ok cols stride"
  using zt_parse_schema_layout [OF demo_schema_parse] demo_schema_parse by auto

text \<open>
  C3. The parser accepts every schema it could be meant to accept: the printed form of any
  non-empty list of at most 32 columns, with distinct names of 1 to 63 characters without a
  semicolon and string widths from 1 to 65536, parses to exactly these columns, laid out in
  order.
\<close>

theorem zt_schema_roundtrip:
  assumes "specs \<noteq> []" "length specs \<le> ZT_MAX_COLUMNS" "\<forall>s \<in> set specs. zt_spec_ok s"
    and "distinct (map zt_spec_name specs)"
  shows "zt_parse_schema (Some (zt_render specs)) = Some (zt_columns specs 0)"
proof -
  have "zt_render specs \<noteq> []" using assms(1) by (cases specs) (auto simp: zt_render_def)
  then show ?thesis
    using zt_parse_loop_render [of specs "[]" 0] assms by (simp add: zt_parse_schema_def)
qed

theorem zt_schema_roundtrip_witness:
  "zt_parse_schema (Some (zt_render demo_specs)) = Some (zt_columns demo_specs 0) \<and>
   length (fst (zt_columns demo_specs 0)) = 3"
  using zt_schema_roundtrip [of demo_specs]
  by (simp add: demo_specs_def ZT_MAX_COLUMNS_def ZT_MAX_STRING_def Let_def zt_align8_eq)

end
