(* ===== verification/Shared_Table.thy ===== *)
theory Shared_Table
  imports Shared_Schema
begin

text \<open>
  The in-process shared table of \<open>crt-transition/zanstubs.c\<close> (\<open>zt_row\<close>, \<open>zt_table\<close> and the
  \<open>zan_shared_table_*\<close> row operations). Rows are a linked list whose deleted and expired rows
  stay as tombstones; row data are raw bytes, read and written at the column offsets. Every
  operation runs under the table's mutex and is one atomic step. The environment of an operation
  is the wall clock \<open>now\<close> (milliseconds, \<open>zt_wall_now\<close>) and whether its allocations succeed.
\<close>

section \<open>State\<close>

record zt_row =
  row_hash :: u64
  row_key :: cstr
  row_alive :: bool
  row_expires :: i64
  row_data :: "u8 list"

text \<open>\<open>tab_rows\<close> is the list reached from \<open>t->rows\<close> through \<open>next\<close>; \<open>tab_count\<close> is a C \<open>int\<close>.\<close>

record zt_table =
  tab_name :: "cstr option"
  tab_cap :: int
  tab_keysize :: int
  tab_cols :: "zt_col list"
  tab_stride :: nat
  tab_rows :: "zt_row list"
  tab_count :: int
  tab_linked :: bool

text \<open>FNV-1a over the key's bytes, forced away from 0; a NULL key hashes as the empty string.\<close>

definition zt_hash :: "cstr option \<Rightarrow> u64" where
  "zt_hash key =
     (let h = foldl (\<lambda>h b. (h XOR ucast b) * 1099511628211) 1469598103934665603
                (case key of None \<Rightarrow> [] | Some s \<Rightarrow> s)
      in if h \<noteq> 0 then h else 1)"

section \<open>Row search, expiry and creation\<close>

definition row_expired :: "i64 \<Rightarrow> zt_row \<Rightarrow> bool" where
  "row_expired now r \<longleftrightarrow> row_alive r \<and> row_expires r \<noteq> 0 \<and> row_expires r \<le>s now"

definition zt_purge_locked :: "zt_table \<Rightarrow> i64 \<Rightarrow> zt_table" where
  "zt_purge_locked t now =
     t\<lparr>tab_rows := map (\<lambda>r. if row_expired now r then r\<lparr>row_alive := False\<rparr> else r) (tab_rows t),
       tab_count := tab_count t - int (length (filter (row_expired now) (tab_rows t)))\<rparr>"

definition zt_find_row :: "zt_table \<Rightarrow> cstr \<Rightarrow> nat option" where
  "zt_find_row t key = first_index (\<lambda>r. row_alive r \<and> row_key r = key) (tab_rows t)"

definition zt_find_row_hash :: "zt_table \<Rightarrow> u64 \<Rightarrow> nat option" where
  "zt_find_row_hash t h = first_index (\<lambda>r. row_alive r \<and> row_hash r = h) (tab_rows t)"

text \<open>
  \<open>zt_row_for\<close>: the live row of the key, or a new one: the first tombstone is reused as it is
  (its \<open>key\<close> field is not assigned), or a row is allocated at the head of the list.
  \<open>alloc_ok\<close> stands for the three allocations of that path.
\<close>

definition zt_row_for :: "bool \<Rightarrow> zt_table \<Rightarrow> cstr \<Rightarrow> nat option \<times> zt_table" where
  "zt_row_for alloc_ok t key =
     (case zt_find_row t key of
        Some i \<Rightarrow> (Some i, t)
      | None \<Rightarrow>
          if tab_count t * 8 \<ge> tab_cap t * 7 then (None, t)
          else
            (case first_index (\<lambda>r. \<not> row_alive r) (tab_rows t) of
               Some i \<Rightarrow>
                 let r = tab_rows t ! i;
                     r' = r\<lparr>row_hash := zt_hash (Some key), row_expires := 0,
                       row_data := buf_store 0 (replicate (tab_stride t) 0) (row_data r),
                       row_alive := True\<rparr>
                 in (Some i, t\<lparr>tab_rows := (tab_rows t)[i := r'], tab_count := tab_count t + 1\<rparr>)
             | None \<Rightarrow>
                 if \<not> alloc_ok then (None, t)
                 else let r' = \<lparr>row_hash = zt_hash (Some key), row_key = key, row_alive = True,
                            row_expires = 0, row_data = replicate (max 1 (tab_stride t)) 0\<rparr>
                   in (Some 0, t\<lparr>tab_rows := r' # tab_rows t, tab_count := tab_count t + 1\<rparr>)))"

text \<open>
  The row of a key hash, created when absent under the decimal text of the hash (the code
  repeated in the \<open>_at\<close> operations); \<open>zt_row_for\<close> may hand out an existing row, whose hash is
  overwritten.
\<close>

definition set_row :: "nat \<Rightarrow> (zt_row \<Rightarrow> zt_row) \<Rightarrow> zt_table \<Rightarrow> zt_table" where
  "set_row i f t = t\<lparr>tab_rows := (tab_rows t)[i := f (tab_rows t ! i)]\<rparr>"

definition zt_row_for_hash :: "bool \<Rightarrow> zt_table \<Rightarrow> i64 \<Rightarrow> nat option \<times> zt_table" where
  "zt_row_for_hash alloc_ok t key_hash =
     (case zt_find_row_hash t key_hash of
        Some i \<Rightarrow> (Some i, t)
      | None \<Rightarrow>
          (case zt_row_for alloc_ok t (dec_int (sint key_hash)) of
             (None, t') \<Rightarrow> (None, t')
           | (Some i, t') \<Rightarrow> (Some i, set_row i (row_hash_update (\<lambda>_. key_hash)) t')))"

definition zt_find_col :: "zt_table \<Rightarrow> cstr \<Rightarrow> nat \<Rightarrow> zt_col option" where
  "zt_find_col t name ty = find (\<lambda>c. col_type c = ty \<and> col_name c = name) (tab_cols t)"

section \<open>Cells\<close>

definition cell_put :: "nat \<Rightarrow> zt_col \<Rightarrow> u8 list \<Rightarrow> zt_table \<Rightarrow> zt_table" where
  "cell_put i c bs t = set_row i (row_data_update (buf_store (col_offset c) bs)) t"

definition cell_word :: "zt_table \<Rightarrow> nat \<Rightarrow> zt_col \<Rightarrow> u64" where
  "cell_word t i c = un_le64 (buf_load (col_offset c) 8 (row_data (tab_rows t ! i)))"

definition cell_text :: "zt_table \<Rightarrow> nat \<Rightarrow> zt_col \<Rightarrow> cstr" where
  "cell_text t i c = cstr_at (buf_load (col_offset c) (col_size c - 1) (row_data (tab_rows t ! i)))"

definition row_kill :: "nat \<Rightarrow> zt_table \<Rightarrow> zt_table" where
  "row_kill i t = (set_row i (row_alive_update (\<lambda>_. False)) t)\<lparr>tab_count := tab_count t - 1\<rparr>"

section \<open>Operations by key\<close>

text \<open>
  A table handle is \<^const>\<open>None\<close> for 0; a key or text argument is \<^const>\<open>None\<close> for NULL.
  Column names are dereferenced by the code without a check, so they are plain strings. Each
  operation returns its result and the table.
\<close>

definition zt_set_word ::
    "nat \<Rightarrow> i64 \<Rightarrow> bool \<Rightarrow> zt_table option \<Rightarrow> cstr option \<Rightarrow> cstr \<Rightarrow> u64 \<Rightarrow> int \<times> zt_table option" where
  "zt_set_word ty now alloc_ok tab key column v =
     (case (tab, key) of
        (Some t, Some k) \<Rightarrow>
          let t1 = zt_purge_locked t now
          in (case zt_find_col t1 column ty of
                None \<Rightarrow> (0, Some t1)
              | Some c \<Rightarrow>
                  (case zt_row_for alloc_ok t1 k of
                     (None, t2) \<Rightarrow> (0, Some t2)
                   | (Some i, t2) \<Rightarrow> (1, Some (cell_put i c (le64 v) t2))))
      | _ \<Rightarrow> (0, tab))"

definition zt_get_word ::
    "nat \<Rightarrow> i64 \<Rightarrow> zt_table option \<Rightarrow> cstr option \<Rightarrow> cstr \<Rightarrow> u64 \<times> zt_table option" where
  "zt_get_word ty now tab key column =
     (case (tab, key) of
        (Some t, Some k) \<Rightarrow>
          let t1 = zt_purge_locked t now;
              r = (case zt_find_col t1 column ty of None \<Rightarrow> None
                   | Some c \<Rightarrow> map_option (\<lambda>i. cell_word t1 i c) (zt_find_row t1 k))
          in ((case r of None \<Rightarrow> 0 | Some v \<Rightarrow> v), Some t1)
      | _ \<Rightarrow> (0, tab))"

definition zan_shared_table_set_int ::
    "i64 \<Rightarrow> bool \<Rightarrow> zt_table option \<Rightarrow> cstr option \<Rightarrow> cstr \<Rightarrow> i64 \<Rightarrow> int \<times> zt_table option" where
  "zan_shared_table_set_int = zt_set_word 0"

definition zan_shared_table_get_int ::
    "i64 \<Rightarrow> zt_table option \<Rightarrow> cstr option \<Rightarrow> cstr \<Rightarrow> i64 \<times> zt_table option" where
  "zan_shared_table_get_int = zt_get_word 0"

text \<open>A \<open>double\<close> is its 64-bit pattern; a missing cell reads as the pattern 0, which is \<open>0.0\<close>.\<close>

definition zan_shared_table_set_float ::
    "i64 \<Rightarrow> bool \<Rightarrow> zt_table option \<Rightarrow> cstr option \<Rightarrow> cstr \<Rightarrow> u64 \<Rightarrow> int \<times> zt_table option" where
  "zan_shared_table_set_float = zt_set_word 1"

definition zan_shared_table_get_float ::
    "i64 \<Rightarrow> zt_table option \<Rightarrow> cstr option \<Rightarrow> cstr \<Rightarrow> u64 \<times> zt_table option" where
  "zan_shared_table_get_float = zt_get_word 1"

definition zan_shared_table_set_string ::
    "i64 \<Rightarrow> bool \<Rightarrow> zt_table option \<Rightarrow> cstr option \<Rightarrow> cstr \<Rightarrow> cstr option \<Rightarrow> int \<times> zt_table option" where
  "zan_shared_table_set_string now alloc_ok tab key column val =
     (case (tab, key, val) of
        (Some t, Some k, Some v) \<Rightarrow>
          let t1 = zt_purge_locked t now
          in (case zt_find_col t1 column 2 of
                None \<Rightarrow> (0, Some t1)
              | Some c \<Rightarrow>
                  if length v < col_size c then
                    (case zt_row_for alloc_ok t1 k of
                       (None, t2) \<Rightarrow> (0, Some t2)
                     | (Some i, t2) \<Rightarrow> (1, Some (cell_put i c (v @ [0]) t2)))
                  else (0, Some t1))
      | _ \<Rightarrow> (0, tab))"

text \<open>
  \<open>alloc1\<close> is the 1-byte result, without which the result is NULL; \<open>alloc2\<close> is the copy,
  without which the result stays the empty string.
\<close>

definition zan_shared_table_get_string ::
    "i64 \<Rightarrow> bool \<Rightarrow> bool \<Rightarrow> zt_table option \<Rightarrow> cstr option \<Rightarrow> cstr \<Rightarrow> cstr option \<times> zt_table option" where
  "zan_shared_table_get_string now alloc1 alloc2 tab key column =
     (if \<not> alloc1 then (None, tab)
      else case (tab, key) of
        (Some t, Some k) \<Rightarrow>
          let t1 = zt_purge_locked t now;
              r = (case zt_find_col t1 column 2 of None \<Rightarrow> None
                   | Some c \<Rightarrow> map_option (\<lambda>i. cell_text t1 i c) (zt_find_row t1 k))
          in (case r of None \<Rightarrow> (Some [], Some t1)
              | Some s \<Rightarrow> (Some (if alloc2 then s else []), Some t1))
      | _ \<Rightarrow> (Some [], tab))"

text \<open>The sum is taken modulo \<open>2 ^ 64\<close>: signed overflow of the source wraps on its targets.\<close>

definition zan_shared_table_increment ::
    "i64 \<Rightarrow> bool \<Rightarrow> zt_table option \<Rightarrow> cstr option \<Rightarrow> cstr \<Rightarrow> i64 \<Rightarrow> i64 \<times> zt_table option" where
  "zan_shared_table_increment now alloc_ok tab key column delta =
     (case (tab, key) of
        (Some t, Some k) \<Rightarrow>
          let t1 = zt_purge_locked t now
          in (case zt_find_col t1 column 0 of
                None \<Rightarrow> (0, Some t1)
              | Some c \<Rightarrow>
                  (case zt_row_for alloc_ok t1 k of
                     (None, t2) \<Rightarrow> (0, Some t2)
                   | (Some i, t2) \<Rightarrow>
                       let v = cell_word t2 i c + delta in (v, Some (cell_put i c (le64 v) t2))))
      | _ \<Rightarrow> (0, tab))"

definition zan_shared_table_expire_at ::
    "i64 \<Rightarrow> zt_table option \<Rightarrow> cstr option \<Rightarrow> i64 \<Rightarrow> int \<times> zt_table option" where
  "zan_shared_table_expire_at now tab key expires_at_ms =
     (case (tab, key) of
        (Some t, Some k) \<Rightarrow>
          if expires_at_ms <s 0 then (0, tab)
          else let t1 = zt_purge_locked t now
            in (case zt_find_row t1 k of
                  None \<Rightarrow> (0, Some t1)
                | Some i \<Rightarrow> (1, Some (set_row i (row_expires_update (\<lambda>_. expires_at_ms)) t1)))
      | _ \<Rightarrow> (0, tab))"

text \<open>\<open>now\<close> is the clock read here, \<open>now'\<close> the one read by \<open>zan_shared_table_expire_at\<close>.\<close>

definition zan_shared_table_expire ::
    "i64 \<Rightarrow> i64 \<Rightarrow> zt_table option \<Rightarrow> cstr option \<Rightarrow> i64 \<Rightarrow> int \<times> zt_table option" where
  "zan_shared_table_expire now now' tab key ttl_ms =
     (if ttl_ms <s 0 then (0, tab)
      else if sint ttl_ms > i64_max - sint now then (0, tab)
      else zan_shared_table_expire_at now' tab key (now + ttl_ms))"

definition zan_shared_table_expires_at ::
    "i64 \<Rightarrow> zt_table option \<Rightarrow> cstr option \<Rightarrow> i64 \<times> zt_table option" where
  "zan_shared_table_expires_at now tab key =
     (case (tab, key) of
        (Some t, Some k) \<Rightarrow>
          let t1 = zt_purge_locked t now
          in ((case zt_find_row t1 k of None \<Rightarrow> - 1 | Some i \<Rightarrow> row_expires (tab_rows t1 ! i)), Some t1)
      | _ \<Rightarrow> (- 1, tab))"

definition zan_shared_table_purge_expired ::
    "i64 \<Rightarrow> zt_table option \<Rightarrow> i64 \<Rightarrow> int \<times> zt_table option" where
  "zan_shared_table_purge_expired now tab now_ms =
     (case tab of
        None \<Rightarrow> (0, None)
      | Some t \<Rightarrow>
          let t1 = zt_purge_locked t (if now_ms <s 0 then now else now_ms)
          in (tab_count t - tab_count t1, Some t1))"

text \<open>The column names \<open>count\<close>, \<open>window_start\<close> and \<open>owner\<close>.\<close>

definition col_count :: cstr where "col_count = [99, 111, 117, 110, 116]"
definition col_window_start :: cstr where
  "col_window_start = [119, 105, 110, 100, 111, 119, 95, 115, 116, 97, 114, 116]"
definition col_owner :: cstr where "col_owner = [111, 119, 110, 101, 114]"

text \<open>The decision on a found row: a new window, one more call in the window, or a refusal.\<close>

definition zt_rate_row ::
    "zt_table \<Rightarrow> nat \<Rightarrow> zt_col \<Rightarrow> zt_col \<Rightarrow> i64 \<Rightarrow> i64 \<Rightarrow> i64 \<Rightarrow> int \<times> zt_table" where
  "zt_rate_row t i count_col start_col now_ms window_ms limit =
     (let count = cell_word t i count_col; start = cell_word t i start_col
      in if start \<le>s 0 \<or> window_ms \<le>s now_ms - start then
           (1, set_row i (row_expires_update (\<lambda>_. now_ms + window_ms))
                 (cell_put i start_col (le64 now_ms) (cell_put i count_col (le64 1) t)))
         else if count <s limit then (1, cell_put i count_col (le64 (count + 1)) t)
         else (0, t))"

text \<open>The critical section of \<open>zan_shared_table_rate_allow\<close>, at the instant \<open>tm\<close>.\<close>

definition zt_rate_locked ::
    "bool \<Rightarrow> zt_table \<Rightarrow> cstr \<Rightarrow> i64 \<Rightarrow> i64 \<Rightarrow> i64 \<Rightarrow> int \<times> zt_table" where
  "zt_rate_locked alloc_ok t k tm window_ms limit =
     (case (zt_find_col t col_count 0, zt_find_col t col_window_start 0) of
        (Some cc, Some sc) \<Rightarrow>
          (let t1 = zt_purge_locked t tm
           in (case (case zt_find_row t1 k of Some i \<Rightarrow> (Some i, t1)
                    | None \<Rightarrow> zt_row_for alloc_ok t1 k) of
                (None, t2) \<Rightarrow> (0, t2)
              | (Some i, t2) \<Rightarrow> zt_rate_row t2 i cc sc tm window_ms limit))
      | _ \<Rightarrow> (0, t))"

definition zan_shared_table_rate_allow ::
    "i64 \<Rightarrow> bool \<Rightarrow> zt_table option \<Rightarrow> cstr option \<Rightarrow> i64 \<Rightarrow> i64 \<Rightarrow> i64 \<Rightarrow> int \<times> zt_table option" where
  "zan_shared_table_rate_allow now alloc_ok tab key now_ms window_ms limit =
     (if limit \<le>s 0 then (1, tab)
      else case (tab, key) of
        (Some t, Some k) \<Rightarrow>
          if window_ms \<le>s 0 then (0, tab)
          else let tm = (if now_ms <s 0 then now else now_ms)
            in if sint window_ms > i64_max - sint tm then (0, tab)
               else map_prod id Some (zt_rate_locked alloc_ok t k tm window_ms limit)
      | _ \<Rightarrow> (0, tab))"

definition zan_shared_table_lock_acquire ::
    "i64 \<Rightarrow> bool \<Rightarrow> zt_table option \<Rightarrow> cstr option \<Rightarrow> i64 \<Rightarrow> i64 \<Rightarrow> i64 \<Rightarrow> int \<times> zt_table option" where
  "zan_shared_table_lock_acquire now alloc_ok tab key owner now_ms lease_ms =
     (case (tab, key) of
        (Some t, Some k) \<Rightarrow>
          if owner = 0 \<or> lease_ms \<le>s 0 then (0, tab)
          else let tm = (if now_ms <s 0 then now else now_ms)
            in if sint lease_ms > i64_max - sint tm then (0, tab)
               else (case zt_find_col t col_owner 0 of
                   None \<Rightarrow> (0, tab)
                 | Some oc \<Rightarrow>
                     (let t1 = zt_purge_locked t tm
                      in (case zt_find_row t1 k of
                           Some i \<Rightarrow> (0, Some t1)
                         | None \<Rightarrow>
                             (case zt_row_for alloc_ok t1 k of
                                (None, t2) \<Rightarrow> (0, Some t2)
                              | (Some i, t2) \<Rightarrow>
                                  (1, Some (set_row i (row_expires_update (\<lambda>_. tm + lease_ms))
                                        (cell_put i oc (le64 owner) t2)))))))
      | _ \<Rightarrow> (0, tab))"

definition zan_shared_table_lock_release ::
    "i64 \<Rightarrow> zt_table option \<Rightarrow> cstr option \<Rightarrow> i64 \<Rightarrow> int \<times> zt_table option" where
  "zan_shared_table_lock_release now tab key owner =
     (case (tab, key) of
        (Some t, Some k) \<Rightarrow>
          if owner = 0 then (0, tab)
          else (case zt_find_col t col_owner 0 of
              None \<Rightarrow> (0, tab)
            | Some oc \<Rightarrow>
                (let t1 = zt_purge_locked t now
                 in (case zt_find_row t1 k of
                      None \<Rightarrow> (0, Some t1)
                    | Some i \<Rightarrow> if cell_word t1 i oc = owner then (1, Some (row_kill i t1))
                               else (0, Some t1))))
      | _ \<Rightarrow> (0, tab))"

definition zan_shared_table_delete ::
    "i64 \<Rightarrow> zt_table option \<Rightarrow> cstr option \<Rightarrow> int \<times> zt_table option" where
  "zan_shared_table_delete now tab key =
     (case (tab, key) of
        (Some t, Some k) \<Rightarrow>
          let t1 = zt_purge_locked t now
          in (case zt_find_row t1 k of None \<Rightarrow> (0, Some t1) | Some i \<Rightarrow> (1, Some (row_kill i t1)))
      | _ \<Rightarrow> (0, tab))"

definition zan_shared_table_exists ::
    "i64 \<Rightarrow> zt_table option \<Rightarrow> cstr option \<Rightarrow> int \<times> zt_table option" where
  "zan_shared_table_exists now tab key =
     (case (tab, key) of
        (Some t, Some k) \<Rightarrow>
          let t1 = zt_purge_locked t now in ((if zt_find_row t1 k = None then 0 else 1), Some t1)
      | _ \<Rightarrow> (0, tab))"

definition zan_shared_table_count :: "i64 \<Rightarrow> zt_table option \<Rightarrow> int \<times> zt_table option" where
  "zan_shared_table_count now tab =
     (case tab of None \<Rightarrow> (0, None)
      | Some t \<Rightarrow> let t1 = zt_purge_locked t now in (tab_count t1, Some t1))"

definition zan_shared_table_clear :: "zt_table option \<Rightarrow> zt_table option" where
  "zan_shared_table_clear tab =
     map_option (\<lambda>t. t\<lparr>tab_rows := map (row_alive_update (\<lambda>_. False)) (tab_rows t),
       tab_count := 0\<rparr>) tab"

definition zan_shared_table_hash :: "cstr option \<Rightarrow> i64" where
  "zan_shared_table_hash = zt_hash"

definition zan_shared_table_stat :: "zt_table option \<Rightarrow> int \<Rightarrow> int" where
  "zan_shared_table_stat tab what =
     (case tab of None \<Rightarrow> 0
      | Some t \<Rightarrow>
          if what = 0 \<or> what = 1 then int (tab_stride t) * tab_cap t
          else if what = 2 then tab_cap t
          else if what = 3 then tab_count t
          else if what = 4 then int (tab_stride t)
          else if what = 5 then tab_keysize t
          else if what = 6 then int (length (tab_cols t))
          else 0)"

section \<open>Operations by key hash\<close>

definition zan_shared_table_set_int_at ::
    "i64 \<Rightarrow> bool \<Rightarrow> zt_table option \<Rightarrow> i64 \<Rightarrow> cstr \<Rightarrow> i64 \<Rightarrow> int \<times> zt_table option" where
  "zan_shared_table_set_int_at now alloc_ok tab key_hash column v =
     (case tab of None \<Rightarrow> (0, None)
      | Some t \<Rightarrow>
          let t1 = zt_purge_locked t now
          in (case zt_find_col t1 column 0 of
                None \<Rightarrow> (0, Some t1)
              | Some c \<Rightarrow>
                  (case zt_row_for_hash alloc_ok t1 key_hash of
                     (None, t2) \<Rightarrow> (0, Some t2)
                   | (Some i, t2) \<Rightarrow> (1, Some (cell_put i c (le64 v) t2)))))"

definition zan_shared_table_get_int_at ::
    "i64 \<Rightarrow> zt_table option \<Rightarrow> i64 \<Rightarrow> cstr \<Rightarrow> i64 \<times> zt_table option" where
  "zan_shared_table_get_int_at now tab key_hash column =
     (case tab of None \<Rightarrow> (0, None)
      | Some t \<Rightarrow>
          let t1 = zt_purge_locked t now;
              r = (case zt_find_col t1 column 0 of None \<Rightarrow> None
                   | Some c \<Rightarrow> map_option (\<lambda>i. cell_word t1 i c) (zt_find_row_hash t1 key_hash))
          in ((case r of None \<Rightarrow> 0 | Some v \<Rightarrow> v), Some t1))"

definition zan_shared_table_increment_at ::
    "i64 \<Rightarrow> bool \<Rightarrow> zt_table option \<Rightarrow> i64 \<Rightarrow> cstr \<Rightarrow> i64 \<Rightarrow> i64 \<times> zt_table option" where
  "zan_shared_table_increment_at now alloc_ok tab key_hash column delta =
     (case tab of None \<Rightarrow> (0, None)
      | Some t \<Rightarrow>
          let t1 = zt_purge_locked t now
          in (case zt_find_col t1 column 0 of
                None \<Rightarrow> (0, Some t1)
              | Some c \<Rightarrow>
                  (case zt_row_for_hash alloc_ok t1 key_hash of
                     (None, t2) \<Rightarrow> (0, Some t2)
                   | (Some i, t2) \<Rightarrow>
                       let v = cell_word t2 i c + delta in (v, Some (cell_put i c (le64 v) t2)))))"

definition zan_shared_table_extreme_at ::
    "i64 \<Rightarrow> bool \<Rightarrow> zt_table option \<Rightarrow> i64 \<Rightarrow> cstr \<Rightarrow> i64 \<Rightarrow> i64 \<Rightarrow> i64 \<times> zt_table option" where
  "zan_shared_table_extreme_at now alloc_ok tab key_hash column v keep_larger =
     (case tab of None \<Rightarrow> (0, None)
      | Some t \<Rightarrow>
          let t1 = zt_purge_locked t now
          in (case zt_find_col t1 column 0 of
                None \<Rightarrow> (0, Some t1)
              | Some c \<Rightarrow>
                  (case zt_row_for_hash alloc_ok t1 key_hash of
                     (None, t2) \<Rightarrow> (0, Some t2)
                   | (Some i, t2) \<Rightarrow>
                       let stored = cell_word t2 i c
                       in if (if keep_larger \<noteq> 0 then stored <s v else stored = 0 \<or> v <s stored)
                          then (v, Some (cell_put i c (le64 v) t2)) else (stored, Some t2))))"

definition zan_shared_table_set_string_at ::
    "i64 \<Rightarrow> bool \<Rightarrow> zt_table option \<Rightarrow> i64 \<Rightarrow> cstr \<Rightarrow> cstr option \<Rightarrow> int \<times> zt_table option" where
  "zan_shared_table_set_string_at now alloc_ok tab key_hash column val =
     (case (tab, val) of
        (Some t, Some v) \<Rightarrow>
          let t1 = zt_purge_locked t now
          in (case zt_find_col t1 column 2 of
                None \<Rightarrow> (0, Some t1)
              | Some c \<Rightarrow>
                  if length v < col_size c then
                    (case zt_row_for_hash alloc_ok t1 key_hash of
                       (None, t2) \<Rightarrow> (0, Some t2)
                     | (Some i, t2) \<Rightarrow> (1, Some (cell_put i c (v @ [0]) t2)))
                  else (0, Some t1))
      | _ \<Rightarrow> (0, tab))"

definition zan_shared_table_get_string_at ::
    "i64 \<Rightarrow> bool \<Rightarrow> bool \<Rightarrow> zt_table option \<Rightarrow> i64 \<Rightarrow> cstr \<Rightarrow> cstr option \<times> zt_table option" where
  "zan_shared_table_get_string_at now alloc1 alloc2 tab key_hash column =
     (if \<not> alloc1 then (None, tab)
      else case tab of None \<Rightarrow> (Some [], None)
      | Some t \<Rightarrow>
          let t1 = zt_purge_locked t now;
              r = (case zt_find_col t1 column 2 of None \<Rightarrow> None
                   | Some c \<Rightarrow> map_option (\<lambda>i. cell_text t1 i c) (zt_find_row_hash t1 key_hash))
          in (case r of None \<Rightarrow> (Some [], Some t1)
              | Some s \<Rightarrow> (Some (if alloc2 then s else []), Some t1)))"

definition zan_shared_table_match_at ::
    "i64 \<Rightarrow> zt_table option \<Rightarrow> i64 \<Rightarrow> cstr \<Rightarrow> cstr option \<Rightarrow> int \<times> zt_table option" where
  "zan_shared_table_match_at now tab key_hash column txt =
     (case (tab, txt) of
        (Some t, Some s) \<Rightarrow>
          let t1 = zt_purge_locked t now;
              eq = (case zt_find_col t1 column 2 of None \<Rightarrow> False
                    | Some c \<Rightarrow>
                        (case zt_find_row_hash t1 key_hash of None \<Rightarrow> False
                         | Some i \<Rightarrow> strncmp_eq (col_size c)
                             (drop (col_offset c) (row_data (tab_rows t1 ! i))) (s @ [0])))
          in ((if eq then 1 else 0), Some t1)
      | _ \<Rightarrow> (0, tab))"

definition zan_shared_table_exists_at ::
    "i64 \<Rightarrow> zt_table option \<Rightarrow> i64 \<Rightarrow> int \<times> zt_table option" where
  "zan_shared_table_exists_at now tab key_hash =
     (case tab of None \<Rightarrow> (0, None)
      | Some t \<Rightarrow>
          let t1 = zt_purge_locked t now
          in ((if zt_find_row_hash t1 key_hash = None then 0 else 1), Some t1))"

definition zan_shared_table_delete_at ::
    "i64 \<Rightarrow> zt_table option \<Rightarrow> i64 \<Rightarrow> int \<times> zt_table option" where
  "zan_shared_table_delete_at now tab key_hash =
     (case tab of None \<Rightarrow> (0, None)
      | Some t \<Rightarrow>
          let t1 = zt_purge_locked t now
          in (case zt_find_row_hash t1 key_hash of
                None \<Rightarrow> (0, Some t1) | Some i \<Rightarrow> (1, Some (row_kill i t1))))"

end
