(* ===== verification/Shared_Invariant.thy ===== *)
theory Shared_Invariant
  imports Shared_Table
begin

text \<open>
  The invariant of a shared table and its preservation by every row operation: a sound column
  layout, rows of the full stride with distinct keys (tombstones included), a count equal to the
  number of live rows, and the load bound of 7/8 of the capacity. The operations are gathered in one datatype, so that the invariant
  holds along every sequence of them.
\<close>

section \<open>The invariant\<close>

definition zt_inv :: "zt_table \<Rightarrow> bool" where
  "zt_inv t \<longleftrightarrow>
     zt_layout_ok (tab_cols t) (tab_stride t) \<and>
     0 < tab_stride t \<and> (\<forall>r \<in> set (tab_rows t). length (row_data r) = tab_stride t) \<and>
     distinct (map row_key (tab_rows t)) \<and>
     tab_count t = int (length (filter row_alive (tab_rows t))) \<and>
     0 < tab_cap t \<and> (tab_count t - 1) * 8 < tab_cap t * 7"

text \<open>\<open>t'\<close> is a later state of the same table: the invariant holds and the shape is unchanged.\<close>

definition zt_later :: "zt_table \<Rightarrow> zt_table \<Rightarrow> bool" where
  "zt_later t t' \<longleftrightarrow>
     zt_inv t' \<and> tab_cols t' = tab_cols t \<and> tab_stride t' = tab_stride t \<and>
     tab_cap t' = tab_cap t \<and> tab_name t' = tab_name t \<and> tab_keysize t' = tab_keysize t \<and>
     tab_linked t' = tab_linked t"

named_theorems zt_keep "steps that keep the invariant of a shared table"

lemma zt_later_refl: "zt_inv t \<Longrightarrow> zt_later t t"
  by (simp add: zt_later_def)

lemma zt_later_trans: "zt_later t t' \<Longrightarrow> zt_later t' t'' \<Longrightarrow> zt_later t t''"
  by (simp add: zt_later_def)

lemma zt_later_inv: "zt_later t t' \<Longrightarrow> zt_inv t'"
  by (simp add: zt_later_def)

section \<open>Searching\<close>

lemma zt_find_col_in: "zt_find_col t name ty = Some c \<Longrightarrow>
   c \<in> set (tab_cols t) \<and> col_type c = ty \<and> col_name c = name"
  by (auto simp: zt_find_col_def find_Some_iff)

lemma zt_col_bounds:
  assumes "zt_inv t" "c \<in> set (tab_cols t)"
  shows "zt_col_ok (tab_stride t) c" "col_offset c + col_size c \<le> tab_stride t"
    "col_type c \<le> 1 \<Longrightarrow> col_size c = 8"
  using assms by (auto simp: zt_inv_def zt_layout_ok_def zt_col_ok_def)

section \<open>Counting live rows\<close>

lemma length_filter_update:
  assumes "i < length xs"
  shows "int (length (filter P (xs[i := x]))) =
    int (length (filter P xs)) + (if P x then 1 else 0) - (if P (xs ! i) then 1 else 0)"
  using assms
proof (induction xs arbitrary: i)
  case Nil
  then show ?case by simp
next
  case (Cons y ys)
  show ?case
  proof (cases i)
    case 0
    then show ?thesis by simp
  next
    case (Suc n)
    with Cons.IH [of n] Cons.prems show ?thesis by auto
  qed
qed

lemma filter_purge:
  "int (length (filter row_alive (map (\<lambda>r. if row_expired now r then r\<lparr>row_alive := False\<rparr> else r) rs))) =
   int (length (filter row_alive rs)) - int (length (filter (row_expired now) rs))"
  by (induction rs) (auto simp: row_expired_def)

lemma map_key_update:
  assumes "i < length xs" "row_key x = row_key (xs ! i)"
  shows "map row_key (xs[i := x]) = map row_key xs"
proof -
  have "map row_key (xs[i := x]) = (map row_key xs)[i := map row_key xs ! i]"
    using assms by (simp add: map_update)
  then show ?thesis by simp
qed

lemma map_key_purge:
  "map row_key (map (\<lambda>r. if row_expired now r then r\<lparr>row_alive := False\<rparr> else r) rs) = map row_key rs"
  by (induction rs) auto

section \<open>Preservation by the building blocks\<close>

lemma zt_purge_later [zt_keep]: "zt_inv t \<Longrightarrow> zt_later t (zt_purge_locked t now)"
  using filter_purge [of now "tab_rows t"] map_key_purge [of now "tab_rows t"]
  by (auto simp: zt_later_def zt_inv_def zt_purge_locked_def simp del: filter_map map_map)

lemma set_row_later:
  assumes "zt_inv t" "i < length (tab_rows t)"
    and "row_alive (f (tab_rows t ! i)) = row_alive (tab_rows t ! i)"
    and "length (row_data (f (tab_rows t ! i))) = length (row_data (tab_rows t ! i))"
    and "row_key (f (tab_rows t ! i)) = row_key (tab_rows t ! i)"
  shows "zt_later t (set_row i f t)"
  using assms map_key_update [OF assms(2,5)] length_filter_update [of i "tab_rows t" row_alive "f (tab_rows t ! i)"]
  by (auto simp: zt_later_def zt_inv_def set_row_def dest!: set_update_subset_insert [THEN subsetD])

lemma set_row_expires_later [zt_keep]:
  "zt_inv t \<Longrightarrow> i < length (tab_rows t) \<Longrightarrow> zt_later t (set_row i (row_expires_update g) t)"
  by (rule set_row_later) simp_all

lemma set_row_hash_later [zt_keep]:
  "zt_inv t \<Longrightarrow> i < length (tab_rows t) \<Longrightarrow> zt_later t (set_row i (row_hash_update g) t)"
  by (rule set_row_later) simp_all

lemma cell_put_later [zt_keep]:
  assumes "zt_inv t" "i < length (tab_rows t)" "c \<in> set (tab_cols t)" "length bs \<le> col_size c"
  shows "zt_later t (cell_put i c bs t)"
proof -
  have "length (row_data (tab_rows t ! i)) = tab_stride t"
    using assms(1,2) by (auto simp: zt_inv_def)
  then have "col_offset c + length bs \<le> length (row_data (tab_rows t ! i))"
    using zt_col_bounds(2) [OF assms(1,3)] assms(4) by simp
  with assms(1,2) show ?thesis
    unfolding cell_put_def by (intro set_row_later) (simp_all add: buf_simps)
qed

lemma row_kill_later [zt_keep]:
  assumes "zt_inv t" "i < length (tab_rows t)" "row_alive (tab_rows t ! i)"
  shows "zt_later t (row_kill i t)"
  using assms map_key_update [OF assms(2), of "(tab_rows t ! i)\<lparr>row_alive := False\<rparr>"]
    length_filter_update [of i "tab_rows t" row_alive "(tab_rows t ! i)\<lparr>row_alive := False\<rparr>"]
  by (auto simp: zt_later_def zt_inv_def row_kill_def set_row_def
      dest!: set_update_subset_insert [THEN subsetD])

lemma zt_row_for_found:
  "zt_find_row t k = Some i \<Longrightarrow> i < length (tab_rows t) \<and> row_alive (tab_rows t ! i) \<and>
     row_key (tab_rows t ! i) = k"
  by (auto simp: zt_find_row_def first_index_Some)

lemma zt_row_for_later:
  assumes "zt_inv t" "zt_row_for al t k = (r, t')"
  shows "zt_later t t' \<and> (\<forall>i. r = Some i \<longrightarrow> i < length (tab_rows t') \<and> row_alive (tab_rows t' ! i))"
proof (cases "zt_find_row t k")
  case (Some i)
  with assms zt_row_for_found [of t k i] show ?thesis
    by (auto simp: zt_row_for_def zt_later_refl)
next
  case None
  show ?thesis
  proof (cases "tab_count t * 8 \<ge> tab_cap t * 7")
    case True
    with None assms show ?thesis by (auto simp: zt_row_for_def zt_later_refl)
  next
    case False
    show ?thesis
    proof (cases "first_index (\<lambda>r. \<not> row_alive r) (tab_rows t)")
      case dead: None
      with None have "k \<notin> row_key ` set (tab_rows t)"
        by (auto simp: first_index_None zt_find_row_def)
      with None False dead assms show ?thesis
        by (auto simp: zt_row_for_def zt_later_def zt_inv_def split: if_splits)
    next
      case (Some i)
      let ?r = "(tab_rows t ! i)\<lparr>row_hash := zt_hash (Some k), row_expires := 0,
        row_data := buf_store 0 (replicate (tab_stride t) 0) (row_data (tab_rows t ! i)), row_alive := True\<rparr>"
      from Some have i: "i < length (tab_rows t)" "\<not> row_alive (tab_rows t ! i)"
        by (auto simp: first_index_Some)
      have len: "length (row_data (tab_rows t ! i)) = tab_stride t"
        using assms(1) i(1) by (auto simp: zt_inv_def)
      have t': "t' = t\<lparr>tab_rows := (tab_rows t)[i := ?r], tab_count := tab_count t + 1\<rparr>" "r = Some i"
        using None False Some assms(2) by (auto simp: zt_row_for_def Let_def)
      show ?thesis
        using assms(1) False i len length_filter_update [OF i(1), of row_alive ?r]
          map_key_update [OF i(1), of ?r]
        by (auto simp: t' zt_later_def zt_inv_def buf_simps
            dest!: set_update_subset_insert [THEN subsetD])
    qed
  qed
qed

lemma zt_find_row_hash_found:
  "zt_find_row_hash t h = Some i \<Longrightarrow> i < length (tab_rows t) \<and> row_alive (tab_rows t ! i) \<and>
     row_hash (tab_rows t ! i) = h"
  by (auto simp: zt_find_row_hash_def first_index_Some)

lemma zt_row_for_hash_later:
  assumes "zt_inv t" "zt_row_for_hash al t h = (r, t')"
  shows "zt_later t t' \<and> (\<forall>i. r = Some i \<longrightarrow> i < length (tab_rows t') \<and> row_alive (tab_rows t' ! i))"
proof (cases "zt_find_row_hash t h")
  case (Some i)
  with assms zt_find_row_hash_found [of t h i] show ?thesis
    by (auto simp: zt_row_for_hash_def zt_later_refl)
next
  case None
  obtain r1 t1 where rf: "zt_row_for al t (dec_int (sint h)) = (r1, t1)" by fastforce
  note k = zt_row_for_later [OF assms(1) rf]
  show ?thesis
  proof (cases r1)
    case r1: None
    with None rf k assms(2) show ?thesis by (auto simp: zt_row_for_hash_def)
  next
    case (Some i)
    with k have "zt_later t1 (set_row i (row_hash_update (\<lambda>_. h)) t1)"
      by (intro zt_keep) (auto dest: zt_later_inv)
    with Some None rf k assms(2) show ?thesis
      by (auto simp: zt_row_for_hash_def set_row_def intro: zt_later_trans)
  qed
qed

section \<open>Preservation by the operations\<close>

definition tab_later :: "zt_table \<Rightarrow> zt_table option \<Rightarrow> bool" where
  "tab_later t tab \<longleftrightarrow> (\<exists>t'. tab = Some t' \<and> zt_later t t')"

lemma tab_later_Some [simp]: "tab_later t (Some t') \<longleftrightarrow> zt_later t t'"
  by (simp add: tab_later_def)

lemma zt_purge_cols [simp]: "tab_cols (zt_purge_locked t now) = tab_cols t"
  by (simp add: zt_purge_locked_def)

lemma zt_find_col_purge [simp]: "zt_find_col (zt_purge_locked t now) n ty = zt_find_col t n ty"
  by (simp add: zt_find_col_def)

lemma put_word_later:
  assumes "zt_inv t" "zt_find_col t n ty = Some c" "ty \<le> 1" "zt_later t t'" "i < length (tab_rows t')"
  shows "zt_later t (cell_put i c (le64 v) t')"
proof -
  have "c \<in> set (tab_cols t)" "col_type c \<le> 1"
    using zt_find_col_in [OF assms(2)] assms(3) by auto
  then have "length (le64 v) \<le> col_size c" "c \<in> set (tab_cols t')"
    using zt_col_bounds(3) [OF assms(1)] assms(4) by (auto simp: zt_later_def)
  then show ?thesis
    using assms(4,5) by (blast intro: zt_later_trans cell_put_later zt_later_inv)
qed

lemma put_text_later:
  assumes "zt_inv t" "zt_find_col t n ty = Some c" "length s < col_size c" "zt_later t t'"
    "i < length (tab_rows t')"
  shows "zt_later t (cell_put i c (s @ [0]) t')"
proof -
  have "c \<in> set (tab_cols t')"
    using zt_find_col_in [OF assms(2)] assms(4) by (auto simp: zt_later_def)
  then show ?thesis
    using assms(3-5) by (intro zt_later_trans [OF assms(4)] cell_put_later zt_later_inv [OF assms(4)]) auto
qed

lemma cell_put_length [simp]: "length (tab_rows (cell_put i c bs t)) = length (tab_rows t)"
  by (simp add: cell_put_def set_row_def)

lemma expires_later:
  "zt_later t t' \<Longrightarrow> i < length (tab_rows t') \<Longrightarrow> zt_later t (set_row i (row_expires_update g) t')"
  by (blast intro: zt_later_trans set_row_expires_later zt_later_inv)

lemma kill_found_later:
  "zt_later t t' \<Longrightarrow> zt_find_row t' k = Some i \<Longrightarrow> zt_later t (row_kill i t')"
  by (blast intro: zt_later_trans row_kill_later zt_later_inv dest: zt_row_for_found)

lemma kill_hash_later:
  "zt_later t t' \<Longrightarrow> zt_find_row_hash t' h = Some i \<Longrightarrow> zt_later t (row_kill i t')"
  by (blast intro: zt_later_trans row_kill_later zt_later_inv dest: zt_find_row_hash_found)

lemma row_for_later_trans:
  assumes "zt_later t t1" "zt_row_for al t1 k = (r, t2)"
  shows "zt_later t t2" "r = Some i \<Longrightarrow> i < length (tab_rows t2)"
  using zt_row_for_later [OF zt_later_inv [OF assms(1)] assms(2)] assms(1)
  by (auto intro: zt_later_trans)

lemma row_for_hash_later_trans:
  assumes "zt_later t t1" "zt_row_for_hash al t1 k = (r, t2)"
  shows "zt_later t t2" "r = Some i \<Longrightarrow> i < length (tab_rows t2)"
  using zt_row_for_hash_later [OF zt_later_inv [OF assms(1)] assms(2)] assms(1)
  by (auto intro: zt_later_trans)

lemmas later_rules = zt_later_refl zt_purge_later put_word_later put_text_later
  expires_later kill_found_later kill_hash_later row_for_later_trans row_for_hash_later_trans

named_theorems op_keeps "operations of a shared table keep its invariant"

lemmas purge_row_for =
  zt_purge_later [THEN row_for_later_trans(1)] zt_purge_later [THEN row_for_later_trans(2)]
  zt_purge_later [THEN row_for_hash_later_trans(1)] zt_purge_later [THEN row_for_hash_later_trans(2)]

lemma zt_set_word_keeps [op_keeps]:
  "zt_inv t \<Longrightarrow> ty \<le> 1 \<Longrightarrow> tab_later t (snd (zt_set_word ty now al (Some t) key col v))"
  by (auto simp: zt_set_word_def Let_def split: option.splits prod.splits
      intro: later_rules purge_row_for)

lemma zt_get_word_keeps [op_keeps]:
  "zt_inv t \<Longrightarrow> tab_later t (snd (zt_get_word ty now (Some t) key col))"
  by (auto simp: zt_get_word_def Let_def split: option.splits intro: later_rules)

lemma zan_shared_table_set_string_keeps [op_keeps]:
  "zt_inv t \<Longrightarrow> tab_later t (snd (zan_shared_table_set_string now al (Some t) key col v))"
  by (auto simp: zan_shared_table_set_string_def Let_def split: option.splits prod.splits
      intro: later_rules purge_row_for)

lemma zan_shared_table_get_string_keeps [op_keeps]:
  "zt_inv t \<Longrightarrow> tab_later t (snd (zan_shared_table_get_string now a1 a2 (Some t) key col))"
  by (auto simp: zan_shared_table_get_string_def Let_def split: option.splits intro: later_rules)

lemma zan_shared_table_increment_keeps [op_keeps]:
  "zt_inv t \<Longrightarrow> tab_later t (snd (zan_shared_table_increment now al (Some t) key col v))"
  by (auto simp: zan_shared_table_increment_def Let_def split: option.splits prod.splits
      intro: later_rules purge_row_for)

lemma zan_shared_table_expire_at_keeps [op_keeps]:
  "zt_inv t \<Longrightarrow> tab_later t (snd (zan_shared_table_expire_at now (Some t) key at))"
  by (auto simp: zan_shared_table_expire_at_def Let_def split: option.splits
      intro: later_rules dest: zt_row_for_found)

lemma zan_shared_table_expire_keeps [op_keeps]:
  "zt_inv t \<Longrightarrow> tab_later t (snd (zan_shared_table_expire now now' (Some t) key ttl))"
  by (simp add: zan_shared_table_expire_def op_keeps zt_later_refl)

lemma zan_shared_table_expires_at_keeps [op_keeps]:
  "zt_inv t \<Longrightarrow> tab_later t (snd (zan_shared_table_expires_at now (Some t) key))"
  by (auto simp: zan_shared_table_expires_at_def Let_def split: option.splits intro: later_rules)

lemma zan_shared_table_purge_expired_keeps [op_keeps]:
  "zt_inv t \<Longrightarrow> tab_later t (snd (zan_shared_table_purge_expired now (Some t) at))"
  by (auto simp: zan_shared_table_purge_expired_def Let_def intro: later_rules)

lemma zt_rate_row_keeps:
  assumes "zt_inv t" "zt_find_col t n 0 = Some cc" "zt_find_col t m 0 = Some sc" "zt_later t t'"
    "i < length (tab_rows t')"
  shows "zt_later t (snd (zt_rate_row t' i cc sc now w limit))"
  using assms
  by (auto simp: zt_rate_row_def Let_def intro!: expires_later put_word_later)

lemma zt_rate_locked_keeps:
  assumes "zt_inv t"
  shows "zt_later t (snd (zt_rate_locked al t k tm w limit))"
proof (cases "zt_find_col t col_count 0 = None \<or> zt_find_col t col_window_start 0 = None")
  case True
  with assms show ?thesis by (auto simp: zt_rate_locked_def zt_later_refl split: option.split)
next
  case False
  then obtain cc sc where k: "zt_find_col t col_count 0 = Some cc"
      "zt_find_col t col_window_start 0 = Some sc" by auto
  define t1 where "t1 = zt_purge_locked t tm"
  have t1: "zt_later t t1" unfolding t1_def by (rule zt_purge_later [OF assms])
  obtain r t2 where r: "(case zt_find_row t1 k of Some i \<Rightarrow> (Some i, t1)
      | None \<Rightarrow> zt_row_for al t1 k) = (r, t2)" by fastforce
  then have t2: "zt_later t t2" "\<And>i. r = Some i \<Longrightarrow> i < length (tab_rows t2)"
    using t1 by (auto split: option.splits dest: zt_row_for_found row_for_later_trans)
  have "snd (zt_rate_locked al t k tm w limit) =
      (case r of None \<Rightarrow> t2 | Some i \<Rightarrow> snd (zt_rate_row t2 i cc sc tm w limit))"
    using r by (simp add: zt_rate_locked_def k Let_def flip: t1_def split: option.split)
  then show ?thesis
    using t2 zt_rate_row_keeps [OF assms k t2(1)] by (simp split: option.split)
qed

lemma zan_shared_table_rate_allow_keeps [op_keeps]:
  "zt_inv t \<Longrightarrow> tab_later t (snd (zan_shared_table_rate_allow now al (Some t) key nm w limit))"
  using zt_rate_locked_keeps
  by (simp add: zan_shared_table_rate_allow_def Let_def zt_later_refl split: option.split)

lemma zan_shared_table_lock_acquire_keeps [op_keeps]:
  "zt_inv t \<Longrightarrow> tab_later t (snd (zan_shared_table_lock_acquire now al (Some t) key owner nm lease))"
  by (auto simp: zan_shared_table_lock_acquire_def Let_def split: option.splits prod.splits
      intro: later_rules purge_row_for intro!: expires_later)

lemma zan_shared_table_lock_release_keeps [op_keeps]:
  "zt_inv t \<Longrightarrow> tab_later t (snd (zan_shared_table_lock_release now (Some t) key owner))"
  by (auto simp: zan_shared_table_lock_release_def Let_def split: option.splits
      intro: later_rules)

lemma zan_shared_table_delete_keeps [op_keeps]:
  "zt_inv t \<Longrightarrow> tab_later t (snd (zan_shared_table_delete now (Some t) key))"
  by (auto simp: zan_shared_table_delete_def Let_def split: option.splits intro: later_rules)

lemma zan_shared_table_exists_keeps [op_keeps]:
  "zt_inv t \<Longrightarrow> tab_later t (snd (zan_shared_table_exists now (Some t) key))"
  by (auto simp: zan_shared_table_exists_def Let_def split: option.splits intro: later_rules)

lemma zan_shared_table_count_keeps [op_keeps]:
  "zt_inv t \<Longrightarrow> tab_later t (snd (zan_shared_table_count now (Some t)))"
  by (auto simp: zan_shared_table_count_def Let_def intro: later_rules)

lemma zan_shared_table_clear_keeps [op_keeps]:
  "zt_inv t \<Longrightarrow> tab_later t (zan_shared_table_clear (Some t))"
  by (auto simp: zan_shared_table_clear_def zt_later_def zt_inv_def filter_map o_def)

lemma zan_shared_table_set_int_at_keeps [op_keeps]:
  "zt_inv t \<Longrightarrow> tab_later t (snd (zan_shared_table_set_int_at now al (Some t) h col v))"
  by (auto simp: zan_shared_table_set_int_at_def Let_def split: option.splits prod.splits
      intro: later_rules purge_row_for)

lemma zan_shared_table_get_int_at_keeps [op_keeps]:
  "zt_inv t \<Longrightarrow> tab_later t (snd (zan_shared_table_get_int_at now (Some t) h col))"
  by (auto simp: zan_shared_table_get_int_at_def Let_def intro: later_rules)

lemma zan_shared_table_increment_at_keeps [op_keeps]:
  "zt_inv t \<Longrightarrow> tab_later t (snd (zan_shared_table_increment_at now al (Some t) h col v))"
  by (auto simp: zan_shared_table_increment_at_def Let_def split: option.splits prod.splits
      intro: later_rules purge_row_for)

lemma zan_shared_table_extreme_at_keeps [op_keeps]:
  "zt_inv t \<Longrightarrow> tab_later t (snd (zan_shared_table_extreme_at now al (Some t) h col v keep))"
  by (auto simp: zan_shared_table_extreme_at_def Let_def split: option.splits prod.splits
      intro: later_rules purge_row_for)

lemma zan_shared_table_set_string_at_keeps [op_keeps]:
  "zt_inv t \<Longrightarrow> tab_later t (snd (zan_shared_table_set_string_at now al (Some t) h col v))"
  by (auto simp: zan_shared_table_set_string_at_def Let_def split: option.splits prod.splits
      intro: later_rules purge_row_for)

lemma zan_shared_table_get_string_at_keeps [op_keeps]:
  "zt_inv t \<Longrightarrow> tab_later t (snd (zan_shared_table_get_string_at now a1 a2 (Some t) h col))"
  by (auto simp: zan_shared_table_get_string_at_def Let_def split: option.splits intro: later_rules)

lemma zan_shared_table_match_at_keeps [op_keeps]:
  "zt_inv t \<Longrightarrow> tab_later t (snd (zan_shared_table_match_at now (Some t) h col s))"
  by (auto simp: zan_shared_table_match_at_def Let_def split: option.splits intro: later_rules)

lemma zan_shared_table_exists_at_keeps [op_keeps]:
  "zt_inv t \<Longrightarrow> tab_later t (snd (zan_shared_table_exists_at now (Some t) h))"
  by (auto simp: zan_shared_table_exists_at_def Let_def intro: later_rules)

lemma zan_shared_table_delete_at_keeps [op_keeps]:
  "zt_inv t \<Longrightarrow> tab_later t (snd (zan_shared_table_delete_at now (Some t) h))"
  by (auto simp: zan_shared_table_delete_at_def Let_def split: option.splits intro: later_rules)

section \<open>Every operation, and every sequence of operations\<close>

text \<open>
  One constructor per operation of the table, with its environment first: the clock readings and
  the allocation outcomes.
\<close>

datatype zt_op =
  SetInt i64 bool "cstr option" cstr i64
| GetInt i64 "cstr option" cstr
| SetFloat i64 bool "cstr option" cstr u64
| GetFloat i64 "cstr option" cstr
| SetString i64 bool "cstr option" cstr "cstr option"
| GetString i64 bool bool "cstr option" cstr
| Increment i64 bool "cstr option" cstr i64
| ExpireAt i64 "cstr option" i64
| Expire i64 i64 "cstr option" i64
| ExpiresAt i64 "cstr option"
| PurgeExpired i64 i64
| RateAllow i64 bool "cstr option" i64 i64 i64
| LockAcquire i64 bool "cstr option" i64 i64 i64
| LockRelease i64 "cstr option" i64
| Delete i64 "cstr option"
| Exists i64 "cstr option"
| Count i64
| Clear
| SetIntAt i64 bool i64 cstr i64
| GetIntAt i64 i64 cstr
| IncrementAt i64 bool i64 cstr i64
| ExtremeAt i64 bool i64 cstr i64 i64
| SetStringAt i64 bool i64 cstr "cstr option"
| GetStringAt i64 bool bool i64 cstr
| MatchAt i64 i64 cstr "cstr option"
| ExistsAt i64 i64
| DeleteAt i64 i64

fun zt_apply :: "zt_op \<Rightarrow> zt_table option \<Rightarrow> zt_table option" where
  "zt_apply (SetInt now al k c v) tab = snd (zan_shared_table_set_int now al tab k c v)"
| "zt_apply (GetInt now k c) tab = snd (zan_shared_table_get_int now tab k c)"
| "zt_apply (SetFloat now al k c v) tab = snd (zan_shared_table_set_float now al tab k c v)"
| "zt_apply (GetFloat now k c) tab = snd (zan_shared_table_get_float now tab k c)"
| "zt_apply (SetString now al k c v) tab = snd (zan_shared_table_set_string now al tab k c v)"
| "zt_apply (GetString now a1 a2 k c) tab = snd (zan_shared_table_get_string now a1 a2 tab k c)"
| "zt_apply (Increment now al k c d) tab = snd (zan_shared_table_increment now al tab k c d)"
| "zt_apply (ExpireAt now k e) tab = snd (zan_shared_table_expire_at now tab k e)"
| "zt_apply (Expire now now' k ttl) tab = snd (zan_shared_table_expire now now' tab k ttl)"
| "zt_apply (ExpiresAt now k) tab = snd (zan_shared_table_expires_at now tab k)"
| "zt_apply (PurgeExpired now nm) tab = snd (zan_shared_table_purge_expired now tab nm)"
| "zt_apply (RateAllow now al k nm w l) tab = snd (zan_shared_table_rate_allow now al tab k nm w l)"
| "zt_apply (LockAcquire now al k ow nm l) tab = snd (zan_shared_table_lock_acquire now al tab k ow nm l)"
| "zt_apply (LockRelease now k ow) tab = snd (zan_shared_table_lock_release now tab k ow)"
| "zt_apply (Delete now k) tab = snd (zan_shared_table_delete now tab k)"
| "zt_apply (Exists now k) tab = snd (zan_shared_table_exists now tab k)"
| "zt_apply (Count now) tab = snd (zan_shared_table_count now tab)"
| "zt_apply Clear tab = zan_shared_table_clear tab"
| "zt_apply (SetIntAt now al h c v) tab = snd (zan_shared_table_set_int_at now al tab h c v)"
| "zt_apply (GetIntAt now h c) tab = snd (zan_shared_table_get_int_at now tab h c)"
| "zt_apply (IncrementAt now al h c d) tab = snd (zan_shared_table_increment_at now al tab h c d)"
| "zt_apply (ExtremeAt now al h c v k) tab = snd (zan_shared_table_extreme_at now al tab h c v k)"
| "zt_apply (SetStringAt now al h c v) tab = snd (zan_shared_table_set_string_at now al tab h c v)"
| "zt_apply (GetStringAt now a1 a2 h c) tab = snd (zan_shared_table_get_string_at now a1 a2 tab h c)"
| "zt_apply (MatchAt now h c s) tab = snd (zan_shared_table_match_at now tab h c s)"
| "zt_apply (ExistsAt now h) tab = snd (zan_shared_table_exists_at now tab h)"
| "zt_apply (DeleteAt now h) tab = snd (zan_shared_table_delete_at now tab h)"

lemma zt_apply_keeps: "zt_inv t \<Longrightarrow> tab_later t (zt_apply op (Some t))"
  by (cases op) (simp_all add: op_keeps zan_shared_table_set_int_def zan_shared_table_get_int_def
      zan_shared_table_set_float_def zan_shared_table_get_float_def del: tab_later_Some)

definition zt_run :: "zt_op list \<Rightarrow> zt_table option \<Rightarrow> zt_table option" where
  "zt_run ops tab = fold zt_apply ops tab"

lemma zt_run_keeps: "zt_inv t \<Longrightarrow> tab_later t (zt_run ops (Some t))"
proof (induction ops arbitrary: t)
  case Nil
  then show ?case by (simp add: zt_run_def zt_later_refl)
next
  case (Cons op ops)
  obtain t1 where t1: "zt_apply op (Some t) = Some t1" "zt_later t t1"
    using zt_apply_keeps [OF Cons.prems, of op] by (auto simp: tab_later_def)
  then have "tab_later t1 (zt_run ops (Some t1))"
    by (intro Cons.IH zt_later_inv)
  with t1 show ?case
    by (auto simp: zt_run_def tab_later_def intro: zt_later_trans)
qed

end
