(* ===== verification/Shared_Registry.thy ===== *)
theory Shared_Registry
  imports Shared_Invariant
begin

text \<open>
  Creation, lookup and removal of shared tables in \<open>crt-transition/zanstubs.c\<close>
  (\<open>zt_registry\<close>, \<open>zt_anon_reg\<close>, \<open>zan_shared_table_create\<close> to \<open>zan_shared_table_destroy\<close>).
  Tables are never freed once published, so the heap of tables is a list and a handle (the
  table's address) is its position plus one; 0 is the null handle. The allocations of an
  operation succeed or fail by its boolean arguments.
\<close>

section \<open>State\<close>

record zt_world =
  zt_heap :: "zt_table list"
  zt_registry :: "nat list"
  zt_anon_reg :: "nat list"

definition zt_registry_max :: nat where "zt_registry_max = 64"
definition zt_anon_max :: nat where "zt_anon_max = 256"

definition zt_start :: zt_world where
  "zt_start = \<lparr>zt_heap = [], zt_registry = [], zt_anon_reg = []\<rparr>"

text \<open>The table of a handle: none for 0. Other addresses are not dereferenced by correct callers.\<close>

definition zt_deref :: "zt_world \<Rightarrow> nat \<Rightarrow> zt_table option" where
  "zt_deref w h = (if h = 0 \<or> length (zt_heap w) < h then None else Some (zt_heap w ! (h - 1)))"

section \<open>Operations\<close>

definition zt_new_table :: "bool \<Rightarrow> bool \<Rightarrow> cstr option \<Rightarrow> int \<Rightarrow> int \<Rightarrow> zt_table option" where
  "zt_new_table alloc dup name cap keysize =
     (if \<not> alloc then None
      else if name \<noteq> None \<and> \<not> dup then None
      else Some \<lparr>tab_name = name, tab_cap = cap, tab_keysize = keysize, tab_cols = [],
             tab_stride = 0, tab_rows = [], tab_count = 0, tab_linked = False\<rparr>)"

text \<open>Whether the \<open>i\<close>-th registered table is open under the name.\<close>

definition zt_open_as :: "zt_world \<Rightarrow> cstr \<Rightarrow> nat \<Rightarrow> bool" where
  "zt_open_as w name h =
     (case zt_deref w h of None \<Rightarrow> False | Some t \<Rightarrow> tab_linked t \<and> tab_name t = Some name)"

definition zan_shared_table_create ::
    "bool \<Rightarrow> bool \<Rightarrow> zt_world \<Rightarrow> cstr option \<Rightarrow> int \<Rightarrow> int \<Rightarrow> cstr option \<Rightarrow> nat \<times> zt_world" where
  "zan_shared_table_create alloc dup w name cap keysize schema =
     (case name of
        None \<Rightarrow> (0, w)
      | Some n \<Rightarrow>
          if n = [] \<or> cap \<le> 0 \<or> cap > ZT_MAX_CAPACITY \<or> keysize \<le> 0 \<or> keysize > 4096 then (0, w)
          else (case zt_new_table alloc dup name cap keysize of
              None \<Rightarrow> (0, w)
            | Some t \<Rightarrow>
                (case zt_parse_schema schema of
                   None \<Rightarrow> (0, w)
                 | Some (cols, stride) \<Rightarrow>
                     if \<not> list_ex (zt_open_as w n) (zt_registry w) \<and>
                        length (zt_registry w) < zt_registry_max
                     then let h = length (zt_heap w) + 1
                       in (h, w\<lparr>zt_heap := zt_heap w @
                                [t\<lparr>tab_cols := cols, tab_stride := stride, tab_linked := True\<rparr>],
                              zt_registry := zt_registry w @ [h]\<rparr>)
                     else (0, w))))"

definition zt_anon_lookup :: "zt_world \<Rightarrow> nat \<Rightarrow> nat option" where
  "zt_anon_lookup w h = (if h = 0 then None else if h \<in> set (zt_anon_reg w) then Some h else None)"

text \<open>A table that finds the anonymous register full is returned all the same.\<close>

definition zan_shared_table_create_anon ::
    "bool \<Rightarrow> zt_world \<Rightarrow> int \<Rightarrow> int \<Rightarrow> cstr option \<Rightarrow> nat \<times> zt_world" where
  "zan_shared_table_create_anon alloc w cap keysize schema =
     (if cap \<le> 0 \<or> cap > ZT_MAX_CAPACITY \<or> keysize \<le> 0 \<or> keysize > 4096 then (0, w)
      else (case zt_new_table alloc False None cap keysize of
          None \<Rightarrow> (0, w)
        | Some t \<Rightarrow>
            (case zt_parse_schema schema of
               None \<Rightarrow> (0, w)
             | Some (cols, stride) \<Rightarrow>
                 let h = length (zt_heap w) + 1
                 in (h, w\<lparr>zt_heap := zt_heap w @ [t\<lparr>tab_cols := cols, tab_stride := stride\<rparr>],
                      zt_anon_reg := (if length (zt_anon_reg w) < zt_anon_max
                        then zt_anon_reg w @ [h] else zt_anon_reg w)\<rparr>))))"

definition zan_shared_table_open :: "zt_world \<Rightarrow> cstr option \<Rightarrow> nat" where
  "zan_shared_table_open w name =
     (case name of None \<Rightarrow> 0
      | Some n \<Rightarrow> (case find (zt_open_as w n) (zt_registry w) of None \<Rightarrow> 0 | Some h \<Rightarrow> h))"

definition zan_shared_table_handle :: "zt_world \<Rightarrow> nat \<Rightarrow> nat" where
  "zan_shared_table_handle w h = (case zt_anon_lookup w h of None \<Rightarrow> 0 | Some _ \<Rightarrow> h)"

definition zan_shared_table_attach :: "zt_world \<Rightarrow> nat \<Rightarrow> nat" where
  "zan_shared_table_attach w os_handle =
     (case zt_anon_lookup w os_handle of None \<Rightarrow> 0 | Some _ \<Rightarrow> os_handle)"

definition zan_shared_table_close :: "zt_world \<Rightarrow> nat \<Rightarrow> zt_world" where
  "zan_shared_table_close w h = w"

definition zt_store :: "zt_world \<Rightarrow> nat \<Rightarrow> zt_table \<Rightarrow> zt_world" where
  "zt_store w h t = w\<lparr>zt_heap := (zt_heap w)[h - 1 := t]\<rparr>"

definition zan_shared_table_destroy :: "zt_world \<Rightarrow> nat \<Rightarrow> int \<times> zt_world" where
  "zan_shared_table_destroy w h =
     (case zt_deref w h of
        None \<Rightarrow> (0, w)
      | Some t \<Rightarrow> if tab_linked t then (1, zt_store w h (t\<lparr>tab_linked := False\<rparr>)) else (0, w))"

text \<open>A row operation through a handle.\<close>

definition zt_on :: "zt_op \<Rightarrow> zt_world \<Rightarrow> nat \<Rightarrow> zt_world" where
  "zt_on op w h =
     (case zt_apply op (zt_deref w h) of None \<Rightarrow> w | Some t \<Rightarrow> zt_store w h t)"

datatype zt_call =
  Create bool bool "cstr option" int int "cstr option"
| CreateAnon bool int int "cstr option"
| Close nat
| Destroy nat
| RowOp zt_op nat

fun zt_call_step :: "zt_call \<Rightarrow> zt_world \<Rightarrow> zt_world" where
  "zt_call_step (Create a d n c k s) w = snd (zan_shared_table_create a d w n c k s)"
| "zt_call_step (CreateAnon a c k s) w = snd (zan_shared_table_create_anon a w c k s)"
| "zt_call_step (Close h) w = zan_shared_table_close w h"
| "zt_call_step (Destroy h) w = snd (zan_shared_table_destroy w h)"
| "zt_call_step (RowOp op h) w = zt_on op w h"

definition zt_calls :: "zt_call list \<Rightarrow> zt_world \<Rightarrow> zt_world" where
  "zt_calls cs w = fold zt_call_step cs w"

section \<open>The invariant of the registry\<close>

text \<open>
  Every published table is sound, the registers stay within their arrays and point to published
  tables, registered tables are named and an open name belongs to one table.
\<close>

definition zt_world_inv :: "zt_world \<Rightarrow> bool" where
  "zt_world_inv w \<longleftrightarrow>
     (\<forall>t \<in> set (zt_heap w). zt_inv t) \<and>
     length (zt_registry w) \<le> zt_registry_max \<and> length (zt_anon_reg w) \<le> zt_anon_max \<and>
     (\<forall>h \<in> set (zt_registry w) \<union> set (zt_anon_reg w). 0 < h \<and> h \<le> length (zt_heap w)) \<and>
     (\<forall>h \<in> set (zt_registry w). \<forall>h' \<in> set (zt_registry w). \<forall>n.
        zt_open_as w n h \<and> zt_open_as w n h' \<longrightarrow> h = h')"

lemma zt_deref_append [simp]:
  "zt_deref (w\<lparr>zt_heap := zt_heap w @ [t], zt_registry := r, zt_anon_reg := a\<rparr>) h =
     (if h = length (zt_heap w) + 1 then Some t else zt_deref w h)"
  by (auto simp: zt_deref_def nth_append)

lemma zt_deref_append_reg [simp]:
  "zt_deref (w\<lparr>zt_heap := zt_heap w @ [t], zt_registry := r\<rparr>) h =
     (if h = length (zt_heap w) + 1 then Some t else zt_deref w h)"
  by (auto simp: zt_deref_def nth_append)

lemma zt_deref_append_anon [simp]:
  "zt_deref (w\<lparr>zt_heap := zt_heap w @ [t], zt_anon_reg := a\<rparr>) h =
     (if h = length (zt_heap w) + 1 then Some t else zt_deref w h)"
  by (auto simp: zt_deref_def nth_append)

lemma zt_deref_store:
  "zt_deref w h = Some t \<Longrightarrow>
     zt_deref (zt_store w h t') h' = (if h' = h then Some t' else zt_deref w h')"
  by (auto simp: zt_deref_def zt_store_def nth_list_update split: if_splits)

lemma zt_deref_in: "zt_deref w h = Some t \<Longrightarrow> t \<in> set (zt_heap w) \<and> 0 < h \<and> h \<le> length (zt_heap w)"
  by (auto simp: zt_deref_def split: if_splits)

lemma zt_deref_inv: "zt_world_inv w \<Longrightarrow> zt_deref w h = Some t \<Longrightarrow> zt_inv t"
  by (auto simp: zt_world_inv_def dest: zt_deref_in)

lemma zt_deref_fresh [simp]: "zt_deref w (Suc (length (zt_heap w))) = None"
  by (simp add: zt_deref_def)

lemma zt_new_inv:
  assumes "zt_parse_schema schema = Some (cols, stride)" "0 < cap"
  shows "zt_inv \<lparr>tab_name = n, tab_cap = cap, tab_keysize = k, tab_cols = cols, tab_stride = stride,
    tab_rows = [], tab_count = 0, tab_linked = l\<rparr>"
proof -
  have "zt_layout_ok [] 0" by (simp add: zt_layout_ok_def)
  then have l: "zt_layout_ok cols stride" "cols \<noteq> []"
    using assms by (auto simp: zt_parse_schema_def split: option.splits if_splits dest!: zt_parse_loop_layout)
  then have "zt_col_ok stride (hd cols)" by (simp add: zt_layout_ok_def)
  then have "0 < stride" by (auto simp: zt_col_ok_def)
  with l assms show ?thesis by (simp add: zt_inv_def)
qed

text \<open>Storing a later state of a table, or one with its link removed, keeps the invariant.\<close>

lemma zt_store_inv:
  assumes "zt_world_inv w" "zt_deref w h = Some t" "zt_inv t'" "tab_name t' = tab_name t"
    "tab_linked t' \<longrightarrow> tab_linked t"
  shows "zt_world_inv (zt_store w h t')"
proof -
  have o: "zt_open_as w n h'" if "zt_open_as (zt_store w h t') n h'" for n h'
    using that assms(2,4,5) by (auto simp: zt_open_as_def zt_deref_store split: if_splits option.splits)
  have "\<forall>t \<in> set (zt_heap (zt_store w h t')). zt_inv t"
    using assms(1,3) set_update_subset_insert [of "zt_heap w" "h - 1" t']
    by (auto simp: zt_world_inv_def zt_store_def)
  then show ?thesis
    using assms(1) o unfolding zt_world_inv_def by (simp add: zt_store_def) blast
qed

lemma zt_on_inv:
  assumes "zt_world_inv w"
  shows "zt_world_inv (zt_on op w h)"
proof (cases "zt_deref w h")
  case None
  have "zt_apply op None = None"
    by (cases op) (simp_all add: zan_shared_table_set_int_def zan_shared_table_get_int_def
        zan_shared_table_set_float_def zan_shared_table_get_float_def zt_set_word_def zt_get_word_def
        zan_shared_table_set_string_def zan_shared_table_get_string_def zan_shared_table_increment_def
        zan_shared_table_expire_at_def zan_shared_table_expire_def zan_shared_table_expires_at_def
        zan_shared_table_purge_expired_def zan_shared_table_rate_allow_def
        zan_shared_table_lock_acquire_def zan_shared_table_lock_release_def
        zan_shared_table_delete_def zan_shared_table_exists_def zan_shared_table_count_def
        zan_shared_table_clear_def zan_shared_table_set_int_at_def zan_shared_table_get_int_at_def
        zan_shared_table_increment_at_def zan_shared_table_extreme_at_def
        zan_shared_table_set_string_at_def zan_shared_table_get_string_at_def
        zan_shared_table_match_at_def zan_shared_table_exists_at_def zan_shared_table_delete_at_def)
  with None assms show ?thesis by (simp add: zt_on_def)
next
  case (Some t)
  obtain t' where "zt_apply op (Some t) = Some t'" "zt_later t t'"
    using zt_apply_keeps [OF zt_deref_inv [OF assms Some], of op] by (auto simp: tab_later_def)
  with Some assms show ?thesis
    by (auto simp: zt_on_def zt_later_def intro!: zt_store_inv)
qed

lemma zan_shared_table_destroy_inv:
  "zt_world_inv w \<Longrightarrow> zt_world_inv (snd (zan_shared_table_destroy w h))"
  using zt_deref_inv
  by (fastforce simp: zan_shared_table_destroy_def zt_inv_def intro!: zt_store_inv split: option.split)

lemma zan_shared_table_create_cases:
  assumes "zan_shared_table_create a d w name cap ks schema = (h, w')"
  shows "h = 0 \<and> w' = w \<or>
    (\<exists>n cols stride. name = Some n \<and> n \<noteq> [] \<and> 0 < cap \<and> zt_parse_schema schema = Some (cols, stride) \<and>
       \<not> list_ex (zt_open_as w n) (zt_registry w) \<and> length (zt_registry w) < zt_registry_max \<and>
       h = length (zt_heap w) + 1 \<and>
       w' = w\<lparr>zt_heap := zt_heap w @ [\<lparr>tab_name = Some n, tab_cap = cap, tab_keysize = ks,
               tab_cols = cols, tab_stride = stride, tab_rows = [], tab_count = 0, tab_linked = True\<rparr>],
             zt_registry := zt_registry w @ [h]\<rparr>)"
  using assms
  by (auto simp: zan_shared_table_create_def zt_new_table_def Let_def split: option.splits if_splits)

lemma zt_open_as_append:
  "zt_open_as (w\<lparr>zt_heap := zt_heap w @ [t], zt_registry := r\<rparr>) n h \<longleftrightarrow>
     (if h = length (zt_heap w) + 1 then tab_linked t \<and> tab_name t = Some n else zt_open_as w n h)"
  by (auto simp: zt_open_as_def)

lemma zan_shared_table_create_inv:
  assumes "zt_world_inv w"
  shows "zt_world_inv (snd (zan_shared_table_create a d w name cap ks schema))"
proof -
  obtain h w' where c: "zan_shared_table_create a d w name cap ks schema = (h, w')" by fastforce
  show ?thesis
    using zan_shared_table_create_cases [OF c]
  proof (elim disjE exE conjE)
    assume "w' = w"
    with c assms show ?thesis by simp
  next
    fix n cols stride
    assume n: "name = Some n" "0 < cap" "zt_parse_schema schema = Some (cols, stride)"
      "\<not> list_ex (zt_open_as w n) (zt_registry w)" "length (zt_registry w) < zt_registry_max"
      "h = length (zt_heap w) + 1"
      "w' = w\<lparr>zt_heap := zt_heap w @ [\<lparr>tab_name = Some n, tab_cap = cap, tab_keysize = ks,
               tab_cols = cols, tab_stride = stride, tab_rows = [], tab_count = 0, tab_linked = True\<rparr>],
             zt_registry := zt_registry w @ [h]\<rparr>"
    have "\<forall>t \<in> set (zt_heap w'). zt_inv t"
      using assms zt_new_inv [OF n(3,2)] by (auto simp: n(7) zt_world_inv_def)
    moreover have "length (zt_registry w') \<le> zt_registry_max" using n(5,7) by simp
    moreover have "\<forall>h \<in> set (zt_registry w') \<union> set (zt_anon_reg w'). 0 < h \<and> h \<le> length (zt_heap w')"
      using assms by (auto simp: n(6,7) zt_world_inv_def intro: le_SucI)
    moreover have "\<forall>h \<in> set (zt_registry w'). \<forall>h' \<in> set (zt_registry w'). \<forall>n.
        zt_open_as w' n h \<and> zt_open_as w' n h' \<longrightarrow> h = h'"
      using assms n(4)
      by (auto simp: n(6,7) zt_world_inv_def zt_open_as_append list_ex_iff split: if_splits) blast
    ultimately show ?thesis
      using assms by (simp add: c) (simp add: zt_world_inv_def n(7))
  qed
qed

lemma zan_shared_table_create_anon_inv:
  "zt_world_inv w \<Longrightarrow> zt_world_inv (snd (zan_shared_table_create_anon a w cap ks schema))"
  by (auto simp: zan_shared_table_create_anon_def zt_new_table_def Let_def zt_world_inv_def
      zt_open_as_def zt_new_inv intro: le_SucI split: option.split if_splits)

lemma zt_call_step_inv: "zt_world_inv w \<Longrightarrow> zt_world_inv (zt_call_step c w)"
  by (cases c) (simp_all add: zan_shared_table_create_inv zan_shared_table_create_anon_inv
      zan_shared_table_close_def zan_shared_table_destroy_inv zt_on_inv)

lemma zt_calls_inv: "zt_world_inv w \<Longrightarrow> zt_world_inv (zt_calls cs w)"
  by (induction cs arbitrary: w) (simp_all add: zt_calls_def zt_call_step_inv)

lemma zt_start_inv: "zt_world_inv zt_start"
  by (simp add: zt_world_inv_def zt_start_def)

section \<open>Names and handles\<close>

lemma zt_world_unique:
  "zt_world_inv w \<Longrightarrow> h \<in> set (zt_registry w) \<Longrightarrow> h' \<in> set (zt_registry w) \<Longrightarrow> zt_open_as w n h \<Longrightarrow>
   zt_open_as w n h' \<Longrightarrow> h = h'"
  unfolding zt_world_inv_def by blast

lemma zt_world_pos: "zt_world_inv w \<Longrightarrow> h \<in> set (zt_registry w) \<Longrightarrow> h \<noteq> 0"
  unfolding zt_world_inv_def by force

lemma zt_world_anon: "zt_world_inv w \<Longrightarrow> h \<in> set (zt_anon_reg w) \<Longrightarrow> h \<le> length (zt_heap w)"
  unfolding zt_world_inv_def by blast

lemma zt_open_iff:
  assumes "zt_world_inv w"
  shows "zan_shared_table_open w (Some n) = h \<and> h \<noteq> 0 \<longleftrightarrow> h \<in> set (zt_registry w) \<and> zt_open_as w n h"
proof
  assume "zan_shared_table_open w (Some n) = h \<and> h \<noteq> 0"
  then show "h \<in> set (zt_registry w) \<and> zt_open_as w n h"
    by (auto simp: zan_shared_table_open_def find_Some_iff split: option.splits)
next
  assume h: "h \<in> set (zt_registry w) \<and> zt_open_as w n h"
  then obtain h' where f: "find (zt_open_as w n) (zt_registry w) = Some h'"
    by (cases "find (zt_open_as w n) (zt_registry w)") (auto simp: find_None_iff)
  then have "h' \<in> set (zt_registry w)" "zt_open_as w n h'" by (auto simp: find_Some_iff)
  then have "h' = h" using h by (blast intro: zt_world_unique [OF assms])
  moreover have "h \<noteq> 0" using h zt_world_pos [OF assms] by blast
  ultimately show "zan_shared_table_open w (Some n) = h \<and> h \<noteq> 0"
    using f by (simp add: zan_shared_table_open_def)
qed

lemma zt_open_0_iff:
  "zt_world_inv w \<Longrightarrow>
   zan_shared_table_open w (Some n) = 0 \<longleftrightarrow> \<not> list_ex (zt_open_as w n) (zt_registry w)"
  using zt_open_iff [of w n] by (metis list_ex_iff zt_world_pos)

text \<open>Two worlds that agree on a name's openness give the same handle for it.\<close>

lemma zt_open_cong:
  assumes "zt_world_inv w" "zt_world_inv w'"
    "\<And>h. h \<in> set (zt_registry w) \<and> zt_open_as w n h \<longleftrightarrow> h \<in> set (zt_registry w') \<and> zt_open_as w' n h"
  shows "zan_shared_table_open w (Some n) = zan_shared_table_open w' (Some n)"
  using zt_open_iff [OF assms(1), of n] zt_open_iff [OF assms(2), of n] assms(3) by metis

text \<open>The registry never gives a slot back: its length only grows.\<close>

lemma zt_call_registry: "length (zt_registry w) \<le> length (zt_registry (zt_call_step c w))"
  by (cases c) (auto simp: zan_shared_table_create_def zan_shared_table_create_anon_def
      zan_shared_table_close_def zan_shared_table_destroy_def zt_on_def zt_store_def Let_def
      split: option.split prod.split)

lemma zt_calls_registry: "length (zt_registry w) \<le> length (zt_registry (zt_calls cs w))"
proof (induction cs arbitrary: w)
  case (Cons c cs)
  show ?case
    using zt_call_registry [of w c] Cons.IH [of "zt_call_step c w"]
    by (simp add: zt_calls_def)
qed (simp add: zt_calls_def)

lemma zt_deref_store_other [simp]: "zt_registry (zt_store w h t) = zt_registry w"
  "zt_anon_reg (zt_store w h t) = zt_anon_reg w" "length (zt_heap (zt_store w h t)) = length (zt_heap w)"
  by (simp_all add: zt_store_def)

section \<open>Properties\<close>

text \<open>
  C4. Whatever sequence of creations, removals and row operations runs, with whatever clock
  readings and allocation failures, every table that exists has a sound layout, rows of the full
  stride with distinct keys, a count equal to its number of live rows and within 7/8 of its
  capacity (plus the last row); the registers stay inside their arrays, and an open name belongs
  to exactly one table.
\<close>

theorem zt_world_sound:
  "zt_world_inv (zt_calls cs zt_start)"
  by (rule zt_calls_inv [OF zt_start_inv])

lemma zt_create_effect:
  assumes "zt_world_inv w" "zan_shared_table_create a d w (Some n) cap ks schema = (h, w')" "h \<noteq> 0"
  shows "zan_shared_table_open w' (Some n) = h"
    and "m \<noteq> n \<Longrightarrow> zan_shared_table_open w' (Some m) = zan_shared_table_open w (Some m)"
    and "\<exists>t. zt_deref w' h = Some t \<and> tab_rows t = [] \<and> tab_cap t = cap \<and>
       zt_parse_schema schema = Some (tab_cols t, tab_stride t)"
    and "h' \<noteq> h \<Longrightarrow> zt_deref w' h' = zt_deref w h'"
proof -
  have inv': "zt_world_inv w'"
    using zan_shared_table_create_inv [OF assms(1), of a d "Some n" cap ks schema] assms(2) by simp
  from zan_shared_table_create_cases [OF assms(2)] assms(3) obtain cols stride where
    c: "zt_parse_schema schema = Some (cols, stride)" "h = length (zt_heap w) + 1"
      "w' = w\<lparr>zt_heap := zt_heap w @ [\<lparr>tab_name = Some n, tab_cap = cap, tab_keysize = ks,
             tab_cols = cols, tab_stride = stride, tab_rows = [], tab_count = 0, tab_linked = True\<rparr>],
           zt_registry := zt_registry w @ [h]\<rparr>" by auto
  show "zan_shared_table_open w' (Some n) = h"
    using zt_open_iff [OF inv', of n h] assms(3) by (simp add: c(2,3) zt_open_as_append)
  show "\<exists>t. zt_deref w' h = Some t \<and> tab_rows t = [] \<and> tab_cap t = cap \<and>
      zt_parse_schema schema = Some (tab_cols t, tab_stride t)"
    by (simp add: c)
  show "h' \<noteq> h \<Longrightarrow> zt_deref w' h' = zt_deref w h'"
    by (simp add: c)
  show "m \<noteq> n \<Longrightarrow> zan_shared_table_open w' (Some m) = zan_shared_table_open w (Some m)"
    using assms(1)
    by (intro zt_open_cong [OF inv' assms(1)]) (auto simp: c zt_open_as_append zt_open_as_def)
qed

lemma zt_create_succeeds:
  assumes "zt_world_inv w" "zan_shared_table_create a d w (Some n) cap ks schema = (h, w')"
  shows "h \<noteq> 0 \<longleftrightarrow> n \<noteq> [] \<and> 0 < cap \<and> cap \<le> ZT_MAX_CAPACITY \<and> 0 < ks \<and> ks \<le> 4096 \<and> a \<and> d \<and>
             zt_parse_schema schema \<noteq> None \<and> zan_shared_table_open w (Some n) = 0 \<and>
             length (zt_registry w) < zt_registry_max"
  using assms(2) unfolding zt_open_0_iff [OF assms(1)]
  by (auto simp: zan_shared_table_create_def zt_new_table_def Let_def split: option.splits if_splits)

text \<open>
  Creating a named table: it succeeds exactly when the name is not empty, the capacity is in
  1 to 2^20, the key size in 1 to 4096, the allocations succeed, the schema parses, no open table
  has the name and the registry has a free entry. It then opens under its name at the returned
  handle, is empty, and no other name or table is affected; a failed creation changes nothing.
\<close>

theorem zan_shared_table_create_spec:
  assumes "zt_world_inv w" "zan_shared_table_create a d w (Some n) cap ks schema = (h, w')"
  shows "(h \<noteq> 0 \<longleftrightarrow> n \<noteq> [] \<and> 0 < cap \<and> cap \<le> ZT_MAX_CAPACITY \<and> 0 < ks \<and> ks \<le> 4096 \<and> a \<and> d \<and>
             zt_parse_schema schema \<noteq> None \<and> zan_shared_table_open w (Some n) = 0 \<and>
             length (zt_registry w) < zt_registry_max) \<and>
    (if h = 0 then w' = w
     else zan_shared_table_open w' (Some n) = h \<and>
           (\<forall>m. m \<noteq> n \<longrightarrow> zan_shared_table_open w' (Some m) = zan_shared_table_open w (Some m)) \<and>
           (\<exists>t. zt_deref w' h = Some t \<and> tab_rows t = [] \<and> tab_cap t = cap \<and>
              zt_parse_schema schema = Some (tab_cols t, tab_stride t)) \<and>
           (\<forall>h'. h' \<noteq> h \<longrightarrow> zt_deref w' h' = zt_deref w h'))"
proof (cases "h = 0")
  case True
  with zt_create_succeeds [OF assms] zan_shared_table_create_cases [OF assms(2)] show ?thesis by auto
next
  case False
  with zt_create_succeeds [OF assms] zt_create_effect [OF assms] show ?thesis by simp
qed

definition demo_world :: zt_world where
  "demo_world = snd (zan_shared_table_create True True zt_start (Some [116]) 8 16 (Some demo_schema))"

lemma demo_create:
  "zan_shared_table_create True True zt_start (Some [116]) 8 16 (Some demo_schema) = (1, demo_world)"
  by (simp add: demo_world_def zan_shared_table_create_def zt_new_table_def demo_schema_parse zt_start_def
      ZT_MAX_CAPACITY_def zt_registry_max_def Let_def)

theorem zan_shared_table_create_spec_witness:
  "zan_shared_table_open demo_world (Some [116]) = 1 \<and>
   (\<exists>t. zt_deref demo_world 1 = Some t \<and> tab_rows t = [] \<and> tab_cap t = 8) \<and>
   zan_shared_table_open demo_world (Some [117]) = 0"
  using zan_shared_table_create_spec [OF zt_start_inv demo_create]
  by (auto simp: zan_shared_table_open_def zt_start_def)

lemma demo_world_inv: "zt_world_inv demo_world"
  unfolding demo_world_def by (rule zan_shared_table_create_inv [OF zt_start_inv])

text \<open>
  Removing a named table takes its name out of the registry and nothing else: the name can
  no longer be opened, every other name keeps its handle, and the table itself, its rows
  included, stays reachable through the handles already given out. A second removal, and the
  removal of an anonymous table, change nothing.
\<close>

theorem zan_shared_table_destroy_spec:
  assumes "zt_world_inv w" "zan_shared_table_open w (Some n) = h" "h \<noteq> 0"
    "zan_shared_table_destroy w h = (r, w')"
  shows "r = 1 \<and> zan_shared_table_open w' (Some n) = 0 \<and>
     (\<forall>m. m \<noteq> n \<longrightarrow> zan_shared_table_open w' (Some m) = zan_shared_table_open w (Some m)) \<and>
     (\<exists>t. zt_deref w h = Some t \<and> zt_deref w' h = Some (t\<lparr>tab_linked := False\<rparr>)) \<and>
     zan_shared_table_destroy w' h = (0, w')"
proof -
  have o: "h \<in> set (zt_registry w)" "zt_open_as w n h"
    using zt_open_iff [OF assms(1)] assms(2,3) by auto
  then obtain t where t: "zt_deref w h = Some t" "tab_linked t" "tab_name t = Some n"
    by (auto simp: zt_open_as_def split: option.splits)
  have r: "r = 1" "w' = zt_store w h (t\<lparr>tab_linked := False\<rparr>)"
    using assms(4) t by (simp_all add: zan_shared_table_destroy_def)
  have inv': "zt_world_inv w'"
    using zan_shared_table_destroy_inv [OF assms(1), of h] assms(4) by simp
  have as': "zt_open_as w' m h' \<longleftrightarrow> h' \<noteq> h \<and> zt_open_as w m h'" for m h'
    by (simp add: r(2) zt_open_as_def zt_deref_store [OF t(1)])
  have "zan_shared_table_open w' (Some n) = 0"
    using zt_world_unique [OF assms(1) _ o(1) _ o(2)]
    unfolding zt_open_0_iff [OF inv'] list_ex_iff as' by (auto simp: r(2))
  moreover have "zan_shared_table_open w' (Some m) = zan_shared_table_open w (Some m)" if "m \<noteq> n" for m
  proof -
    have "\<not> zt_open_as w m h" using that t by (simp add: zt_open_as_def)
    moreover have "zt_registry w' = zt_registry w" by (simp add: r(2))
    ultimately show ?thesis
      by (intro zt_open_cong [OF inv' assms(1)]) (auto simp: as')
  qed
  ultimately show ?thesis
    using r(1) t by (auto simp: r(2) zt_deref_store [OF t(1)] zan_shared_table_destroy_def)
qed

theorem zan_shared_table_destroy_spec_witness:
  "zan_shared_table_open (snd (zan_shared_table_destroy demo_world 1)) (Some [116]) = 0"
proof -
  have "zan_shared_table_open demo_world (Some [116]) = 1"
    by (simp add: demo_world_def zan_shared_table_create_def zt_new_table_def demo_schema_parse zt_start_def
      ZT_MAX_CAPACITY_def zt_registry_max_def Let_def zan_shared_table_open_def zt_open_as_def zt_deref_def)
  then show ?thesis
    using zan_shared_table_destroy_spec [OF demo_world_inv, of "[116]" 1] by (metis prod.collapse zero_neq_one)
qed

text \<open>
  The registry's entries are never given back: once 64 named tables have been created,
  every later creation fails, even when all of them have been destroyed since.
\<close>

theorem zt_registry_exhausted:
  assumes "length (zt_registry w) = zt_registry_max"
  shows "fst (zan_shared_table_create a d (zt_calls cs w) name cap ks schema) = 0"
  using zt_calls_registry [of w cs] assms
  by (auto simp: zan_shared_table_create_def Let_def split: option.split)

text \<open>One table created and destroyed under the same name, 64 times.\<close>

definition churn :: "nat \<Rightarrow> zt_call list" where
  "churn k = concat (map (\<lambda>i. [Create True True (Some [116]) 8 16 (Some demo_schema), Destroy (i + 1)]) [0..<k])"

lemma churn_state:
  "k \<le> 64 \<Longrightarrow> length (zt_heap (zt_calls (churn k) zt_start)) = k \<and>
     length (zt_registry (zt_calls (churn k) zt_start)) = k \<and>
     (\<forall>h. \<forall>t. zt_deref (zt_calls (churn k) zt_start) h = Some t \<longrightarrow> \<not> tab_linked t)"
proof (induction k)
  case 0
  then show ?case by (simp add: churn_def zt_calls_def zt_start_def zt_deref_def)
next
  case (Suc k)
  define w where "w = zt_calls (churn k) zt_start"
  have w: "length (zt_heap w) = k" "length (zt_registry w) = k"
      "\<And>h t. zt_deref w h = Some t \<Longrightarrow> \<not> tab_linked t"
    using Suc by (auto simp: w_def)
  have "zt_calls (churn (Suc k)) zt_start = zt_call_step (Destroy (k + 1))
      (zt_call_step (Create True True (Some [116]) 8 16 (Some demo_schema)) w)"
    by (simp add: churn_def zt_calls_def w_def)
  moreover have "\<not> list_ex (zt_open_as w [116]) (zt_registry w)"
    using w(3) by (auto simp: list_ex_iff zt_open_as_def split: option.splits)
  ultimately show ?case
    using w Suc.prems
    by (auto simp: zan_shared_table_create_def zt_new_table_def demo_schema_parse ZT_MAX_CAPACITY_def
        zt_registry_max_def Let_def zan_shared_table_destroy_def zt_deref_store
        split: if_splits)
qed

lemma churn_unlinked: "list_all (\<lambda>t. \<not> tab_linked t) (zt_heap (zt_calls (churn 64) zt_start))"
  unfolding list_all_length
proof (intro allI impI)
  fix i assume i: "i < length (zt_heap (zt_calls (churn 64) zt_start))"
  then have "zt_deref (zt_calls (churn 64) zt_start) (i + 1) = Some (zt_heap (zt_calls (churn 64) zt_start) ! i)"
    by (simp add: zt_deref_def)
  with churn_state [of 64] show "\<not> tab_linked (zt_heap (zt_calls (churn 64) zt_start) ! i)" by blast
qed

theorem zt_registry_exhausted_witness:
  "list_all (\<lambda>t. \<not> tab_linked t) (zt_heap (zt_calls (churn 64) zt_start)) \<and>
   fst (zan_shared_table_create True True (zt_calls [] (zt_calls (churn 64) zt_start))
     (Some [117]) 8 16 (Some demo_schema)) = 0"
  using zt_registry_exhausted [of "zt_calls (churn 64) zt_start"] churn_state [of 64] churn_unlinked
  by (simp add: zt_registry_max_def)

text \<open>
  An anonymous table goes through its exported handle within the process: for a table that
  entered the register the handle is not 0 and attaching it gives the table back. Only the first
  256 anonymous tables enter it; a later one is created, but its exported handle is 0.
\<close>

theorem zan_shared_table_anon_handle:
  assumes "zan_shared_table_create_anon a w cap ks schema = (h, w')" "h \<noteq> 0" "zt_world_inv w"
  shows "zt_deref w' h \<noteq> None \<and>
    (if length (zt_anon_reg w) < zt_anon_max
     then zan_shared_table_handle w' h = h \<and> zan_shared_table_attach w' (zan_shared_table_handle w' h) = h
     else zan_shared_table_handle w' h = 0 \<and> zan_shared_table_attach w' h = 0)"
proof -
  obtain cols stride where p: "zt_parse_schema schema = Some (cols, stride)"
    using assms(1,2) by (auto simp: zan_shared_table_create_anon_def split: option.splits if_splits)
  obtain t0 where n: "zt_new_table a False None cap ks = Some t0"
    using assms(1,2) by (auto simp: zan_shared_table_create_anon_def split: option.splits if_splits)
  define t where "t = t0\<lparr>tab_cols := cols, tab_stride := stride\<rparr>"
  have t: "h = length (zt_heap w) + 1"
      "w' = w\<lparr>zt_heap := zt_heap w @ [t], zt_anon_reg := (if length (zt_anon_reg w) < zt_anon_max
         then zt_anon_reg w @ [h] else zt_anon_reg w)\<rparr>"
    using assms(1,2) by (auto simp: zan_shared_table_create_anon_def n p Let_def t_def split: if_splits)
  have "h \<notin> set (zt_anon_reg w)"
    using zt_world_anon [OF assms(3), of h] t(1) by auto
  then show ?thesis
    by (simp add: t zan_shared_table_handle_def zan_shared_table_attach_def zt_anon_lookup_def)
qed

theorem zan_shared_table_anon_handle_witness:
  "\<exists>w'. zan_shared_table_create_anon True zt_start 8 16 (Some demo_schema) = (1, w') \<and>
     zan_shared_table_attach w' (zan_shared_table_handle w' 1) = 1"
proof -
  obtain w' where w': "zan_shared_table_create_anon True zt_start 8 16 (Some demo_schema) = (1, w')"
    by (simp add: zan_shared_table_create_anon_def zt_new_table_def demo_schema_parse
        ZT_MAX_CAPACITY_def Let_def zt_start_def)
  moreover have "length (zt_anon_reg zt_start) < zt_anon_max" by (simp add: zt_start_def zt_anon_max_def)
  ultimately show ?thesis
    using zan_shared_table_anon_handle [OF w' _ zt_start_inv] by auto
qed

end
