(* ===== verification/Shared_Map.thy ===== *)
theory Shared_Map
  imports Shared_Registry
begin

text \<open>
  A shared table as the finite map it implements: from each key that is present to its expiry
  time and row data. The row operations refine operations on this map, with one exception that
  the map makes visible: a row created in a deleted row's slot answers to the deleted row's key,
  not to the one it was created for (\<open>zt_row_for\<close> does not assign \<open>key\<close> there).
\<close>

section \<open>The abstract map\<close>

type_synonym zt_entry = "i64 \<times> u8 list"

definition row_entry :: "zt_row \<Rightarrow> zt_entry" where
  "row_entry r = (row_expires r, row_data r)"

definition zt_abs :: "zt_table \<Rightarrow> cstr \<Rightarrow> zt_entry option" where
  "zt_abs t k = map_option (\<lambda>i. row_entry (tab_rows t ! i)) (zt_find_row t k)"

text \<open>The key under which the row that \<open>zt_row_for\<close> returns for \<open>k\<close> is found afterwards.\<close>

definition zt_slot_key :: "zt_table \<Rightarrow> cstr \<Rightarrow> cstr" where
  "zt_slot_key t k =
     (if zt_find_row t k \<noteq> None then k
      else case first_index (\<lambda>r. \<not> row_alive r) (tab_rows t) of
        None \<Rightarrow> k | Some i \<Rightarrow> row_key (tab_rows t ! i))"

lemma row_key_inj:
  "zt_inv t \<Longrightarrow> i < length (tab_rows t) \<Longrightarrow> j < length (tab_rows t) \<Longrightarrow>
   row_key (tab_rows t ! i) = row_key (tab_rows t ! j) \<Longrightarrow> i = j"
  unfolding zt_inv_def using nth_eq_iff_index_eq [of "map row_key (tab_rows t)" i j] by simp

lemma zt_find_row_iff:
  assumes "zt_inv t"
  shows "zt_find_row t k = Some i \<longleftrightarrow>
     i < length (tab_rows t) \<and> row_alive (tab_rows t ! i) \<and> row_key (tab_rows t ! i) = k"
  unfolding zt_find_row_def first_index_Some
  using row_key_inj [OF assms] by (metis less_trans nat_less_le)

lemma zt_find_row_None:
  "zt_find_row t k = None \<longleftrightarrow> (\<forall>i < length (tab_rows t). row_alive (tab_rows t ! i) \<longrightarrow> row_key (tab_rows t ! i) \<noteq> k)"
  by (auto simp: zt_find_row_def first_index_None all_set_conv_all_nth)

lemma zt_abs_Some:
  assumes "zt_inv t"
  shows "zt_abs t k = Some e \<longleftrightarrow> (\<exists>i < length (tab_rows t). row_alive (tab_rows t ! i) \<and>
     row_key (tab_rows t ! i) = k \<and> e = row_entry (tab_rows t ! i))"
  by (auto simp: zt_abs_def zt_find_row_iff [OF assms])

lemma zt_abs_None: "zt_abs t k = None \<longleftrightarrow> zt_find_row t k = None"
  by (simp add: zt_abs_def)

lemma option_eqI: "(\<And>e. a = Some e \<longleftrightarrow> b = Some e) \<Longrightarrow> a = b"
  by (cases a; cases b) auto

section \<open>The building blocks on the map\<close>

definition live_at :: "i64 \<Rightarrow> zt_entry option \<Rightarrow> zt_entry option" where
  "live_at now x = (case x of None \<Rightarrow> None
     | Some (e, d) \<Rightarrow> if e \<noteq> 0 \<and> e \<le>s now then None else Some (e, d))"

lemma zt_abs_purge:
  assumes "zt_inv t"
  shows "zt_abs (zt_purge_locked t now) k = live_at now (zt_abs t k)"
proof (rule option_eqI)
  fix e
  have p: "tab_rows (zt_purge_locked t now) ! i =
      (if row_expired now (tab_rows t ! i) then (tab_rows t ! i)\<lparr>row_alive := False\<rparr> else tab_rows t ! i)"
    "length (tab_rows (zt_purge_locked t now)) = length (tab_rows t)"
    if "i < length (tab_rows t)" for i
    using that by (simp_all add: zt_purge_locked_def)
  have len: "length (tab_rows (zt_purge_locked t now)) = length (tab_rows t)"
    by (simp add: zt_purge_locked_def)
  have "zt_abs (zt_purge_locked t now) k = Some e \<longleftrightarrow>
      (\<exists>i < length (tab_rows t). row_alive (tab_rows t ! i) \<and> \<not> row_expired now (tab_rows t ! i) \<and>
        row_key (tab_rows t ! i) = k \<and> e = row_entry (tab_rows t ! i))"
    unfolding zt_abs_Some [OF zt_later_inv [OF zt_purge_later [OF assms]]] len
    by (rule ex_cong1) (auto simp: p row_entry_def split: if_splits)
  also have "\<dots> \<longleftrightarrow> zt_abs t k = Some e \<and> \<not> (fst e \<noteq> 0 \<and> fst e \<le>s now)"
    unfolding zt_abs_Some [OF assms] by (auto simp: row_expired_def row_entry_def)
  also have "\<dots> \<longleftrightarrow> live_at now (zt_abs t k) = Some e"
    by (auto simp: live_at_def split: option.splits)
  finally show "zt_abs (zt_purge_locked t now) k = Some e \<longleftrightarrow> live_at now (zt_abs t k) = Some e" .
qed

lemma zt_abs_set_row:
  assumes "zt_inv t" "zt_find_row t k = Some i" "zt_inv (set_row i f t)"
    "row_alive (f (tab_rows t ! i))" "row_key (f (tab_rows t ! i)) = k"
  shows "zt_abs (set_row i f t) = (zt_abs t)(k \<mapsto> row_entry (f (tab_rows t ! i)))"
proof (rule ext, rule option_eqI)
  fix k' e
  note i = assms(2) [unfolded zt_find_row_iff [OF assms(1)]]
  show "zt_abs (set_row i f t) k' = Some e \<longleftrightarrow> ((zt_abs t)(k \<mapsto> row_entry (f (tab_rows t ! i)))) k' = Some e"
  proof (cases "k' = k")
    case True
    have "zt_find_row (set_row i f t) k = Some i"
      unfolding zt_find_row_iff [OF assms(3)] using i assms(4,5) by (simp add: set_row_def)
    with True i show ?thesis by (auto simp: zt_abs_def set_row_def)
  next
    case False
    have "zt_abs (set_row i f t) k' = Some e \<longleftrightarrow> zt_abs t k' = Some e"
      unfolding zt_abs_Some [OF assms(3)] zt_abs_Some [OF assms(1)]
      using False i assms(5) by (auto simp: set_row_def nth_list_update)
    with False show ?thesis by simp
  qed
qed

lemma zt_abs_kill:
  assumes "zt_inv t" "zt_find_row t k = Some i"
  shows "zt_abs (row_kill i t) = (zt_abs t)(k := None)"
proof (rule ext, rule option_eqI)
  fix k' e
  note i = assms(2) [unfolded zt_find_row_iff [OF assms(1)]]
  have inv: "zt_inv (row_kill i t)"
    using i by (intro zt_later_inv [OF row_kill_later [OF assms(1)]]) auto
  have "zt_abs (row_kill i t) k' = Some e \<longleftrightarrow> (\<exists>j < length (tab_rows t). j \<noteq> i \<and>
      row_alive (tab_rows t ! j) \<and> row_key (tab_rows t ! j) = k' \<and> e = row_entry (tab_rows t ! j))"
    unfolding zt_abs_Some [OF inv] using i by (auto simp: row_kill_def set_row_def nth_list_update)
  also have "\<dots> \<longleftrightarrow> k' \<noteq> k \<and> zt_abs t k' = Some e"
    unfolding zt_abs_Some [OF assms(1)] using i row_key_inj [OF assms(1)] by blast
  finally show "zt_abs (row_kill i t) k' = Some e \<longleftrightarrow> ((zt_abs t)(k := None)) k' = Some e"
    by auto
qed

lemma zt_abs_row_for:
  assumes "zt_inv t" "zt_row_for al t k = (Some i, t')"
  shows "zt_find_row t' (zt_slot_key t k) = Some i" (is ?find)
    and "zt_abs t' = (if zt_abs t k \<noteq> None then zt_abs t
       else (zt_abs t)(zt_slot_key t k \<mapsto> (0, replicate (tab_stride t) 0)))" (is ?abs)
proof -
  have inv': "zt_inv t'" using zt_row_for_later [OF assms] by (auto dest: zt_later_inv)
  have "?find \<and> ?abs"
  proof (cases "zt_find_row t k")
    case (Some j)
    with assms(2) show ?thesis by (auto simp: zt_row_for_def zt_abs_def zt_slot_key_def)
  next
    case none: None
    then have room: "\<not> tab_count t * 8 \<ge> tab_cap t * 7" using assms(2) by (auto simp: zt_row_for_def)
    show ?thesis
    proof (cases "first_index (\<lambda>r. \<not> row_alive r) (tab_rows t)")
      case None
      let ?r = "\<lparr>row_hash = zt_hash (Some k), row_key = k, row_alive = True, row_expires = 0,
        row_data = replicate (max 1 (tab_stride t)) 0\<rparr>"
      from none None room assms(2) have t': "i = 0" "tab_rows t' = ?r # tab_rows t"
        by (auto simp: zt_row_for_def split: if_splits)
      have s: "zt_slot_key t k = k" using none None by (simp add: zt_slot_key_def)
      have m: "max (Suc 0) (tab_stride t) = tab_stride t" using assms(1) by (simp add: zt_inv_def)
      have "zt_abs t' k' = ((zt_abs t)(k \<mapsto> (0, replicate (tab_stride t) 0))) k'" for k'
        by (auto simp: zt_abs_def zt_find_row_def t' m row_entry_def option.map_comp o_def)
      then show ?thesis
        using none by (auto simp: s t' zt_find_row_def zt_abs_None)
    next
      case (Some j)
      let ?r = "(tab_rows t ! j)\<lparr>row_hash := zt_hash (Some k), row_expires := 0,
        row_data := buf_store 0 (replicate (tab_stride t) 0) (row_data (tab_rows t ! j)), row_alive := True\<rparr>"
      from Some have j: "j < length (tab_rows t)" "\<not> row_alive (tab_rows t ! j)"
        by (auto simp: first_index_Some)
      from none Some room assms(2) have t': "i = j" "tab_rows t' = (tab_rows t)[j := ?r]"
        by (auto simp: zt_row_for_def Let_def)
      have s: "zt_slot_key t k = row_key (tab_rows t ! j)" using none Some by (simp add: zt_slot_key_def)
      have "length (row_data (tab_rows t ! j)) = tab_stride t"
        using assms(1) j(1) by (auto simp: zt_inv_def)
      then have e: "row_entry ?r = (0, replicate (tab_stride t) 0)"
        by (simp add: row_entry_def buf_store_def)
      have f: "zt_find_row t' (zt_slot_key t k) = Some i"
        using j by (simp add: zt_find_row_iff [OF inv'] t' s)
      have "zt_abs t' k' = zt_abs t k'" if "k' \<noteq> row_key (tab_rows t ! j)" for k'
        using that j
        by (intro option_eqI) (auto simp: zt_abs_Some [OF inv'] zt_abs_Some [OF assms(1)] t' nth_list_update)
      moreover have "zt_abs t' (row_key (tab_rows t ! j)) = Some (0, replicate (tab_stride t) 0)"
        using f e j by (simp add: zt_abs_def s t')
      ultimately show ?thesis
        using none f by (auto simp: zt_abs_None s)
    qed
  qed
  then show ?find ?abs by simp_all
qed

section \<open>Writing and reading cells\<close>

text \<open>The map after \<open>bs\<close> is written to column \<open>c\<close> of key \<open>s\<close>, created as a zeroed row if absent.\<close>

definition zt_put ::
    "(cstr \<Rightarrow> zt_entry option) \<Rightarrow> nat \<Rightarrow> cstr \<Rightarrow> zt_col \<Rightarrow> u8 list \<Rightarrow> cstr \<Rightarrow> zt_entry option" where
  "zt_put m stride s c bs = m(s \<mapsto>
     (case m s of None \<Rightarrow> (0, buf_store (col_offset c) bs (replicate stride 0))
      | Some (e, d) \<Rightarrow> (e, buf_store (col_offset c) bs d)))"

definition zt_live :: "i64 \<Rightarrow> zt_table \<Rightarrow> cstr \<Rightarrow> zt_entry option" where
  "zt_live now t = (\<lambda>k. live_at now (zt_abs t k))"

lemma zt_abs_purge_fun: "zt_inv t \<Longrightarrow> zt_abs (zt_purge_locked t now) = zt_live now t"
  by (rule ext) (simp add: zt_live_def zt_abs_purge)

lemma zt_abs_found: "zt_find_row t k = Some i \<Longrightarrow> zt_abs t k = Some (row_entry (tab_rows t ! i))"
  by (simp add: zt_abs_def)

lemma zt_slot_key_present: "zt_abs t k \<noteq> None \<Longrightarrow> zt_slot_key t k = k"
  by (simp add: zt_slot_key_def zt_abs_None)

lemma zt_slot_key_absent:
  assumes "zt_inv t" "zt_abs t k = None"
  shows "zt_abs t (zt_slot_key t k) = None"
proof (cases "first_index (\<lambda>r. \<not> row_alive r) (tab_rows t)")
  case None
  with assms show ?thesis by (simp add: zt_slot_key_def)
next
  case (Some j)
  then have j: "j < length (tab_rows t)" "\<not> row_alive (tab_rows t ! j)" by (auto simp: first_index_Some)
  then have "zt_abs t (row_key (tab_rows t ! j)) = None"
    using row_key_inj [OF assms(1) j(1)] by (metis zt_abs_None zt_find_row_None)
  with Some assms(2) show ?thesis by (simp add: zt_slot_key_def zt_abs_None)
qed

lemma zt_abs_cell_put:
  assumes "zt_inv t" "zt_find_row t k = Some i" "c \<in> set (tab_cols t)" "length bs \<le> col_size c"
  shows "zt_abs (cell_put i c bs t) = zt_put (zt_abs t) (tab_stride t) k c bs"
proof -
  note i = assms(2) [unfolded zt_find_row_iff [OF assms(1)]]
  have "zt_inv (cell_put i c bs t)"
    using i by (intro zt_later_inv [OF cell_put_later [OF assms(1) _ assms(3,4)]]) auto
  then show ?thesis
    using i zt_abs_found [OF assms(2)] unfolding cell_put_def
    by (subst zt_abs_set_row [OF assms(1,2)]) (auto simp: zt_put_def row_entry_def)
qed

lemma zt_abs_put_row:
  assumes "zt_inv t" "zt_row_for al t k = (Some i, t')" "c \<in> set (tab_cols t)" "length bs \<le> col_size c"
  shows "zt_abs (cell_put i c bs t') = zt_put (zt_abs t) (tab_stride t) (zt_slot_key t k) c bs"
proof -
  have l: "zt_later t t'" using zt_row_for_later [OF assms(1,2)] by simp
  have "zt_abs (cell_put i c bs t') = zt_put (zt_abs t') (tab_stride t') (zt_slot_key t k) c bs"
    using l assms(3,4) zt_abs_row_for(1) [OF assms(1,2)]
    by (intro zt_abs_cell_put) (auto simp: zt_later_def)
  moreover have "tab_stride t' = tab_stride t" using l by (simp add: zt_later_def)
  ultimately show ?thesis
    using zt_abs_row_for(2) [OF assms(1,2)] zt_slot_key_absent [OF assms(1), of k]
    by (cases "zt_abs t k = None") (auto simp: zt_put_def)
qed

text \<open>The text and the number that a map holds in a cell.\<close>

definition get_word :: "(cstr \<Rightarrow> zt_entry option) \<Rightarrow> cstr \<Rightarrow> zt_col \<Rightarrow> u64" where
  "get_word m k c = (case m k of None \<Rightarrow> 0 | Some (e, d) \<Rightarrow> un_le64 (buf_load (col_offset c) 8 d))"

definition get_text :: "(cstr \<Rightarrow> zt_entry option) \<Rightarrow> cstr \<Rightarrow> zt_col \<Rightarrow> cstr" where
  "get_text m k c = (case m k of None \<Rightarrow> [] | Some (e, d) \<Rightarrow> cstr_at (buf_load (col_offset c) (col_size c - 1) d))"

lemma zt_get_word_spec:
  assumes "zt_inv t" "zt_find_col t col ty = Some c"
  shows "fst (zt_get_word ty now (Some t) (Some k) col) = get_word (zt_live now t) k c"
  using assms(2)
  by (auto simp: zt_get_word_def Let_def get_word_def cell_word_def row_entry_def zt_abs_def
      split: option.splits simp flip: zt_abs_purge_fun [OF assms(1)])

lemma zt_get_string_spec:
  assumes "zt_inv t" "zt_find_col t col 2 = Some c"
  shows "fst (zan_shared_table_get_string now True True (Some t) (Some k) col) =
     Some (get_text (zt_live now t) k c)"
  using assms(2)
  by (auto simp: zan_shared_table_get_string_def Let_def get_text_def cell_text_def row_entry_def zt_abs_def
      split: option.splits simp flip: zt_abs_purge_fun [OF assms(1)])

lemma zt_set_word_spec:
  assumes "zt_inv t" "zt_set_word ty now al (Some t) (Some k) col v = (1, Some t')" "ty \<le> 1"
  shows "\<exists>c. zt_find_col t col ty = Some c \<and>
     zt_abs t' = zt_put (zt_live now t) (tab_stride t) (zt_slot_key (zt_purge_locked t now) k) c (le64 v)"
proof -
  let ?p = "zt_purge_locked t now"
  obtain c where c: "zt_find_col t col ty = Some c"
    using assms(2) by (auto simp: zt_set_word_def Let_def split: option.splits)
  with assms(2) obtain i t2 where r: "zt_row_for al ?p k = (Some i, t2)"
      "t' = cell_put i c (le64 v) t2"
    by (auto simp: zt_set_word_def Let_def split: option.splits prod.splits)
  have inv: "zt_inv ?p" by (rule zt_later_inv [OF zt_purge_later [OF assms(1)]])
  have cc: "c \<in> set (tab_cols ?p)" "length (le64 v) \<le> col_size c"
    using zt_find_col_in [OF c] zt_col_bounds(3) [OF assms(1)] assms(3) by auto
  have "tab_stride ?p = tab_stride t" by (simp add: zt_purge_locked_def)
  with zt_abs_put_row [OF inv r(1) cc] c r(2) show ?thesis
    by (simp add: zt_abs_purge_fun [OF assms(1)])
qed

lemma zt_set_string_spec:
  assumes "zt_inv t" "zan_shared_table_set_string now al (Some t) (Some k) col (Some v) = (1, Some t')"
  shows "\<exists>c. zt_find_col t col 2 = Some c \<and> length v < col_size c \<and>
     zt_abs t' = zt_put (zt_live now t) (tab_stride t) (zt_slot_key (zt_purge_locked t now) k) c (v @ [0])"
proof -
  let ?p = "zt_purge_locked t now"
  obtain c where c: "zt_find_col t col 2 = Some c" "length v < col_size c"
    using assms(2) by (auto simp: zan_shared_table_set_string_def Let_def split: option.splits if_splits)
  with assms(2) obtain i t2 where r: "zt_row_for al ?p k = (Some i, t2)"
      "t' = cell_put i c (v @ [0]) t2"
    by (auto simp: zan_shared_table_set_string_def Let_def split: option.splits prod.splits)
  have inv: "zt_inv ?p" by (rule zt_later_inv [OF zt_purge_later [OF assms(1)]])
  have cc: "c \<in> set (tab_cols ?p)" "length (v @ [0]) \<le> col_size c"
    using zt_find_col_in [OF c(1)] c(2) by auto
  have "tab_stride ?p = tab_stride t" by (simp add: zt_purge_locked_def)
  with zt_abs_put_row [OF inv r(1) cc] c r(2) show ?thesis
    by (simp add: zt_abs_purge_fun [OF assms(1)])
qed

text \<open>Columns do not overlap, so writing one leaves the others.\<close>

lemma sorted_wrt_cases:
  "sorted_wrt R xs \<Longrightarrow> x \<in> set xs \<Longrightarrow> y \<in> set xs \<Longrightarrow> x = y \<or> R x y \<or> R y x"
  by (induction xs) auto

lemma zt_cols_disjoint:
  assumes "zt_inv t" "c \<in> set (tab_cols t)" "c' \<in> set (tab_cols t)" "c \<noteq> c'"
  shows "col_offset c + col_size c \<le> col_offset c' \<or> col_offset c' + col_size c' \<le> col_offset c"
  using assms sorted_wrt_cases [of "\<lambda>a b. col_offset a + col_size a \<le> col_offset b" "tab_cols t" c c']
  by (auto simp: zt_inv_def zt_layout_ok_def)

lemma zt_abs_length:
  assumes "zt_inv t" "zt_abs t k = Some (e, d)"
  shows "length d = tab_stride t"
  using assms by (auto simp: zt_abs_def zt_find_row_iff zt_inv_def row_entry_def)

lemma put_other_column:
  assumes "zt_inv t" "zt_find_col t n ty = Some c" "zt_find_col t n' ty' = Some c'" "c \<noteq> c'"
    "length bs \<le> col_size c" "len \<le> col_size c'" "length d = tab_stride t"
  shows "buf_load (col_offset c') len (buf_store (col_offset c) bs d) = buf_load (col_offset c') len d"
proof -
  have m: "c \<in> set (tab_cols t)" "c' \<in> set (tab_cols t)"
    using zt_find_col_in [OF assms(2)] zt_find_col_in [OF assms(3)] by auto
  have "col_offset c + length bs \<le> length d"
    using zt_col_bounds(2) [OF assms(1) m(1)] assms(5,7) by simp
  then show ?thesis
    using zt_cols_disjoint [OF assms(1) m assms(4)] assms(5,6) by (auto simp: buf_simps)
qed

lemma live_at_mono: "now \<le>s now' \<Longrightarrow> live_at now' (live_at now x) = live_at now' x"
  by (auto simp: live_at_def word_sle_eq split: option.splits)

lemma live_at_zero [simp]: "live_at now (Some (0, d)) = Some (0, d)"
  by (simp add: live_at_def)

lemma un_le64_buf_store:
  "col_size c = 8 \<Longrightarrow> col_offset c + 8 \<le> length d \<Longrightarrow>
   un_le64 (buf_load (col_offset c) 8 (buf_store (col_offset c) (le64 v) d)) = v"
  by (simp add: buf_simps)

lemma cstr_at_store:
  assumes "cstr_ok v" "length v < sz" "off + sz \<le> length d"
  shows "cstr_at (buf_load off (sz - 1) (buf_store off (v @ [0]) d)) = v"
proof -
  have z: "\<forall>x \<in> set v. x \<noteq> 0" using assms(1) by (auto simp: cstr_ok_def)
  have "buf_load off (sz - 1) (buf_store off (v @ [0]) d) =
      take (sz - 1) (v @ 0 # drop (off + length v + 1) d)"
    using assms(3) by (simp add: buf_load_def buf_store_def)
  also have "\<dots> = v @ take (sz - 1 - length v) (0 # drop (off + length v + 1) d)"
    using assms(2) by simp
  finally show ?thesis
    using z by (cases "sz - 1 - length v") (simp_all add: cstr_at_def takeWhile_append2)
qed

text \<open>Reading through the map after a write.\<close>

lemma zt_put_other: "k \<noteq> s \<Longrightarrow> zt_put m n s c bs k = m k"
  by (simp add: zt_put_def)

lemma zt_put_at:
  assumes "zt_inv t"
  obtains e d where "zt_put (zt_live now t) (tab_stride t) s c bs s = Some (e, buf_store (col_offset c) bs d)"
    "length d = tab_stride t"
    "zt_live now t s = Some (e, d) \<or> zt_live now t s = None \<and> e = 0 \<and> d = replicate (tab_stride t) 0"
proof (cases "zt_live now t s")
  case None
  then show ?thesis by (intro that [of 0 "replicate (tab_stride t) 0"]) (auto simp: zt_put_def)
next
  case (Some x)
  obtain e d where x: "x = (e, d)" by fastforce
  have "length d = tab_stride t"
    using Some zt_abs_length [OF zt_later_inv [OF zt_purge_later [OF assms]], of now s e d]
    by (simp add: x zt_abs_purge_fun [OF assms]) (simp add: zt_purge_locked_def)
  with Some x show ?thesis by (intro that [of e d]) (auto simp: zt_put_def)
qed

lemma get_word_other_column:
  assumes "zt_inv t" "zt_find_col t n ty = Some c" "zt_find_col t n' ty' = Some c'" "c \<noteq> c'" "ty' \<le> 1"
    "length bs \<le> col_size c" "now \<le>s now'"
    "live_at now' (zt_put (zt_live now t) (tab_stride t) s c bs s) \<noteq> None"
  shows "get_word (\<lambda>k. live_at now' (zt_put (zt_live now t) (tab_stride t) s c bs k)) s c' =
    get_word (zt_live now' t) s c'"
proof -
  obtain e d where p: "zt_put (zt_live now t) (tab_stride t) s c bs s = Some (e, buf_store (col_offset c) bs d)"
      "length d = tab_stride t"
      "zt_live now t s = Some (e, d) \<or> zt_live now t s = None \<and> e = 0 \<and> d = replicate (tab_stride t) 0"
    by (rule zt_put_at [OF assms(1)])
  have c': "c' \<in> set (tab_cols t)" "col_type c' \<le> 1"
    using zt_find_col_in [OF assms(3)] assms(5) by auto
  then have sz: "col_size c' = 8" "col_offset c' + 8 \<le> tab_stride t"
    using zt_col_bounds [OF assms(1) c'(1)] by auto
  have o: "buf_load (col_offset c') 8 (buf_store (col_offset c) bs d) = buf_load (col_offset c') 8 d"
    using put_other_column [OF assms(1-4,6) _ p(2), of 8] sz by simp
  have l: "live_at now' (zt_live now t s) = zt_live now' t s"
    by (simp add: zt_live_def live_at_mono [OF assms(7)])
  from p(3) show ?thesis
  proof
    assume *: "zt_live now t s = Some (e, d)"
    have "live_at now' (Some (e, d)) = Some (e, d)"
      using assms(8) p(1) by (auto simp: live_at_def split: if_splits)
    with * l have "zt_live now' t s = Some (e, d)" by simp
    with assms(8) p(1) o show ?thesis by (auto simp: get_word_def live_at_def split: if_splits)
  next
    assume *: "zt_live now t s = None \<and> e = 0 \<and> d = replicate (tab_stride t) 0"
    with l have "zt_live now' t s = None" by (simp add: live_at_def)
    with * p(1) o sz show ?thesis by (simp add: get_word_def buf_simps)
  qed
qed

lemma zt_get_word_absent:
  "zt_find_col t col ty = None \<Longrightarrow> fst (zt_get_word ty now (Some t) k col) = 0"
  by (simp add: zt_get_word_def Let_def split: option.splits)

lemma zt_set_word_later:
  "zt_inv t \<Longrightarrow> zt_set_word ty now al (Some t) key col v = (r, Some t') \<Longrightarrow> ty \<le> 1 \<Longrightarrow> zt_later t t'"
  using zt_set_word_keeps [of t ty now al key col v] by simp

lemma zt_later_find_col: "zt_later t t' \<Longrightarrow> zt_find_col t' n ty = zt_find_col t n ty"
  by (simp add: zt_later_def zt_find_col_def)

lemma zt_live_put:
  "zt_abs t' = zt_put (zt_live now t) n s c bs \<Longrightarrow>
   zt_live now' t' = (\<lambda>k. live_at now' (zt_put (zt_live now t) n s c bs k))"
  by (simp add: zt_live_def)

text \<open>A write through \<open>zt_set_word\<close>, seen by a later \<open>zt_get_word\<close> of any key and column.\<close>

lemma zt_get_after_set:
  assumes "zt_inv t" "zt_set_word ty now al (Some t) (Some k) col v = (1, Some t')" "ty \<le> 1" "ty' \<le> 1"
    "now \<le>s now'" "zt_live now' t' s \<noteq> None" "s = zt_slot_key (zt_purge_locked t now) k"
  shows "fst (zt_get_word ty' now' (Some t') (Some k') col') =
    (if k' = s \<and> col' = col \<and> ty' = ty then v else fst (zt_get_word ty' now' (Some t) (Some k') col'))"
proof -
  obtain c where c: "zt_find_col t col ty = Some c"
      "zt_abs t' = zt_put (zt_live now t) (tab_stride t) s c (le64 v)"
    using zt_set_word_spec [OF assms(1-3)] assms(7) by auto
  have l: "zt_later t t'" by (rule zt_set_word_later [OF assms(1-3)])
  have cc: "c \<in> set (tab_cols t)" "col_type c = ty" "col_name c = col" using zt_find_col_in [OF c(1)] by auto
  have sz: "col_size c = 8" "col_offset c + 8 \<le> tab_stride t"
    using zt_col_bounds [OF assms(1) cc(1)] cc(2) assms(3) by auto
  note live = zt_live_put [OF c(2), of now']
  show ?thesis
  proof (cases "zt_find_col t col' ty'")
    case None
    have "\<not> (col' = col \<and> ty' = ty)" using None c(1) by auto
    with None zt_later_find_col [OF l] show ?thesis by (auto simp: zt_get_word_absent)
  next
    case (Some c')
    have g: "fst (zt_get_word ty' now' (Some t') (Some k') col') = get_word (zt_live now' t') k' c'"
        "fst (zt_get_word ty' now' (Some t) (Some k') col') = get_word (zt_live now' t) k' c'"
      using Some by (simp_all add: zt_get_word_spec zt_later_inv [OF l] zt_later_find_col [OF l] assms(1))
    consider "k' \<noteq> s" | "k' = s" "c' = c" | "k' = s" "c' \<noteq> c" by blast
    then show ?thesis
    proof cases
      case 1
      then show ?thesis
        by (simp add: g live get_word_def zt_put_other) (simp add: zt_live_def live_at_mono [OF assms(5)])
    next
      case 2
      then have same: "col' = col" "ty' = ty" using zt_find_col_in [OF Some] cc by auto
      obtain e d where p: "zt_put (zt_live now t) (tab_stride t) s c (le64 v) s =
          Some (e, buf_store (col_offset c) (le64 v) d)" "length d = tab_stride t"
        by (rule zt_put_at [OF assms(1)])
      have "get_word (zt_live now' t') s c = v"
        using assms(6) p sz by (auto simp: live get_word_def live_at_def un_le64_buf_store split: if_splits)
      with 2 same g show ?thesis by simp
    next
      case 3
      then have "\<not> (col' = col \<and> ty' = ty)" using c(1) Some by auto
      moreover have "get_word (zt_live now' t') s c' = get_word (zt_live now' t) s c'"
        using get_word_other_column [OF assms(1) c(1) Some _ assms(4) _ assms(5), of "le64 v" s]
          3 assms(6) sz by (simp add: live)
      ultimately show ?thesis using 3 g by auto
    qed
  qed
qed

section \<open>Properties\<close>


text \<open>A table of the demonstration schema with room for seven rows.\<close>

definition demo_table :: zt_table where
  "demo_table = \<lparr>tab_name = Some [116], tab_cap = 8, tab_keysize = 16,
     tab_cols = fst (zt_columns demo_specs 0), tab_stride = 24, tab_rows = [], tab_count = 0,
     tab_linked = True\<rparr>"

lemma demo_table_fields:
  "tab_cols demo_table = [\<lparr>col_name = [104], col_type = 0, col_size = 8, col_offset = 0\<rparr>,
       \<lparr>col_name = [119], col_type = 2, col_size = 4, col_offset = 8\<rparr>,
       \<lparr>col_name = [120], col_type = 1, col_size = 8, col_offset = 16\<rparr>]"
  "tab_stride demo_table = 24" "tab_rows demo_table = []" "tab_count demo_table = 0" "tab_cap demo_table = 8"
  by (simp_all add: demo_table_def demo_specs_def zt_align8_eq)

lemma demo_table_inv: "zt_inv demo_table"
  by (simp add: zt_inv_def demo_table_fields zt_layout_ok_def zt_col_ok_def ZT_MAX_COLUMNS_def
      ZT_MAX_STRING_def)


text \<open>
  C6. A defect of the row reuse: when \<open>set_int\<close> takes the slot of a deleted or expired row whose
  key is not the given one, it reports success, but the key does not exist afterwards and reads
  as 0, at every later time; the number is found under the key of the deleted row instead, which
  exists again.
\<close>

theorem zan_shared_table_set_int_lost:
  assumes "zt_inv t" "zan_shared_table_set_int now al (Some t) (Some k) col v = (1, Some t')"
    "zt_slot_key (zt_purge_locked t now) k = s" "s \<noteq> k" "now \<le>s now'"
  shows "fst (zan_shared_table_exists now' (Some t') (Some k)) = 0 \<and>
     fst (zan_shared_table_get_int now' (Some t') (Some k) col) = 0 \<and>
     fst (zan_shared_table_exists now (Some t) (Some s)) = 0 \<and>
     fst (zan_shared_table_exists now' (Some t') (Some s)) = 1 \<and>
     fst (zan_shared_table_get_int now' (Some t') (Some s) col) = v"
proof -
  have w: "zt_set_word 0 now al (Some t) (Some k) col v = (1, Some t')"
    using assms(2) by (simp add: zan_shared_table_set_int_def)
  obtain c where c: "zt_find_col t col 0 = Some c"
      "zt_abs t' = zt_put (zt_live now t) (tab_stride t) s c (le64 v)"
    using zt_set_word_spec [OF assms(1) w] assms(3) by auto
  have l: "zt_later t t'" by (rule zt_set_word_later [OF assms(1) w]) simp
  let ?p = "zt_purge_locked t now"
  have inv: "zt_inv ?p" by (rule zt_later_inv [OF zt_purge_later [OF assms(1)]])
  have k: "zt_live now t k = None"
    unfolding zt_abs_purge_fun [OF assms(1), symmetric]
    using zt_slot_key_present [of ?p k] assms(3,4) by metis
  then have s: "zt_live now t s = None"
    using zt_slot_key_absent [OF inv, of k] assms(3) by (simp add: zt_abs_purge_fun [OF assms(1)])
  have ex: "fst (zan_shared_table_exists n (Some u) (Some x)) = (if zt_live n u x = None then 0 else 1)"
    if "zt_inv u" for n u x
    by (simp add: zan_shared_table_exists_def Let_def zt_abs_None flip: zt_abs_purge_fun [OF that])
  have k': "zt_live now' t' k = None"
    using k assms(4) by (simp add: zt_live_put [OF c(2)] zt_put_other live_at_def)
  have s': "zt_live now' t' s \<noteq> None"
    using s by (simp add: zt_live_put [OF c(2)] zt_put_def)
  have "fst (zt_get_word 0 now' (Some t') (Some k) col) = 0"
    using k' c(1) by (simp add: zt_get_word_spec zt_later_inv [OF l] zt_later_find_col [OF l] get_word_def)
  moreover have "fst (zt_get_word 0 now' (Some t') (Some s) col) = v"
    using zt_get_after_set [OF assms(1) w _ _ assms(5) s', of 0 s col] assms(3) by simp
  moreover note ex [OF assms(1), of now s] ex [OF zt_later_inv [OF l], of now' k]
    ex [OF zt_later_inv [OF l], of now' s]
  ultimately show ?thesis
    using k' s' s by (simp only: zan_shared_table_get_int_def if_True if_False simp_thms)
qed

text \<open>The table after key \<open>b\<close> was written and deleted: its row is a tombstone.\<close>

definition demo_reuse :: zt_table where
  "demo_reuse = the (zt_run [SetInt 5 True (Some [98]) [104] 7, Delete 5 (Some [98])] (Some demo_table))"

lemma demo_reuse_run:
  "zt_run [SetInt 5 True (Some [98]) [104] 7, Delete 5 (Some [98])] (Some demo_table) = Some demo_reuse"
  using zt_run_keeps [OF demo_table_inv] unfolding demo_reuse_def tab_later_def by (metis option.sel)

lemma demo_reuse_inv: "zt_inv demo_reuse"
  using zt_run_keeps [OF demo_table_inv, of "[SetInt 5 True (Some [98]) [104] 7, Delete 5 (Some [98])]"]
  by (auto simp: demo_reuse_run dest: zt_later_inv)

lemmas table_eval = zan_shared_table_set_int_def zt_set_word_def Let_def zt_purge_locked_def
  zt_find_col_def zt_row_for_def zt_find_row_def cell_put_def set_row_def row_expired_def row_kill_def
  zan_shared_table_delete_def

lemma demo_reuse_rows:
  "\<exists>r. tab_rows demo_reuse = [r] \<and> \<not> row_alive r \<and> row_key r = [98] \<and> tab_count demo_reuse = 0"
  "tab_cols demo_reuse = tab_cols demo_table" "tab_cap demo_reuse = 8"
  by (simp_all add: demo_reuse_def zt_run_def table_eval demo_table_fields)

theorem zan_shared_table_set_int_lost_witness:
  "\<exists>t'. zan_shared_table_set_int 6 True (Some demo_reuse) (Some [97]) [104] 8 = (1, Some t') \<and>
     fst (zan_shared_table_exists 6 (Some t') (Some [97])) = 0 \<and>
     fst (zan_shared_table_get_int 6 (Some t') (Some [98]) [104]) = 8"
proof -
  obtain r where r: "tab_rows demo_reuse = [r]" "\<not> row_alive r" "row_key r = [98]" "tab_count demo_reuse = 0"
    using demo_reuse_rows(1) by blast
  obtain t' where t': "zan_shared_table_set_int 6 True (Some demo_reuse) (Some [97]) [104] 8 = (1, Some t')"
    using r by (simp add: table_eval demo_table_fields demo_reuse_rows(2,3))
  have "zt_slot_key (zt_purge_locked demo_reuse 6) [97] = [98]"
    using r by (simp add: zt_slot_key_def table_eval)
  then show ?thesis
    using zan_shared_table_set_int_lost [OF demo_reuse_inv t'] t' by auto
qed

end
