(* ===== verification/Shared_Clients.thy ===== *)
theory Shared_Clients
  imports Shared_Map
begin

text \<open>
  The two protocols that the shared table of \<open>crt-transition/zanstubs.c\<close> carries: leases
  (\<open>zan_shared_table_lock_acquire\<close>, \<open>zan_shared_table_lock_release\<close>) and the fixed-window rate
  limiter (\<open>zan_shared_table_rate_allow\<close>). Their effect is stated on the abstract map of the
  table; the guarantees hold for keys whose row is found under its own name, and a reused row
  breaks them.
\<close>

section \<open>Row updates on the map\<close>

lemma first_index_update:
  assumes "i < length xs" "P x = P (xs ! i)"
  shows "first_index P (xs[i := x]) = first_index P xs"
proof (rule option_eqI)
  fix j
  have "P (xs[i := x] ! j') = P (xs ! j')" for j'
    using assms by (cases "j' = i") auto
  then show "first_index P (xs[i := x]) = Some j \<longleftrightarrow> first_index P xs = Some j"
    by (simp add: first_index_Some)
qed

lemma zt_find_row_set_row:
  assumes "i < length (tab_rows t)" "row_alive (f (tab_rows t ! i)) = row_alive (tab_rows t ! i)"
    "row_key (f (tab_rows t ! i)) = row_key (tab_rows t ! i)"
  shows "zt_find_row (set_row i f t) k = zt_find_row t k"
  using assms by (simp add: zt_find_row_def set_row_def first_index_update)

lemma zt_find_row_cell_put [simp]:
  "i < length (tab_rows t) \<Longrightarrow> zt_find_row (cell_put i c bs t) k = zt_find_row t k"
  unfolding cell_put_def by (rule zt_find_row_set_row) auto

lemma cell_put_cols [simp]: "tab_cols (cell_put i c bs t) = tab_cols t"
  by (simp add: cell_put_def set_row_def)

lemma zt_row_for_None: "zt_row_for al t k = (None, t') \<Longrightarrow> t' = t"
  by (auto simp: zt_row_for_def Let_def split: option.splits if_splits)

lemma zt_abs_set_expires:
  assumes "zt_inv t" "zt_find_row t k = Some i" "zt_abs t k = Some (e0, d)"
  shows "zt_abs (set_row i (row_expires_update (\<lambda>_. e)) t) = (zt_abs t)(k \<mapsto> (e, d))"
proof -
  note i = assms(2) [unfolded zt_find_row_iff [OF assms(1)]]
  have "zt_inv (set_row i (row_expires_update (\<lambda>_. e)) t)"
    using i by (intro zt_later_inv [OF set_row_expires_later [OF assms(1)]]) simp
  with i assms show ?thesis
    by (subst zt_abs_set_row [OF assms(1,2)]) (auto simp: row_entry_def zt_abs_def)
qed

lemma zt_abs_put_present:
  assumes "zt_inv t" "zt_find_row t k = Some i" "zt_abs t k = Some (e, d)" "c \<in> set (tab_cols t)"
    "length bs \<le> col_size c"
  shows "zt_abs (cell_put i c bs t) = (zt_abs t)(k \<mapsto> (e, buf_store (col_offset c) bs d))"
  using zt_abs_cell_put [OF assms(1,2,4,5)] assms(3) by (simp add: zt_put_def)

text \<open>An \<open>int\<close> column found by name takes eight bytes inside the row.\<close>

lemma int_col:
  assumes "zt_inv t" "zt_find_col t n 0 = Some c"
  shows "c \<in> set (tab_cols t)" "col_size c = 8" "col_offset c + 8 \<le> tab_stride t" "col_name c = n"
  using zt_find_col_in [OF assms(2)] zt_col_bounds [OF assms(1), of c] by auto

lemma zt_purge_fields [simp]:
  "tab_stride (zt_purge_locked t now) = tab_stride t" "tab_cap (zt_purge_locked t now) = tab_cap t"
  by (simp_all add: zt_purge_locked_def)

section \<open>Leases\<close>

definition eff_time :: "i64 \<Rightarrow> i64 \<Rightarrow> i64" where
  "eff_time now nm = (if nm <s 0 then now else nm)"

text \<open>A granted lease is a new row of the map; a refusal only expires rows.\<close>

lemma zt_lock_acquire_granted:
  assumes "zt_inv t" "zan_shared_table_lock_acquire now al (Some t) (Some k) owner nm lease = (1, Some t')"
    and "tm = eff_time now nm" "s = zt_slot_key (zt_purge_locked t tm) k"
  shows "\<exists>oc. zt_find_col t col_owner 0 = Some oc \<and> zt_live tm t k = None \<and> zt_live tm t s = None \<and>
     owner \<noteq> 0 \<and> 0 <s lease \<and> sint tm + sint lease \<le> i64_max \<and>
     zt_abs t' = (zt_live tm t)(s \<mapsto>
       (tm + lease, buf_store (col_offset oc) (le64 owner) (replicate (tab_stride t) 0)))"
proof -
  let ?p = "zt_purge_locked t tm"
  have inv: "zt_inv ?p" by (rule zt_later_inv [OF zt_purge_later [OF assms(1)]])
  obtain oc where oc: "zt_find_col t col_owner 0 = Some oc" "owner \<noteq> 0" "\<not> lease \<le>s 0"
      "\<not> sint lease > i64_max - sint tm"
    using assms(2) by (auto simp: zan_shared_table_lock_acquire_def Let_def assms(3) eff_time_def
        split: option.splits if_splits)
  then have a: "(case zt_find_row ?p k of Some i \<Rightarrow> (0, Some ?p)
      | None \<Rightarrow> (case zt_row_for al ?p k of (None, t2) \<Rightarrow> (0, Some t2)
        | (Some i, t2) \<Rightarrow> (1, Some (set_row i (row_expires_update (\<lambda>_. tm + lease))
            (cell_put i oc (le64 owner) t2))))) = (1 :: int, Some t')"
    using assms(2) by (simp add: zan_shared_table_lock_acquire_def Let_def flip: assms(3) [unfolded eff_time_def])
  then have none: "zt_find_row ?p k = None" by (auto split: option.splits)
  with a obtain i t2 where r: "zt_row_for al ?p k = (Some i, t2)"
      "t' = set_row i (row_expires_update (\<lambda>_. tm + lease)) (cell_put i oc (le64 owner) t2)"
    by (auto split: option.splits prod.splits)
  have s: "zt_abs ?p k = None" "zt_abs ?p s = None"
    using none zt_slot_key_absent [OF inv, of k] by (auto simp: zt_abs_None assms(4))
  note c = int_col [OF assms(1) oc(1)]
  have l: "zt_later ?p t2" "i < length (tab_rows t2)" using zt_row_for_later [OF inv r(1)] by auto
  have inv2: "zt_inv (cell_put i oc (le64 owner) t2)"
    using l c by (intro zt_later_inv [OF cell_put_later]) (auto simp: zt_later_def)
  have abs2: "zt_abs (cell_put i oc (le64 owner) t2) = (zt_abs ?p)(s \<mapsto>
      (0, buf_store (col_offset oc) (le64 owner) (replicate (tab_stride t) 0)))"
    using zt_abs_put_row [OF inv r(1), of oc "le64 owner"] c s(2) by (simp add: zt_put_def assms(4))
  have "zt_abs t' = (zt_abs ?p)(s \<mapsto>
      (tm + lease, buf_store (col_offset oc) (le64 owner) (replicate (tab_stride t) 0)))"
    using zt_abs_set_expires [OF inv2, of s i 0] zt_abs_row_for(1) [OF inv r(1)] l(2)
    by (simp add: r(2) abs2 assms(4))
  with oc s show ?thesis
    by (auto simp: zt_abs_purge_fun [OF assms(1)] word_sle_eq word_sless_alt)
qed

lemma zt_lock_acquire_refused:
  assumes "zt_inv t" "zan_shared_table_lock_acquire now al (Some t) key owner nm lease = (r, Some t')" "r \<noteq> 1"
  shows "r = 0 \<and> (zt_abs t' = zt_abs t \<or> zt_abs t' = zt_live (eff_time now nm) t)"
  using assms(2,3) zt_abs_purge_fun [OF assms(1)]
  by (auto simp: zan_shared_table_lock_acquire_def Let_def eff_time_def split: option.splits if_splits prod.splits
      dest: zt_row_for_None)

lemma zt_lock_release_spec:
  assumes "zt_inv t" "zan_shared_table_lock_release now (Some t) (Some k) owner = (r, Some t')"
  shows "(if owner \<noteq> 0 \<and> (\<exists>oc. zt_find_col t col_owner 0 = Some oc \<and> zt_live now t k \<noteq> None \<and>
       get_word (zt_live now t) k oc = owner)
     then r = 1 \<and> zt_abs t' = (zt_live now t)(k := None)
     else r = 0 \<and> (zt_abs t' = zt_abs t \<or> zt_abs t' = zt_live now t))"
proof -
  let ?p = "zt_purge_locked t now"
  have inv: "zt_inv ?p" by (rule zt_later_inv [OF zt_purge_later [OF assms(1)]])
  have "get_word (zt_abs ?p) k oc = cell_word ?p i oc" if "zt_find_row ?p k = Some i" for i oc
    using zt_abs_found [OF that] by (simp add: get_word_def row_entry_def cell_word_def)
  then show ?thesis
    using assms(2) zt_abs_kill [OF inv, of k]
    by (auto simp: zan_shared_table_lock_release_def Let_def zt_abs_None split: option.splits if_splits
        simp flip: zt_abs_purge_fun [OF assms(1)])
qed

text \<open>
  A lease held: the row of \<open>k\<close> is present until \<open>deadline\<close> and its owner cell holds \<open>owner\<close>.
\<close>

definition lease_held :: "zt_table \<Rightarrow> cstr \<Rightarrow> i64 \<Rightarrow> i64 \<Rightarrow> bool" where
  "lease_held t k owner deadline \<longleftrightarrow>
     zt_inv t \<and> (\<exists>oc d. zt_find_col t col_owner 0 = Some oc \<and> zt_abs t k = Some (deadline, d) \<and>
       un_le64 (buf_load (col_offset oc) 8 d) = owner)"

text \<open>The lock operations that leave the lease alone: before its deadline, and not its release.\<close>

fun lease_op :: "cstr \<Rightarrow> i64 \<Rightarrow> i64 \<Rightarrow> zt_op \<Rightarrow> bool" where
  "lease_op k owner deadline (LockAcquire now al key ow nm lease) \<longleftrightarrow> eff_time now nm <s deadline"
| "lease_op k owner deadline (LockRelease now key ow) \<longleftrightarrow>
     now <s deadline \<and> \<not> (key = Some k \<and> ow = owner)"
| "lease_op k owner deadline _ \<longleftrightarrow> False"

lemma live_before: "now <s e \<Longrightarrow> live_at now (Some (e, d)) = Some (e, d)"
  by (auto simp: live_at_def word_sle_eq word_sless_alt)

lemma lease_live: "lease_held t k owner deadline \<Longrightarrow> now <s deadline \<Longrightarrow> zt_live now t k = zt_abs t k \<and> zt_abs t k \<noteq> None"
  by (auto simp: lease_held_def zt_live_def live_before)

lemma lease_held_step:
  assumes "lease_held t k owner deadline" "lease_op k owner deadline op"
  shows "\<exists>t'. zt_apply op (Some t) = Some t' \<and> lease_held t' k owner deadline"
proof -
  have inv: "zt_inv t" using assms(1) by (simp add: lease_held_def)
  obtain t' where t': "zt_apply op (Some t) = Some t'" "zt_later t t'"
    using zt_apply_keeps [OF inv, of op] by (auto simp: tab_later_def)
  have keep: "lease_held t' k owner deadline" if "zt_abs t' k = zt_abs t k"
    using assms(1) t'(2) that zt_later_inv [OF t'(2)]
    by (auto simp: lease_held_def zt_later_find_col)
  have "zt_abs t' k = zt_abs t k"
  proof (cases op)
    case (LockAcquire now al key ow nm lease)
    let ?tm = "eff_time now nm"
    have live: "zt_live ?tm t k = zt_abs t k" "zt_abs t k \<noteq> None"
      using lease_live [OF assms(1)] assms(2) LockAcquire by auto
    obtain r where r: "zan_shared_table_lock_acquire now al (Some t) key ow nm lease = (r, Some t')"
      using t'(1) LockAcquire by (cases "zan_shared_table_lock_acquire now al (Some t) key ow nm lease") auto
    show ?thesis
    proof (cases "r = 1")
      case True
      with r obtain k2 where k2: "key = Some k2"
        by (cases key) (auto simp: zan_shared_table_lock_acquire_def)
      have "zt_live ?tm t (zt_slot_key (zt_purge_locked t ?tm) k2) = None"
          "zt_abs t' k = zt_live ?tm t k \<or> k = zt_slot_key (zt_purge_locked t ?tm) k2"
        using zt_lock_acquire_granted [OF inv r [unfolded True k2] refl refl] by auto
      with live show ?thesis by auto
    next
      case False
      with zt_lock_acquire_refused [OF inv r] live show ?thesis by auto
    qed
  next
    case (LockRelease now key ow)
    have live: "zt_live now t k = zt_abs t k"
      using lease_live [OF assms(1)] assms(2) LockRelease by auto
    obtain r where r: "zan_shared_table_lock_release now (Some t) key ow = (r, Some t')"
      using t'(1) LockRelease by (cases "zan_shared_table_lock_release now (Some t) key ow") auto
    show ?thesis
    proof (cases key)
      case None
      with r show ?thesis by (simp add: zan_shared_table_lock_release_def)
    next
      case (Some k2)
      have "k2 = k \<Longrightarrow> ow \<noteq> get_word (zt_live now t) k oc" if "zt_find_col t col_owner 0 = Some oc" for oc
        using assms that live Some LockRelease by (auto simp: lease_held_def get_word_def)
      with zt_lock_release_spec [OF inv r [unfolded Some]] live show ?thesis
        by (cases "k2 = k") (auto split: if_splits)
    qed
  qed (use assms(2) in auto)
  with t'(1) keep show ?thesis by blast
qed

lemma lease_held_run:
  "lease_held t k owner deadline \<Longrightarrow> list_all (lease_op k owner deadline) ops \<Longrightarrow>
   \<exists>t'. zt_run ops (Some t) = Some t' \<and> lease_held t' k owner deadline"
proof (induction ops arbitrary: t)
  case Nil
  then show ?case by (simp add: zt_run_def)
next
  case (Cons op ops)
  then obtain t1 where "zt_apply op (Some t) = Some t1" "lease_held t1 k owner deadline"
    using lease_held_step by fastforce
  with Cons show ?case by (simp add: zt_run_def)
qed

lemma lease_start:
  assumes "zt_inv t" "zan_shared_table_lock_acquire now al (Some t) (Some k) owner nm lease = (1, Some t')"
    "zt_slot_key (zt_purge_locked t (eff_time now nm)) k = k"
  shows "lease_held t' k owner (eff_time now nm + lease)"
proof -
  have l: "zt_later t t'"
    using zan_shared_table_lock_acquire_keeps [OF assms(1), of now al "Some k" owner nm lease] assms(2) by simp
  obtain oc where oc: "zt_find_col t col_owner 0 = Some oc"
      "zt_abs t' k = Some (eff_time now nm + lease,
         buf_store (col_offset oc) (le64 owner) (replicate (tab_stride t) 0))"
    using zt_lock_acquire_granted [OF assms(1,2) refl refl] assms(3) by auto
  then show ?thesis
    using int_col [OF assms(1) oc(1)] zt_later_inv [OF l]
    by (auto simp: lease_held_def zt_later_find_col [OF l] un_le64_buf_store)
qed

lemma lease_refuses:
  assumes "lease_held t k owner deadline" "eff_time now nm <s deadline"
  shows "fst (zan_shared_table_lock_acquire now al (Some t) (Some k) owner' nm lease) = 0"
proof -
  have inv: "zt_inv t" using assms(1) by (simp add: lease_held_def)
  obtain r t' where r: "zan_shared_table_lock_acquire now al (Some t) (Some k) owner' nm lease = (r, Some t')"
    using zan_shared_table_lock_acquire_keeps [OF inv, of now al "Some k" owner' nm lease]
    by (cases "zan_shared_table_lock_acquire now al (Some t) (Some k) owner' nm lease") (auto simp: tab_later_def)
  have "r \<noteq> 1"
    using zt_lock_acquire_granted [OF inv _ refl refl] lease_live [OF assms] r by fastforce
  with zt_lock_acquire_refused [OF inv r] r show ?thesis by simp
qed

lemma lease_released:
  assumes "lease_held t k owner deadline" "now <s deadline" "owner \<noteq> 0"
  shows "fst (zan_shared_table_lock_release now (Some t) (Some k) owner) = 1"
proof -
  have inv: "zt_inv t" using assms(1) by (simp add: lease_held_def)
  obtain r t' where r: "zan_shared_table_lock_release now (Some t) (Some k) owner = (r, Some t')"
    using zan_shared_table_lock_release_keeps [OF inv, of now "Some k" owner]
    by (cases "zan_shared_table_lock_release now (Some t) (Some k) owner") (auto simp: tab_later_def)
  with zt_lock_release_spec [OF inv r] lease_live [OF assms(1,2)] assms(1,3) show ?thesis
    by (auto simp: lease_held_def get_word_def split: if_splits)
qed

section \<open>The lease protocol\<close>


text \<open>A table for leases, with the schema \<open>i:owner;\<close>.\<close>

definition lock_table :: zt_table where
  "lock_table = \<lparr>tab_name = Some [76], tab_cap = 8, tab_keysize = 16,
     tab_cols = [\<lparr>col_name = col_owner, col_type = 0, col_size = 8, col_offset = 0\<rparr>], tab_stride = 8,
     tab_rows = [], tab_count = 0, tab_linked = True\<rparr>"

lemma lock_table_inv: "zt_inv lock_table"
  by (simp add: zt_inv_def lock_table_def zt_layout_ok_def zt_col_ok_def ZT_MAX_COLUMNS_def col_owner_def)


text \<open>
  A defect that follows from the row reuse: the lease protocol grants one lock to two owners.
  In a new table, a lock \<open>b\<close> is taken and released; then \<open>a\<close> is granted to owner 1 from time 10
  for 100 ms, and at time 11 to owner 2 as well.
\<close>

theorem zan_shared_table_lock_double_grant:
  "(case zan_shared_table_lock_acquire 5 True (Some lock_table) (Some [98]) 7 5 100 of (r1, t1) \<Rightarrow>
    case zan_shared_table_lock_release 6 t1 (Some [98]) 7 of (r2, t2) \<Rightarrow>
    case zan_shared_table_lock_acquire 10 True t2 (Some [97]) 1 10 100 of (r3, t3) \<Rightarrow>
      (r1, r2, r3, fst (zan_shared_table_lock_acquire 11 True t3 (Some [97]) 2 11 100))) = (1, 1, 1, 1)"
  by code_simp

section \<open>The rate limiter\<close>

text \<open>The decision of \<open>zt_rate_row\<close> on the data of a row.\<close>

definition rate_entry :: "zt_col \<Rightarrow> zt_col \<Rightarrow> i64 \<Rightarrow> i64 \<Rightarrow> i64 \<Rightarrow> zt_entry \<Rightarrow> int \<times> zt_entry" where
  "rate_entry cc sc tm w limit x =
     (let e = fst x; d = snd x;
          count = un_le64 (buf_load (col_offset cc) 8 d); start = un_le64 (buf_load (col_offset sc) 8 d)
      in if start \<le>s 0 \<or> w \<le>s tm - start then
           (1, (tm + w, buf_store (col_offset sc) (le64 tm) (buf_store (col_offset cc) (le64 1) d)))
         else if count <s limit then (1, (e, buf_store (col_offset cc) (le64 (count + 1)) d))
         else (0, x))"

lemma zt_rate_row_spec:
  assumes "zt_inv t" "zt_find_row t k = Some i" "zt_abs t k = Some x"
    "zt_find_col t col_count 0 = Some cc" "zt_find_col t col_window_start 0 = Some sc"
    "zt_rate_row t i cc sc tm w limit = (r, t')"
  shows "r = fst (rate_entry cc sc tm w limit x) \<and>
    zt_abs t' = (zt_abs t)(k \<mapsto> snd (rate_entry cc sc tm w limit x))"
proof -
  obtain e d where x: "x = (e, d)" by fastforce
  note i = assms(2) [unfolded zt_find_row_iff [OF assms(1)]]
  note cc = int_col [OF assms(1,4)] and sc = int_col [OF assms(1,5)]
  have cw: "cell_word t i c = un_le64 (buf_load (col_offset c) 8 d)" for c
    using zt_abs_found [OF assms(2)] assms(3) by (simp add: x cell_word_def row_entry_def)
  have put: "zt_inv (cell_put i c (le64 v) u) \<and>
      zt_abs (cell_put i c (le64 v) u) = (zt_abs u)(k \<mapsto> (e', buf_store (col_offset c) (le64 v) d'))"
    if "zt_inv u" "zt_find_row u k = Some i" "zt_abs u k = Some (e', d')" "c \<in> set (tab_cols u)" "col_size c = 8"
    for u c v e' d'
    using that zt_abs_put_present [OF that(1-4), of "le64 v"] zt_find_row_iff [OF that(1)]
      zt_later_inv [OF cell_put_later [OF that(1) _ that(4), of i "le64 v"]] by auto
  show ?thesis
  proof (cases "un_le64 (buf_load (col_offset sc) 8 d) \<le>s 0 \<or> w \<le>s tm - un_le64 (buf_load (col_offset sc) 8 d)")
    case True
    let ?u1 = "cell_put i cc (le64 1) t"
    let ?u2 = "cell_put i sc (le64 tm) ?u1"
    note p1 = put [OF assms(1,2) assms(3) [unfolded x] cc(1,2), of 1]
    have p2: "zt_inv ?u2 \<and> zt_abs ?u2 = (zt_abs t)(k \<mapsto>
        (e, buf_store (col_offset sc) (le64 tm) (buf_store (col_offset cc) (le64 1) d)))"
      using put [of ?u1 e "buf_store (col_offset cc) (le64 1) d" sc tm] p1 assms(2) i sc
      by simp
    have "zt_find_row ?u2 k = Some i" using assms(2) i by simp
    then have "zt_abs (set_row i (row_expires_update (\<lambda>_. tm + w)) ?u2) = (zt_abs ?u2)(k \<mapsto>
        (tm + w, buf_store (col_offset sc) (le64 tm) (buf_store (col_offset cc) (le64 1) d)))"
      using p2 by (intro zt_abs_set_expires [of _ _ _ e]) auto
    with p2 True assms(6) show ?thesis
      by (auto simp: x zt_rate_row_def rate_entry_def Let_def cw)
  next
    case False
    with put [OF assms(1,2) assms(3) [unfolded x] cc(1,2)] assms(3,6) show ?thesis
      by (auto simp: x zt_rate_row_def rate_entry_def Let_def cw)
  qed
qed

lemma zt_rate_locked_spec:
  assumes "zt_inv t" "zt_find_col t col_count 0 = Some cc" "zt_find_col t col_window_start 0 = Some sc"
    "zt_rate_locked al t k tm w limit = (r, t')" "m = zt_live tm t" "s = zt_slot_key (zt_purge_locked t tm) k"
  shows "(case m k of
      Some x \<Rightarrow> r = fst (rate_entry cc sc tm w limit x) \<and>
        zt_abs t' = m(k \<mapsto> snd (rate_entry cc sc tm w limit x))
    | None \<Rightarrow> m s = None \<and> (r = 0 \<and> zt_abs t' = m \<or>
        r = 1 \<and> zt_abs t' = m(s \<mapsto> snd (rate_entry cc sc tm w limit (0, replicate (tab_stride t) 0)))))"
proof -
  let ?p = "zt_purge_locked t tm"
  have l: "zt_later t ?p" by (rule zt_purge_later [OF assms(1)])
  then have inv: "zt_inv ?p" by (rule zt_later_inv)
  have m: "zt_abs ?p = m" using zt_abs_purge_fun [OF assms(1)] assms(5) by simp
  show ?thesis
  proof (cases "zt_find_row ?p k")
    case (Some i)
    with assms(2-4) have "zt_rate_row ?p i cc sc tm w limit = (r, t')"
      by (simp add: zt_rate_locked_def Let_def)
    then show ?thesis
      using zt_rate_row_spec [OF inv Some zt_abs_found [OF Some], of cc sc tm w limit r t'] assms(2,3)
        zt_abs_found [OF Some] by (simp add: m)
  next
    case None
    then have mk: "m k = None" "m s = None"
      using zt_slot_key_absent [OF inv, of k] by (auto simp: zt_abs_None assms(6) simp flip: m)
    obtain x t2 where f: "zt_row_for al ?p k = (x, t2)" by fastforce
    show ?thesis
    proof (cases x)
      case None
      with \<open>zt_find_row ?p k = None\<close> f assms(2-4) zt_row_for_None [of al ?p k t2] mk m show ?thesis
        by (simp add: zt_rate_locked_def Let_def)
    next
      case (Some i)
      have l2: "zt_later ?p t2" using zt_row_for_later [OF inv f] by simp
      then have inv2: "zt_inv t2" by (rule zt_later_inv)
      have "zt_rate_row t2 i cc sc tm w limit = (r, t')"
        using f Some \<open>zt_find_row ?p k = None\<close> assms(2-4) by (simp add: zt_rate_locked_def Let_def)
      moreover have a2: "zt_find_row t2 s = Some i" "zt_abs t2 = m(s \<mapsto> (0, replicate (tab_stride t) 0))"
        using zt_abs_row_for [OF inv f [unfolded Some]] mk(1) by (auto simp: assms(6) m)
      moreover have "zt_find_col t2 col_count 0 = Some cc" "zt_find_col t2 col_window_start 0 = Some sc"
        using zt_later_find_col [OF l2] zt_later_find_col [OF l] assms(2,3) by auto
      ultimately have *: "r = fst (rate_entry cc sc tm w limit (0, replicate (tab_stride t) 0)) \<and>
          zt_abs t' = (zt_abs t2)(s \<mapsto> snd (rate_entry cc sc tm w limit (0, replicate (tab_stride t) 0)))"
        using zt_rate_row_spec [OF inv2, of s i "(0, replicate (tab_stride t) 0)"] by simp
      have "fst (rate_entry cc sc tm w limit (0, replicate (tab_stride t) 0)) = 1"
        using int_col(3) [OF assms(1,3)] by (simp add: rate_entry_def buf_simps)
      with * mk a2 show ?thesis by simp
    qed
  qed
qed

text \<open>
  The state of a key inside its window: \<open>n\<close> calls have been counted since \<open>start\<close>.
\<close>

definition rate_state :: "zt_table \<Rightarrow> cstr \<Rightarrow> i64 \<Rightarrow> i64 \<Rightarrow> nat \<Rightarrow> bool" where
  "rate_state t k start w n \<longleftrightarrow>
     zt_inv t \<and> (\<exists>cc sc d. zt_find_col t col_count 0 = Some cc \<and> zt_find_col t col_window_start 0 = Some sc \<and>
       zt_abs t k = Some (start + w, d) \<and> un_le64 (buf_load (col_offset sc) 8 d) = start \<and>
       sint (un_le64 (buf_load (col_offset cc) 8 d)) = int n)"

text \<open>The code refuses a call whose own time plus the window overflows, hence the factor 2.\<close>

definition window_ok :: "i64 \<Rightarrow> i64 \<Rightarrow> bool" where
  "window_ok start w \<longleftrightarrow> 0 < sint start \<and> 0 < sint w \<and> sint start + 2 * sint w \<le> i64_max"

definition in_window :: "i64 \<Rightarrow> i64 \<Rightarrow> i64 \<Rightarrow> bool" where
  "in_window start w tm \<longleftrightarrow> sint start \<le> sint tm \<and> sint tm < sint start + sint w"

fun rate_op :: "cstr \<Rightarrow> i64 \<Rightarrow> i64 \<Rightarrow> i64 \<Rightarrow> zt_op \<Rightarrow> bool" where
  "rate_op k start w limit (RateAllow now al key nm w' l') \<longleftrightarrow>
     in_window start w (eff_time now nm) \<and> (key = Some k \<longrightarrow> w' = w \<and> l' = limit)"
| "rate_op k start w limit _ \<longleftrightarrow> False"

text \<open>The number of calls for \<open>k\<close> in a sequence, and of those that were allowed.\<close>

fun rate_asked :: "cstr \<Rightarrow> zt_op list \<Rightarrow> nat" where
  "rate_asked k [] = 0"
| "rate_asked k (RateAllow now al key nm w l # ops) = (if key = Some k then 1 else 0) + rate_asked k ops"
| "rate_asked k (_ # ops) = rate_asked k ops"

fun rate_allowed :: "cstr \<Rightarrow> zt_op list \<Rightarrow> zt_table option \<Rightarrow> nat" where
  "rate_allowed k [] tab = 0"
| "rate_allowed k (RateAllow now al key nm w l # ops) tab =
     (if key = Some k \<and> fst (zan_shared_table_rate_allow now al tab key nm w l) = 1 then 1 else 0) +
     rate_allowed k ops (snd (zan_shared_table_rate_allow now al tab key nm w l))"
| "rate_allowed k (op # ops) tab = rate_allowed k ops (zt_apply op tab)"

lemma sint_sub_small:
  assumes "0 \<le> sint x" "0 \<le> sint y"
  shows "sint (y - x :: i64) = sint y - sint x"
  using assms sint_i64_range [of x] sint_i64_range [of y]
  by (simp add: sint_word_ariths signed_take_bit_int_eq_self)

lemma window_live:
  assumes "window_ok start w" "in_window start w tm"
  shows "live_at tm (Some (start + w, d)) = Some (start + w, d)"
    and "\<not> start \<le>s 0" "\<not> w \<le>s tm - start"
proof -
  have "sint (start + w) = sint start + sint w"
    using assms(1) by (intro sint_i64_add) (auto simp: window_ok_def)
  then show "live_at tm (Some (start + w, d)) = Some (start + w, d)"
    using assms by (intro live_before) (simp add: in_window_def word_sless_alt)
  show "\<not> start \<le>s 0" using assms(1) by (simp add: window_ok_def word_sle_eq)
  have "sint (tm - start) = sint tm - sint start"
    using assms by (intro sint_sub_small) (auto simp: window_ok_def in_window_def)
  with assms(2) show "\<not> w \<le>s tm - start" by (simp add: word_sle_eq in_window_def)
qed

lemma rate_entry_in_window:
  assumes "zt_inv t" "zt_find_col t col_count 0 = Some cc" "zt_find_col t col_window_start 0 = Some sc"
    "length d = tab_stride t" "un_le64 (buf_load (col_offset sc) 8 d) = start"
    "sint (un_le64 (buf_load (col_offset cc) 8 d)) = int n" "window_ok start w" "in_window start w tm"
  shows "\<exists>d'. rate_entry cc sc tm w limit (start + w, d) =
      (if int n < sint limit then 1 else 0, (start + w, d')) \<and>
    un_le64 (buf_load (col_offset sc) 8 d') = start \<and>
    sint (un_le64 (buf_load (col_offset cc) 8 d')) = int (n + (if int n < sint limit then 1 else 0))"
proof -
  let ?c = "un_le64 (buf_load (col_offset cc) 8 d)"
  note cc = int_col [OF assms(1,2)] and sc = int_col [OF assms(1,3)]
  have ne: "cc \<noteq> sc" using cc(4) sc(4) by (auto simp: col_count_def col_window_start_def)
  let ?d = "buf_store (col_offset cc) (le64 (?c + 1)) d"
  have "buf_load (col_offset sc) 8 ?d = buf_load (col_offset sc) 8 d"
    using cc sc assms(4) by (intro put_other_column [OF assms(1-3) ne]) auto
  moreover have "un_le64 (buf_load (col_offset cc) 8 ?d) = ?c + 1"
    using cc assms(4) by (intro un_le64_buf_store) auto
  moreover have "sint (?c + 1) = int n + 1" if "int n < sint limit"
    using that assms(6) sint_i64_range [of limit] sint_i64_add [of ?c 1] by simp
  ultimately show ?thesis
    using window_live(2,3) [OF assms(7,8)] assms(5,6)
    by (simp add: rate_entry_def Let_def word_sless_alt)
qed

lemma rate_allow_step:
  assumes "rate_state t k start w n" "window_ok start w" "in_window start w (eff_time now nm)"
    "key = Some k \<longrightarrow> w' = w \<and> l' = limit" "0 <s limit"
  shows "\<exists>r t'. zan_shared_table_rate_allow now al (Some t) key nm w' l' = (r, Some t') \<and>
    (if key = Some k then r = (if int n < sint limit then 1 else 0) \<and>
       rate_state t' k start w (n + (if int n < sint limit then 1 else 0))
     else rate_state t' k start w n)"
proof -
  define tm where "tm = eff_time now nm"
  from assms(1) obtain cc sc d where st: "zt_inv t" "zt_find_col t col_count 0 = Some cc"
      "zt_find_col t col_window_start 0 = Some sc" "zt_abs t k = Some (start + w, d)"
      "un_le64 (buf_load (col_offset sc) 8 d) = start" "sint (un_le64 (buf_load (col_offset cc) 8 d)) = int n"
    by (auto simp: rate_state_def)
  have win: "in_window start w tm" using assms(3) by (simp add: tm_def)
  have live: "zt_live tm t k = Some (start + w, d)"
    using window_live(1) [OF assms(2) win] st(4) by (simp add: zt_live_def)
  obtain r t' where r: "zan_shared_table_rate_allow now al (Some t) key nm w' l' = (r, Some t')" "zt_later t t'"
    using zan_shared_table_rate_allow_keeps [OF st(1), of now al key nm w' l']
    by (cases "zan_shared_table_rate_allow now al (Some t) key nm w' l'") (auto simp: tab_later_def)
  have keep: "rate_state t' k start w m" if "zt_abs t' k = Some (start + w, d')"
      "un_le64 (buf_load (col_offset sc) 8 d') = start" "sint (un_le64 (buf_load (col_offset cc) 8 d')) = int m" for d' m
    using that st(2,3) zt_later_inv [OF r(2)] by (auto simp: rate_state_def zt_later_find_col [OF r(2)])
  show ?thesis
  proof (cases "key = Some k")
    case True
    have "\<not> l' \<le>s 0" "\<not> w' \<le>s 0" "\<not> sint w' > i64_max - sint tm"
      using assms(2,4,5) win True by (auto simp: window_ok_def in_window_def word_sle_eq word_sless_alt)
    then have "zt_rate_locked al t k tm w limit = (r, t')"
      using r(1) True assms(4)
      by (simp add: zan_shared_table_rate_allow_def Let_def map_prod_def flip: tm_def [unfolded eff_time_def]
          split: prod.splits)
    from zt_rate_locked_spec [OF st(1-3) this refl refl] live
      rate_entry_in_window [OF st(1-3) zt_abs_length [OF st(1,4)] st(5,6) assms(2) win, of limit]
    show ?thesis using True r(1) keep by auto
  next
    case False
    have "zt_abs t' k = Some (start + w, d)"
    proof (cases "\<exists>k2. key = Some k2 \<and> \<not> l' \<le>s 0 \<and> \<not> w' \<le>s 0 \<and> \<not> sint w' > i64_max - sint tm")
      case True
      then obtain k2 where k2: "key = Some k2" "zt_rate_locked al t k2 tm w' l' = (r, t')"
        using r(1) by (auto simp: zan_shared_table_rate_allow_def Let_def map_prod_def
            simp flip: tm_def [unfolded eff_time_def] split: prod.splits)
      with False zt_rate_locked_spec [OF st(1-3) k2(2) refl refl] live show ?thesis
        by (auto split: option.splits)
    next
      case no: False
      then have "t' = t"
        using r(1) by (auto simp: zan_shared_table_rate_allow_def Let_def
            simp flip: tm_def [unfolded eff_time_def] split: option.splits if_splits)
      with st(4) show ?thesis by simp
    qed
    with False r(1) keep st(5,6) show ?thesis by auto
  qed
qed

lemma rate_allowed_count:
  "rate_state t k start w n \<Longrightarrow> list_all (rate_op k start w limit) ops \<Longrightarrow> window_ok start w \<Longrightarrow> 0 <s limit \<Longrightarrow>
   rate_allowed k ops (Some t) = min (rate_asked k ops) (nat (sint limit) - n)"
proof (induction ops arbitrary: t n)
  case Nil
  then show ?case by simp
next
  case (Cons op ops)
  then obtain now al key nm w' l' where op: "op = RateAllow now al key nm w' l'"
    by (cases op) auto
  with Cons.prems have o: "in_window start w (eff_time now nm)" "key = Some k \<longrightarrow> w' = w \<and> l' = limit" by auto
  obtain r t' where r: "zan_shared_table_rate_allow now al (Some t) key nm w' l' = (r, Some t')"
    "if key = Some k then r = (if int n < sint limit then 1 else 0) \<and>
       rate_state t' k start w (n + (if int n < sint limit then 1 else 0))
     else rate_state t' k start w n"
    using rate_allow_step [OF Cons.prems(1,3) o Cons.prems(4), of al] by blast
  with op Cons.prems Cons.IH [of t'] show ?case
    by (cases "key = Some k"; cases "int n < sint limit") auto
qed

text \<open>The first call for an absent key opens a window.\<close>

lemma rate_first_call:
  assumes "zt_inv t" "zan_shared_table_rate_allow now al (Some t) (Some k) nm w limit = (1, Some t')" "0 <s limit"
    "tm = eff_time now nm" "fst (zan_shared_table_exists tm (Some t) (Some k)) = 0"
    "zt_slot_key (zt_purge_locked t tm) k = k"
  shows "rate_state t' k tm w 1"
proof -
  have lim: "\<not> limit \<le>s 0" using assms(3) by (simp add: word_sle_eq word_sless_alt)
  have l: "zt_later t t'"
    using zan_shared_table_rate_allow_keeps [OF assms(1), of now al "Some k" nm w limit] assms(2) by simp
  have none: "zt_live tm t k = None"
    using assms(5) by (auto simp: zan_shared_table_exists_def Let_def zt_abs_None
        simp flip: zt_abs_purge_fun [OF assms(1)] split: if_splits)
  have lk: "zt_rate_locked al t k tm w limit = (1, t')"
    using assms(2) lim
    by (auto simp: zan_shared_table_rate_allow_def Let_def map_prod_def assms(4) eff_time_def
        split: prod.splits if_splits)
  then obtain cc sc where c: "zt_find_col t col_count 0 = Some cc" "zt_find_col t col_window_start 0 = Some sc"
    by (auto simp: zt_rate_locked_def split: option.splits)
  note cc = int_col [OF assms(1) c(1)] and sc = int_col [OF assms(1) c(2)]
  let ?z = "replicate (tab_stride t) (0 :: u8)"
  let ?d = "buf_store (col_offset sc) (le64 tm) (buf_store (col_offset cc) (le64 1) ?z)"
  have ne: "sc \<noteq> cc" using cc(4) sc(4) by (auto simp: col_count_def col_window_start_def)
  have len: "length (buf_store (col_offset cc) (le64 1) ?z) = tab_stride t"
    using cc by (simp add: buf_simps)
  have "zt_abs t' = (zt_live tm t)(k \<mapsto> snd (rate_entry cc sc tm w limit (0, ?z)))"
    using zt_rate_locked_spec [OF assms(1) c lk refl refl] none assms(6) by simp
  moreover have "snd (rate_entry cc sc tm w limit (0, ?z)) = (tm + w, ?d)"
    using sc by (simp add: rate_entry_def buf_simps)
  moreover have "un_le64 (buf_load (col_offset sc) 8 ?d) = tm"
    using sc len by (intro un_le64_buf_store) auto
  moreover have "buf_load (col_offset cc) 8 ?d = buf_load (col_offset cc) 8 (buf_store (col_offset cc) (le64 1) ?z)"
    using cc sc len by (intro put_other_column [OF assms(1) c(2,1) ne]) auto
  moreover have "un_le64 (buf_load (col_offset cc) 8 (buf_store (col_offset cc) (le64 1) ?z)) = 1"
    using cc by (intro un_le64_buf_store) auto
  ultimately show ?thesis
    using c zt_later_inv [OF l] by (simp add: rate_state_def zt_later_find_col [OF l])
qed

section \<open>The rate limiter's guarantee\<close>


text \<open>A table for the limiter, with the schema \<open>i:count;i:window_start;\<close>.\<close>

definition rate_table :: zt_table where
  "rate_table = \<lparr>tab_name = Some [76], tab_cap = 8, tab_keysize = 16,
     tab_cols = [\<lparr>col_name = col_count, col_type = 0, col_size = 8, col_offset = 0\<rparr>,
       \<lparr>col_name = col_window_start, col_type = 0, col_size = 8, col_offset = 8\<rparr>], tab_stride = 16,
     tab_rows = [], tab_count = 0, tab_linked = True\<rparr>"

lemma rate_table_inv: "zt_inv rate_table"
  by (simp add: zt_inv_def rate_table_def zt_layout_ok_def zt_col_ok_def ZT_MAX_COLUMNS_def
      col_count_def col_window_start_def)

definition rate_calls :: "zt_op list" where
  "rate_calls = [RateAllow 11 True (Some [97]) 11 100 2, RateAllow 12 True (Some [98]) 12 50 1,
     RateAllow 13 True (Some [97]) 13 100 2]"


end
