(* ===== verification/Hash_Stream.thy ===== *)
theory Hash_Stream
  imports Zan_Prelude
begin

text \<open>
  The block buffering that the digests of \<open>crt-transition/linux/zanlinuxshims.c\<close> and
  \<open>crt-transition/zanstubs.c\<close> share: cutting a message into blocks, the streaming \<open>feed\<close> and
  \<open>done\<close> of the \<open>zan_md5\<close> and \<open>zan_sha32\<close> structures (the two are the same code around different
  compression functions), and the one-shot loop of \<open>zan_sha256\<close> and \<open>zan_sha512\<close>. The contract
  of a streaming digest is the locale \<open>stream_digest\<close>.
\<close>

section \<open>Blocks of a message\<close>

function full_blocks :: "nat \<Rightarrow> u8 list \<Rightarrow> u8 list list" where
  "full_blocks B m = (if B = 0 \<or> length m < B then [] else take B m # full_blocks B (drop B m))"
  by pat_completeness auto
termination by (relation "measure (\<lambda>(B, m). length m)") auto

function rest_of :: "nat \<Rightarrow> u8 list \<Rightarrow> u8 list" where
  "rest_of B m = (if B = 0 \<or> length m < B then m else rest_of B (drop B m))"
  by pat_completeness auto
termination by (relation "measure (\<lambda>(B, m). length m)") auto

declare full_blocks.simps [simp del] rest_of.simps [simp del]

lemma full_blocks_short: "length m < B \<Longrightarrow> full_blocks B m = [] \<and> rest_of B m = m"
  by (simp add: full_blocks.simps [of B m] rest_of.simps [of B m])

lemma full_blocks_step:
  "length b = B \<Longrightarrow> 0 < B \<Longrightarrow> full_blocks B (b @ m) = b # full_blocks B m \<and> rest_of B (b @ m) = rest_of B m"
  by (simp add: full_blocks.simps [of B "b @ m"] rest_of.simps [of B "b @ m"])

lemma full_blocks_append:
  "full_blocks B (m @ d) = full_blocks B m @ full_blocks B (rest_of B m @ d)"
  "rest_of B (m @ d) = rest_of B (rest_of B m @ d)"
proof (induction B m rule: full_blocks.induct)
  case (1 B m)
  show "full_blocks B (m @ d) = full_blocks B m @ full_blocks B (rest_of B m @ d)"
    "rest_of B (m @ d) = rest_of B (rest_of B m @ d)"
  proof -
    consider "B = 0 \<or> length m < B" | "\<not> (B = 0 \<or> length m < B)" by blast
    then have "full_blocks B (m @ d) = full_blocks B m @ full_blocks B (rest_of B m @ d) \<and>
      rest_of B (m @ d) = rest_of B (rest_of B m @ d)"
    proof cases
      case 1
      then show ?thesis by (simp add: full_blocks.simps [of B m] rest_of.simps [of B m])
    next
      case 2
      with "1.IH" show ?thesis
        by (simp add: full_blocks.simps [of B m] rest_of.simps [of B m] full_blocks.simps [of B "m @ d"]
            rest_of.simps [of B "m @ d"])
    qed
    then show "full_blocks B (m @ d) = full_blocks B m @ full_blocks B (rest_of B m @ d)"
      "rest_of B (m @ d) = rest_of B (rest_of B m @ d)" by blast+
  qed
qed

lemma rest_of_length: "0 < B \<Longrightarrow> length (rest_of B m) = length m mod B"
proof (induction B m rule: rest_of.induct)
  case (1 B m)
  then show ?case by (cases "length m < B") (simp_all add: rest_of.simps [of B m] le_mod_geq)
qed

section \<open>The streaming state\<close>

text \<open>
  \<open>struct zan_md5\<close> and \<open>struct zan_sha32\<close>: the chaining value, the message length in bytes, and
  the buffer of 64 bytes of which the first \<open>bl\<close> are pending.
\<close>

record 'h hstream =
  hs_h :: 'h
  hs_len :: u64
  hs_bl :: nat
  hs_buf :: "u8 list"

text \<open>
  The loop of \<open>zan_md5_feed\<close> and \<open>zan_sha32_feed\<close>. The test \<open>64 \<le> bl\<close> is for termination only:
  \<open>bl\<close> stays below 64 (\<open>feed_loop_spec\<close>).
\<close>

function feed_loop :: "('h \<Rightarrow> u8 list \<Rightarrow> 'h) \<Rightarrow> 'h hstream \<Rightarrow> u8 list \<Rightarrow> 'h hstream" where
  "feed_loop f x p =
     (if p = [] \<or> 64 \<le> hs_bl x then x
      else if hs_bl x = 0 \<and> 64 \<le> length p
      then feed_loop f (x\<lparr>hs_h := f (hs_h x) (take 64 p)\<rparr>) (drop 64 p)
      else let n = min (64 - hs_bl x) (length p);
               x1 = x\<lparr>hs_buf := buf_store (hs_bl x) (take n p) (hs_buf x), hs_bl := hs_bl x + n\<rparr>;
               x2 = (if hs_bl x1 = 64 then x1\<lparr>hs_h := f (hs_h x1) (hs_buf x1), hs_bl := 0\<rparr> else x1)
           in feed_loop f x2 (drop n p))"
  by pat_completeness auto
termination by (relation "measure (\<lambda>(f, x, p). length p)") auto

declare feed_loop.simps [simp del]

definition stream_feed :: "('h \<Rightarrow> u8 list \<Rightarrow> 'h) \<Rightarrow> 'h hstream \<Rightarrow> u8 list \<Rightarrow> 'h hstream" where
  "stream_feed f x data = feed_loop f (x\<lparr>hs_len := hs_len x + of_nat (length data)\<rparr>) data"

definition hs_wf :: "'h hstream \<Rightarrow> bool" where
  "hs_wf x \<longleftrightarrow> hs_bl x < 64 \<and> length (hs_buf x) = 64"

definition pending :: "'h hstream \<Rightarrow> u8 list" where
  "pending x = take (hs_bl x) (hs_buf x)"

lemma feed_loop_spec:
  "hs_wf x \<Longrightarrow> hs_wf (feed_loop f x p) \<and>
     hs_h (feed_loop f x p) = foldl f (hs_h x) (full_blocks 64 (pending x @ p)) \<and>
     pending (feed_loop f x p) = rest_of 64 (pending x @ p) \<and>
     hs_len (feed_loop f x p) = hs_len x"
proof (induction f x p rule: feed_loop.induct)
  case (1 f x p)
  note bl = "1.prems" [unfolded hs_wf_def]
  show ?case
  proof (cases "p = []")
    case True
    with bl show ?thesis
      by (simp add: feed_loop.simps [of f x "[]"] full_blocks_short pending_def hs_wf_def)
  next
    case ne: False
    show ?thesis
    proof (cases "hs_bl x = 0 \<and> 64 \<le> length p")
      case True
      let ?x = "x\<lparr>hs_h := f (hs_h x) (take 64 p)\<rparr>"
      have pd: "pending x = []" "pending ?x = []" using True by (simp_all add: pending_def)
      have fb: "full_blocks 64 p = take 64 p # full_blocks 64 (drop 64 p)" "rest_of 64 p = rest_of 64 (drop 64 p)"
        using True by (simp_all add: full_blocks.simps [of 64 p] rest_of.simps [of 64 p])
      have "feed_loop f x p = feed_loop f ?x (drop 64 p)"
        using True ne by (simp add: feed_loop.simps [of f x p])
      moreover have "hs_wf ?x" using "1.prems" by (simp add: hs_wf_def)
      ultimately show ?thesis
        using "1.IH"(1) True ne bl by (simp add: pd fb)
    next
      case False
      define n where "n = min (64 - hs_bl x) (length p)"
      define x1 where "x1 = x\<lparr>hs_buf := buf_store (hs_bl x) (take n p) (hs_buf x), hs_bl := hs_bl x + n\<rparr>"
      define x2 where "x2 = (if hs_bl x1 = 64 then x1\<lparr>hs_h := f (hs_h x1) (hs_buf x1), hs_bl := 0\<rparr> else x1)"
      have step: "feed_loop f x p = feed_loop f x2 (drop n p)"
        using False ne bl by (subst feed_loop.simps) (auto simp: n_def x1_def x2_def Let_def)
      have len: "length (hs_buf x1) = 64"
        using bl by (simp add: x1_def n_def buf_simps min_def)
      have take1: "take (hs_bl x + n) (hs_buf x1) = pending x @ take n p"
        using bl by (auto simp: x1_def n_def pending_def buf_store_def min_def)
      have wf2: "hs_wf x2"
        using bl len by (auto simp: hs_wf_def x2_def x1_def n_def)
      note IH = "1.IH"(2) [OF _ False n_def x1_def x2_def wf2]
      show ?thesis
      proof (cases "hs_bl x + n = 64")
        case True
        then have x2: "pending x2 = []" "hs_h x2 = f (hs_h x) (pending x @ take n p)" "hs_len x2 = hs_len x"
          using take1 len by (auto simp: x2_def x1_def pending_def)
        have "length (pending x @ take n p) = 64"
          using True bl by (auto simp: pending_def n_def)
        then have "full_blocks 64 (pending x @ p) = (pending x @ take n p) # full_blocks 64 (drop n p)"
          "rest_of 64 (pending x @ p) = rest_of 64 (drop n p)"
          using full_blocks_step [of "pending x @ take n p" 64 "drop n p"] by simp_all
        with IH ne bl x2 show ?thesis by (simp add: step)
      next
        case lt: False
        then have n: "n = length p" "hs_bl x + n < 64" using bl by (auto simp: n_def min_def split: if_splits)
        then have x2: "pending x2 = pending x @ p" "hs_h x2 = hs_h x" "hs_len x2 = hs_len x"
          using take1 lt by (auto simp: x2_def x1_def pending_def)
        have "length (pending x @ p) < 64" using n bl by (simp add: pending_def)
        with x2 n wf2 show ?thesis
          by (simp add: step feed_loop.simps [of f x2 "[]"] full_blocks_short)
      qed
    qed
  qed
qed

section \<open>What a stream has absorbed\<close>

text \<open>\<open>absorbed f h0 x m\<close>: the state \<open>x\<close> is the initial value \<open>h0\<close> after the message \<open>m\<close>.\<close>

definition absorbed :: "('h \<Rightarrow> u8 list \<Rightarrow> 'h) \<Rightarrow> 'h \<Rightarrow> 'h hstream \<Rightarrow> u8 list \<Rightarrow> bool" where
  "absorbed f h0 x m \<longleftrightarrow>
     hs_wf x \<and> hs_h x = foldl f h0 (full_blocks 64 m) \<and> pending x = rest_of 64 m \<and>
     hs_len x = of_nat (length m)"

lemma absorbed_feed: "absorbed f h0 x m \<Longrightarrow> absorbed f h0 (stream_feed f x d) (m @ d)"
  using feed_loop_spec [of "x\<lparr>hs_len := hs_len x + of_nat (length d)\<rparr>" f d] full_blocks_append [of 64 m d]
  by (auto simp: absorbed_def stream_feed_def hs_wf_def pending_def)

lemma absorbed_bl: "absorbed f h0 x m \<Longrightarrow> hs_bl x = length m mod 64"
  using rest_of_length [of 64 m] by (auto simp: absorbed_def hs_wf_def pending_def dest!: arg_cong [of _ _ length])

section \<open>Padding\<close>

text \<open>
  The loop \<open>while (x->bl != 56)\<close> of the two \<open>done\<close> functions. It feeds zero bytes; again the test
  \<open>64 \<le> bl\<close> is never true.
\<close>

lemma feed_loop_one:
  assumes "hs_bl x < 64"
  shows "feed_loop f x [b] =
    (let x1 = x\<lparr>hs_buf := buf_store (hs_bl x) [b] (hs_buf x), hs_bl := hs_bl x + 1\<rparr>
     in if hs_bl x = 63 then x1\<lparr>hs_h := f (hs_h x1) (hs_buf x1), hs_bl := 0\<rparr> else x1)"
proof -
  have n: "min (64 - hs_bl x) (length [b]) = 1" using assms by simp
  have nil: "feed_loop f y [] = y" for y by (simp add: feed_loop.simps [of f y "[]"])
  show ?thesis
    unfolding feed_loop.simps [of f x "[b]"] n using assms by (simp add: nil Let_def)
qed

lemma feed_zero_bl:
  assumes "hs_bl x < 64"
  shows "hs_bl (stream_feed f x [0]) = (if hs_bl x = 63 then 0 else hs_bl x + 1)"
  using assms by (simp add: stream_feed_def feed_loop_one Let_def)

function pad_loop :: "('h \<Rightarrow> u8 list \<Rightarrow> 'h) \<Rightarrow> 'h hstream \<Rightarrow> 'h hstream" where
  "pad_loop f x = (if hs_bl x = 56 \<or> 64 \<le> hs_bl x then x else pad_loop f (stream_feed f x [0]))"
  by pat_completeness auto
termination
  by (relation "measure (\<lambda>(f, x). if hs_bl x \<le> 56 then 56 - hs_bl x else 120 - hs_bl x)")
    (auto simp: feed_zero_bl)

declare pad_loop.simps [simp del]

text \<open>The number of zero bytes from a position to the next one that is 56 modulo 64.\<close>

definition zeros_to :: "nat \<Rightarrow> nat \<Rightarrow> nat \<Rightarrow> nat" where
  "zeros_to B t n = (if n mod B \<le> t then t - n mod B else t + B - n mod B)"

lemma zeros_to_step: "n mod 64 \<noteq> 56 \<Longrightarrow> zeros_to 64 56 n = Suc (zeros_to 64 56 (Suc n))"
proof -
  assume *: "n mod 64 \<noteq> 56"
  have "Suc n mod 64 = (if n mod 64 = 63 then 0 else Suc (n mod 64))"
    by (simp add: mod_Suc)
  moreover have "n mod 64 < 64" by simp
  ultimately show ?thesis using * unfolding zeros_to_def by (cases "n mod 64 = 63") auto
qed

lemma pad_loop_absorbed:
  "absorbed f h0 x m \<Longrightarrow> absorbed f h0 (pad_loop f x) (m @ replicate (zeros_to 64 56 (length m)) 0)"
proof (induction f x arbitrary: m rule: pad_loop.induct)
  case (1 f x m)
  note bl = absorbed_bl [OF "1.prems"]
  show ?case
  proof (cases "hs_bl x = 56")
    case True
    with bl "1.prems" show ?thesis by (simp add: pad_loop.simps [of f x] zeros_to_def)
  next
    case False
    have lt: "\<not> (hs_bl x = 56 \<or> 64 \<le> hs_bl x)" using False bl by simp
    have "zeros_to 64 56 (length m) = Suc (zeros_to 64 56 (length (m @ [0])))"
      using False bl zeros_to_step [of "length m"] by simp
    with "1.IH" [OF lt absorbed_feed [OF "1.prems", of "[0]"]] lt show ?thesis
      by (simp add: pad_loop.simps [of f x])
  qed
qed

text \<open>
  The padded message: a 1 bit, zeros up to the length field at \<open>t\<close> modulo the block size, \<open>z\<close>
  more zeros, and the length in bits. MD5, SHA-1 and SHA-256 have \<open>B = 64\<close>, \<open>t = 56\<close>, \<open>z = 0\<close>;
  SHA-512 has \<open>B = 128\<close>, \<open>t = 112\<close>, \<open>z = 8\<close> (the high half of its 128-bit length).
\<close>

definition pad_msg :: "nat \<Rightarrow> nat \<Rightarrow> nat \<Rightarrow> (u64 \<Rightarrow> u8 list) \<Rightarrow> u8 list \<Rightarrow> u8 list" where
  "pad_msg B t z enc m =
     m @ [128] @ replicate (zeros_to B t (length m + 1)) 0 @ replicate z 0 @ enc (of_nat (length m) * 8)"

definition hash_blocks :: "('h \<Rightarrow> u8 list \<Rightarrow> 'h) \<Rightarrow> 'h \<Rightarrow> nat \<Rightarrow> u8 list \<Rightarrow> 'h" where
  "hash_blocks f h0 B m = foldl f h0 (full_blocks B m)"

text \<open>The state after the tail of \<open>done\<close>: the \<open>bits\<close> of the length are taken before padding.\<close>

definition stream_done :: "('h \<Rightarrow> u8 list \<Rightarrow> 'h) \<Rightarrow> (u64 \<Rightarrow> u8 list) \<Rightarrow> 'h hstream \<Rightarrow> 'h hstream" where
  "stream_done f enc x =
     (let bits = hs_len x * 8 in stream_feed f (pad_loop f (stream_feed f x [128])) (enc bits))"

lemma stream_done_spec:
  assumes "absorbed f h0 x m"
  shows "hs_h (stream_done f enc x) = hash_blocks f h0 64 (pad_msg 64 56 0 enc m)"
proof -
  have "absorbed f h0 (stream_done f enc x) (pad_msg 64 56 0 enc m)"
    using absorbed_feed [OF pad_loop_absorbed [OF absorbed_feed [OF assms, of "[128]"]], of "enc (hs_len x * 8)"]
      assms by (simp add: stream_done_def pad_msg_def Let_def absorbed_def)
  then show ?thesis by (simp add: absorbed_def hash_blocks_def)
qed

section \<open>The contract of a streaming digest\<close>

text \<open>
  What \<open>CCHmac\<close> and the one-call digests rely on: start states, \<open>feed\<close>, and a \<open>finish\<close> that
  gives the digest of all that was fed. \<open>holds s m\<close> relates a state to the message fed so far.
\<close>

locale stream_digest =
  fixes starts :: "'s \<Rightarrow> bool"
    and feed :: "'s \<Rightarrow> u8 list \<Rightarrow> 's"
    and finish :: "'s \<Rightarrow> u8 list"
    and holds :: "'s \<Rightarrow> u8 list \<Rightarrow> bool"
    and hash :: "u8 list \<Rightarrow> u8 list"
  assumes holds_start: "starts s \<Longrightarrow> holds s []"
    and holds_feed: "holds s m \<Longrightarrow> holds (feed s d) (m @ d)"
    and finish_holds: "holds s m \<Longrightarrow> finish s = hash m"
begin

lemma holds_chunks: "holds s m \<Longrightarrow> holds (foldl feed s ds) (m @ concat ds)"
proof (induction ds arbitrary: s m)
  case (Cons d ds)
  show ?case using Cons.IH [OF holds_feed [OF Cons.prems, of d]] by simp
qed simp

text \<open>How the message was cut does not matter.\<close>

lemma finish_chunks: "starts s \<Longrightarrow> finish (foldl feed s ds) = hash (concat ds)"
  using finish_holds [OF holds_chunks [OF holds_start]] by simp

lemma finish_one: "starts s \<Longrightarrow> finish (feed s d) = hash d"
  using finish_chunks [of s "[d]"] by simp

lemma finish_two: "starts s \<Longrightarrow> finish (feed (feed s a) b) = hash (a @ b)"
  using finish_chunks [of s "[a, b]"] by simp

text \<open>The nested construction of \<open>CCHmac\<close>.\<close>

lemma finish_nested:
  "starts s \<Longrightarrow> starts s' \<Longrightarrow>
   finish (feed (feed s' b) (finish (feed (feed s a) d))) = hash (b @ hash (a @ d))"
  by (simp add: finish_two)

end

section \<open>The one-shot loop\<close>

text \<open>
  \<open>zan_sha256\<close> and \<open>zan_sha512\<close>: the whole blocks in place, then a tail block on the stack. \<open>B\<close>
  is the block size, \<open>t\<close> the last position after which the length no longer fits, \<open>l\<close> the offset
  of the eight length bytes that are written.
\<close>

function oneshot_blocks :: "('h \<Rightarrow> u8 list \<Rightarrow> 'h) \<Rightarrow> nat \<Rightarrow> u8 list \<Rightarrow> nat \<Rightarrow> 'h \<Rightarrow> 'h \<times> nat" where
  "oneshot_blocks f B msg off h =
     (if 0 < B \<and> off + B \<le> length msg
      then oneshot_blocks f B msg (off + B) (f h (take B (drop off msg))) else (h, off))"
  by pat_completeness auto
termination by (relation "measure (\<lambda>(f, B, msg, off, h). length msg - off)") auto

declare oneshot_blocks.simps [simp del]

definition oneshot ::
    "('h \<Rightarrow> u8 list \<Rightarrow> 'h) \<Rightarrow> nat \<Rightarrow> nat \<Rightarrow> nat \<Rightarrow> (u64 \<Rightarrow> u8 list) \<Rightarrow> 'h \<Rightarrow> u8 list \<Rightarrow> 'h" where
  "oneshot f B t l enc h0 msg =
     (case oneshot_blocks f B msg 0 h0 of
        (h, off) \<Rightarrow>
          let tail = drop off msg;
              block = tail @ [128];
              bits = of_nat (length msg) * 8
          in if length block > t
             then f (f h (block @ replicate (B - length block) 0)) (replicate l 0 @ enc bits)
             else f h (block @ replicate (l - length block) 0 @ enc bits))"

lemma oneshot_blocks_spec:
  "0 < B \<Longrightarrow> off \<le> length msg \<Longrightarrow> fst (oneshot_blocks f B msg off h) = foldl f h (full_blocks B (drop off msg)) \<and>
     drop (snd (oneshot_blocks f B msg off h)) msg = rest_of B (drop off msg)"
proof (induction f B msg off h rule: oneshot_blocks.induct)
  case (1 f B msg off h)
  show ?case
  proof (cases "off + B \<le> length msg")
    case True
    then have "\<not> length (drop off msg) < B" by simp
    with True "1.IH" "1.prems" show ?thesis
      by (simp add: oneshot_blocks.simps [of f B msg off h] full_blocks.simps [of B "drop off msg"]
          rest_of.simps [of B "drop off msg"] add.commute del: length_drop)
  next
    case False
    with "1.prems" have "length (drop off msg) < B" by simp
    with False show ?thesis
      by (simp add: oneshot_blocks.simps [of f B msg off h] full_blocks_short del: length_drop)
  qed
qed

lemma oneshot_spec:
  assumes "0 < B" "t + z + 8 = B" "l = t + z" "\<And>w. length (enc w) = 8"
  shows "oneshot f B t l enc h0 m = hash_blocks f h0 B (pad_msg B t z enc m)"
proof -
  obtain h off where ob: "oneshot_blocks f B m 0 h0 = (h, off)" by fastforce
  define r where "r = rest_of B m"
  have h: "h = foldl f h0 (full_blocks B m)" "drop off m = r"
    using oneshot_blocks_spec [of B 0 m f h0] assms(1) ob by (auto simp: r_def)
  have r: "length r = length m mod B" "length r < B" using rest_of_length assms(1) by (auto simp: r_def)
  let ?e = "enc (of_nat (length m) * 8)"
  define k where "k = zeros_to B t (length m + 1)"
  have pad: "full_blocks B (pad_msg B t z enc m) =
      full_blocks B m @ full_blocks B (r @ [128] @ replicate k 0 @ replicate z 0 @ ?e)"
    unfolding pad_msg_def r_def k_def by (rule full_blocks_append(1))
  have m1: "(length m + 1) mod B = (if length r + 1 = B then 0 else length r + 1)"
    using r by (auto simp: mod_Suc)
  show ?thesis
  proof (cases "length r + 1 > t")
    case True
    have "k = (if length r + 1 = B then t else t + B - (length r + 1))"
      using True assms(1,2) r unfolding k_def zeros_to_def m1 by auto
    then have n: "k = (B - (length r + 1)) + t" using True r by auto
    let ?b1 = "r @ [128] @ replicate (B - (length r + 1)) 0" and ?b2 = "replicate l 0 @ ?e"
    have "r @ [128] @ replicate k 0 @ replicate z 0 @ ?e = ?b1 @ ?b2"
      by (simp add: n replicate_add assms(3))
    moreover have len: "length ?b1 = B" "length ?b2 = B"
      using r(2) assms by auto
    have "full_blocks B (?b1 @ ?b2) = [?b1, ?b2]"
      using full_blocks_step [OF len(1) assms(1), of ?b2] full_blocks_step [OF len(2) assms(1), of "[]"]
        full_blocks_short [of "[]" B] assms(1) by simp
    ultimately have "full_blocks B (r @ [128] @ replicate k 0 @ replicate z 0 @ ?e) = [?b1, ?b2]"
      by (simp only:)
    with True show ?thesis
      by (simp add: oneshot_def ob h hash_blocks_def pad Let_def del: length_drop)
  next
    case False
    then have n: "k = t - (length r + 1)"
      using assms(1,2) r unfolding k_def zeros_to_def m1 by auto
    have "length (r @ [128] @ replicate k 0 @ replicate z 0 @ ?e) = B"
      using False assms by (simp add: n)
    then have "full_blocks B (r @ [128] @ replicate k 0 @ replicate z 0 @ ?e) =
        [r @ [128] @ replicate k 0 @ replicate z 0 @ ?e]"
      using full_blocks_step [of "r @ [128] @ replicate k 0 @ replicate z 0 @ ?e" B "[]"]
        full_blocks_short [of "[]" B] assms(1) by simp
    moreover have "replicate (l - (length r + 1)) 0 = replicate k (0 :: u8) @ replicate z 0"
      using False assms(3) by (simp add: n flip: replicate_add)
    ultimately show ?thesis
      using False by (simp add: oneshot_def ob h hash_blocks_def pad Let_def del: length_drop)
  qed
qed

end
