(* ===== verification/Digests.thy ===== *)
theory Digests
  imports Hash_Stream
begin

text \<open>
  The digests of \<open>crt-transition/linux/zanlinuxshims.c\<close>: MD5, SHA-1 and SHA-256 over the shared
  streaming code, the one-call entry points and \<open>CCHmac\<close>. Constants are written in decimal.
\<close>

section \<open>Words\<close>

definition zan_rotl :: "u32 \<Rightarrow> nat \<Rightarrow> u32" where
  "zan_rotl x n = push_bit n x OR drop_bit (32 - n) x"

definition zan_rotr :: "u32 \<Rightarrow> nat \<Rightarrow> u32" where
  "zan_rotr x n = drop_bit n x OR push_bit (32 - n) x"

definition le32_at :: "u8 list \<Rightarrow> nat \<Rightarrow> u32" where
  "le32_at p i = ucast (p ! (4 * i)) OR push_bit 8 (ucast (p ! (4 * i + 1))) OR
     push_bit 16 (ucast (p ! (4 * i + 2))) OR push_bit 24 (ucast (p ! (4 * i + 3)))"

definition be32_at :: "u8 list \<Rightarrow> nat \<Rightarrow> u32" where
  "be32_at p i = push_bit 24 (ucast (p ! (4 * i))) OR push_bit 16 (ucast (p ! (4 * i + 1))) OR
     push_bit 8 (ucast (p ! (4 * i + 2))) OR ucast (p ! (4 * i + 3))"

text \<open>The output loops: a word as four bytes, the length as eight.\<close>

definition le32_out :: "u32 \<Rightarrow> u8 list" where
  "le32_out w = map (\<lambda>i. ucast (drop_bit (8 * i) w)) [0..<4]"

definition be32_out :: "u32 \<Rightarrow> u8 list" where
  "be32_out w = map (\<lambda>i. ucast (drop_bit (24 - 8 * i) w)) [0..<4]"

definition le64_out :: "u64 \<Rightarrow> u8 list" where
  "le64_out w = map (\<lambda>i. ucast (drop_bit (8 * i) w)) [0..<8]"

definition be64_out :: "u64 \<Rightarrow> u8 list" where
  "be64_out w = map (\<lambda>i. ucast (drop_bit (56 - 8 * i) w)) [0..<8]"

lemma length_outs [simp]:
  "length (le32_out w) = 4" "length (be32_out w) = 4" "length (le64_out v) = 8" "length (be64_out v) = 8"
  by (simp_all add: le32_out_def be32_out_def le64_out_def be64_out_def)

section \<open>MD5\<close>

definition md5_r :: "nat list" where
  "md5_r = [
     7, 12, 17, 22, 7, 12, 17, 22, 7, 12, 17, 22, 7, 12, 17, 22,
     5, 9, 14, 20, 5, 9, 14, 20, 5, 9, 14, 20, 5, 9, 14, 20,
     4, 11, 16, 23, 4, 11, 16, 23, 4, 11, 16, 23, 4, 11, 16, 23,
     6, 10, 15, 21, 6, 10, 15, 21, 6, 10, 15, 21, 6, 10, 15, 21]"

definition md5_k :: "u32 list" where
  "md5_k = [
     3614090360, 3905402710, 606105819, 3250441966, 4118548399, 1200080426,
     2821735955, 4249261313, 1770035416, 2336552879, 4294925233, 2304563134,
     1804603682, 4254626195, 2792965006, 1236535329, 4129170786, 3225465664,
     643717713, 3921069994, 3593408605, 38016083, 3634488961, 3889429448,
     568446438, 3275163606, 4107603335, 1163531501, 2850285829, 4243563512,
     1735328473, 2368359562, 4294588738, 2272392833, 1839030562, 4259657740,
     2763975236, 1272893353, 4139469664, 3200236656, 681279174, 3936430074,
     3572445317, 76029189, 3654602809, 3873151461, 530742520, 3299628645,
     4096336452, 1126891415, 2878612391, 4237533241, 1700485571, 2399980690,
     4293915773, 2240044497, 1873313359, 4264355552, 2734768916, 1309151649,
     4149444226, 3174756917, 718787259, 3951481745]"

type_synonym md5_chain = "u32 \<times> u32 \<times> u32 \<times> u32"

definition md5_round :: "u32 list \<Rightarrow> nat \<Rightarrow> md5_chain \<Rightarrow> md5_chain" where
  "md5_round m i = (\<lambda>(a, b, c, d).
     let (f, g) =
       (if i < 16 then ((b AND c) OR (NOT b AND d), i)
        else if i < 32 then ((d AND b) OR (NOT d AND c), (5 * i + 1) mod 16)
        else if i < 48 then (b XOR c XOR d, (3 * i + 5) mod 16)
        else (c XOR (b OR NOT d), (7 * i) mod 16))
     in (d, b + zan_rotl (a + f + md5_k ! i + m ! g) (md5_r ! i), b, c))"

definition zan_md5_block :: "md5_chain \<Rightarrow> u8 list \<Rightarrow> md5_chain" where
  "zan_md5_block x p =
     (let m = map (le32_at p) [0..<16];
          (xa, xb, xc, xd) = x;
          (a, b, c, d) = fold (md5_round m) [0..<64] x
      in (xa + a, xb + b, xc + c, xd + d))"

definition md5_iv :: md5_chain where
  "md5_iv = (1732584193, 4023233417, 2562383102, 271733878)"

text \<open>The buffer is not cleared by \<open>reset\<close>; its bytes are the argument \<open>junk\<close>.\<close>

definition zan_md5_reset :: "u8 list \<Rightarrow> md5_chain hstream" where
  "zan_md5_reset junk = \<lparr>hs_h = md5_iv, hs_len = 0, hs_bl = 0, hs_buf = junk\<rparr>"

definition zan_md5_feed :: "md5_chain hstream \<Rightarrow> u8 list \<Rightarrow> md5_chain hstream" where
  "zan_md5_feed = stream_feed zan_md5_block"

definition md5_out :: "md5_chain \<Rightarrow> u8 list" where
  "md5_out = (\<lambda>(a, b, c, d). le32_out a @ le32_out b @ le32_out c @ le32_out d)"

definition zan_md5_done :: "md5_chain hstream \<Rightarrow> u8 list" where
  "zan_md5_done x = md5_out (hs_h (stream_done zan_md5_block le64_out x))"

section \<open>SHA-1 and SHA-256\<close>

text \<open>
  \<open>struct zan_sha32\<close> serves both: its \<open>words\<close> field is 5 for SHA-1 and 8 for SHA-256 and travels
  with the chaining value, a list of that many words.
\<close>

type_synonym sha_chain = "nat \<times> u32 list"

definition zan_sha256_k :: "u32 list" where
  "zan_sha256_k = [
     1116352408, 1899447441, 3049323471, 3921009573, 961987163, 1508970993,
     2453635748, 2870763221, 3624381080, 310598401, 607225278, 1426881987,
     1925078388, 2162078206, 2614888103, 3248222580, 3835390401, 4022224774,
     264347078, 604807628, 770255983, 1249150122, 1555081692, 1996064986,
     2554220882, 2821834349, 2952996808, 3210313671, 3336571891, 3584528711,
     113926993, 338241895, 666307205, 773529912, 1294757372, 1396182291,
     1695183700, 1986661051, 2177026350, 2456956037, 2730485921, 2820302411,
     3259730800, 3345764771, 3516065817, 3600352804, 4094571909, 275423344,
     430227734, 506948616, 659060556, 883997877, 958139571, 1322822218,
     1537002063, 1747873779, 1955562222, 2024104815, 2227730452, 2361852424,
     2428436474, 2756734187, 3204031479, 3329325298]"

definition sha1_sched :: "nat \<Rightarrow> u32 list \<Rightarrow> u32 list" where
  "sha1_sched i w = w @ [zan_rotl (w ! (i - 3) XOR w ! (i - 8) XOR w ! (i - 14) XOR w ! (i - 16)) 1]"

definition sha256_sched :: "nat \<Rightarrow> u32 list \<Rightarrow> u32 list" where
  "sha256_sched i w =
     (let s0 = zan_rotr (w ! (i - 15)) 7 XOR zan_rotr (w ! (i - 15)) 18 XOR drop_bit 3 (w ! (i - 15));
          s1 = zan_rotr (w ! (i - 2)) 17 XOR zan_rotr (w ! (i - 2)) 19 XOR drop_bit 10 (w ! (i - 2))
      in w @ [w ! (i - 16) + s0 + w ! (i - 7) + s1])"

definition sha1_round :: "u32 list \<Rightarrow> nat \<Rightarrow> u32 \<times> u32 \<times> u32 \<times> u32 \<times> u32 \<Rightarrow> u32 \<times> u32 \<times> u32 \<times> u32 \<times> u32" where
  "sha1_round w t = (\<lambda>(a, b, c, d, e).
     let (f, k) =
       (if t < 20 then ((b AND c) OR (NOT b AND d), 1518500249)
        else if t < 40 then (b XOR c XOR d, 1859775393)
        else if t < 60 then ((b AND c) OR (b AND d) OR (c AND d), 2400959708)
        else (b XOR c XOR d, 3395469782));
         t1 = e + zan_rotl a 5 + f + k + w ! t
     in (t1, a, zan_rotl b 30, c, d))"

type_synonym sha256_vars = "u32 \<times> u32 \<times> u32 \<times> u32 \<times> u32 \<times> u32 \<times> u32 \<times> u32"

definition sha256_round :: "u32 list \<Rightarrow> nat \<Rightarrow> sha256_vars \<Rightarrow> sha256_vars" where
  "sha256_round w t = (\<lambda>(a, b, c, d, e, f, g, h).
     let s1 = zan_rotr e 6 XOR zan_rotr e 11 XOR zan_rotr e 25;
         ch = (e AND f) XOR (NOT e AND g);
         t1 = h + s1 + ch + zan_sha256_k ! t + w ! t;
         s0 = zan_rotr a 2 XOR zan_rotr a 13 XOR zan_rotr a 22;
         mj = (a AND b) XOR (a AND c) XOR (b AND c);
         t2 = s0 + mj
     in (t1 + t2, a, b, c, d + t1, e, f, g))"

definition zan_sha32_block :: "sha_chain \<Rightarrow> u8 list \<Rightarrow> sha_chain" where
  "zan_sha32_block = (\<lambda>(words, x) p.
     let w0 = map (be32_at p) [0..<16]
     in if words = 5 then
          let w = fold sha1_sched [16..<80] w0;
              (a, b, c, d, e) = fold (sha1_round w) [0..<80] (x ! 0, x ! 1, x ! 2, x ! 3, x ! 4)
          in (words, [x ! 0 + a, x ! 1 + b, x ! 2 + c, x ! 3 + d, x ! 4 + e])
        else
          let w = fold sha256_sched [16..<64] w0;
              (a, b, c, d, e, f, g, h) = fold (sha256_round w) [0..<64]
                (x ! 0, x ! 1, x ! 2, x ! 3, x ! 4, x ! 5, x ! 6, x ! 7)
          in (words, [x ! 0 + a, x ! 1 + b, x ! 2 + c, x ! 3 + d, x ! 4 + e, x ! 5 + f, x ! 6 + g, x ! 7 + h]))"

definition sha32_iv :: "nat \<Rightarrow> sha_chain" where
  "sha32_iv words =
     (words, if words = 5 then [1732584193, 4023233417, 2562383102, 271733878, 3285377520]
        else [1779033703, 3144134277, 1013904242, 2773480762, 1359893119, 2600822924, 528734635, 1541459225])"

definition zan_sha32_reset :: "u8 list \<Rightarrow> nat \<Rightarrow> sha_chain hstream" where
  "zan_sha32_reset junk words = \<lparr>hs_h = sha32_iv words, hs_len = 0, hs_bl = 0, hs_buf = junk\<rparr>"

definition zan_sha32_feed :: "sha_chain hstream \<Rightarrow> u8 list \<Rightarrow> sha_chain hstream" where
  "zan_sha32_feed = stream_feed zan_sha32_block"

definition sha32_out :: "sha_chain \<Rightarrow> u8 list" where
  "sha32_out = (\<lambda>(words, x). concat (map (\<lambda>i. be32_out (x ! i)) [0..<words]))"

definition zan_sha32_done :: "sha_chain hstream \<Rightarrow> u8 list" where
  "zan_sha32_done x = sha32_out (hs_h (stream_done zan_sha32_block be64_out x))"

section \<open>Entry points\<close>

definition CC_MD5 :: "u8 list \<Rightarrow> u8 list \<Rightarrow> u8 list" where
  "CC_MD5 junk data = zan_md5_done (zan_md5_feed (zan_md5_reset junk) data)"

definition CC_SHA1 :: "u8 list \<Rightarrow> u8 list \<Rightarrow> u8 list" where
  "CC_SHA1 junk data = zan_sha32_done (zan_sha32_feed (zan_sha32_reset junk 5) data)"

definition CC_SHA256 :: "u8 list \<Rightarrow> u8 list \<Rightarrow> u8 list" where
  "CC_SHA256 junk data = zan_sha32_done (zan_sha32_feed (zan_sha32_reset junk 8) data)"

text \<open>\<open>k0\<close>: 64 zero bytes over which the key, or the digest of a longer key, is copied.\<close>

definition hmac_key :: "u8 list \<Rightarrow> nat \<Rightarrow> u8 list \<Rightarrow> u8 list" where
  "hmac_key junk alg key =
     buf_store 0 (if length key > 64 then
         (if alg = 0 then CC_MD5 junk key else if alg = 1 then CC_SHA1 junk key else CC_SHA256 junk key)
       else key) (replicate 64 0)"

text \<open>\<^const>\<open>None\<close>: an unknown algorithm, for which nothing is written.\<close>

definition CCHmac :: "u8 list \<Rightarrow> nat \<Rightarrow> u8 list \<Rightarrow> u8 list \<Rightarrow> u8 list option" where
  "CCHmac junk alg key data =
     (if alg \<noteq> 0 \<and> alg \<noteq> 1 \<and> alg \<noteq> 2 then None
      else let k0 = hmac_key junk alg key;
               ipad = map (\<lambda>b. b XOR 54) k0; opad = map (\<lambda>b. b XOR 92) k0
        in if alg = 0 then
             let inner = zan_md5_done (zan_md5_feed (zan_md5_feed (zan_md5_reset junk) ipad) data)
             in Some (zan_md5_done (zan_md5_feed (zan_md5_feed (zan_md5_reset junk) opad) inner))
           else
             let words = (if alg = 1 then 5 else 8);
                 inner = zan_sha32_done (zan_sha32_feed (zan_sha32_feed (zan_sha32_reset junk words) ipad) data)
             in Some (zan_sha32_done (zan_sha32_feed (zan_sha32_feed (zan_sha32_reset junk words) opad) inner)))"

section \<open>The digests meet their contract\<close>

text \<open>The standards: iterated compression of the padded message.\<close>

definition md5_spec :: "u8 list \<Rightarrow> u8 list" where
  "md5_spec m = md5_out (hash_blocks zan_md5_block md5_iv 64 (pad_msg 64 56 0 le64_out m))"

definition sha32_spec :: "nat \<Rightarrow> u8 list \<Rightarrow> u8 list" where
  "sha32_spec words m =
     sha32_out (hash_blocks zan_sha32_block (sha32_iv words) 64 (pad_msg 64 56 0 be64_out m))"

lemma absorbed_start:
  "length junk = 64 \<Longrightarrow> absorbed f h0 \<lparr>hs_h = h0, hs_len = 0, hs_bl = 0, hs_buf = junk\<rparr> []"
  by (simp add: absorbed_def hs_wf_def pending_def full_blocks_short)

text \<open>A start state: reset, whatever the 64 bytes of the uncleared buffer.\<close>

definition md5_starts :: "md5_chain hstream \<Rightarrow> bool" where
  "md5_starts x \<longleftrightarrow> (\<exists>junk. length junk = 64 \<and> x = zan_md5_reset junk)"

definition sha32_starts :: "nat \<Rightarrow> sha_chain hstream \<Rightarrow> bool" where
  "sha32_starts words x \<longleftrightarrow> (\<exists>junk. length junk = 64 \<and> x = zan_sha32_reset junk words)"

lemma starts_reset [simp]:
  "length junk = 64 \<Longrightarrow> md5_starts (zan_md5_reset junk)"
  "length junk = 64 \<Longrightarrow> sha32_starts words (zan_sha32_reset junk words)"
  by (auto simp: md5_starts_def sha32_starts_def)

interpretation md5: stream_digest md5_starts zan_md5_feed zan_md5_done
    "absorbed zan_md5_block md5_iv" md5_spec
  by unfold_locales
    (auto simp: md5_starts_def zan_md5_reset_def zan_md5_feed_def zan_md5_done_def md5_spec_def
      absorbed_start absorbed_feed stream_done_spec)

lemma sha32_contract:
  "stream_digest (sha32_starts words) zan_sha32_feed zan_sha32_done
     (absorbed zan_sha32_block (sha32_iv words)) (sha32_spec words)"
  by unfold_locales
    (auto simp: sha32_starts_def zan_sha32_reset_def zan_sha32_feed_def zan_sha32_done_def sha32_spec_def
      absorbed_start absorbed_feed stream_done_spec)

interpretation sha1: stream_digest "sha32_starts 5" zan_sha32_feed zan_sha32_done
    "absorbed zan_sha32_block (sha32_iv 5)" "sha32_spec 5"
  by (rule sha32_contract)

interpretation sha256: stream_digest "sha32_starts 8" zan_sha32_feed zan_sha32_done
    "absorbed zan_sha32_block (sha32_iv 8)" "sha32_spec 8"
  by (rule sha32_contract)

text \<open>Each algorithm by its \<open>CCHmac\<close> number.\<close>

definition digest_spec :: "nat \<Rightarrow> u8 list \<Rightarrow> u8 list" where
  "digest_spec alg = (if alg = 0 then md5_spec else if alg = 1 then sha32_spec 5 else sha32_spec 8)"

lemma digests_spec:
  assumes "length junk = 64"
  shows "CC_MD5 junk data = md5_spec data" "CC_SHA1 junk data = sha32_spec 5 data"
    "CC_SHA256 junk data = sha32_spec 8 data"
  using assms by (simp_all add: CC_MD5_def CC_SHA1_def CC_SHA256_def md5.finish_one sha1.finish_one
      sha256.finish_one)

lemma length_md5_out: "length (md5_out x) = 16"
  by (simp add: md5_out_def split: prod.splits)

lemma sha32_block_words: "fst (zan_sha32_block x p) = fst x"
  by (simp add: zan_sha32_block_def Let_def split: prod.splits)

lemma hash_blocks_words: "fst (hash_blocks zan_sha32_block x B m) = fst x"
proof -
  have "fst (foldl zan_sha32_block x bs) = fst x" for bs
    by (induction bs arbitrary: x) (simp_all add: sha32_block_words)
  then show ?thesis by (simp add: hash_blocks_def)
qed

lemma length_sha32_out: "length (sha32_out x) = 4 * fst x"
  by (simp add: sha32_out_def length_concat sum_list_triv o_def split: prod.splits)

lemma length_digest_spec: "length (digest_spec alg m) = (if alg = 0 then 16 else if alg = 1 then 20 else 32)"
  by (simp add: digest_spec_def md5_spec_def sha32_spec_def length_md5_out length_sha32_out
      hash_blocks_words sha32_iv_def)

section \<open>Properties\<close>

text \<open>
  C9. The digest of a message does not depend on how it is fed: for MD5, SHA-1 and SHA-256, any
  sequence of \<open>feed\<close> calls from a reset state (whatever the uncleared buffer holds) followed by
  \<open>done\<close> gives the iterated compression of the padded concatenation, with the 64-bit length field
  and the padding of RFC 1321 and FIPS 180-4; in particular the padding loop ends.
\<close>

theorem stream_digests_correct:
  assumes "length junk = 64"
  shows "zan_md5_done (foldl zan_md5_feed (zan_md5_reset junk) ds) = md5_spec (concat ds) \<and>
    zan_sha32_done (foldl zan_sha32_feed (zan_sha32_reset junk 5) ds) = sha32_spec 5 (concat ds) \<and>
    zan_sha32_done (foldl zan_sha32_feed (zan_sha32_reset junk 8) ds) = sha32_spec 8 (concat ds)"
  using assms by (simp add: md5.finish_chunks sha1.finish_chunks sha256.finish_chunks)

theorem stream_digests_correct_witness:
  "zan_sha32_done (foldl zan_sha32_feed (zan_sha32_reset (replicate 64 7) 8) [[97], [], [98, 99]]) =
     CC_SHA256 (replicate 64 9) [97, 98, 99]"
  using stream_digests_correct [of "replicate 64 7" "[[97], [], [98, 99]]"]
  by (simp add: digests_spec)

text \<open>
  C10. \<open>CCHmac\<close> computes HMAC (RFC 2104) over its digests: with the key (or the digest of a key
  longer than the block) padded with zeros to 64 bytes, the result is
  \<open>H (key xor opad, H (key xor ipad, data))\<close>; another algorithm number writes nothing.
\<close>

theorem CCHmac_spec:
  assumes "length junk = 64"
  shows "CCHmac junk alg key data =
    (if alg > 2 then None
     else let H = digest_spec alg;
              k = (if length key > 64 then H key else key);
              k0 = k @ replicate (64 - length k) 0
       in Some (H (map (\<lambda>b. b XOR 92) k0 @ H (map (\<lambda>b. b XOR 54) k0 @ data))))"
proof -
  have key: "hmac_key junk alg key = (let k = (if length key > 64 then digest_spec alg key else key)
      in k @ replicate (64 - length k) 0)"
    using assms by (simp add: hmac_key_def digest_spec_def digests_spec buf_store_def Let_def)
  have mac: "CCHmac junk alg key data = (if alg > 2 then None
     else let H = digest_spec alg; k0 = hmac_key junk alg key
       in Some (H (map (\<lambda>b. b XOR 92) k0 @ H (map (\<lambda>b. b XOR 54) k0 @ data))))"
  proof -
    consider "alg = 0" | "alg = 1" | "alg = 2" | "alg > 2" by linarith
    then show ?thesis
      using assms
      by cases (simp_all add: CCHmac_def digest_spec_def Let_def md5.finish_nested sha1.finish_nested
          sha256.finish_nested)
  qed
  show ?thesis unfolding mac key by (simp only: Let_def)
qed

theorem CCHmac_spec_witness:
  "\<exists>mac. CCHmac (replicate 64 0) 2 [107] [97, 98] = Some mac \<and> length mac = 32"
  using CCHmac_spec [of "replicate 64 0" 2 "[107]" "[97, 98]"]
  by (simp add: Let_def length_digest_spec)

end
