(* ===== verification/Checksums.thy ===== *)
theory Checksums
  imports Digests
begin

text \<open>
  The self-contained checksums of \<open>crt-transition/zanstubs.c\<close>: \<open>zan_sha256\<close> and \<open>zan_sha512\<close>,
  which process a message in one call, and the table-driven \<open>zan_crc32\<close>. SHA-256 is shown equal
  to the streaming implementation of the Linux shims, SHA-512 to the iterated compression of the
  padded message, and the CRC to the bit-by-bit division by its polynomial.
\<close>

section \<open>SHA-256 in one call\<close>

definition zsha_rot32 :: "u32 \<Rightarrow> nat \<Rightarrow> u32" where
  "zsha_rot32 x n = drop_bit n x OR push_bit (32 - n) x"

definition zsha256_K :: "u32 list" where
  "zsha256_K = [
     1116352408, 1899447441, 3049323471, 3921009573, 961987163, 1508970993,
     2453635748, 2870763221, 3624381080, 310598401, 607225278, 1426881987,
     1925078388, 2162078206, 2614888103, 3248222580, 3835390401, 4022224774,
     264347078, 604807628, 770255983, 1249150122, 1555081692, 1996064986,
     2554220882, 2821834349, 2952996808, 3210313671, 3336571891, 3584528711,
     113926993, 338241895, 666307205, 773529912, 1294757372, 1396182291,
     1695183700, 1986661051, 2177026350, 2456956037, 2730485921, 2820302411,
     3259730800, 3345764771, 3516065817, 3600352804, 4094571909, 275423344,
     430227734, 506948616, 659060556, 883997877, 958139571, 1322822218,
     1537002063, 1747873779, 1955562222, 2024104815, 2227730452, 2361852424,
     2428436474, 2756734187, 3204031479, 3329325298]"

definition zsha256_sched :: "nat \<Rightarrow> u32 list \<Rightarrow> u32 list" where
  "zsha256_sched i w =
     (let s0 = zsha_rot32 (w ! (i - 15)) 7 XOR zsha_rot32 (w ! (i - 15)) 18 XOR drop_bit 3 (w ! (i - 15));
          s1 = zsha_rot32 (w ! (i - 2)) 17 XOR zsha_rot32 (w ! (i - 2)) 19 XOR drop_bit 10 (w ! (i - 2))
      in w @ [w ! (i - 16) + s0 + w ! (i - 7) + s1])"

definition zsha256_round :: "u32 list \<Rightarrow> nat \<Rightarrow> sha256_vars \<Rightarrow> sha256_vars" where
  "zsha256_round w i = (\<lambda>(a, b, c, d, e, f, g, hh).
     let S1 = zsha_rot32 e 6 XOR zsha_rot32 e 11 XOR zsha_rot32 e 25;
         ch = (e AND f) XOR (NOT e AND g);
         t1 = hh + S1 + ch + zsha256_K ! i + w ! i;
         S0 = zsha_rot32 a 2 XOR zsha_rot32 a 13 XOR zsha_rot32 a 22;
         maj = (a AND b) XOR (a AND c) XOR (b AND c);
         t2 = S0 + maj
     in (t1 + t2, a, b, c, d + t1, e, f, g))"

definition zsha256_block :: "u32 list \<Rightarrow> u8 list \<Rightarrow> u32 list" where
  "zsha256_block h p =
     (let w = fold zsha256_sched [16..<64] (map (be32_at p) [0..<16]);
          (a, b, c, d, e, f, g, hh) = fold (zsha256_round w) [0..<64]
            (h ! 0, h ! 1, h ! 2, h ! 3, h ! 4, h ! 5, h ! 6, h ! 7)
      in [h ! 0 + a, h ! 1 + b, h ! 2 + c, h ! 3 + d, h ! 4 + e, h ! 5 + f, h ! 6 + g, h ! 7 + hh])"

definition sha256_h0 :: "u32 list" where
  "sha256_h0 = [1779033703, 3144134277, 1013904242, 2773480762, 1359893119, 2600822924, 528734635, 1541459225]"

text \<open>\<open>data\<close> are the readable bytes at the pointer, of which the first \<open>len\<close> are the message.\<close>

definition zan_sha256 :: "u8 list \<Rightarrow> int \<Rightarrow> u8 list" where
  "zan_sha256 data len =
     (let total = (if 0 < len then nat len else 0);
          h = oneshot zsha256_block 64 56 56 be64_out sha256_h0 (take total data)
      in concat (map (\<lambda>i. be32_out (h ! i)) [0..<8]))"

section \<open>SHA-512 in one call\<close>

definition zsha_rot64 :: "u64 \<Rightarrow> nat \<Rightarrow> u64" where
  "zsha_rot64 x n = drop_bit n x OR push_bit (64 - n) x"

definition zsha_K :: "u64 list" where
  "zsha_K = [
     4794697086780616226, 8158064640168781261, 13096744586834688815, 16840607885511220156,
     4131703408338449720, 6480981068601479193, 10538285296894168987, 12329834152419229976,
     15566598209576043074, 1334009975649890238, 2608012711638119052, 6128411473006802146,
     8268148722764581231, 9286055187155687089, 11230858885718282805, 13951009754708518548,
     16472876342353939154, 17275323862435702243, 1135362057144423861, 2597628984639134821,
     3308224258029322869, 5365058923640841347, 6679025012923562964, 8573033837759648693,
     10970295158949994411, 12119686244451234320, 12683024718118986047, 13788192230050041572,
     14330467153632333762, 15395433587784984357, 489312712824947311, 1452737877330783856,
     2861767655752347644, 3322285676063803686, 5560940570517711597, 5996557281743188959,
     7280758554555802590, 8532644243296465576, 9350256976987008742, 10552545826968843579,
     11727347734174303076, 12113106623233404929, 14000437183269869457, 14369950271660146224,
     15101387698204529176, 15463397548674623760, 17586052441742319658, 1182934255886127544,
     1847814050463011016, 2177327727835720531, 2830643537854262169, 3796741975233480872,
     4115178125766777443, 5681478168544905931, 6601373596472566643, 7507060721942968483,
     8399075790359081724, 8693463985226723168, 9568029438360202098, 10144078919501101548,
     10430055236837252648, 11840083180663258601, 13761210420658862357, 14299343276471374635,
     14566680578165727644, 15097957966210449927, 16922976911328602910, 17689382322260857208,
     500013540394364858, 748580250866718886, 1242879168328830382, 1977374033974150939,
     2944078676154940804, 3659926193048069267, 4368137639120453308, 4836135668995329356,
     5532061633213252278, 6448918945643986474, 6902733635092675308, 7801388544844847127]"

text \<open>The inner loop that assembles a big-endian word.\<close>

definition be64_at :: "u8 list \<Rightarrow> nat \<Rightarrow> u64" where
  "be64_at p i = fold (\<lambda>j w. push_bit 8 w OR ucast (p ! (8 * i + j))) [0..<8] 0"

definition zsha_sched :: "nat \<Rightarrow> u64 list \<Rightarrow> u64 list" where
  "zsha_sched i w =
     (let s0 = zsha_rot64 (w ! (i - 15)) 1 XOR zsha_rot64 (w ! (i - 15)) 8 XOR drop_bit 7 (w ! (i - 15));
          s1 = zsha_rot64 (w ! (i - 2)) 19 XOR zsha_rot64 (w ! (i - 2)) 61 XOR drop_bit 6 (w ! (i - 2))
      in w @ [w ! (i - 16) + s0 + w ! (i - 7) + s1])"

type_synonym sha512_vars = "u64 \<times> u64 \<times> u64 \<times> u64 \<times> u64 \<times> u64 \<times> u64 \<times> u64"

definition zsha_round :: "u64 list \<Rightarrow> nat \<Rightarrow> sha512_vars \<Rightarrow> sha512_vars" where
  "zsha_round w i = (\<lambda>(a, b, c, d, e, f, g, hh).
     let S1 = zsha_rot64 e 14 XOR zsha_rot64 e 18 XOR zsha_rot64 e 41;
         ch = (e AND f) XOR (NOT e AND g);
         t1 = hh + S1 + ch + zsha_K ! i + w ! i;
         S0 = zsha_rot64 a 28 XOR zsha_rot64 a 34 XOR zsha_rot64 a 39;
         maj = (a AND b) XOR (a AND c) XOR (b AND c);
         t2 = S0 + maj
     in (t1 + t2, a, b, c, d + t1, e, f, g))"

definition zsha_block :: "u64 list \<Rightarrow> u8 list \<Rightarrow> u64 list" where
  "zsha_block h p =
     (let w = fold zsha_sched [16..<80] (map (be64_at p) [0..<16]);
          (a, b, c, d, e, f, g, hh) = fold (zsha_round w) [0..<80]
            (h ! 0, h ! 1, h ! 2, h ! 3, h ! 4, h ! 5, h ! 6, h ! 7)
      in [h ! 0 + a, h ! 1 + b, h ! 2 + c, h ! 3 + d, h ! 4 + e, h ! 5 + f, h ! 6 + g, h ! 7 + hh])"

definition sha512_h0 :: "u64 list" where
  "sha512_h0 = [
     7640891576956012808, 13503953896175478587, 4354685564936845355, 11912009170470909681,
     5840696475078001361, 11170449401992604703, 2270897969802886507, 6620516959819538809]"

text \<open>The final block is cleared up to byte 120, so the high half of the length is zero.\<close>

definition zan_sha512 :: "u8 list \<Rightarrow> int \<Rightarrow> u8 list" where
  "zan_sha512 data len =
     (let total = (if 0 < len then nat len else 0);
          h = oneshot zsha_block 128 112 120 be64_out sha512_h0 (take total data)
      in concat (map (\<lambda>i. be64_out (h ! i)) [0..<8]))"

section \<open>CRC-32\<close>

definition crc_poly :: u32 where "crc_poly = 3988292384"

definition crc_bit :: "u32 \<Rightarrow> u32" where
  "crc_bit c = (if c AND 1 \<noteq> 0 then crc_poly XOR drop_bit 1 c else drop_bit 1 c)"

definition crc_table :: "nat \<Rightarrow> u32" where
  "crc_table i = (crc_bit ^^ 8) (of_nat i)"

definition crc_byte :: "u32 \<Rightarrow> u8 \<Rightarrow> u32" where
  "crc_byte c b = crc_table (unat ((c XOR ucast b) AND 255)) XOR drop_bit 8 c"

text \<open>\<^const>\<open>None\<close> for a null pointer; the result is zero-extended.\<close>

definition zan_crc32 :: "u8 list option \<Rightarrow> int \<Rightarrow> u64" where
  "zan_crc32 p len =
     (let c = (case p of None \<Rightarrow> - 1 | Some b \<Rightarrow> foldl crc_byte (- 1) (take (nat len) b))
      in ucast (c XOR (- 1)))"

section \<open>The two SHA-256 implementations agree\<close>

lemma zsha256_same:
  "zsha_rot32 = zan_rotr" "zsha256_K = zan_sha256_k" "zsha256_sched = sha256_sched"
  "zsha256_round = sha256_round"
proof -
  show r: "zsha_rot32 = zan_rotr" by (intro ext) (simp add: zsha_rot32_def zan_rotr_def)
  show k: "zsha256_K = zan_sha256_k" by (simp add: zsha256_K_def zan_sha256_k_def)
  show "zsha256_sched = sha256_sched"
    by (intro ext) (simp add: zsha256_sched_def sha256_sched_def r)
  show "zsha256_round = sha256_round"
    by (intro ext) (simp add: zsha256_round_def sha256_round_def r k)
qed

lemma zsha256_block_same: "zan_sha32_block (8, h) p = (8, zsha256_block h p)"
  by (simp add: zan_sha32_block_def zsha256_block_def zsha256_same Let_def split: prod.split)

lemma foldl_block_same: "foldl zan_sha32_block (8, h) bs = (8, foldl zsha256_block h bs)"
  by (induction bs arbitrary: h) (simp_all add: zsha256_block_same)

lemma zan_sha256_spec: "int (length data) = len \<Longrightarrow> zan_sha256 data len = sha32_spec 8 data"
  by (simp add: zan_sha256_def oneshot_spec [where z = 0] sha32_spec_def hash_blocks_def sha32_iv_def
      flip: sha256_h0_def) (auto simp: foldl_block_same sha32_out_def)

section \<open>SHA-512 is the padded iteration\<close>

definition sha512_spec :: "u8 list \<Rightarrow> u8 list" where
  "sha512_spec m =
     (let h = hash_blocks zsha_block sha512_h0 128 (pad_msg 128 112 8 be64_out m)
      in concat (map (\<lambda>i. be64_out (h ! i)) [0..<8]))"

lemma zan_sha512_spec: "int (length data) = len \<Longrightarrow> zan_sha512 data len = sha512_spec data"
  by (simp add: zan_sha512_def oneshot_spec [where z = 8] sha512_spec_def Let_def) auto

section \<open>The CRC register\<close>

lemma bit_beyond [simp]: "8 \<le> i \<Longrightarrow> \<not> bit (b :: u8) i" "32 \<le> i \<Longrightarrow> \<not> bit (c :: u32) i"
  using bit_imp_le_length [of b i] bit_imp_le_length [of c i] by auto

lemma xor_cancel: "x XOR z = y XOR z \<Longrightarrow> x = (y :: u32)"
  by (drule arg_cong [of _ _ "\<lambda>w. w XOR z"]) (simp add: xor.assoc)

lemma crc_bit_odd: "crc_bit c = (if odd c then crc_poly XOR drop_bit 1 c else drop_bit 1 c)"
  by (auto simp: crc_bit_def and_one_eq odd_iff_mod_2_eq_one)

lemma crc_bit_xor: "crc_bit (x XOR y) = crc_bit x XOR crc_bit y"
proof -
  have "odd (x XOR y) \<longleftrightarrow> odd x \<noteq> odd y"
    by (simp add: even_xor_iff)
  then show ?thesis
    by (simp add: crc_bit_odd drop_bit_xor xor.assoc xor.left_commute)
qed

lemma crc_bits_xor: "(crc_bit ^^ n) (x XOR y) = (crc_bit ^^ n) x XOR (crc_bit ^^ n) y"
  by (induction n) (simp_all add: crc_bit_xor)

lemma crc_bits_high: "take_bit n y = 0 \<Longrightarrow> (crc_bit ^^ n) y = drop_bit n y"
proof (induction n arbitrary: y)
  case 0
  then show ?case by simp
next
  case (Suc n)
  have b: "\<not> bit y i" if "i < Suc n" for i
    using arg_cong [OF Suc.prems, of "\<lambda>z. bit z i"] that by (simp add: bit_simps)
  have "even y" using b [of 0] by (simp add: bit_0)
  then have "crc_bit y = drop_bit 1 y" by (simp add: crc_bit_odd)
  moreover have "take_bit n (drop_bit 1 y) = 0"
    by (rule bit_word_eqI) (use b in \<open>auto simp: bit_simps\<close>)
  ultimately have "(crc_bit ^^ n) (crc_bit y) = drop_bit n (drop_bit 1 y)"
    using Suc.IH by simp
  then show ?case by (simp add: funpow_swap1 drop_bit_drop_bit [symmetric])
qed

lemma crc_bit_top: "bit (crc_bit c) 31 = odd c"
  by (simp add: crc_bit_odd crc_poly_def bit_simps)

lemma crc_bit_inj: "crc_bit x = crc_bit y \<Longrightarrow> x = y"
proof -
  assume e: "crc_bit x = crc_bit y"
  then have o: "odd x = odd y" using crc_bit_top [of x] crc_bit_top [of y] by simp
  with e have d: "drop_bit 1 x = drop_bit 1 y"
    by (auto simp: crc_bit_odd split: if_splits dest: arg_cong [of _ _ "\<lambda>z. crc_poly XOR z"])
  show "x = y"
  proof (rule bit_word_eqI)
    fix i
    show "bit x i = bit y i"
    proof (cases i)
      case 0
      with o show ?thesis by (simp add: bit_0)
    next
      case (Suc j)
      with arg_cong [OF d, of "\<lambda>z. bit z j"] show ?thesis by (simp add: bit_simps)
    qed
  qed
qed

lemma crc_bits_inj: "(crc_bit ^^ n) x = (crc_bit ^^ n) y \<Longrightarrow> x = y"
  by (induction n) (auto dest: crc_bit_inj)

text \<open>One table step is eight steps of the bitwise register.\<close>

lemma crc_byte_bits: "crc_byte c b = (crc_bit ^^ 8) (c XOR ucast b)"
proof -
  let ?x = "c XOR ucast b"
  have x: "?x = (?x AND 255) XOR (?x AND NOT 255)"
    by (rule bit_word_eqI) (auto simp: bit_simps)
  have m: "(255 :: u32) = mask 8" by (simp add: mask_eq_exp_minus_1)
  have "take_bit 8 (?x AND NOT 255) = 0"
    unfolding m by (rule bit_word_eqI) (auto simp: bit_simps)
  then have "(crc_bit ^^ 8) (?x AND NOT 255) = drop_bit 8 (?x AND NOT 255)"
    by (rule crc_bits_high)
  also have "\<dots> = drop_bit 8 c"
    unfolding m by (rule bit_word_eqI) (auto simp: bit_simps not_less intro: ccontr)
  finally have "(crc_bit ^^ 8) ?x = (crc_bit ^^ 8) (?x AND 255) XOR drop_bit 8 c"
    using crc_bits_xor [of 8 "?x AND 255" "?x AND NOT 255"] x by simp
  then show ?thesis by (simp add: crc_byte_def crc_table_def)
qed

text \<open>Up to four bytes enter the register as one little-endian word.\<close>

fun le_word :: "u8 list \<Rightarrow> u32" where
  "le_word [] = 0"
| "le_word (b # bs) = ucast b XOR push_bit 8 (le_word bs)"

lemma le_word_small: "length bs \<le> n \<Longrightarrow> 8 * n \<le> i \<Longrightarrow> \<not> bit (le_word bs) i"
proof (induction bs arbitrary: n i)
  case (Cons b bs)
  then obtain n' where "n = Suc n'" "length bs \<le> n'" by (cases n) auto
  with Cons.prems Cons.IH [of n' "i - 8"] show ?case by (auto simp: bit_simps)
qed simp

lemma crc_word:
  "length bs \<le> 4 \<Longrightarrow> foldl crc_byte c bs = (crc_bit ^^ (8 * length bs)) (c XOR le_word bs)"
proof (induction bs arbitrary: c)
  case Nil
  then show ?case by simp
next
  case (Cons b bs)
  have "take_bit 8 (push_bit 8 (le_word bs)) = 0"
    by (rule bit_word_eqI) (auto simp: bit_simps)
  then have "(crc_bit ^^ 8) (push_bit 8 (le_word bs)) = drop_bit 8 (push_bit 8 (le_word bs))"
    by (rule crc_bits_high)
  also have "\<dots> = le_word bs"
    using le_word_small [of bs 3] Cons.prems by (intro bit_word_eqI) (auto simp: bit_simps intro: ccontr)
  finally have "crc_byte c b XOR le_word bs = (crc_bit ^^ 8) (c XOR le_word (b # bs))"
    by (simp add: crc_byte_bits xor.assoc [symmetric] crc_bits_xor)
  then have "foldl crc_byte c (b # bs) = (crc_bit ^^ (8 * length bs)) ((crc_bit ^^ 8) (c XOR le_word (b # bs)))"
    using Cons by simp
  also have "\<dots> = (crc_bit ^^ (8 * length bs + 8)) (c XOR le_word (b # bs))"
    by (simp only: funpow_add o_apply)
  finally show ?case by (simp only: length_Cons mult_Suc_right add.commute)
qed

lemma le_word_inj: "length xs = length ys \<Longrightarrow> length xs \<le> 4 \<Longrightarrow> le_word xs = le_word ys \<Longrightarrow> xs = ys"
proof (induction xs ys rule: list_induct2)
  case (Cons x xs y ys)
  have "bit x i = bit y i" if "i < 8" for i
    using arg_cong [OF Cons.prems(2), of "\<lambda>z. bit z i"] that by (simp add: bit_simps)
  then have "x = y" by (intro bit_word_eqI) simp
  moreover have "bit (le_word xs) i = bit (le_word ys) i" if "i < 32" for i
  proof (cases "i < 24")
    case True
    with arg_cong [OF Cons.prems(2), of "\<lambda>z. bit z (i + 8)"] show ?thesis
      using bit_imp_le_length [of x "i + 8"] bit_imp_le_length [of y "i + 8"] by (auto simp: bit_simps)
  next
    case False
    with Cons show ?thesis using le_word_small [of xs 3 i] le_word_small [of ys 3 i] by simp
  qed
  then have "le_word xs = le_word ys" by (intro bit_word_eqI) simp
  ultimately show ?case using Cons by simp
qed simp

lemma crc_bytes_inj: "foldl crc_byte c bs = foldl crc_byte c' bs \<Longrightarrow> c = c'"
proof (induction bs arbitrary: c c')
  case (Cons b bs)
  then have "(crc_bit ^^ 8) (c XOR ucast b) = (crc_bit ^^ 8) (c' XOR ucast b)"
    by (simp add: crc_byte_bits)
  then have "c XOR ucast b = c' XOR ucast b" by (rule crc_bits_inj)
  then show ?case by (rule xor_cancel)
qed simp

text \<open>Different blocks of up to four bytes lead the register to different states.\<close>

lemma crc_block_differs:
  assumes "length x = length y" "length x \<le> 4" "x \<noteq> y"
  shows "foldl crc_byte c (x @ b) \<noteq> foldl crc_byte c (y @ b)"
proof
  assume "foldl crc_byte c (x @ b) = foldl crc_byte c (y @ b)"
  then have "foldl crc_byte c x = foldl crc_byte c y"
    by (simp add: crc_bytes_inj)
  then have "c XOR le_word x = c XOR le_word y"
    using assms(1,2) by (auto simp: crc_word intro: crc_bits_inj)
  then have "le_word x = le_word y"
    by (simp add: xor.commute [of c] xor_cancel)
  with le_word_inj [OF assms(1,2)] assms(3) show False by blast
qed

lemma zan_crc32_all: "zan_crc32 (Some m) (int (length m)) = ucast (foldl crc_byte (- 1) m XOR (- 1))"
  by (simp add: zan_crc32_def)

lemma ucast_u32_inj: "(ucast x :: u64) = ucast y \<Longrightarrow> x = (y :: u32)"
  by (rule bit_word_eqI) (auto dest: arg_cong [of _ _ "\<lambda>z. bit z _"] simp: bit_simps)

section \<open>Properties\<close>

text \<open>
  The two SHA-256 implementations of the runtime, the one-call \<open>zan_sha256\<close> and the
  streaming \<open>CC_SHA256\<close> of the Linux shims, give the same digest on every message, whatever the
  initial content of the streaming buffer.
\<close>

theorem zan_sha256_CC_SHA256:
  assumes "length junk = 64"
  shows "zan_sha256 m (int (length m)) = CC_SHA256 junk m"
  using assms by (simp add: zan_sha256_spec digests_spec)

theorem zan_sha256_CC_SHA256_witness:
  "zan_sha256 [97, 98, 99] 3 = CC_SHA256 (replicate 64 5) [97, 98, 99]"
  using zan_sha256_CC_SHA256 [of "replicate 64 5" "[97, 98, 99]"] by simp

text \<open>
  \<open>zan_sha512\<close> processes exactly the padded message of FIPS 180-4: the message, a 1 bit, zeros
  up to the next position that is 112 modulo 128, eight zero bytes and the 64-bit length in bits,
  in blocks of 128 bytes; a negative length hashes the empty message.
\<close>

theorem zan_sha512_padding:
  "zan_sha512 data len = sha512_spec (take (nat len) data)"
proof -
  have "take (if 0 < len then nat len else 0) data = take (nat len) data" by simp
  then show ?thesis
    by (simp only: zan_sha512_def sha512_spec_def Let_def)
      (simp add: oneshot_spec [where z = 8])
qed

text \<open>
  The table-driven \<open>zan_crc32\<close> is the bit-by-bit register for the reflected polynomial
  EDB88320: started from all ones, each byte is added to the low end and the register is shifted
  eight times, and the result is complemented.
\<close>

theorem zan_crc32_bitwise:
  "zan_crc32 (Some m) (int (length m)) =
     ucast (foldl (\<lambda>c b. (crc_bit ^^ 8) (c XOR ucast b)) (- 1) m XOR (- 1))"
proof -
  have "crc_byte = (\<lambda>c b. (crc_bit ^^ 8) (c XOR ucast b))"
    by (intro ext) (rule crc_byte_bits)
  then show ?thesis by (simp add: zan_crc32_all)
qed

text \<open>
  C11. \<open>zan_crc32\<close> detects every error burst of up to four bytes: two messages of the same length
  that differ only within four consecutive bytes have different checksums.
\<close>

theorem zan_crc32_burst:
  assumes "length x = length y" "length x \<le> 4" "x \<noteq> y"
  shows "zan_crc32 (Some (a @ x @ b)) (int (length (a @ x @ b))) \<noteq>
    zan_crc32 (Some (a @ y @ b)) (int (length (a @ y @ b)))"
proof
  assume "zan_crc32 (Some (a @ x @ b)) (int (length (a @ x @ b))) =
    zan_crc32 (Some (a @ y @ b)) (int (length (a @ y @ b)))"
  then have "foldl crc_byte (foldl crc_byte (- 1) a) (x @ b) XOR (- 1) =
      foldl crc_byte (foldl crc_byte (- 1) a) (y @ b) XOR (- 1)"
    unfolding zan_crc32_all foldl_append by (rule ucast_u32_inj)
  then show False
    using crc_block_differs [OF assms] xor_cancel by blast
qed

theorem zan_crc32_burst_witness:
  "zan_crc32 (Some ([1] @ [2, 3] @ [4])) 4 \<noteq> zan_crc32 (Some ([1] @ [2, 7] @ [4])) 4"
  using zan_crc32_burst [of "[2, 3]" "[2, 7]" "[1]" "[4]"] by simp

text \<open>The check value of CRC-32: the digits 1 to 9 give CBF43926.\<close>

theorem zan_crc32_check:
  "zan_crc32 (Some [49, 50, 51, 52, 53, 54, 55, 56, 57]) 9 = 3421780262 \<and> zan_crc32 None 9 = 0"
  by code_simp

end
