(* ===== verification/Wide_Text.thy ===== *)
theory Wide_Text
  imports C_Text
begin

text \<open>
  The UTF-8 and UTF-16 conversions of \<open>crt-transition/zanstubs.c\<close>, \<open>MultiByteToWideChar\<close> and
  \<open>WideCharToMultiByte\<close> for code page 65001. Both are loops that take one character off the
  input, replace what is malformed by U+FFFD, and either count or store the encoded character; a
  buffer that is too short gives 0.
\<close>

section \<open>UTF-8 to UTF-16\<close>

text \<open>
  The first byte gives the leading bits and the length; \<^const>\<open>None\<close> is the value -1 of \<open>cpw\<close>.
\<close>

definition utf8_lead :: "u8 \<Rightarrow> nat option \<times> nat" where
  "utf8_lead b0 =
     (if b0 < 128 then (Some (unat b0), 1)
      else if b0 AND 224 = 192 then (Some (unat (b0 AND 31)), 2)
      else if b0 AND 240 = 224 then (Some (unat (b0 AND 15)), 3)
      else if b0 AND 248 = 240 then (Some (unat (b0 AND 7)), 4)
      else (None, 1))"

fun utf8_cont :: "nat \<Rightarrow> u8 list \<Rightarrow> nat option" where
  "utf8_cont c [] = Some c"
| "utf8_cont c (b # bs) = (if b AND 192 \<noteq> 128 then None else utf8_cont (push_bit 6 c OR unat (b AND 63)) bs)"

text \<open>The next character of a non-empty text and the number of bytes it takes.\<close>

definition utf8_next :: "u8 list \<Rightarrow> nat \<times> nat" where
  "utf8_next s =
     (let (c0, adv) = utf8_lead (hd s);
          c1 = (case c0 of None \<Rightarrow> None
                | Some c \<Rightarrow> if adv > length s then None else utf8_cont c (take (adv - 1) (tl s)));
          c2 = (case c1 of None \<Rightarrow> None
                | Some c \<Rightarrow> if (adv = 2 \<and> c < 128) \<or> (adv = 3 \<and> c < 2048) \<or> (adv = 4 \<and> c < 65536) \<or> c > 1114111
                    then None else Some c)
      in case c2 of None \<Rightarrow> (65533, 1) | Some c \<Rightarrow> (c, adv))"

definition utf16_units :: "nat \<Rightarrow> u16 list" where
  "utf16_units c =
     (if c > 65535 then [of_nat (55296 + drop_bit 10 (c - 65536)), of_nat (56320 + ((c - 65536) AND 1023))]
      else [of_nat c])"

lemma utf8_next_pos: "0 < snd (utf8_next s)"
  by (auto simp: utf8_next_def utf8_lead_def Let_def split: prod.split option.split)

lemma utf8_next_adv: "utf8_next s = (c, adv) \<Longrightarrow> 0 < adv"
  using utf8_next_pos [of s] by simp

text \<open>
  The main loop; \<open>cap\<close> is \<^const>\<open>None\<close> when only counting. The result is whether the text fitted,
  and the units so far (only their number matters when counting).
\<close>

function mb_loop :: "int option \<Rightarrow> u8 list \<Rightarrow> u16 list \<Rightarrow> bool \<times> u16 list" where
  "mb_loop cap s out =
     (if s = [] then (True, out)
      else let (c, adv) = utf8_next s; us = utf16_units c
        in (case cap of
              None \<Rightarrow> mb_loop cap (drop adv s) (out @ us)
            | Some wl \<Rightarrow> if int (length out + length us) > wl then (False, out)
                else mb_loop cap (drop adv s) (out @ us)))"
  by pat_completeness auto
termination
  by (relation "measure (\<lambda>(cap, s, out). length s)") (auto dest: utf8_next_adv [OF sym])

declare mb_loop.simps [simp del]

text \<open>
  \<open>m\<close> is the readable memory at \<open>s\<close>, \<^const>\<open>None\<close> for NULL; \<open>w\<close> says whether the output pointer
  is not NULL. The result is the returned count and the units written.
\<close>

definition MultiByteToWideChar ::
    "u32 \<Rightarrow> u8 list option \<Rightarrow> int \<Rightarrow> bool \<Rightarrow> int \<Rightarrow> int \<times> u16 list" where
  "MultiByteToWideChar cp m sl w wl =
     (case m of
        None \<Rightarrow> (0, [])
      | Some b \<Rightarrow>
          if cp \<noteq> 65001 then (0, [])
          else let s = (if sl < 0 then cstr_at b else take (nat sl) b);
                   cap = (if \<not> w \<or> wl = 0 then None else Some wl)
            in if s = [] then (0, [])
               else (case mb_loop cap s [] of
                   (False, out) \<Rightarrow> (0, out)
                 | (True, out) \<Rightarrow>
                     let units = int (length out) + (if sl < 0 then 1 else 0)
                     in if cap = None then (units, [])
                        else if sl < 0 then (if units > wl then (0, out) else (units, out @ [0]))
                        else (units, out)))"

section \<open>UTF-16 to UTF-8\<close>

definition is_high :: "u16 \<Rightarrow> bool" where "is_high u \<longleftrightarrow> 55296 \<le> u \<and> u \<le> 56319"
definition is_low :: "u16 \<Rightarrow> bool" where "is_low u \<longleftrightarrow> 56320 \<le> u \<and> u \<le> 57343"

text \<open>The next character of a non-empty text, a lone surrogate being U+FFFD, and the units it takes.\<close>

definition utf16_next :: "u16 list \<Rightarrow> nat \<times> nat" where
  "utf16_next w =
     (let u = hd w
      in if is_high u \<and> tl w \<noteq> [] \<and> is_low (hd (tl w))
         then (65536 + push_bit 10 (unat u - 55296) + (unat (hd (tl w)) - 56320), 2)
         else ((if 55296 \<le> u \<and> u \<le> 57343 then 65533 else unat u), 1))"

definition utf8_bytes :: "nat \<Rightarrow> u8 list" where
  "utf8_bytes c =
     (if c < 128 then [of_nat c]
      else if c < 2048 then [of_nat (192 OR drop_bit 6 c), of_nat (128 OR (c AND 63))]
      else if c < 65536 then
        [of_nat (224 OR drop_bit 12 c), of_nat (128 OR (drop_bit 6 c AND 63)), of_nat (128 OR (c AND 63))]
      else [of_nat (240 OR drop_bit 18 c), of_nat (128 OR (drop_bit 12 c AND 63)),
        of_nat (128 OR (drop_bit 6 c AND 63)), of_nat (128 OR (c AND 63))])"

lemma utf16_next_adv: "utf16_next w = (c, adv) \<Longrightarrow> 0 < adv"
  by (auto simp: utf16_next_def Let_def split: if_splits)

function wc_loop :: "int option \<Rightarrow> u16 list \<Rightarrow> u8 list \<Rightarrow> bool \<times> u8 list" where
  "wc_loop cap w out =
     (if w = [] then (True, out)
      else let (c, adv) = utf16_next w; bs = utf8_bytes c
        in (case cap of
              None \<Rightarrow> wc_loop cap (drop adv w) (out @ bs)
            | Some sl \<Rightarrow> if int (length out + length bs) > sl then (False, out)
                else wc_loop cap (drop adv w) (out @ bs)))"
  by pat_completeness auto
termination
  by (relation "measure (\<lambda>(cap, w, out). length w)") (auto dest: utf16_next_adv [OF sym])

declare wc_loop.simps [simp del]

text \<open>
  The result adds whether \<open>*du\<close> was cleared (it is on success, when \<open>du\<close> is given). Unlike the
  other direction, only a NULL output pointer counts; a capacity of 0 is too short.
\<close>

definition WideCharToMultiByte ::
    "u32 \<Rightarrow> u16 list option \<Rightarrow> int \<Rightarrow> bool \<Rightarrow> int \<Rightarrow> bool \<Rightarrow> int \<times> u8 list \<times> bool" where
  "WideCharToMultiByte cp m wl s sl du =
     (case m of
        None \<Rightarrow> (0, [], False)
      | Some b \<Rightarrow>
          if cp \<noteq> 65001 then (0, [], False)
          else let w = (if wl < 0 then takeWhile (\<lambda>u. u \<noteq> 0) b else take (nat wl) b);
                   cap = (if s then Some sl else None)
            in if w = [] then (0, [], False)
               else (case wc_loop cap w [] of
                   (False, out) \<Rightarrow> (0, out, False)
                 | (True, out) \<Rightarrow>
                     let bytes = int (length out) + (if wl < 0 then 1 else 0)
                     in if cap = None then (bytes, [], du)
                        else if wl < 0 then (if bytes > sl then (0, out, False) else (bytes, out @ [0], du))
                        else (bytes, out, du)))"

section \<open>The conversions as functions on characters\<close>

text \<open>The characters that the loops see, and the loops in terms of them.\<close>

function utf8_chars :: "u8 list \<Rightarrow> nat list" where
  "utf8_chars s = (if s = [] then [] else let (c, adv) = utf8_next s in c # utf8_chars (drop adv s))"
  by pat_completeness auto
termination by (relation "measure length") (auto dest: utf8_next_adv [OF sym])

function utf16_chars :: "u16 list \<Rightarrow> nat list" where
  "utf16_chars w = (if w = [] then [] else let (c, adv) = utf16_next w in c # utf16_chars (drop adv w))"
  by pat_completeness auto
termination by (relation "measure length") (auto dest: utf16_next_adv [OF sym])

declare utf8_chars.simps [simp del] utf16_chars.simps [simp del]

lemma utf8_chars_Nil [simp]: "utf8_chars [] = []" by (simp add: utf8_chars.simps)
lemma utf16_chars_Nil [simp]: "utf16_chars [] = []" by (simp add: utf16_chars.simps)

lemma concat_map_ne: "(\<And>x. f x \<noteq> []) \<Longrightarrow> concat (map f xs) = [] \<longleftrightarrow> xs = []"
  by (cases xs) auto

lemma mb_loop_Nil [simp]: "mb_loop cap [] out = (True, out)"
  by (simp add: mb_loop.simps [of cap "[]"])

lemma wc_loop_Nil [simp]: "wc_loop cap [] out = (True, out)"
  by (simp add: wc_loop.simps [of cap "[]"])

lemma mb_loop_count: "mb_loop None s out = (True, out @ concat (map utf16_units (utf8_chars s)))"
proof (induction "None :: int option" s out rule: mb_loop.induct)
  case (1 s out)
  then show ?case
    by (cases "s = []") (auto simp: mb_loop.simps [of None s out] utf8_chars.simps [of s] split: prod.split)
qed

lemma mb_loop_fits:
  "int (length (out @ concat (map utf16_units (utf8_chars s)))) \<le> wl \<Longrightarrow>
   mb_loop (Some wl) s out = (True, out @ concat (map utf16_units (utf8_chars s)))"
proof (induction "Some wl" s out rule: mb_loop.induct)
  case (1 s out)
  then show ?case
    by (cases "s = []") (auto simp: mb_loop.simps [of "Some wl" s out] utf8_chars.simps [of s] split: prod.splits)
qed

lemma mb_loop_short:
  "\<not> int (length (out @ concat (map utf16_units (utf8_chars s)))) \<le> wl \<Longrightarrow> s \<noteq> [] \<Longrightarrow>
   \<not> fst (mb_loop (Some wl) s out)"
proof (induction "Some wl" s out rule: mb_loop.induct)
  case (1 s out)
  obtain c adv where n: "utf8_next s = (c, adv)" by fastforce
  show ?case
  proof (cases "int (length out + length (utf16_units c)) > wl")
    case True
    with n 1 show ?thesis by (simp add: mb_loop.simps [of "Some wl" s out])
  next
    case False
    have "drop adv s \<noteq> []"
      using "1.prems" False n by (auto simp: utf8_chars.simps [of s])
    with False n 1 show ?thesis
      by (auto simp: mb_loop.simps [of "Some wl" s out] utf8_chars.simps [of s])
  qed
qed

lemma mb_loop_bound:
  "int (length out) \<le> max 0 wl \<Longrightarrow> int (length (snd (mb_loop (Some wl) s out))) \<le> max 0 wl"
proof (induction "Some wl" s out rule: mb_loop.induct)
  case (1 s out)
  then show ?case
    by (cases "s = []") (auto simp: mb_loop.simps [of "Some wl" s out] Let_def split: prod.split)
qed

lemma wc_loop_count: "wc_loop None w out = (True, out @ concat (map utf8_bytes (utf16_chars w)))"
proof (induction "None :: int option" w out rule: wc_loop.induct)
  case (1 w out)
  then show ?case
    by (cases "w = []") (auto simp: wc_loop.simps [of None w out] utf16_chars.simps [of w] split: prod.split)
qed

lemma wc_loop_fits:
  "int (length (out @ concat (map utf8_bytes (utf16_chars w)))) \<le> sl \<Longrightarrow>
   wc_loop (Some sl) w out = (True, out @ concat (map utf8_bytes (utf16_chars w)))"
proof (induction "Some sl" w out rule: wc_loop.induct)
  case (1 w out)
  then show ?case
    by (cases "w = []") (auto simp: wc_loop.simps [of "Some sl" w out] utf16_chars.simps [of w] split: prod.splits)
qed

lemma wc_loop_short:
  "\<not> int (length (out @ concat (map utf8_bytes (utf16_chars w)))) \<le> sl \<Longrightarrow> w \<noteq> [] \<Longrightarrow>
   \<not> fst (wc_loop (Some sl) w out)"
proof (induction "Some sl" w out rule: wc_loop.induct)
  case (1 w out)
  obtain c adv where n: "utf16_next w = (c, adv)" by fastforce
  show ?case
  proof (cases "int (length out + length (utf8_bytes c)) > sl")
    case True
    with n 1 show ?thesis by (simp add: wc_loop.simps [of "Some sl" w out])
  next
    case False
    have "drop adv w \<noteq> []"
      using "1.prems" False n by (auto simp: utf16_chars.simps [of w])
    with False n 1 show ?thesis
      by (auto simp: wc_loop.simps [of "Some sl" w out] utf16_chars.simps [of w])
  qed
qed

section \<open>Characters survive both encodings\<close>

text \<open>A Unicode scalar value: not a surrogate.\<close>

definition is_scalar :: "nat \<Rightarrow> bool" where
  "is_scalar c \<longleftrightarrow> c \<le> 1114111 \<and> \<not> (55296 \<le> c \<and> c \<le> 57343)"

lemma lead_or:
  "a < 32 \<Longrightarrow> 192 OR a = 192 + (a :: nat)" "a < 16 \<Longrightarrow> 224 OR a = 224 + a"
  "a < 8 \<Longrightarrow> 240 OR a = 240 + a" "a < 64 \<Longrightarrow> 128 OR a = 128 + a"
  using or_add [of a 5 6] or_add [of a 4 14] or_add [of a 3 30] or_add [of a 6 2]
  by (simp_all add: push_bit_eq_mult)

lemma and_low: "(c :: nat) AND 63 = c mod 64" "(c :: nat) AND 1023 = c mod 1024"
  using take_bit_eq_mask [of 6 c] take_bit_eq_mask [of 10 c]
  by (simp_all add: mask_eq_exp_minus_1 take_bit_eq_mod)

lemma lead_bytes:
  "list_all (\<lambda>a. utf8_lead (of_nat a) = (Some a, 1)) [0..<128]"
  "list_all (\<lambda>a. utf8_lead (of_nat (192 + a)) = (Some a, 2)) [0..<32]"
  "list_all (\<lambda>a. utf8_lead (of_nat (224 + a)) = (Some a, 3)) [0..<16]"
  "list_all (\<lambda>a. utf8_lead (of_nat (240 + a)) = (Some a, 4)) [0..<8]"
  "list_all (\<lambda>b. (of_nat (128 + b) :: u8) AND 192 = 128 \<and> unat ((of_nat (128 + b) :: u8) AND 63) = b) [0..<64]"
  by code_simp+

lemma utf8_lead_byte:
  "a < 128 \<Longrightarrow> utf8_lead (of_nat a) = (Some a, 1)"
  "a < 32 \<Longrightarrow> utf8_lead (of_nat (192 + a)) = (Some a, 2)"
  "a < 16 \<Longrightarrow> utf8_lead (of_nat (224 + a)) = (Some a, 3)"
  "a < 8 \<Longrightarrow> utf8_lead (of_nat (240 + a)) = (Some a, 4)"
  using lead_bytes(1-4) by (auto simp: list_all_iff)

lemma utf8_cont_byte:
  "b < 64 \<Longrightarrow> utf8_cont c (of_nat (128 + b) # bs) = utf8_cont (c * 64 + b) bs"
  using lead_bytes(5) or_add [of b 6 c] by (auto simp: list_all_iff)

lemma lead_bounds:
  "c < 2048 \<Longrightarrow> c div 64 < 32" "c < 65536 \<Longrightarrow> c div 4096 < 16" "c < 2097152 \<Longrightarrow> c div 262144 < (8 :: nat)"
  by (rule less_mult_imp_div_less, simp)+

lemma sextets:
  "c div 64 * 64 + c mod 64 = c" "(c div 4096 * 64 + c div 64 mod 64) * 64 + c mod 64 = c"
  "((c div 262144 * 64 + c div 4096 mod 64) * 64 + c div 64 mod 64) * 64 + c mod 64 = (c :: nat)"
proof -
  have q: "c div 4096 = c div 64 div 64" "c div 262144 = c div 4096 div 64"
    by (simp_all flip: div_mult2_eq)
  show a: "c div 64 * 64 + c mod 64 = c" by (rule div_mult_mod_eq)
  show b: "(c div 4096 * 64 + c div 64 mod 64) * 64 + c mod 64 = c"
    unfolding q(1) div_mult_mod_eq ..
  show "((c div 262144 * 64 + c div 4096 mod 64) * 64 + c div 64 mod 64) * 64 + c mod 64 = c"
    unfolding q(2) div_mult_mod_eq by (rule b)
qed

lemma utf8_bytes_arith:
  "c < 2097152 \<Longrightarrow> utf8_bytes c =
     (if c < 128 then [of_nat c]
      else if c < 2048 then [of_nat (192 + c div 64), of_nat (128 + c mod 64)]
      else if c < 65536 then
        [of_nat (224 + c div 4096), of_nat (128 + c div 64 mod 64), of_nat (128 + c mod 64)]
      else [of_nat (240 + c div 262144), of_nat (128 + c div 4096 mod 64),
        of_nat (128 + c div 64 mod 64), of_nat (128 + c mod 64)])"
  by (simp add: utf8_bytes_def and_low drop_bit_eq_div lead_or lead_bounds del: of_nat_add)

lemma utf8_next_bytes:
  assumes "c \<le> 1114111"
  shows "utf8_next (utf8_bytes c @ rest) = (c, length (utf8_bytes c))"
proof -
  have t: "utf8_cont a [of_nat (128 + x)] = Some (a * 64 + x)"
      "utf8_cont a [of_nat (128 + y), of_nat (128 + x)] = Some ((a * 64 + y) * 64 + x)"
      "utf8_cont a [of_nat (128 + z), of_nat (128 + y), of_nat (128 + x)] = Some (((a * 64 + z) * 64 + y) * 64 + x)"
    if "x < 64" "y < 64" "z < 64" for a x y z
    using that by (simp_all add: utf8_cont_byte del: of_nat_add utf8_cont.simps(2))
  have m: "n mod 64 < 64" for n :: nat by simp
  consider "c < 128" | "128 \<le> c" "c < 2048" | "2048 \<le> c" "c < 65536" | "65536 \<le> c" "c < 2097152"
    using assms by linarith
  then show ?thesis
  proof cases
    case 1
    then show ?thesis
      by (simp add: utf8_bytes_arith [of c] utf8_next_def utf8_lead_byte)
  next
    case 2
    then have b: "utf8_bytes c = [of_nat (192 + c div 64), of_nat (128 + c mod 64)]"
      by (simp add: utf8_bytes_arith)
    show ?thesis
      using 2 unfolding utf8_next_def b
      by (simp add: utf8_lead_byte lead_bounds t(1) [OF m m m] sextets(1) del: of_nat_add utf8_cont.simps)
  next
    case 3
    then have b: "utf8_bytes c = [of_nat (224 + c div 4096), of_nat (128 + c div 64 mod 64), of_nat (128 + c mod 64)]"
      by (simp add: utf8_bytes_arith)
    show ?thesis
      using 3 unfolding utf8_next_def b
      by (simp add: utf8_lead_byte lead_bounds t(2) [OF m m m] sextets(2) sextets(2) [simplified] numeral_2_eq_2
          del: of_nat_add utf8_cont.simps)
  next
    case 4
    then have b: "utf8_bytes c = [of_nat (240 + c div 262144), of_nat (128 + c div 4096 mod 64),
        of_nat (128 + c div 64 mod 64), of_nat (128 + c mod 64)]"
      by (simp add: utf8_bytes_arith)
    show ?thesis
      using 4 assms unfolding utf8_next_def b
      by (simp add: utf8_lead_byte lead_bounds t(3) [OF m m m] sextets(3) sextets(3) [simplified] numeral_3_eq_3
          del: of_nat_add utf8_cont.simps)
  qed
qed

lemma units_nat:
  "n < 65536 \<Longrightarrow> unat (of_nat n :: u16) = n"
  by (simp add: unat_of_nat)

lemma utf16_next_units:
  assumes "is_scalar c"
  shows "utf16_next (utf16_units c @ rest) = (c, length (utf16_units c))"
proof (cases "c > 65535")
  case True
  define k where "k = c - 65536"
  have k: "k < 1048576" "c = 65536 + k" using True assms by (auto simp: k_def is_scalar_def)
  then have "k div 1024 < 1024" by (intro less_mult_imp_div_less) simp
  then have u: "unat (of_nat (55296 + k div 1024) :: u16) = 55296 + k div 1024"
      "unat (of_nat (56320 + k mod 1024) :: u16) = 56320 + k mod 1024"
    by (auto intro!: units_nat simp del: of_nat_add) (metis less_add_Suc1 mod_less_divisor)?
  have "utf16_units c = [of_nat (55296 + k div 1024), of_nat (56320 + k mod 1024)]"
    using True by (simp add: utf16_units_def and_low drop_bit_eq_div flip: k_def)
  moreover have "k div 1024 \<le> 1023" "k mod 1024 \<le> 1023" using \<open>k div 1024 < 1024\<close> by auto
  ultimately show ?thesis
    using k(2) by (simp add: utf16_next_def is_high_def is_low_def word_le_nat_alt u push_bit_eq_mult
        del: of_nat_add)
next
  case False
  then have "unat (of_nat c :: u16) = c" by (intro units_nat) simp
  with False assms show ?thesis
    by (auto simp: utf16_units_def utf16_next_def is_scalar_def is_high_def word_le_nat_alt Let_def)
qed

lemma utf16_next_scalar: "w \<noteq> [] \<Longrightarrow> is_scalar (fst (utf16_next w))"
proof -
  have "unat (hd w) < 65536"
    by (rule order_less_le_trans [OF unsigned_less]) simp
  moreover have "push_bit 10 (unat u - 55296) + (unat v - 56320) \<le> 1048575"
    if "unat u \<le> 56319" "unat v \<le> 57343" for u v :: u16
  proof -
    have "(unat u - 55296) * 1024 \<le> 1023 * 1024" using that by (intro mult_right_mono) auto
    with that show ?thesis by (simp add: push_bit_eq_mult)
  qed
  ultimately show ?thesis
    by (fastforce simp: utf16_next_def is_scalar_def is_high_def is_low_def word_le_nat_alt Let_def)
qed

lemma utf16_chars_scalar: "list_all is_scalar (utf16_chars w)"
proof (induction w rule: utf16_chars.induct)
  case (1 w)
  then show ?case
    using utf16_next_scalar [of w] by (cases "w = []") (auto simp: utf16_chars.simps [of w] split: prod.splits)
qed

lemma utf8_bytes_ne: "utf8_bytes c \<noteq> []" by (simp add: utf8_bytes_def)
lemma utf16_units_ne: "utf16_units c \<noteq> []" by (simp add: utf16_units_def)

lemma utf8_chars_bytes: "list_all (\<lambda>c. c \<le> 1114111) cs \<Longrightarrow> utf8_chars (concat (map utf8_bytes cs)) = cs"
  by (induction cs) (simp_all add: utf8_chars.simps [of "utf8_bytes _ @ _"] utf8_next_bytes utf8_bytes_ne)

lemma utf16_chars_units: "list_all is_scalar cs \<Longrightarrow> utf16_chars (concat (map utf16_units cs)) = cs"
  by (induction cs) (simp_all add: utf16_chars.simps [of "utf16_units _ @ _"] utf16_next_units utf16_units_ne)

text \<open>The two functions on a text of given length, in terms of characters.\<close>

lemma MultiByteToWideChar_chars:
  assumes "s \<noteq> []" "r = concat (map utf16_units (utf8_chars s))"
  shows "MultiByteToWideChar 65001 (Some s) (int (length s)) False wl = (int (length r), [])"
    and "wl \<noteq> 0 \<Longrightarrow> int (length r) \<le> wl \<Longrightarrow>
      MultiByteToWideChar 65001 (Some s) (int (length s)) True wl = (int (length r), r)"
    and "wl \<noteq> 0 \<Longrightarrow> \<not> int (length r) \<le> wl \<Longrightarrow>
      fst (MultiByteToWideChar 65001 (Some s) (int (length s)) True wl) = 0"
  using assms mb_loop_count [of s "[]"] mb_loop_fits [of "[]" s wl] mb_loop_short [of "[]" s wl]
  by (auto simp: MultiByteToWideChar_def Let_def split: prod.split bool.split)

lemma WideCharToMultiByte_chars:
  assumes "w \<noteq> []" "r = concat (map utf8_bytes (utf16_chars w))"
  shows "WideCharToMultiByte 65001 (Some w) (int (length w)) False sl du = (int (length r), [], du)"
    and "int (length r) \<le> sl \<Longrightarrow>
      WideCharToMultiByte 65001 (Some w) (int (length w)) True sl du = (int (length r), r, du)"
  using assms wc_loop_count [of w "[]"] wc_loop_fits [of "[]" w sl]
  by (auto simp: WideCharToMultiByte_def Let_def)

text \<open>Evaluation on concrete texts.\<close>

lemmas wide_eval = MultiByteToWideChar_def WideCharToMultiByte_def mb_loop.simps [of _ "_ # _"]
  wc_loop.simps [of _ "_ # _"] utf8_next_def utf8_lead_def utf16_next_def utf16_units_def utf8_bytes_def
  is_high_def is_low_def cstr_at_def Let_def

section \<open>Properties\<close>



text \<open>
  UTF-16 survives the way through UTF-8: converting a text with \<open>WideCharToMultiByte\<close> and the
  bytes back with \<open>MultiByteToWideChar\<close>, into buffers that are large enough, gives the text with
  every lone surrogate replaced by U+FFFD; a well-formed text comes back unchanged.
\<close>

theorem wide_roundtrip:
  assumes "w \<noteq> []" "WideCharToMultiByte 65001 (Some w) (int (length w)) True sl du = (n, bs, d)" "n \<noteq> 0"
    "MultiByteToWideChar 65001 (Some bs) n True wl = (k, us)" "k \<noteq> 0" "wl \<noteq> 0"
  shows "us = concat (map utf16_units (utf16_chars w)) \<and>
    (list_all is_scalar cs \<and> w = concat (map utf16_units cs) \<longrightarrow> us = w)"
proof -
  let ?bs = "concat (map utf8_bytes (utf16_chars w))"
  have fits: "int (length ?bs) \<le> sl"
  proof (rule ccontr)
    assume "\<not> int (length ?bs) \<le> sl"
    then have "\<not> fst (wc_loop (Some sl) w [])"
      using wc_loop_short [of "[]" w sl] assms(1) by simp
    with assms(1-3) show False
      by (auto simp: WideCharToMultiByte_def Let_def split: prod.splits bool.splits)
  qed
  have b: "bs = ?bs" "n = int (length bs)"
    using WideCharToMultiByte_chars(2) [OF assms(1) refl fits, of du] assms(2) by auto
  have ne: "bs \<noteq> []" using assms(3) b(2) by auto
  have "list_all (\<lambda>c. c \<le> 1114111) (utf16_chars w)"
    using utf16_chars_scalar [of w] by (auto simp: list_all_iff is_scalar_def)
  then have chars: "utf8_chars bs = utf16_chars w"
    unfolding b(1) by (rule utf8_chars_bytes)
  have "us = concat (map utf16_units (utf8_chars bs))"
    using MultiByteToWideChar_chars(2,3) [OF ne refl assms(6)] assms(4,5) b(2)
    by (cases "int (length (concat (map utf16_units (utf8_chars bs)))) \<le> wl") auto
  then show ?thesis
    using utf16_chars_units by (auto simp: chars)
qed

theorem wide_roundtrip_witness:
  "\<exists>us. MultiByteToWideChar 65001 (Some [240, 159, 152, 128]) 4 True 4 = (2, us) \<and> us = [55357, 56832]"
proof -
  have w: "WideCharToMultiByte 65001 (Some [55357, 56832]) 2 True 8 True = (4, [240, 159, 152, 128], True)"
    by (simp add: wide_eval)
  have "fst (MultiByteToWideChar 65001 (Some [240, 159, 152, 128]) 4 True 4) = 2" by (simp add: wide_eval)
  then obtain us where u: "MultiByteToWideChar 65001 (Some [240, 159, 152, 128]) 4 True 4 = (2, us)"
    by (auto simp: prod_eq_iff)
  have "concat (map utf16_units [128512]) = [55357, 56832]" "list_all is_scalar [128512]"
    by (simp_all add: wide_eval is_scalar_def)
  with wide_roundtrip [of "[55357, 56832]" 8 True 4 "[240, 159, 152, 128]" True 4 2 us "[128512]"] w u
  have "us = [55357, 56832]" by auto
  with u show ?thesis by blast
qed

text \<open>
  C13. UTF-8 survives the way through UTF-16: the encoding of any non-empty sequence of Unicode
  scalar values, converted to UTF-16 and back, comes back byte for byte.
\<close>

theorem utf8_roundtrip:
  assumes "cs \<noteq> []" "list_all is_scalar cs" "s = concat (map utf8_bytes cs)"
    "MultiByteToWideChar 65001 (Some s) (int (length s)) True wl = (n, us)" "n \<noteq> 0" "wl \<noteq> 0"
    "int (length s) \<le> sl"
  shows "WideCharToMultiByte 65001 (Some us) n True sl du = (int (length s), s, du)"
proof -
  have s: "s \<noteq> []" using assms(1,3) utf8_bytes_ne by (cases cs) auto
  have "list_all (\<lambda>c. c \<le> 1114111) cs"
    using assms(2) by (auto simp: list_all_iff is_scalar_def)
  then have chars: "utf8_chars s = cs" unfolding assms(3) by (rule utf8_chars_bytes)
  have us: "us = concat (map utf16_units cs)" "n = int (length us)"
    using MultiByteToWideChar_chars(2,3) [OF s refl assms(6)] assms(4,5)
    by (cases "int (length (concat (map utf16_units (utf8_chars s)))) \<le> wl"; auto simp: chars)+
  have "us \<noteq> []" using us assms(1) utf16_units_ne by (cases cs) auto
  moreover have "utf16_chars us = cs" unfolding us(1) by (rule utf16_chars_units [OF assms(2)])
  ultimately show ?thesis
    using WideCharToMultiByte_chars(2) [of us s sl du] assms(3,7) us(2) by simp
qed

theorem utf8_roundtrip_witness:
  "WideCharToMultiByte 65001 (Some [8364]) 1 True 3 False = (3, [226, 130, 172], False)"
proof -
  have c: "concat (map utf8_bytes [8364]) = [226, 130, 172]" "list_all is_scalar [8364]"
    "MultiByteToWideChar 65001 (Some [226, 130, 172]) 3 True 4 = (1, [8364])"
    by (simp_all add: wide_eval is_scalar_def)
  then show ?thesis
    using utf8_roundtrip [OF _ c(2) c(1) [symmetric], of 4 1 "[8364]" 3 False] by simp
qed

text \<open>
  Two departures from the conversion that the comment at the head of \<open>MultiByteToWideChar\<close>
  describes: an encoded surrogate is not replaced by U+FFFD but stored as a lone surrogate, and
  the empty text with a negative length counts 0 units, not the one of its terminator.
\<close>

theorem MultiByteToWideChar_divergence:
  "MultiByteToWideChar 65001 (Some [237, 160, 128]) 3 True 4 = (1, [55296]) \<and>
   MultiByteToWideChar 65001 (Some [0]) (- 1) False 0 = (0, []) \<and>
   MultiByteToWideChar 65001 (Some [65, 0]) (- 1) False 0 = (2, [])"
  by (simp add: wide_eval)

end
