(* ===== verification/Boot_Bignum.thy ===== *)
theory Boot_Bignum
  imports Zan_Prelude
begin

text \<open>
  The bignum of the freestanding libc (\<open>scripts/crossboot/stub.c\<close>, \<open>nbig\<close> and the \<open>nb_\<close>
  functions). A number is the list of its limbs in use, \<open>l[0]\<close> to \<open>l[n - 1]\<close>, least first; the
  struct has room for \<open>NBIG\<close> of them, and every function that grows a number stops there. Each
  operation is proved to compute the arithmetic operation on the values, whenever the result has
  room.
\<close>

type_synonym nbig = "u32 list"

definition NBIG :: nat where "NBIG = 480"

fun limbs_val :: "nbig \<Rightarrow> nat" where
  "limbs_val [] = 0"
| "limbs_val (x # xs) = unat x + 4294967296 * limbs_val xs"

section \<open>The operations\<close>

definition nb_init :: nbig where "nb_init = [0]"

function nb_trim :: "nbig \<Rightarrow> nbig" where
  "nb_trim b = (if 1 < length b \<and> last b = 0 then nb_trim (butlast b) else b)"
  by pat_completeness auto
termination by (relation "measure length") auto

declare nb_trim.simps [simp del]

definition nb_is_zero :: "nbig \<Rightarrow> bool" where
  "nb_is_zero b = list_all (\<lambda>x. x = 0) b"

function word_bits :: "'a :: len word \<Rightarrow> nat" where
  "word_bits t = (if t = 0 then 0 else Suc (word_bits (drop_bit 1 t)))"
  by pat_completeness auto
termination
  by (relation "measure unat") (auto simp: unat_drop_bit_eq drop_bit_eq_div unat_div unat_gt_0)

declare word_bits.simps [simp del]

definition nb_bitlen :: "nbig \<Rightarrow> nat" where
  "nb_bitlen b = (if nb_is_zero b then 0 else (length b - 1) * 32 + word_bits (last b))"

text \<open>Multiply by \<open>m\<close> and add \<open>a\<close>, and append the carry while there is room.\<close>

fun mul_add_loop :: "u32 \<Rightarrow> nbig \<Rightarrow> u64 \<Rightarrow> nbig \<times> u64" where
  "mul_add_loop m [] c = ([], c)"
| "mul_add_loop m (x # xs) c =
     (let v = ucast x * ucast m + c; (ys, c') = mul_add_loop m xs (drop_bit 32 v)
      in (ucast v # ys, c'))"

function push_carry :: "nbig \<Rightarrow> u64 \<Rightarrow> nbig" where
  "push_carry b c = (if c \<noteq> 0 \<and> length b < NBIG then push_carry (b @ [ucast c]) (drop_bit 32 c) else b)"
  by pat_completeness auto
termination by (relation "measure (\<lambda>(b, c). NBIG - length b)") auto

declare push_carry.simps [simp del]

definition nb_mul_add :: "nbig \<Rightarrow> u32 \<Rightarrow> u32 \<Rightarrow> nbig" where
  "nb_mul_add b m a = (case mul_add_loop m b (ucast a) of (ys, c) \<Rightarrow> push_carry ys c)"

text \<open>
  Schoolbook product. Row \<open>i\<close> works on the limbs of the result from \<open>i\<close> on: \<open>mul_row\<close> adds one
  limb times \<open>b\<close> there and \<open>add_carry\<close> lets the carry run out; both stop at the end of the result.
\<close>

fun add_carry :: "nbig \<Rightarrow> u64 \<Rightarrow> nbig" where
  "add_carry [] c = []"
| "add_carry (r # rs) c =
     (if c = 0 then r # rs
      else let v = ucast r + c in ucast v # add_carry rs (drop_bit 32 v))"

fun mul_row :: "u32 \<Rightarrow> nbig \<Rightarrow> nbig \<Rightarrow> u64 \<Rightarrow> nbig" where
  "mul_row a [] rs c = add_carry rs c"
| "mul_row a (b # bs) [] c = []"
| "mul_row a (b # bs) (r # rs) c =
     (let v = ucast a * ucast b + ucast r + c in ucast v # mul_row a bs rs (drop_bit 32 v))"

fun mul_rows :: "nbig \<Rightarrow> nbig \<Rightarrow> nbig \<Rightarrow> nbig" where
  "mul_rows (a # as) b rs =
     (case (if a = 0 then rs else mul_row a b rs 0) of [] \<Rightarrow> [] | r # rs' \<Rightarrow> r # mul_rows as b rs')"
| "mul_rows [] b rs = rs"

definition nb_mul_big :: "nbig \<Rightarrow> nbig \<Rightarrow> nbig" where
  "nb_mul_big a b = nb_trim (mul_rows a b (replicate (min (length a + length b) NBIG) 0))"

text \<open>
  Shift right, with whether a 1 was shifted out. The limbs are moved in place from the low end,
  reading only limbs not yet written; \<open>shr_limbs\<close> is the memory before the trim.
\<close>

definition limb :: "nbig \<Rightarrow> nat \<Rightarrow> u32" where
  "limb b i = (if i < length b then b ! i else 0)"

definition shr_limbs :: "nbig \<Rightarrow> nat \<Rightarrow> nbig" where
  "shr_limbs b sh =
     map (\<lambda>i. let lo = limb b (i + sh div 32); hi = limb b (i + sh div 32 + 1)
              in if sh mod 32 \<noteq> 0 then drop_bit (sh mod 32) lo OR push_bit (32 - sh mod 32) hi else lo)
       [0..<length b]"

definition shr_lost :: "nbig \<Rightarrow> nat \<Rightarrow> bool" where
  "shr_lost b sh \<longleftrightarrow>
     list_ex (\<lambda>i. b ! i \<noteq> 0) [0..<min (length b) (sh div 32)] \<or>
     (sh div 32 < length b \<and> sh mod 32 \<noteq> 0 \<and> b ! (sh div 32) AND (push_bit (sh mod 32) 1 - 1) \<noteq> 0)"

definition nb_shr_sticky :: "nbig \<Rightarrow> int \<Rightarrow> nbig \<times> bool" where
  "nb_shr_sticky b sh = (if sh \<le> 0 then (b, False) else (nb_trim (shr_limbs b (nat sh)), shr_lost b (nat sh)))"

definition nb_shl :: "nbig \<Rightarrow> int \<Rightarrow> nbig" where
  "nb_shl a sh =
     (if sh \<le> 0 \<or> nb_is_zero a then a
      else let lw = nat sh div 32; rb = nat sh mod 32; nn = min (length a + lw + 1) NBIG
        in nb_trim (map (\<lambda>i. let lo = (if lw \<le> i then limb a (i - lw) else 0);
                                hi = (if lw + 1 \<le> i then limb a (i - lw - 1) else 0)
                            in if rb \<noteq> 0 then push_bit rb lo OR drop_bit (32 - rb) hi else lo)
                      [0..<nn]))"

text \<open>Three-way comparison: the trimmed lengths first, then the limbs from the top.\<close>

fun cmp_high :: "nbig \<Rightarrow> nbig \<Rightarrow> int" where
  "cmp_high (x # xs) (y # ys) = (if x \<noteq> y then (if x < y then - 1 else 1) else cmp_high xs ys)"
| "cmp_high _ _ = 0"

definition nb_cmp :: "nbig \<Rightarrow> nbig \<Rightarrow> int" where
  "nb_cmp a b =
     (let a' = nb_trim a; b' = nb_trim b
      in if length a' \<noteq> length b' then (if length a' < length b' then - 1 else 1)
         else cmp_high (rev a') (rev b'))"

fun sub_loop :: "nbig \<Rightarrow> nbig \<Rightarrow> int \<Rightarrow> nbig" where
  "sub_loop [] bs borrow = []"
| "sub_loop (x # xs) bs borrow =
     (let v = uint x - borrow - (case bs of [] \<Rightarrow> 0 | y # _ \<Rightarrow> uint y)
      in if v < 0 then word_of_int (v + 4294967296) # sub_loop xs (tl bs) 1
         else word_of_int v # sub_loop xs (tl bs) 0)"

definition nb_sub :: "nbig \<Rightarrow> nbig \<Rightarrow> nbig" where
  "nb_sub a b = nb_trim (sub_loop a b 0)"

definition nb_set_u64 :: "u64 \<Rightarrow> nbig" where
  "nb_set_u64 v = (if drop_bit 32 v \<noteq> 0 then [ucast v, ucast (drop_bit 32 v)] else [ucast v])"

text \<open>
  Increment. The carry runs on into the memory above the limbs in use, \<open>up\<close>; \<^const>\<open>None\<close> is
  the case that it reads past the array.
\<close>

fun inc_loop :: "nbig \<Rightarrow> nbig" where
  "inc_loop [] = []"
| "inc_loop (x # xs) = (if x + 1 = 0 then 0 # inc_loop xs else (x + 1) # xs)"

definition nb_inc :: "nbig \<Rightarrow> nbig \<Rightarrow> nbig option" where
  "nb_inc up a =
     (let m = inc_loop (a @ up); n = length a
      in if list_all (\<lambda>x. x + 1 = 0) a
         then (if up = [] then None else if m ! n \<noteq> 0 then Some (take (n + 1) m) else Some (take n m))
         else Some (take n m))"

text \<open>
  Long division. \<open>rem_push\<close> shifts the remainder left by one with a new low bit, and appends a
  limb when the top bit goes over; \<open>divmod_loop\<close> consumes the bits of the numerator from the top.
  \<open>same\<close> says that the numerator is the object that also receives the quotient: the code copies
  it first, but the early return reads it after the quotient was cleared.
\<close>

fun shl1 :: "u32 \<Rightarrow> nbig \<Rightarrow> nbig" where
  "shl1 c [] = []"
| "shl1 c (x # xs) = (push_bit 1 x OR c) # shl1 (drop_bit 31 x) xs"

definition rem_push :: "nbig \<Rightarrow> u32 \<Rightarrow> nbig" where
  "rem_push r nb =
     (if drop_bit 31 (last r) AND 1 \<noteq> 0 \<and> length r < NBIG then shl1 nb r @ [1] else shl1 nb r)"

definition nb_bit :: "nbig \<Rightarrow> nat \<Rightarrow> u32" where
  "nb_bit b i = drop_bit (i mod 32) (b ! (i div 32)) AND 1"

fun divmod_loop :: "nbig \<Rightarrow> nbig \<Rightarrow> nat \<Rightarrow> nbig \<Rightarrow> nbig \<Rightarrow> nbig \<times> nbig" where
  "divmod_loop num den 0 quot r = (quot, r)"
| "divmod_loop num den (Suc i) quot r =
     (let r1 = rem_push r (nb_bit num i)
      in if nb_cmp r1 den \<ge> 0
         then divmod_loop num den i (quot[i div 32 := quot ! (i div 32) OR push_bit (i mod 32) 1]) (nb_sub r1 den)
         else divmod_loop num den i quot r1)"

definition nb_divmod :: "bool \<Rightarrow> nbig \<Rightarrow> nbig \<Rightarrow> nbig \<times> nbig" where
  "nb_divmod same num den =
     (let blN = nb_bitlen num; nl = (blN + 31) div 32
      in if blN < nb_bitlen den then ([0], if same then [0] else num)
         else (case divmod_loop num den blN (replicate nl 0) nb_init of
             (quot, r) \<Rightarrow> (nb_trim quot, nb_trim r)))"

text \<open>Division by a small number, from the high limbs down.\<close>

fun div_small_loop :: "u32 \<Rightarrow> nbig \<Rightarrow> nbig \<times> u64" where
  "div_small_loop d [] = ([], 0)"
| "div_small_loop d (x # xs) =
     (let (qs, r) = div_small_loop d xs; cur = push_bit 32 r OR ucast x
      in (ucast (cur div ucast d) # qs, cur mod ucast d))"

definition nb_divmod_small :: "nbig \<Rightarrow> u32 \<Rightarrow> nbig \<times> u32" where
  "nb_divmod_small a d = (case div_small_loop d a of (qs, r) \<Rightarrow> (nb_trim qs, ucast r))"

section \<open>Values\<close>

named_theorems nb_val "the value a bignum operation computes"

lemma limbs_val_append: "limbs_val (xs @ ys) = limbs_val xs + 4294967296 ^ length xs * limbs_val ys"
  by (induction xs) (simp_all add: algebra_simps)

lemma limbs_val_zeros [simp]: "limbs_val (replicate n 0) = 0"
  by (induction n) simp_all

lemma limbs_val_less: "limbs_val xs < 4294967296 ^ length xs"
proof (induction xs)
  case (Cons x xs)
  have "unat x < 4294967296"
    using unsigned_less [of x] by simp
  with Cons show ?case by simp
qed simp

lemma limb_less: "unat (x :: u32) < 4294967296"
  using unsigned_less [of x] by simp

lemma u64_less: "unat (v :: u64) < 18446744073709551616"
  using unsigned_less [of v] by simp

text \<open>The two halves of a 64-bit value.\<close>

lemma unat_low: "unat (ucast (v :: u64) :: u32) = unat v mod 4294967296"
  by (simp add: unsigned_ucast_eq take_bit_eq_mod)

lemma unat_high: "unat (drop_bit 32 (v :: u64)) = unat v div 4294967296"
  by (simp only: unat_drop_bit_eq) (simp add: drop_bit_eq_div)

lemma unat_up: "unat (ucast (x :: u32) :: u64) = unat x"
proof -
  have "unat x < 2 ^ 64" using limb_less [of x] by simp
  then show ?thesis by (simp add: unsigned_ucast_eq take_bit_nat_eq_self)
qed

lemma limb_product:
  "unat x < 4294967296 \<Longrightarrow> unat y < 4294967296 \<Longrightarrow> c < 4294967296 \<Longrightarrow> r < 4294967296 \<Longrightarrow>
    unat (x :: u32) * unat (y :: u32) + r + c < 18446744073709551616"
  for c r :: nat
proof -
  assume a: "unat x < 4294967296" "unat y < 4294967296" "c < 4294967296" "r < 4294967296"
  then have "unat x * unat y \<le> 4294967295 * 4294967295"
    by (intro mult_mono) simp_all
  with a show ?thesis by simp
qed

lemma unat_mul_add:
  assumes "unat c < 4294967296"
  shows "unat ((ucast (x :: u32) :: u64) * ucast (y :: u32) + ucast (r :: u32) + c) =
    unat x * unat y + unat r + unat c"
proof -
  have less: "unat x * unat y + unat r + unat c < 2 ^ LENGTH(64)"
    using limb_product [OF limb_less limb_less assms limb_less] by simp
  have eq: "(ucast x :: u64) * ucast y + ucast r + c = of_nat (unat x * unat y + unat r + unat c)"
    by simp
  show ?thesis
    unfolding eq by (subst unat_of_nat, rule mod_less, fact)
qed

lemma unat_mul_carry:
  "unat c < 4294967296 \<Longrightarrow> unat ((ucast (x :: u32) :: u64) * ucast (y :: u32) + c) = unat x * unat y + unat c"
  using unat_mul_add [of c x y 0] by simp

lemma unat_add_carry:
  "unat c < 4294967296 \<Longrightarrow> unat ((ucast (r :: u32) :: u64) + c) = unat r + unat c"
  using unat_mul_add [of c 0 0 r] by simp

lemma high_less: "unat (drop_bit 32 (v :: u64)) < 4294967296"
  using u64_less [of v] by (simp only: unat_high less_mult_imp_div_less)

lemma halves: "unat (ucast (v :: u64) :: u32) + 4294967296 * unat (drop_bit 32 v) = unat v"
  by (simp add: unat_low unat_high)

section \<open>Multiplication\<close>

lemma mul_add_loop_val:
  "unat c < 4294967296 \<Longrightarrow> mul_add_loop m b c = (ys, c') \<Longrightarrow>
    length ys = length b \<and> unat c' < 4294967296 \<and>
    limbs_val ys + 4294967296 ^ length b * unat c' = limbs_val b * unat m + unat c"
proof (induction b arbitrary: c ys)
  case (Cons x xs)
  let ?v = "(ucast x :: u64) * ucast m + c"
  from Cons.prems(2) obtain zs where z: "mul_add_loop m xs (drop_bit 32 ?v) = (zs, c')" "ys = ucast ?v # zs"
    by (auto simp: Let_def split: prod.splits)
  have "unat (ucast ?v :: u32) + 4294967296 * unat (drop_bit 32 ?v) = unat x * unat m + unat c"
    using halves [of ?v] unat_mul_carry [OF Cons.prems(1), of x m] by simp
  with Cons.IH [OF high_less z(1)] show ?case
    by (simp add: z(2) algebra_simps)
qed simp

lemma push_carry_val:
  assumes "unat c < 4294967296" "c \<noteq> 0 \<Longrightarrow> length b < NBIG"
  shows "limbs_val (push_carry b c) = limbs_val b + 4294967296 ^ length b * unat c"
    "length b \<le> length (push_carry b c)" "length (push_carry b c) \<le> Suc (length b)"
proof -
  have "unat (drop_bit 32 c) = 0"
    by (simp only: unat_high) (use assms(1) in simp)
  then have z: "drop_bit 32 c = 0" by (simp only: unat_eq_zero)
  have stop: "push_carry b' 0 = b'" for b'
    by (simp add: push_carry.simps)
  have eq: "push_carry b c = (if c = 0 then b else b @ [ucast c])"
    by (subst push_carry.simps) (simp only: z stop, use assms(2) in auto)
  show "limbs_val (push_carry b c) = limbs_val b + 4294967296 ^ length b * unat c"
    "length b \<le> length (push_carry b c)" "length (push_carry b c) \<le> Suc (length b)"
    unfolding eq using assms(1) by (auto simp: limbs_val_append unat_low)
qed

lemma nb_mul_add_val [nb_val]:
  assumes "length b < NBIG"
  shows "limbs_val (nb_mul_add b m a) = limbs_val b * unat m + unat a"
    "length b \<le> length (nb_mul_add b m a)" "length (nb_mul_add b m a) \<le> Suc (length b)"
proof -
  obtain ys c where l: "mul_add_loop m b (ucast a) = (ys, c)" by fastforce
  have y: "length ys = length b" "unat c < 4294967296"
    "limbs_val ys + 4294967296 ^ length b * unat c = limbs_val b * unat m + unat a"
    using mul_add_loop_val [OF _ l] by (simp_all add: unat_up limb_less)
  with push_carry_val [of c ys] assms
  show "limbs_val (nb_mul_add b m a) = limbs_val b * unat m + unat a"
    "length b \<le> length (nb_mul_add b m a)" "length (nb_mul_add b m a) \<le> Suc (length b)"
    by (simp_all add: nb_mul_add_def l)
qed

section \<open>Trimming, comparing with zero, length in bits\<close>

definition trimmed :: "nbig \<Rightarrow> bool" where
  "trimmed b \<longleftrightarrow> b \<noteq> [] \<and> (1 < length b \<longrightarrow> last b \<noteq> 0)"

lemma nb_trim_val [nb_val]: "limbs_val (nb_trim b) = limbs_val b"
proof (induction b rule: nb_trim.induct)
  case (1 b)
  show ?case
  proof (cases "1 < length b \<and> last b = 0")
    case True
    then have "limbs_val b = limbs_val (butlast b @ [0])"
      by (metis append_butlast_last_id list.size(3) not_less_zero)
    with 1 True show ?thesis
      by (simp add: nb_trim.simps [of b] limbs_val_append)
  qed (auto simp: nb_trim.simps [of b])
qed

lemma nb_trim_trimmed: "b \<noteq> [] \<Longrightarrow> trimmed (nb_trim b)"
proof (induction b rule: nb_trim.induct)
  case (1 b)
  show ?case
  proof (cases "1 < length b \<and> last b = 0")
    case True
    then have "butlast b \<noteq> []" by (cases b rule: rev_cases) auto
    with 1 True show ?thesis by (simp add: nb_trim.simps [of b])
  next
    case False
    with 1(2) show ?thesis by (auto simp: nb_trim.simps [of b] trimmed_def)
  qed
qed

lemma length_nb_trim: "length (nb_trim b) \<le> length b"
proof (induction b rule: nb_trim.induct)
  case (1 b)
  then show ?case by (auto simp: nb_trim.simps [of b])
qed

lemma nb_is_zero_val [nb_val]: "nb_is_zero b \<longleftrightarrow> limbs_val b = 0"
  unfolding nb_is_zero_def by (induction b) (auto simp: unat_eq_zero)

lemma trimmed_ge:
  assumes "trimmed b" "limbs_val b \<noteq> 0"
  shows "4294967296 ^ (length b - 1) * unat (last b) \<le> limbs_val b" "last b \<noteq> 0"
proof -
  obtain bs x where b: "b = bs @ [x]"
    using assms(1) by (cases b rule: rev_cases) (auto simp: trimmed_def)
  then show "4294967296 ^ (length b - 1) * unat (last b) \<le> limbs_val b"
    by (simp add: limbs_val_append)
  show "last b \<noteq> 0"
    using assms b by (cases bs) (auto simp: trimmed_def)
qed

lemma trimmed_length_less:
  assumes "trimmed b" "limbs_val b < 4294967296 ^ n" "0 < n"
  shows "length b \<le> n"
proof (rule ccontr)
  assume n: "\<not> length b \<le> n"
  have "last b \<noteq> 0" using assms n by (auto simp: trimmed_def)
  then have one: "1 \<le> unat (last b)" by (simp add: Suc_le_eq unat_gt_0)
  have "limbs_val b \<noteq> 0"
    using \<open>last b \<noteq> 0\<close> assms(1) by (cases b rule: rev_cases) (auto simp: limbs_val_append trimmed_def unat_eq_zero)
  have "(4294967296 :: nat) ^ n \<le> 4294967296 ^ (length b - 1)"
    using n by (intro power_increasing) auto
  also have "\<dots> \<le> 4294967296 ^ (length b - 1) * unat (last b)"
    using one by simp
  also have "\<dots> \<le> limbs_val b"
    by (rule trimmed_ge) fact+
  finally show False using assms(2) by simp
qed

lemma word_bits_bounds: "t \<noteq> 0 \<Longrightarrow> 2 ^ (word_bits t - 1) \<le> unat t \<and> unat t < 2 ^ word_bits t \<and> 0 < word_bits t"
proof (induction t rule: word_bits.induct)
  case (1 t)
  have h: "unat (drop_bit 1 t) = unat t div 2"
    by (simp only: unat_drop_bit_eq) (simp add: drop_bit_eq_div)
  show ?case
  proof (cases "drop_bit 1 t = 0")
    case True
    then have "unat t div 2 = 0" by (simp only: h [symmetric] unat_0)
    moreover have "0 < unat t" using 1(2) by (simp add: unat_gt_0)
    ultimately have "unat t = 1" by simp
    moreover have "word_bits t = 1"
      by (subst word_bits.simps) (simp only: True 1(2) if_False word_bits.simps [of 0] if_True simp_thms)
    ultimately show ?thesis by simp
  next
    case False
    define k where "k = word_bits (drop_bit 1 t)"
    have k: "word_bits t = Suc k"
      by (subst word_bits.simps) (simp only: 1(2) if_False k_def)
    have "2 ^ (k - 1) \<le> unat t div 2" "unat t div 2 < 2 ^ k" "0 < k"
      using 1(1) [OF 1(2) False] unfolding h k_def by auto
    then show ?thesis unfolding k by (cases k) auto
  qed
qed

text \<open>\<open>has_bits v k\<close>: the binary representation of \<open>v\<close> has exactly \<open>k\<close> digits.\<close>

definition has_bits :: "nat \<Rightarrow> nat \<Rightarrow> bool" where
  "has_bits v k \<longleftrightarrow> v < 2 ^ k \<and> (0 < k \<longrightarrow> 2 ^ (k - 1) \<le> v)"

lemma has_bits_unique: "has_bits v j \<Longrightarrow> has_bits v k \<Longrightarrow> j = k"
proof (rule ccontr)
  have *: "j < k \<Longrightarrow> has_bits v j \<Longrightarrow> has_bits v k \<Longrightarrow> False" for j k
  proof -
    assume "j < k" "has_bits v j" "has_bits v k"
    from \<open>j < k\<close> have "(2 :: nat) ^ j \<le> 2 ^ (k - 1)"
      by (intro power_increasing) auto
    moreover have "v < 2 ^ j" "2 ^ (k - 1) \<le> v"
      using \<open>j < k\<close> \<open>has_bits v j\<close> \<open>has_bits v k\<close> by (auto simp: has_bits_def)
    ultimately show False by linarith
  qed
  assume "has_bits v j" "has_bits v k" "j \<noteq> k"
  with *[of j k] *[of k j] show False by (cases "j < k") auto
qed

lemma nb_bitlen_val [nb_val]:
  assumes "trimmed b"
  shows "has_bits (limbs_val b) (nb_bitlen b)"
proof (cases "limbs_val b = 0")
  case False
  obtain bs x where b: "b = bs @ [x]"
    using assms(1) by (cases b rule: rev_cases) (auto simp: trimmed_def)
  have x: "x \<noteq> 0" using trimmed_ge(2) [OF assms False] b by simp
  have bl: "nb_bitlen b = length bs * 32 + word_bits x"
    using False b by (simp add: nb_bitlen_def nb_is_zero_val)
  have p: "(4294967296 :: nat) ^ length bs = 2 ^ (length bs * 32)"
    using power_mult [of "2 :: nat" 32 "length bs"] by (simp add: mult.commute)
  have v: "limbs_val b = limbs_val bs + 2 ^ (length bs * 32) * unat x"
    by (simp add: b limbs_val_append p)
  have "limbs_val bs < 2 ^ (length bs * 32)"
    using limbs_val_less [of bs] by (simp add: p)
  then have "limbs_val b < 2 ^ (length bs * 32) * (1 + unat x)" by (simp add: v)
  also have "\<dots> \<le> 2 ^ (length bs * 32) * 2 ^ word_bits x"
    using word_bits_bounds [OF x] by (intro mult_le_mono2) auto
  finally have less: "limbs_val b < 2 ^ nb_bitlen b" by (simp add: bl power_add)
  have "2 ^ (nb_bitlen b - 1) = (2 :: nat) ^ (length bs * 32) * 2 ^ (word_bits x - 1)"
    using word_bits_bounds [OF x] by (simp add: bl flip: power_add)
  also have "\<dots> \<le> 2 ^ (length bs * 32) * unat x"
    using word_bits_bounds [OF x] by (intro mult_le_mono2) auto
  also have "\<dots> \<le> limbs_val b" by (simp add: v)
  finally show ?thesis using less by (simp add: has_bits_def)
qed (simp add: has_bits_def nb_bitlen_def nb_is_zero_val)

section \<open>Bits\<close>

lemma limbs_val_Cons_or: "limbs_val (x # xs) = push_bit 32 (limbs_val xs) OR unat x"
  using or_add [of "unat x" 32 "limbs_val xs"] limb_less [of x] by simp

lemma bit_limbs_val: "bit (limbs_val b) i \<longleftrightarrow> i div 32 < length b \<and> bit (b ! (i div 32)) (i mod 32)"
proof (induction b arbitrary: i)
  case (Cons x xs)
  have hi: "\<not> bit x i" if "32 \<le> i" using that bit_imp_le_length [of x i] by auto
  show ?case
  proof (cases "i < 32")
    case True
    then show ?thesis by (simp only: limbs_val_Cons_or) (simp add: bit_simps)
  next
    case False
    then have "i div 32 = Suc ((i - 32) div 32)" "(i - 32) mod 32 = i mod 32"
      by (simp_all add: le_div_geq le_mod_geq)
    with False hi Cons.IH [of "i - 32"] show ?thesis
      by (simp only: limbs_val_Cons_or) (simp add: bit_simps)
  qed
qed simp

lemma bit_limb: "bit (limb b k) j \<longleftrightarrow> j < 32 \<and> bit (limbs_val b) (32 * k + j)"
proof (cases "j < 32")
  case True
  then show ?thesis by (simp add: limb_def bit_limbs_val)
next
  case False
  then show ?thesis using bit_imp_le_length [of "limb b k" j] by auto
qed

lemma limbs_val_map: "bit (limbs_val (map f [0..<n])) i \<longleftrightarrow> i < 32 * n \<and> bit (f (i div 32)) (i mod 32)"
  by (auto simp: bit_limbs_val less_mult_imp_div_less mult.commute div_less_iff_less_mult)

lemma val_bit_bound: "bit (limbs_val b) i \<Longrightarrow> i < 32 * length b"
  by (auto simp: bit_limbs_val div_less_iff_less_mult)

section \<open>Shifts\<close>

lemma shr_index: "32 * ((i :: nat) div 32 + sh div 32) + (i mod 32 + sh mod 32) = i + sh"
  by (simp add: algebra_simps)

lemma shr_limbs_val [nb_val]: "limbs_val (shr_limbs b sh) = drop_bit sh (limbs_val b)"
proof (rule bit_eqI)
  fix i
  let ?j = "i mod 32 + sh mod 32"
  have low: "bit (limbs_val b) (sh + i) \<Longrightarrow> i < 32 * length b"
    using val_bit_bound [of b "sh + i"] by simp
  have idx: "32 * (i div 32 + sh div 32) + ?j = sh + i"
    using shr_index [of i sh] by simp
  have j: "i mod 32 < 32" "sh mod 32 < 32" by simp_all
  have "bit (limbs_val (shr_limbs b sh)) i \<longleftrightarrow>
      i < 32 * length b \<and> bit (limbs_val b) (sh + i)"
  proof (cases "sh mod 32 = 0")
    case True
    then show ?thesis
      using idx by (simp add: shr_limbs_def limbs_val_map Let_def bit_limb add.commute)
  next
    case False
    show ?thesis
    proof (cases "?j < 32")
      case True
      have "bit (limb b (i div 32 + sh div 32)) ?j \<longleftrightarrow> bit (limbs_val b) (sh + i)"
        using True by (simp only: bit_limb idx simp_thms)
      with True False j show ?thesis
        by (auto simp: shr_limbs_def limbs_val_map Let_def bit_simps add.commute)
    next
      case f2: False
      have "32 * (i div 32 + sh div 32 + 1) + (?j - 32) = sh + i"
        using idx f2 by simp
      then have "bit (limb b (i div 32 + sh div 32 + 1)) (?j - 32) \<longleftrightarrow> bit (limbs_val b) (sh + i)"
        using j by (simp only: bit_limb) auto
      moreover have "i mod 32 - (32 - sh mod 32) = ?j - 32" using f2 j by arith
      moreover have "\<not> bit (limb b (i div 32 + sh div 32)) ?j"
        using f2 bit_imp_le_length [of "limb b (i div 32 + sh div 32)" ?j] by auto
      ultimately show ?thesis using f2 False j
        by (auto simp: shr_limbs_def limbs_val_map Let_def bit_simps add.commute)
    qed
  qed
  with low show "bit (limbs_val (shr_limbs b sh)) i = bit (drop_bit sh (limbs_val b)) i"
    by (auto simp: bit_simps)
qed

lemma limbs_val_take_drop:
  "limbs_val b mod 4294967296 ^ k = limbs_val (take k b)"
  "limbs_val b div 4294967296 ^ k = limbs_val (drop k b)"
proof -
  have *: "limbs_val (take k b) < 4294967296 ^ k"
  proof -
    have "limbs_val (take k b) < 4294967296 ^ length (take k b)" by (rule limbs_val_less)
    also have "\<dots> \<le> 4294967296 ^ k" by (intro power_increasing) auto
    finally show ?thesis .
  qed
  have "limbs_val b = limbs_val (take k b) + 4294967296 ^ k * limbs_val (drop k b)"
  proof (cases "k \<le> length b")
    case True
    then show ?thesis
      using limbs_val_append [of "take k b" "drop k b"] by (simp add: min_absorb2)
  qed simp
  with * show "limbs_val b mod 4294967296 ^ k = limbs_val (take k b)"
    "limbs_val b div 4294967296 ^ k = limbs_val (drop k b)"
    by (simp_all add: div_add1_eq)
qed

lemma limb_mask: "unat ((x :: u32) AND (2 ^ k - 1)) = unat x mod 2 ^ k"
proof -
  have "x AND (2 ^ k - 1) = take_bit k x"
    by (simp add: take_bit_eq_mask mask_eq_exp_minus_1)
  then show ?thesis
    by (simp only: unsigned_take_bit_eq) (simp add: take_bit_eq_mod)
qed

lemma limb_mask_zero: "(x :: u32) AND (2 ^ k - 1) = 0 \<longleftrightarrow> unat x mod 2 ^ k = 0"
  by (simp only: limb_mask [symmetric] unat_eq_zero)

lemma shr_lost_val [nb_val]: "shr_lost b sh \<longleftrightarrow> limbs_val b mod 2 ^ sh \<noteq> 0"
proof -
  define lw rb where "lw = sh div 32" and "rb = sh mod 32"
  have rb: "rb < 32" by (simp add: rb_def)
  have "(2 :: nat) ^ sh = 2 ^ (32 * lw + rb)" by (simp add: lw_def rb_def)
  also have "\<dots> = 4294967296 ^ lw * 2 ^ rb"
    using power_mult [of "2 :: nat" 32 lw] by (simp add: power_add)
  finally have "limbs_val b mod 2 ^ sh = 4294967296 ^ lw * (limbs_val (drop lw b) mod 2 ^ rb) + limbs_val (take lw b)"
    by (simp add: mod_mult2_eq limbs_val_take_drop)
  then have "limbs_val b mod 2 ^ sh \<noteq> 0 \<longleftrightarrow>
      limbs_val (take lw b) \<noteq> 0 \<or> limbs_val (drop lw b) mod 2 ^ rb \<noteq> 0"
    by auto
  moreover have "limbs_val (take lw b) \<noteq> 0 \<longleftrightarrow> list_ex (\<lambda>i. b ! i \<noteq> 0) [0..<min (length b) lw]"
    by (simp add: nb_is_zero_val [symmetric] nb_is_zero_def list_all_length list_ex_iff) auto
  moreover have "limbs_val (drop lw b) mod 2 ^ rb \<noteq> 0 \<longleftrightarrow>
      lw < length b \<and> rb \<noteq> 0 \<and> b ! lw AND (push_bit rb 1 - 1) \<noteq> 0"
  proof (cases "lw < length b")
    case True
    then have d: "drop lw b = b ! lw # drop (Suc lw) b" by (rule Cons_nth_drop_Suc [symmetric])
    have "(2 :: nat) ^ rb dvd 2 ^ 32" using rb by (intro le_imp_power_dvd) simp
    then have "(unat (b ! lw) + 2 ^ 32 * limbs_val (drop (Suc lw) b)) mod 2 ^ rb = unat (b ! lw) mod 2 ^ rb"
      by (simp add: mod_add_right_eq [symmetric] del: mod_add_right_eq)
    then have "limbs_val (drop lw b) mod 2 ^ rb = unat (b ! lw) mod 2 ^ rb"
      unfolding d by simp
    with True show ?thesis by (cases "rb = 0") (auto simp: limb_mask_zero)
  qed simp
  ultimately show ?thesis
    by (simp add: shr_lost_def flip: lw_def rb_def)
qed

lemma nb_shr_sticky_val [nb_val]:
  assumes "0 \<le> sh"
  shows "limbs_val (fst (nb_shr_sticky b sh)) = limbs_val b div 2 ^ nat sh"
    "snd (nb_shr_sticky b sh) \<longleftrightarrow> limbs_val b mod 2 ^ nat sh \<noteq> 0"
  using assms by (auto simp: nb_shr_sticky_def nb_trim_val shr_limbs_val shr_lost_val drop_bit_eq_div)

lemma nb_shl_val [nb_val]:
  assumes "0 \<le> sh" "length a + nat sh div 32 + 1 \<le> NBIG"
  shows "limbs_val (nb_shl a sh) = limbs_val a * 2 ^ nat sh"
proof (cases "sh = 0 \<or> limbs_val a = 0")
  case False
  define lw rb where "lw = nat sh div 32" and "rb = nat sh mod 32"
  have s: "nat sh = 32 * lw + rb" and rb: "rb < 32" by (simp_all add: lw_def rb_def)
  let ?f = "\<lambda>i. let lo = (if lw \<le> i then limb a (i - lw) else 0);
                   hi = (if lw + 1 \<le> i then limb a (i - lw - 1) else 0)
               in if rb \<noteq> 0 then push_bit rb lo OR drop_bit (32 - rb) hi else lo"
  have bitf: "bit (?f k) j \<longleftrightarrow> 32 * lw + rb \<le> 32 * k + j \<and> bit (limbs_val a) (32 * k + j - (32 * lw + rb))"
    if "j < 32" for k j
  proof (cases "rb \<le> j")
    case True
    have "\<not> bit (limb a (k - lw - 1)) (32 - rb + j)"
      using True rb bit_imp_le_length [of "limb a (k - lw - 1)" "32 - rb + j"] by auto
    moreover have "lw \<le> k \<Longrightarrow> 32 * (k - lw) + (j - rb) = 32 * k + j - (32 * lw + rb)"
      using True by arith
    moreover have "lw \<le> k \<longleftrightarrow> 32 * lw + rb \<le> 32 * k + j" using True that by arith
    moreover have "bit (limb a (k - lw)) (j - rb) \<longleftrightarrow> bit (limbs_val a) (32 * (k - lw) + (j - rb))"
      using that by (simp add: bit_limb less_imp_diff_less)
    ultimately show ?thesis using True that by (auto simp: Let_def bit_simps)
  next
    case f: False
    have "lw + 1 \<le> k \<Longrightarrow> 32 * (k - lw - 1) + (32 - rb + j) = 32 * k + j - (32 * lw + rb)"
      using f rb by arith
    moreover have "lw + 1 \<le> k \<longleftrightarrow> 32 * lw + rb \<le> 32 * k + j" using f rb by arith
    moreover have "bit (limb a (k - lw - 1)) (32 - rb + j) \<longleftrightarrow> bit (limbs_val a) (32 * (k - lw - 1) + (32 - rb + j))"
    proof -
      have "32 - rb + j < 32" using f rb by arith
      then show ?thesis by (simp only: bit_limb simp_thms)
    qed
    ultimately show ?thesis using f that by (auto simp: Let_def bit_simps)
  qed
  have shl: "nb_shl a sh = nb_trim (map ?f [0..<length a + lw + 1])"
    using False assms by (simp add: nb_shl_def nb_is_zero_val Let_def min_absorb1 flip: lw_def rb_def)
  have "limbs_val (map ?f [0..<length a + lw + 1]) = push_bit (nat sh) (limbs_val a)"
  proof (rule bit_eqI)
    fix i :: nat
    have "32 * (i div 32) + i mod 32 = i" by simp
    moreover have "bit (limbs_val a) (i - nat sh) \<Longrightarrow> i < 32 * (length a + lw + 1)"
      using val_bit_bound [of a "i - nat sh"] s rb by auto
    ultimately show "bit (limbs_val (map ?f [0..<length a + lw + 1])) i = bit (push_bit (nat sh) (limbs_val a)) i"
      unfolding limbs_val_map by (subst bitf) (auto simp: bit_simps s)
  qed
  then show ?thesis by (simp add: shl nb_trim_val push_bit_eq_mult)
qed (use assms in \<open>auto simp: nb_shl_def nb_is_zero_val\<close>)

section \<open>Comparison and subtraction\<close>

lemma cmp_high_val:
  "length xs = length ys \<Longrightarrow>
    cmp_high xs ys = (if limbs_val (rev xs) < limbs_val (rev ys) then - 1
      else if limbs_val (rev xs) = limbs_val (rev ys) then 0 else 1)"
proof (induction xs ys rule: cmp_high.induct)
  case (1 x xs y ys)
  let ?B = "4294967296 ^ length ys :: nat"
  have l: "limbs_val (rev xs) < ?B" "limbs_val (rev ys) < ?B"
    using limbs_val_less [of "rev xs"] limbs_val_less [of "rev ys"] 1(2) by simp_all
  have step: "a + ?B * unat u < b + ?B * unat v" if "u < v" "a < ?B" for a b and u v :: u32
  proof -
    have "Suc (unat u) \<le> unat v" using that(1) by (simp add: Suc_le_eq word_less_nat_alt)
    then have "?B * Suc (unat u) \<le> ?B * unat v" by (rule mult_le_mono2)
    with that(2) show ?thesis by (simp del: mult_le_cancel1 mult_le_mono2)
  qed
  have v: "limbs_val (rev (x # xs)) = limbs_val (rev xs) + ?B * unat x"
    "limbs_val (rev (y # ys)) = limbs_val (rev ys) + ?B * unat y"
    using 1(2) by (simp_all add: limbs_val_append)
  show ?case
  proof (cases x y rule: linorder_cases)
    case less
    with step [OF less l(1), of "limbs_val (rev ys)"] less_imp_neq [OF less] show ?thesis
      unfolding v by simp
  next
    case equal
    with 1 show ?thesis unfolding v by simp
  next
    case greater
    with step [OF greater l(2), of "limbs_val (rev xs)"] less_imp_neq [OF greater] show ?thesis
      unfolding v by auto
  qed
qed simp_all

lemma trimmed_shorter:
  assumes "trimmed a" "trimmed b" "length a < length b"
  shows "limbs_val a < limbs_val b"
proof (rule ccontr)
  assume "\<not> limbs_val a < limbs_val b"
  then have "limbs_val b < 4294967296 ^ length a"
    using limbs_val_less [of a] by linarith
  then have "length b \<le> length a"
    using assms by (intro trimmed_length_less) (auto simp: trimmed_def)
  with assms(3) show False by simp
qed

lemma nb_cmp_val [nb_val]:
  assumes "a \<noteq> []" "b \<noteq> []"
  shows "nb_cmp a b = (if limbs_val a < limbs_val b then - 1 else if limbs_val a = limbs_val b then 0 else 1)"
proof (cases "length (nb_trim a)" "length (nb_trim b)" rule: linorder_cases)
  case less
  with trimmed_shorter [OF nb_trim_trimmed nb_trim_trimmed less] assms show ?thesis
    by (simp add: nb_cmp_def nb_trim_val Let_def)
next
  case equal
  then show ?thesis
    using cmp_high_val [of "rev (nb_trim a)" "rev (nb_trim b)"]
    by (simp add: nb_cmp_def nb_trim_val Let_def)
next
  case greater
  with trimmed_shorter [OF nb_trim_trimmed nb_trim_trimmed greater] assms show ?thesis
    by (simp add: nb_cmp_def nb_trim_val Let_def)
qed

lemma unat_limb_of_int: "0 \<le> v \<Longrightarrow> v < 4294967296 \<Longrightarrow> int (unat (word_of_int v :: u32)) = v"
  by (simp add: uint_word_of_int flip: uint_nat)

lemma sub_loop_val:
  "borrow \<in> {0, 1} \<Longrightarrow> \<exists>k\<in>{0, 1}. int (limbs_val (sub_loop a b borrow)) =
    int (limbs_val a) - int (limbs_val (take (length a) b)) - borrow + 4294967296 ^ length a * k"
proof (induction a arbitrary: b borrow)
  case (Cons x xs)
  define y where "y = (case b of [] \<Rightarrow> 0 | y # _ \<Rightarrow> y)"
  have b: "int (limbs_val (take (Suc n) b)) = uint y + 4294967296 * int (limbs_val (take n (tl b)))" for n
    by (cases b) (simp_all add: y_def)
  define v where "v = uint x - borrow - uint y"
  have r: "0 \<le> uint x" "uint x < 4294967296" "0 \<le> uint y" "uint y < 4294967296"
    using uint_lt2p [of x] uint_lt2p [of y] by simp_all
  have bb: "0 \<le> borrow" "borrow \<le> 1" using Cons.prems by auto
  obtain w borrow' where w: "borrow' \<in> {0, 1}" "int (unat (w :: u32)) = v + 4294967296 * borrow'"
      "sub_loop (x # xs) b borrow = w # sub_loop xs (tl b) borrow'"
  proof (cases "v < 0")
    case True
    moreover have "- 4294967296 \<le> v" using r bb unfolding v_def by linarith
    ultimately show ?thesis
      using that [of 1 "word_of_int (v + 4294967296)"] unat_limb_of_int [of "v + 4294967296"]
      by (cases b) (simp_all add: y_def v_def Let_def)
  next
    case False
    moreover have "v < 4294967296" using r bb unfolding v_def by linarith
    ultimately show ?thesis
      using that [of 0 "word_of_int v"] unat_limb_of_int [of v]
      by (cases b) (simp_all add: y_def v_def Let_def)
  qed
  obtain k where k: "k \<in> {0, 1}" "int (limbs_val (sub_loop xs (tl b) borrow')) =
      int (limbs_val xs) - int (limbs_val (take (length xs) (tl b))) - borrow' + 4294967296 ^ length xs * k"
    using Cons.IH [OF w(1)] by blast
  show ?case
    unfolding w(3) length_Cons b
    by (rule bexI [OF _ k(1)]) (use k(2) w(2) in \<open>simp add: v_def algebra_simps\<close>)
qed auto

lemma nb_sub_val [nb_val]:
  assumes "limbs_val b \<le> limbs_val a"
  shows "limbs_val (nb_sub a b) = limbs_val a - limbs_val b"
proof -
  have t: "limbs_val (take (length a) b) = limbs_val b"
  proof -
    have "limbs_val b < 4294967296 ^ length a" using assms limbs_val_less [of a] by linarith
    then show ?thesis using limbs_val_take_drop(1) [of b "length a"] by simp
  qed
  obtain k where k: "k \<in> {0, 1 :: int}" "int (limbs_val (sub_loop a b 0)) =
      int (limbs_val a) - int (limbs_val b) + 4294967296 ^ length a * k"
    using sub_loop_val [of 0 a b] t by auto
  have "length (sub_loop a b borrow) = length a" for borrow
    by (induction a b borrow rule: sub_loop.induct) (simp_all add: Let_def)
  then have "limbs_val (sub_loop a b 0) < 4294967296 ^ length a"
    using limbs_val_less [of "sub_loop a b 0"] by simp
  then have "int (limbs_val (sub_loop a b 0)) < 4294967296 ^ length a"
    by (simp flip: of_nat_less_of_nat_power_cancel_iff) 
  with k assms have "k = 0" by auto
  with k assms show ?thesis by (simp add: nb_sub_def nb_trim_val)
qed

section \<open>Products\<close>

lemma length_add_carry [simp]: "length (add_carry rs c) = length rs"
  by (induction rs c rule: add_carry.induct) (simp_all add: Let_def)

lemma length_mul_row [simp]: "length (mul_row a b rs c) = length rs"
  by (induction a b rs c rule: mul_row.induct) (simp_all add: Let_def)

lemma add_carry_val:
  "unat c < 4294967296 \<Longrightarrow> limbs_val rs + unat c < 4294967296 ^ length rs \<Longrightarrow>
    limbs_val (add_carry rs c) = limbs_val rs + unat c"
proof (induction rs c rule: add_carry.induct)
  case (2 r rs c)
  show ?case
  proof (cases "c = 0")
    case False
    let ?v = "(ucast r :: u64) + c"
    have v: "unat (ucast ?v :: u32) + 4294967296 * unat (drop_bit 32 ?v) = unat r + unat c"
      using halves [of ?v] unat_add_carry [OF 2(2), of r] by simp
    have "4294967296 * (limbs_val rs + unat (drop_bit 32 ?v)) < 4294967296 * 4294967296 ^ length rs"
      using 2(3) v by (simp add: algebra_simps)
    then have "limbs_val rs + unat (drop_bit 32 ?v) < 4294967296 ^ length rs" by simp
    with 2(1) [OF False refl high_less] False v show ?thesis by (simp add: Let_def)
  qed simp
qed simp

lemma mul_row_val:
  "unat c < 4294967296 \<Longrightarrow> limbs_val rs + unat a * limbs_val b + unat c < 4294967296 ^ length rs \<Longrightarrow>
    length b \<le> length rs \<Longrightarrow>
    limbs_val (mul_row a b rs c) = limbs_val rs + unat a * limbs_val b + unat c"
proof (induction a b rs c rule: mul_row.induct)
  case (1 a rs c)
  then show ?case by (simp add: add_carry_val)
next
  case (3 a b bs r rs c)
  let ?v = "(ucast a :: u64) * ucast b + ucast r + c"
  have v: "unat (ucast ?v :: u32) + 4294967296 * unat (drop_bit 32 ?v) = unat a * unat b + unat r + unat c"
    using halves [of ?v] unat_mul_add [OF 3(2), of a b r] by simp
  have eq: "limbs_val (r # rs) + unat a * limbs_val (b # bs) + unat c =
      unat (ucast ?v :: u32) + 4294967296 * (limbs_val rs + unat a * limbs_val bs + unat (drop_bit 32 ?v))"
    using v by (simp add: algebra_simps)
  have "4294967296 * (limbs_val rs + unat a * limbs_val bs + unat (drop_bit 32 ?v)) < 4294967296 * 4294967296 ^ length rs"
    using 3(3) unfolding eq by simp
  then have "limbs_val rs + unat a * limbs_val bs + unat (drop_bit 32 ?v) < 4294967296 ^ length rs" by simp
  with 3(1) [OF refl high_less] 3(4) show ?case unfolding eq by (simp add: Let_def)
qed simp

lemma mul_rows_val:
  "limbs_val rs + limbs_val a * limbs_val b < 4294967296 ^ length rs \<Longrightarrow>
    length a + length b \<le> length rs \<Longrightarrow>
    limbs_val (mul_rows a b rs) = limbs_val rs + limbs_val a * limbs_val b \<and>
    length (mul_rows a b rs) = length rs"
proof (induction a arbitrary: rs)
  case (Cons x xs)
  define row where "row = (if x = 0 then rs else mul_row x b rs 0)"
  have le: "limbs_val rs + unat x * limbs_val b \<le> limbs_val rs + limbs_val (x # xs) * limbs_val b"
    by (simp add: algebra_simps)
  have row: "limbs_val row = limbs_val rs + unat x * limbs_val b" "length row = length rs"
    using mul_row_val [of 0 rs x b] le Cons.prems by (simp_all add: row_def unat_eq_zero)
  with Cons.prems(2) obtain r rs' where r: "row = r # rs'" by (cases row) auto
  have eq: "limbs_val rs + limbs_val (x # xs) * limbs_val b =
      unat r + 4294967296 * (limbs_val rs' + limbs_val xs * limbs_val b)"
    using row(1) by (simp add: r algebra_simps)
  have len: "length rs = Suc (length rs')" using row(2) by (simp add: r)
  have "4294967296 * (limbs_val rs' + limbs_val xs * limbs_val b) < 4294967296 * 4294967296 ^ length rs'"
    using Cons.prems(1) unfolding eq len by simp
  then have "limbs_val rs' + limbs_val xs * limbs_val b < 4294967296 ^ length rs'" by simp
  with Cons.IH [of rs'] Cons.prems(2) len
  have "limbs_val (mul_rows xs b rs') = limbs_val rs' + limbs_val xs * limbs_val b \<and>
      length (mul_rows xs b rs') = length rs'"
    by simp
  moreover have "mul_rows (x # xs) b rs = r # mul_rows xs b rs'"
    using r by (simp add: row_def)
  ultimately show ?case unfolding eq by (simp add: len)
qed simp

lemma nb_mul_big_val [nb_val]:
  assumes "length a + length b \<le> NBIG"
  shows "limbs_val (nb_mul_big a b) = limbs_val a * limbs_val b"
proof -
  have "limbs_val a * limbs_val b < 4294967296 ^ (length a + length b)"
    unfolding power_add by (intro mult_strict_mono limbs_val_less) auto
  then show ?thesis
    using assms mul_rows_val [of "replicate (length a + length b) 0" a b]
    by (simp add: nb_mul_big_def nb_trim_val min_absorb1)
qed

section \<open>Small values and increments\<close>

lemma nb_set_u64_val [nb_val]: "limbs_val (nb_set_u64 v) = unat v" "trimmed (nb_set_u64 v)"
  "nb_set_u64 v \<noteq> []" "length (nb_set_u64 v) \<le> 2"
proof -
  have hh: "unat (ucast (drop_bit 32 v) :: u32) = unat (drop_bit 32 v)"
    using high_less [of v] by (simp only: unat_low mod_less)
  then have "ucast (drop_bit 32 v) = (0 :: u32) \<longleftrightarrow> drop_bit 32 v = 0"
    by (metis unat_eq_zero)
  with hh halves [of v] show "limbs_val (nb_set_u64 v) = unat v" "trimmed (nb_set_u64 v)"
    "nb_set_u64 v \<noteq> []" "length (nb_set_u64 v) \<le> 2"
    by (auto simp: nb_set_u64_def trimmed_def)
qed

lemma unat_suc: "x + 1 \<noteq> 0 \<Longrightarrow> unat (x + 1) = unat (x :: u32) + 1"
  by (metis Suc_eq_plus1 unatSuc add.commute)

lemma unat_ones: "x + 1 = 0 \<Longrightarrow> unat (x :: u32) + 1 = 4294967296"
proof -
  assume "x + 1 = 0"
  then have "x = - 1" by (simp add: eq_neg_iff_add_eq_0)
  then show ?thesis by (simp add: unsigned_minus_1_eq_mask mask_eq_exp_minus_1)
qed

lemma inc_loop_ones:
  "list_all (\<lambda>x. x + 1 = 0) a \<Longrightarrow>
    inc_loop (a @ up) = replicate (length a) 0 @ inc_loop up \<and> limbs_val a + 1 = 4294967296 ^ length a"
proof (induction a)
  case (Cons x xs)
  then have "unat x + 4294967296 * limbs_val xs + 1 = 4294967296 * (limbs_val xs + 1)"
    using unat_ones [of x] by simp
  with Cons show ?case by simp
qed simp

lemma inc_loop_within:
  "\<not> list_all (\<lambda>x. x + 1 = 0) a \<Longrightarrow>
    inc_loop (a @ up) = inc_loop a @ up \<and> length (inc_loop a) = length a \<and>
    limbs_val (inc_loop a) = limbs_val a + 1"
proof (induction a)
  case (Cons x xs)
  then show ?case using unat_ones [of x] unat_suc [of x] by auto
qed simp

lemma nb_inc_val [nb_val]:
  assumes "list_all (\<lambda>x. x + 1 = 0) a \<Longrightarrow> up \<noteq> [] \<and> hd up = 0"
  shows "\<exists>b. nb_inc up a = Some b \<and> limbs_val b = limbs_val a + 1"
proof (cases "list_all (\<lambda>x. x + 1 = 0) a")
  case True
  with assms obtain us where "up = 0 # us" by (cases up) auto
  with inc_loop_ones [OF True, of up] True show ?thesis
    by (auto simp: nb_inc_def Let_def nth_append limbs_val_append)
next
  case False
  with inc_loop_within [OF False, of up] show ?thesis
    by (auto simp: nb_inc_def Let_def)
qed

text \<open>
  Why the increments of this program find a zero limb above: a number that lost its high limbs
  to a trim left zeros there.
\<close>

lemma nb_trim_prefix: "\<exists>n. b = nb_trim b @ replicate n 0"
proof (induction b rule: nb_trim.induct)
  case (1 b)
  show ?case
  proof (cases "1 < length b \<and> last b = 0")
    case True
    then have "b = butlast b @ [0]" by (metis append_butlast_last_id list.size(3) not_less_zero)
    moreover obtain n where "butlast b = nb_trim (butlast b) @ replicate n 0" using 1 [OF True] by blast
    moreover have "nb_trim b = nb_trim (butlast b)" using True by (simp add: nb_trim.simps [of b])
    ultimately have "b = nb_trim b @ replicate (Suc n) 0"
      by (metis append.assoc replicate_append_same replicate_Suc)
    then show ?thesis by blast
  next
    case False
    then have "b = nb_trim b @ replicate 0 0" by (auto simp: nb_trim.simps [of b])
    then show ?thesis by blast
  qed
qed

lemma above_trim:
  assumes "limbs_val b + 1 < 4294967296 ^ length b" "list_all (\<lambda>x. x + 1 = 0) (nb_trim b)"
  shows "drop (length (nb_trim b)) b \<noteq> [] \<and> hd (drop (length (nb_trim b)) b) = 0"
proof -
  obtain n where n: "b = nb_trim b @ replicate n 0" using nb_trim_prefix by blast
  have ones: "limbs_val (nb_trim b) + 1 = 4294967296 ^ length (nb_trim b)"
    using inc_loop_ones [OF assms(2)] by blast
  have "n \<noteq> 0"
  proof
    assume "n = 0"
    with n have "nb_trim b = b" by simp
    with ones assms(1) show False by simp
  qed
  moreover have "drop (length (nb_trim b)) b = replicate n 0"
    by (subst (2) n) simp
  ultimately show ?thesis by (cases n) auto
qed

section \<open>Division\<close>

lemma shl1_val:
  "unat c < 2 \<Longrightarrow> r \<noteq> [] \<Longrightarrow>
    limbs_val (shl1 c r) + 4294967296 ^ length r * (unat (last r) div 2147483648) = 2 * limbs_val r + unat c \<and>
    length (shl1 c r) = length r"
proof (induction c r rule: shl1.induct)
  case (2 c x xs)
  have top: "unat (drop_bit 31 x) = unat x div 2147483648"
    by (simp only: unat_drop_bit_eq) (simp add: drop_bit_eq_div)
  have c2: "unat (drop_bit 31 x) < 2"
    unfolding top using limb_less [of x] by (simp add: less_mult_imp_div_less)
  have x: "unat (push_bit 1 x OR c) = 2 * unat x mod 4294967296 + unat c"
  proof -
    have "unat (push_bit 1 x OR c) = unat (push_bit 1 x) OR unat c"
      by (simp only: unsigned_or_eq)
    also have "unat (push_bit 1 x) = 2 * unat x mod 4294967296"
      by (simp only: unsigned_push_bit_eq) (simp add: take_bit_eq_mod push_bit_eq_mult mult.commute)
    also have "\<dots> = push_bit 1 (unat x mod 2147483648)"
      using mult_mod_right [of 2 "unat x" 2147483648] by (simp add: push_bit_eq_mult mult.commute)
    also have "\<dots> OR unat c = 2 * (unat x mod 2147483648) + unat c"
      using or_add [of "unat c" 1 "unat x mod 2147483648"] 2(2) by simp
    finally show ?thesis using mult_mod_right [of 2 "unat x" 2147483648] by simp
  qed
  have split: "2 * unat x = 2 * unat x mod 4294967296 + 4294967296 * (unat x div 2147483648)"
    using mult_div_mod_eq [of 4294967296 "2 * unat x"] by simp
  show ?case
  proof (cases "xs = []")
    case True
    then show ?thesis using x split by simp
  next
    case False
    with 2(1) [OF c2 False] x split top show ?thesis by (simp add: algebra_simps)
  qed
qed simp

lemma top_bit: "drop_bit 31 (x :: u32) AND 1 \<noteq> 0 \<longleftrightarrow> 0 < unat x div 2147483648"
  "unat x div 2147483648 < 2"
proof -
  have top: "unat (drop_bit 31 x) = unat x div 2147483648"
    by (simp only: unat_drop_bit_eq) (simp add: drop_bit_eq_div)
  show l: "unat x div 2147483648 < 2"
    using limb_less [of x] by (simp add: less_mult_imp_div_less)
  have "unat (drop_bit 31 x AND 1) = unat (drop_bit 31 x) mod 2"
    by (simp only: unsigned_and_eq unsigned_1) (simp only: and_one_eq)
  also have "\<dots> = unat x div 2147483648" using l by (simp only: top mod_less)
  finally show "drop_bit 31 x AND 1 \<noteq> 0 \<longleftrightarrow> 0 < unat x div 2147483648"
    by (metis gr0I less_irrefl unat_eq_zero)
qed

lemma rem_push_val:
  assumes "unat c < 2" "trimmed r" "length r < NBIG"
  shows "limbs_val (rem_push r c) = 2 * limbs_val r + unat c" "trimmed (rem_push r c)"
proof -
  have ne: "r \<noteq> []" using assms(2) by (simp add: trimmed_def)
  note v = shl1_val [OF assms(1) ne]
  show "limbs_val (rem_push r c) = 2 * limbs_val r + unat c"
  proof (cases "0 < unat (last r) div 2147483648")
    case True
    with top_bit(2) [of "last r"] have "unat (last r) div 2147483648 = 1" by linarith
    with v True assms(3) show ?thesis
      by (simp add: rem_push_def top_bit(1) limbs_val_append)
  next
    case False
    with v show ?thesis by (simp add: rem_push_def top_bit(1))
  qed
  have "last (shl1 c r) \<noteq> 0" if "last r \<noteq> 0" "unat (last r) div 2147483648 = 0" for c
    using ne that
  proof (induction c r rule: shl1.induct)
    case (2 c x xs)
    show ?case
    proof (cases "xs = []")
      case True
      with 2 have "x \<noteq> 0" "unat x < 2147483648" by (auto simp: div_eq_0_iff)
      then have "0 < unat (push_bit 1 x)"
        by (simp only: unsigned_push_bit_eq) (simp add: take_bit_eq_mod unat_gt_0)
      then have "push_bit 1 x \<noteq> 0" by (auto simp: unat_gt_0)
      then show ?thesis using True by (simp add: or_eq_0_iff)
    next
      case False
      moreover have "shl1 (drop_bit 31 x) xs \<noteq> []" using False by (cases xs) auto
      ultimately show ?thesis using 2 by simp
    qed
  qed simp
  then show "trimmed (rem_push r c)"
    using assms v ne by (auto simp: rem_push_def top_bit(1) trimmed_def simp del: gr0_conv_Suc)
qed

lemma nb_bit_val:
  assumes "i < 32 * length b"
  shows "unat (nb_bit b i) = limbs_val b div 2 ^ i mod 2"
proof -
  have "unat (w AND 1) = of_bool (bit w 0)" for w :: u32
    by (cases "even w") (simp_all add: and_one_eq bit_0 odd_iff_mod_2_eq_one even_iff_mod_2_eq_zero)
  then have "unat (nb_bit b i) = of_bool (bit (b ! (i div 32)) (i mod 32))"
    by (simp add: nb_bit_def bit_simps del: bit_0)
  also have "\<dots> = of_bool (bit (limbs_val b) i)"
    using assms by (simp add: bit_limbs_val less_mult_imp_div_less mult.commute)
  also have "\<dots> = limbs_val b div 2 ^ i mod 2"
    by (simp add: bit_iff_odd of_bool_odd_eq_mod_2)
  finally show ?thesis .
qed

lemma set_quot_bit:
  assumes "i < 32 * length q" "limbs_val q mod 2 ^ Suc i = 0"
  shows "limbs_val (q[i div 32 := q ! (i div 32) OR push_bit (i mod 32) 1]) = limbs_val q + 2 ^ i"
proof -
  have d: "i div 32 < length q" using assms(1) by (simp add: less_mult_imp_div_less mult.commute)
  have b1: "bit (push_bit (i mod 32) 1 :: u32) j \<longleftrightarrow> j = i mod 32" if "j < 32" for j
    using that by (auto simp: bit_simps)
  have "limbs_val (q[i div 32 := q ! (i div 32) OR push_bit (i mod 32) 1]) = limbs_val q OR 2 ^ i"
  proof (rule bit_eqI)
    fix k :: nat
    have "k = i \<longleftrightarrow> k div 32 = i div 32 \<and> k mod 32 = i mod 32"
      by (metis div_mult_mod_eq)
    then show "bit (limbs_val (q[i div 32 := q ! (i div 32) OR push_bit (i mod 32) 1])) k = bit (limbs_val q OR 2 ^ i) k"
      using d b1 [of "k mod 32"] by (auto simp: bit_limbs_val nth_list_update bit_or_iff bit_exp_iff)
  qed
  moreover have "limbs_val q AND 2 ^ i = 0"
  proof -
    have "take_bit (Suc i) (limbs_val q) = 0" using assms(2) by (simp add: take_bit_eq_mod)
    then have "\<not> bit (limbs_val q) i" by (metis bit_0_eq bit_take_bit_iff bot_apply bot_bool_def lessI)
    then show ?thesis by (intro bit_eqI) (auto simp: bit_and_iff bit_exp_iff)
  qed
  ultimately show ?thesis by (simp add: disjunctive_add_eq_or)
qed

lemma trimmed_length_le: "trimmed a \<Longrightarrow> b \<noteq> [] \<Longrightarrow> limbs_val a \<le> limbs_val b \<Longrightarrow> length a \<le> length b"
  using limbs_val_less [of b] by (intro trimmed_length_less) auto

lemma divmod_loop_val:
  assumes "den \<noteq> []" "0 < limbs_val den" "length den < NBIG"
  shows "trimmed r \<Longrightarrow> limbs_val r < limbs_val den \<Longrightarrow> i \<le> 32 * length num \<Longrightarrow> i \<le> 32 * length quot \<Longrightarrow>
    limbs_val quot mod 2 ^ i = 0 \<Longrightarrow> divmod_loop num den i quot r = (q', r') \<Longrightarrow>
    limbs_val q' = limbs_val quot + (limbs_val r * 2 ^ i + limbs_val num mod 2 ^ i) div limbs_val den \<and>
    limbs_val r' = (limbs_val r * 2 ^ i + limbs_val num mod 2 ^ i) mod limbs_val den \<and>
    trimmed r' \<and> length q' = length quot"
proof (induction i arbitrary: quot r)
  case (Suc i)
  let ?D = "limbs_val den" and ?N = "limbs_val num"
  define r1 where "r1 = rem_push r (nb_bit num i)"
  have bit: "unat (nb_bit num i) = ?N div 2 ^ i mod 2" using Suc.prems(3) by (intro nb_bit_val) simp
  have len: "length r < NBIG"
    using trimmed_length_le [OF Suc.prems(1) assms(1)] Suc.prems(2) assms(3) by simp
  have r1: "limbs_val r1 = 2 * limbs_val r + ?N div 2 ^ i mod 2" "trimmed r1"
    using rem_push_val [OF _ Suc.prems(1) len, of "nb_bit num i"] bit by (simp_all add: r1_def)
  have ne: "r1 \<noteq> []" using r1(2) by (simp add: trimmed_def)
  have "?N mod 2 ^ Suc i = 2 ^ i * (?N div 2 ^ i mod 2) + ?N mod 2 ^ i"
    by (simp add: mod_mult2_eq mult.commute [of 2])
  then have all: "limbs_val r * 2 ^ Suc i + ?N mod 2 ^ Suc i = limbs_val r1 * 2 ^ i + ?N mod 2 ^ i"
    by (simp add: r1(1) algebra_simps)
  have mod0: "limbs_val quot mod 2 ^ i = 0"
    using Suc.prems(5) by (metis dvd_eq_mod_eq_0 dvd_trans le_imp_power_dvd le_SucI le_refl)
  show ?case
  proof (cases "?D \<le> limbs_val r1")
    case True
    define quot1 where "quot1 = quot[i div 32 := quot ! (i div 32) OR push_bit (i mod 32) 1]"
    define r2 where "r2 = nb_sub r1 den"
    have r2: "limbs_val r2 = limbs_val r1 - ?D" "trimmed r2"
    proof -
      show "limbs_val r2 = limbs_val r1 - ?D" using True by (simp add: r2_def nb_sub_val)
      have "sub_loop r1 den 0 \<noteq> []" using ne by (cases r1) (simp_all add: Let_def)
      then show "trimmed r2" by (simp add: r2_def nb_sub_def nb_trim_trimmed)
    qed
    have q1: "limbs_val quot1 = limbs_val quot + 2 ^ i" "length quot1 = length quot"
      using Suc.prems(4,5) set_quot_bit [of i quot] by (simp_all add: quot1_def)
    have cmp: "(0 \<le> nb_cmp r1 den) = True" using True ne assms(1) by (simp add: nb_cmp_val)
    have run: "divmod_loop num den i quot1 r2 = (q', r')"
      using Suc.prems(6) unfolding quot1_def r2_def
      by (simp only: divmod_loop.simps Let_def r1_def [symmetric] cmp if_True)
    have "limbs_val r2 < ?D" using Suc.prems(2) by (simp add: r2(1) r1(1))
    moreover have "limbs_val quot1 mod 2 ^ i = 0" using mod0 by (simp add: q1)
    ultimately have ih: "limbs_val q' = limbs_val quot1 + (limbs_val r2 * 2 ^ i + ?N mod 2 ^ i) div ?D \<and>
        limbs_val r' = (limbs_val r2 * 2 ^ i + ?N mod 2 ^ i) mod ?D \<and> trimmed r' \<and> length q' = length quot1"
      using Suc.prems(3,4) q1(2) by (intro Suc.IH [OF r2(2) _ _ _ _ run]) simp_all
    have eq: "limbs_val r1 * 2 ^ i + ?N mod 2 ^ i = 2 ^ i * ?D + (limbs_val r2 * 2 ^ i + ?N mod 2 ^ i)"
    proof -
      have "limbs_val r1 = ?D + limbs_val r2" using True by (simp add: r2(1))
      then show ?thesis by (simp add: algebra_simps)
    qed
    show ?thesis unfolding all eq using ih q1 assms(2) by simp
  next
    case False
    have run: "divmod_loop num den i quot r1 = (q', r')"
      using Suc.prems(6) False ne assms(1) by (simp add: nb_cmp_val Let_def flip: r1_def)
    show ?thesis
      unfolding all using Suc.prems(3,4) False mod0 by (intro Suc.IH [OF r1(2) _ _ _ _ run]) simp_all
  qed
qed (auto simp: div_less)

lemma nb_init_val [nb_val]: "limbs_val nb_init = 0" "trimmed nb_init" "nb_init \<noteq> []" "length nb_init = 1"
  by (simp_all add: nb_init_def trimmed_def)

lemma nb_divmod_val [nb_val]:
  assumes "trimmed num" "trimmed den" "0 < limbs_val den" "length den < NBIG"
    "nb_divmod same num den = (q, r)" "same \<Longrightarrow> nb_bitlen den \<le> nb_bitlen num"
  shows "limbs_val q = limbs_val num div limbs_val den" "limbs_val r = limbs_val num mod limbs_val den"
    "trimmed q" "trimmed r"
proof -
  let ?L = "nb_bitlen num"
  note bN = nb_bitlen_val [OF assms(1)] and bD = nb_bitlen_val [OF assms(2)]
  have "limbs_val q = limbs_val num div limbs_val den \<and> limbs_val r = limbs_val num mod limbs_val den \<and>
    trimmed q \<and> trimmed r"
  proof (cases "?L < nb_bitlen den")
    case True
    have "limbs_val num < 2 ^ ?L" using bN by (simp add: has_bits_def)
    also have "(2 :: nat) ^ ?L \<le> 2 ^ (nb_bitlen den - 1)"
      using True by (intro power_increasing) auto
    also have "\<dots> \<le> limbs_val den" using bD True by (simp add: has_bits_def)
    finally show ?thesis
      using True assms by (cases same) (auto simp: nb_divmod_def Let_def trimmed_def)
  next
    case False
    have "0 < nb_bitlen den" using bD assms(3) by (intro gr0I) (simp add: has_bits_def)
    then have L: "0 < ?L" using False by simp
    obtain q1 r1 where d: "divmod_loop num den ?L (replicate ((?L + 31) div 32) 0) nb_init = (q1, r1)"
      by fastforce
    have "2 ^ (?L - 1) \<le> limbs_val num" using bN L by (simp add: has_bits_def)
    also have "\<dots> < 2 ^ (32 * length num)"
      using limbs_val_less [of num] power_mult [of "2 :: nat" 32 "length num"] by simp
    finally have "?L - 1 < 32 * length num" by (simp add: power_less_imp_less_exp)
    then have Ln: "?L \<le> 32 * length num" by simp
    have "?L \<le> 32 * ((?L + 31) div 32)" by simp
    moreover have "limbs_val num mod 2 ^ ?L = limbs_val num" using bN by (simp add: has_bits_def)
    ultimately have "limbs_val q1 = limbs_val num div limbs_val den \<and> limbs_val r1 = limbs_val num mod limbs_val den \<and>
        trimmed r1 \<and> length q1 = (?L + 31) div 32"
      using divmod_loop_val [of den nb_init ?L num "replicate ((?L + 31) div 32) 0" q1 r1]
        d assms(2,3,4) Ln by (simp add: nb_init_val trimmed_def)
    moreover have "q1 \<noteq> []" "r1 \<noteq> []" using calculation L by (auto simp: trimmed_def)
    ultimately show ?thesis
      using False d assms(5) by (auto simp: nb_divmod_def Let_def nb_trim_val nb_trim_trimmed)
  qed
  then show "limbs_val q = limbs_val num div limbs_val den" "limbs_val r = limbs_val num mod limbs_val den"
    "trimmed q" "trimmed r" by auto
qed

lemma div_small_loop_val:
  assumes "0 < unat d"
  shows "div_small_loop d a = (q, r) \<Longrightarrow>
    limbs_val q = limbs_val a div unat d \<and> unat r = limbs_val a mod unat d \<and> length q = length a"
proof (induction a arbitrary: q r)
  case (Cons x xs)
  obtain qs r0 where l: "div_small_loop d xs = (qs, r0)" by fastforce
  note ih = Cons.IH [OF l]
  have "unat r0 < unat d" using ih assms by simp
  then have r0: "unat r0 < 4294967295" using limb_less [of d] by simp
  define cur where "cur = push_bit 32 r0 OR (ucast x :: u64)"
  have cur: "unat cur = unat r0 * 4294967296 + unat x"
  proof -
    have "unat (push_bit 32 r0) = push_bit 32 (unat r0)"
      using r0 by (simp only: unsigned_push_bit_eq) (simp add: take_bit_nat_eq_self push_bit_eq_mult)
    then have "unat cur = push_bit 32 (unat r0) OR unat x"
      by (simp add: cur_def unsigned_or_eq unat_up)
    then show ?thesis using or_add [of "unat x" 32 "unat r0"] limb_less [of x] by simp
  qed
  have d: "unat (ucast d :: u64) = unat d" by (rule unat_up)
  have le: "unat cur div unat d < 4294967296"
  proof -
    have "unat cur < unat d * 4294967296"
    proof -
      have "(unat r0 + 1) * 4294967296 \<le> unat d * 4294967296"
        using \<open>unat r0 < unat d\<close> by (intro mult_le_mono1) simp
      then show ?thesis using limb_less [of x] by (simp add: cur)
    qed
    then show ?thesis by (simp add: less_mult_imp_div_less mult.commute)
  qed
  have q: "q = ucast (cur div ucast d) # qs" "r = cur mod ucast d"
    using Cons.prems l by (simp_all add: Let_def cur_def)
  have q0: "unat (ucast (cur div ucast d) :: u32) = unat cur div unat d"
    using le by (simp add: unat_low unat_div d)
  have tot: "limbs_val (x # xs) = unat cur + 4294967296 * (limbs_val qs * unat d)"
  proof -
    have "limbs_val xs = limbs_val qs * unat d + unat r0" using ih by simp
    then show ?thesis by (simp add: cur algebra_simps)
  qed
  have "limbs_val (x # xs) div unat d = unat cur div unat d + 4294967296 * limbs_val qs"
    unfolding tot using assms by (simp add: mult.assoc [symmetric])
  moreover have "limbs_val (x # xs) mod unat d = unat cur mod unat d"
    unfolding tot by (simp add: mult.assoc [symmetric])
  ultimately show ?case
    using ih by (simp add: q q0 unat_mod d)
qed simp

lemma nb_divmod_small_val [nb_val]:
  assumes "0 < unat d" "a \<noteq> []" "nb_divmod_small a d = (q, r)"
  shows "limbs_val q = limbs_val a div unat d" "unat r = limbs_val a mod unat d" "q \<noteq> []" "trimmed q"
proof -
  obtain qs r0 where l: "div_small_loop d a = (qs, r0)" by fastforce
  note v = div_small_loop_val [OF assms(1) l]
  have "unat r0 < unat d" using v assms(1) by simp
  then have "unat (ucast r0 :: u32) = unat r0"
    using limb_less [of d] by (simp add: unat_low)
  moreover have "qs \<noteq> []" using v assms(2) by auto
  ultimately show "limbs_val q = limbs_val a div unat d" "unat r = limbs_val a mod unat d" "q \<noteq> []" "trimmed q"
    using assms(3) v l nb_trim_trimmed [of qs]
    by (auto simp: nb_divmod_small_def nb_trim_val trimmed_def)
qed

section \<open>Numbers that grow\<close>

lemma trimmed_iff: "trimmed b \<longleftrightarrow> b \<noteq> [] \<and> (1 < length b \<longrightarrow> 4294967296 ^ (length b - 1) \<le> limbs_val b)"
proof (cases b rule: rev_cases)
  case (snoc bs x)
  have "last b \<noteq> 0 \<longleftrightarrow> 4294967296 ^ length bs \<le> limbs_val b"
  proof
    assume "last b \<noteq> 0"
    then have "4294967296 ^ length bs * 1 \<le> 4294967296 ^ length bs * unat x"
      using snoc by (intro mult_le_mono2) (simp add: Suc_le_eq unat_gt_0)
    then have "4294967296 ^ length bs \<le> limbs_val bs + 4294967296 ^ length bs * unat x" by linarith
    then show "4294967296 ^ length bs \<le> limbs_val b" by (simp add: snoc limbs_val_append)
  next
    assume "4294967296 ^ length bs \<le> limbs_val b"
    then show "last b \<noteq> 0" using limbs_val_less [of bs] by (auto simp: snoc limbs_val_append)
  qed
  then show ?thesis by (simp add: trimmed_def snoc)
qed (simp add: trimmed_def)

lemma nb_mul_add_trimmed:
  assumes "trimmed b" "length b < NBIG" "m \<noteq> 0"
  shows "trimmed (nb_mul_add b m a)"
proof -
  obtain ys c where l: "mul_add_loop m b (ucast a) = (ys, c)" by fastforce
  have y: "length ys = length b" "unat c < 4294967296"
    using mul_add_loop_val [OF _ l] by (simp_all add: unat_up limb_less)
  have ne: "b \<noteq> []" using assms(1) by (simp add: trimmed_def)
  have m: "limbs_val b \<le> limbs_val b * unat m" using assms(3) by (simp add: Suc_le_eq unat_gt_0)
  show ?thesis
  proof (cases "c = 0")
    case True
    then have r: "nb_mul_add b m a = ys" by (simp add: nb_mul_add_def l push_carry.simps)
    have "limbs_val b \<le> limbs_val ys"
      using m nb_mul_add_val(1) [OF assms(2), of m a] unfolding r by linarith
    then show ?thesis
      using assms(1) y(1) ne unfolding r trimmed_iff by (auto intro: le_trans)
  next
    case False
    have v: "limbs_val (push_carry ys c) = limbs_val ys + 4294967296 ^ length ys * unat c"
      "length (push_carry ys c) \<le> Suc (length ys)" "length ys \<le> length (push_carry ys c)"
      using push_carry_val [of c ys] y assms(2) by simp_all
    have "4294967296 ^ length ys * 1 \<le> 4294967296 ^ length ys * unat c"
      using False by (intro mult_le_mono2) (simp add: Suc_le_eq unat_gt_0)
    then have lo: "4294967296 ^ length ys \<le> limbs_val (push_carry ys c)" unfolding v(1) by linarith
    have "4294967296 ^ (length (push_carry ys c) - 1) \<le> (4294967296 :: nat) ^ length ys"
      using v(2) by (intro power_increasing) auto
    with lo have "4294967296 ^ (length (push_carry ys c) - 1) \<le> limbs_val (push_carry ys c)" by linarith
    moreover have "push_carry ys c \<noteq> []" using v(3) y ne by auto
    ultimately show ?thesis by (simp add: nb_mul_add_def l trimmed_iff)
  qed
qed

text \<open>A small value has room to grow.\<close>

lemma room: "trimmed b \<Longrightarrow> limbs_val b < 4294967296 ^ n \<Longrightarrow> 0 < n \<Longrightarrow> n < NBIG \<Longrightarrow> length b < NBIG"
  using trimmed_length_less [of b n] by simp

lemma nb_mul_big_trimmed: "a \<noteq> [] \<Longrightarrow> length a + length b \<le> NBIG \<Longrightarrow> trimmed (nb_mul_big a b)"
proof -
  assume a: "a \<noteq> []" "length a + length b \<le> NBIG"
  have "limbs_val a * limbs_val b < 4294967296 ^ (length a + length b)"
    unfolding power_add by (intro mult_strict_mono limbs_val_less) auto
  then have "length (mul_rows a b (replicate (length a + length b) 0)) = length a + length b"
    using mul_rows_val [of "replicate (length a + length b) 0" a b] by simp
  then have "mul_rows a b (replicate (length a + length b) 0) \<noteq> []" using a(1) by auto
  then show ?thesis using a(2) by (simp add: nb_mul_big_def nb_trim_trimmed min_absorb1)
qed

lemma nb_shr_trimmed: "trimmed b \<Longrightarrow> trimmed (fst (nb_shr_sticky b sh))"
proof -
  assume b: "trimmed b"
  then have "shr_limbs b (nat sh) \<noteq> []" by (simp add: shr_limbs_def trimmed_def)
  with b show ?thesis by (simp add: nb_shr_sticky_def nb_trim_trimmed)
qed

section \<open>Property\<close>

lemma bitlen_less:
  assumes "trimmed a" "trimmed b" "nb_bitlen a < nb_bitlen b"
  shows "limbs_val a < limbs_val b"
proof -
  have "limbs_val a < 2 ^ nb_bitlen a" using nb_bitlen_val [OF assms(1)] by (simp add: has_bits_def)
  also have "(2 :: nat) ^ nb_bitlen a \<le> 2 ^ (nb_bitlen b - 1)"
    using assms(3) by (intro power_increasing) auto
  also have "\<dots> \<le> limbs_val b" using nb_bitlen_val [OF assms(2)] assms(3) by (simp add: has_bits_def)
  finally show ?thesis .
qed

text \<open>
  Long division is exact: quotient and remainder satisfy the division equation with a remainder
  below the divisor, in every case but one. When the numerator is also the object that receives
  the quotient, and is shorter than the divisor, the early return copies a remainder that the
  cleared quotient has already overwritten, and the numerator is lost unless it was 0.
\<close>

theorem nb_divmod_exact:
  assumes "trimmed num" "trimmed den" "0 < limbs_val den" "length den < NBIG"
  shows "(limbs_val num = limbs_val (fst (nb_divmod same num den)) * limbs_val den + limbs_val (snd (nb_divmod same num den)) \<and>
      limbs_val (snd (nb_divmod same num den)) < limbs_val den) \<longleftrightarrow>
    \<not> (same \<and> nb_bitlen num < nb_bitlen den \<and> limbs_val num \<noteq> 0)"
proof (cases "same \<and> nb_bitlen num < nb_bitlen den")
  case True
  then show ?thesis using assms(3) by (simp add: nb_divmod_def Let_def)
next
  case False
  then have "same \<Longrightarrow> nb_bitlen den \<le> nb_bitlen num" by auto
  from nb_divmod_val(1,2) [OF assms surjective_pairing this]
  have v: "limbs_val (fst (nb_divmod same num den)) = limbs_val num div limbs_val den"
    "limbs_val (snd (nb_divmod same num den)) = limbs_val num mod limbs_val den" by blast+
  have "limbs_val num = limbs_val (fst (nb_divmod same num den)) * limbs_val den + limbs_val (snd (nb_divmod same num den))"
    unfolding v by simp
  moreover have "limbs_val (snd (nb_divmod same num den)) < limbs_val den" unfolding v using assms(3) by simp
  ultimately show ?thesis using False by blast
qed

theorem nb_divmod_exact_witness:
  "limbs_val [7, 1] = limbs_val (fst (nb_divmod True [7, 1] [10])) * limbs_val [10] + limbs_val (snd (nb_divmod True [7, 1] [10]))"
proof -
  have "\<not> (True \<and> nb_bitlen [7, 1] < nb_bitlen [10] \<and> limbs_val [7, 1] \<noteq> 0)"
    by (simp add: nb_bitlen_def nb_is_zero_def word_bits.simps)
  then show ?thesis
    using nb_divmod_exact [of "[7, 1]" "[10]" True] by (simp add: trimmed_def NBIG_def)
qed

end
