(* ===== verification/Boot_Round.thy ===== *)
theory Boot_Round
  imports Boot_Bignum Complex_Main
begin

text \<open>
  The rounding core of the freestanding libc (\<open>sh_round_64\<close> in \<open>scripts/crossboot/stub.c\<close>), which
  turns a quotient prefix with a sticky bit into the bits of a double, and what it is to compute:
  the IEEE 754 double nearest to a positive real, ties to even, overflow to infinity. A double is
  its 64 bits throughout, as the code assembles and splits them.
\<close>

section \<open>The nearest double\<close>

text \<open>The integer nearest to a real, ties to even.\<close>

definition rne :: "real \<Rightarrow> int" where
  "rne x =
     (let f = \<lfloor>x\<rfloor>; d = x - of_int f
      in if d < 1 / 2 then f else if d > 1 / 2 then f + 1 else if even f then f else f + 1)"

text \<open>The exponent of the last place of a double near \<open>x\<close>: 53 digits, but not below \<open>2^-1074\<close>.\<close>

definition ulp_exp :: "real \<Rightarrow> int" where
  "ulp_exp x = max (- 1074) (\<lfloor>log 2 x\<rfloor> - 52)"

definition inf_bits :: nat where "inf_bits = 9218868437227405312"

text \<open>
  The bits of the double nearest to \<open>x > 0\<close>: the significand in units of the last place, over the
  encoding of the binades below. A carry to the next power of two gives the next binade by itself.
\<close>

definition round_bits :: "real \<Rightarrow> nat" where
  "round_bits x =
     min inf_bits (nat (rne (x / 2 powi ulp_exp x) + (ulp_exp x + 1074) * 4503599627370496))"

text \<open>The value of the bits of a finite double, and the sign bit.\<close>

definition mag_val :: "nat \<Rightarrow> real" where
  "mag_val b =
     (let f = b div 4503599627370496; m = b mod 4503599627370496
      in if f = 0 then of_nat m * 2 powi (- 1074)
         else of_nat (m + 4503599627370496) * 2 powi (int f - 1075))"

definition signed_bits :: "bool \<Rightarrow> u64 \<Rightarrow> u64" where
  "signed_bits neg b = (if neg then b OR push_bit 63 1 else b)"

section \<open>The code\<close>

text \<open>\<open>q >> sh\<close> for a positive \<open>sh\<close>, \<open>q << -sh\<close> for a negative one.\<close>

definition q_shift :: "int \<Rightarrow> u64 \<Rightarrow> u64" where
  "q_shift sh q = (if sh > 0 then drop_bit (nat sh) q else if sh < 0 then push_bit (nat (- sh)) q else q)"

text \<open>Drop the round bit, the lowest, and round up on more than half, or on half to the even side.\<close>

definition q_round :: "bool \<Rightarrow> u64 \<Rightarrow> u64" where
  "q_round sticky q1 =
     (let rb = q1 AND 1; q2 = drop_bit 1 q1
      in if rb \<noteq> 0 \<and> (sticky \<or> q2 AND 1 \<noteq> 0) then q2 + 1 else q2)"

text \<open>The rounded significand put under its exponent field.\<close>

definition q_pack :: "int \<Rightarrow> u64 \<Rightarrow> int \<Rightarrow> bool \<Rightarrow> u64" where
  "q_pack mant_bits q e2 neg =
     (let carry = (mant_bits = 53 \<and> drop_bit (nat mant_bits) q \<noteq> 0);
          q4 = (if carry then drop_bit 1 q else q);
          e3 = (if carry then e2 + 1 else e2)
      in if carry \<and> e3 - 1 > 1023 then signed_bits neg (of_nat inf_bits)
         else if e3 - 1 \<ge> - 1022 then
           signed_bits neg (push_bit 52 (word_of_int (e3 - 1 + 1023)) OR (q4 AND (push_bit 52 1 - 1)))
         else if drop_bit 53 q4 \<noteq> 0 then signed_bits neg (push_bit 52 1)
         else signed_bits neg q4)"

definition sh_round_64 :: "u64 \<Rightarrow> bool \<Rightarrow> nat \<Rightarrow> int \<Rightarrow> bool \<Rightarrow> u64" where
  "sh_round_64 q sticky blq e2 neg =
     (if q = 0 then signed_bits neg 0
      else if e2 - 1 > 1023 then signed_bits neg (of_nat inf_bits)
      else if e2 \<le> - 1074 then
        signed_bits neg (if e2 = - 1074 \<and> blq < 64 \<and> q > push_bit (blq - 1) 1 then 1 else 0)
      else
        let mant_bits = (if e2 - 1 \<ge> - 1022 then 53 else max 1 (53 - (- 1022 - (e2 - 1))));
            sh = int blq - (mant_bits + 1);
            sticky1 = (sticky \<or> (sh > 0 \<and> q AND (push_bit (nat sh) 1 - 1) \<noteq> 0))
        in q_pack mant_bits (q_round sticky1 (q_shift sh q)) e2 neg)"

section \<open>Rounding to an integer\<close>

lemma rne_of_int_add:
  assumes "0 \<le> d" "d < 1"
  shows "rne (of_int k + d) = (if d < 1 / 2 then k else if d > 1 / 2 then k + 1 else if even k then k else k + 1)"
proof -
  have "\<lfloor>of_int k + d\<rfloor> = k" using assms by (simp add: floor_eq_iff)
  then show ?thesis by (simp add: rne_def Let_def)
qed

lemma rne_half:
  assumes "0 \<le> t" "t < 1"
  shows "rne ((of_nat k + t) / 2) = int (k div 2 + (if odd k \<and> (0 < t \<or> odd (k div 2)) then 1 else 0))"
proof (cases "even k")
  case True
  then have eq: "(of_nat k + t) / 2 = of_int (int (k div 2)) + t / 2"
    by (auto elim!: evenE)
  from assms True show ?thesis
    unfolding eq using rne_of_int_add [of "t / 2" "int (k div 2)"] by simp
next
  case False
  then have eq: "(of_nat k + t) / 2 = of_int (int (k div 2)) + (1 + t) / 2"
    by (auto elim!: oddE simp: add_divide_distrib)
  from assms False show ?thesis
    unfolding eq using rne_of_int_add [of "(1 + t) / 2" "int (k div 2)"] by auto
qed

lemma floor_log2_iff: "0 < x \<Longrightarrow> \<lfloor>log 2 x\<rfloor> = k \<longleftrightarrow> 2 powi k \<le> x \<and> x < 2 powi (k + 1)"
  by (simp add: floor_log_eq_powr_iff powr_real_of_int' flip: of_int_add)

lemma floor_log2:
  assumes "2 powi k \<le> x" "x < 2 powi (k + 1)"
  shows "\<lfloor>log 2 x\<rfloor> = k"
proof -
  have "0 < x" using assms(1) by (rule order_less_le_trans [rotated]) simp
  with assms show ?thesis by (simp add: floor_log2_iff)
qed

lemma powi_split: "(2 :: real) powi (a + b) = 2 powi a * 2 powi b"
  by (simp add: power_int_add)

lemma powi10: "(10 :: real) powi k = 5 powi k * 2 powi k"
  by (simp flip: power_int_mult_distrib)

lemma powi_nat: "0 \<le> k \<Longrightarrow> (2 :: real) powi k = 2 ^ nat k"
  by (simp add: power_int_def)

section \<open>Shifts of 64-bit values\<close>

lemma u64_low_zero: "(q :: u64) AND (push_bit k 1 - 1) \<noteq> 0 \<longleftrightarrow> unat q mod 2 ^ k \<noteq> 0"
proof -
  have "q AND (push_bit k 1 - 1) = take_bit k q"
    by (simp add: take_bit_eq_mask mask_eq_exp_minus_1)
  moreover have "unat (take_bit k q) = unat q mod 2 ^ k"
    by (simp only: unsigned_take_bit_eq) (simp add: take_bit_eq_mod)
  ultimately show ?thesis by (metis unat_eq_zero)
qed

lemma u64_drop: "unat (drop_bit k (q :: u64)) = unat q div 2 ^ k"
  by (simp only: unat_drop_bit_eq) (simp add: drop_bit_eq_div)

lemma u64_drop_zero: "drop_bit k (q :: u64) \<noteq> 0 \<longleftrightarrow> 2 ^ k \<le> unat q"
proof -
  have "drop_bit k q \<noteq> 0 \<longleftrightarrow> unat q div 2 ^ k \<noteq> 0"
    using u64_drop [of k q] by (metis unat_eq_zero)
  then show ?thesis by (simp add: div_eq_0_iff not_less)
qed

lemma u64_push: "unat q * 2 ^ k < 18446744073709551616 \<Longrightarrow> unat (push_bit k (q :: u64)) = unat q * 2 ^ k"
  by (simp only: unsigned_push_bit_eq) (simp add: push_bit_eq_mult take_bit_nat_eq_self)

lemma u64_odd: "(q :: u64) AND 1 \<noteq> 0 \<longleftrightarrow> odd (unat q)"
  using u64_low_zero [of q 1] by (simp add: odd_iff_mod_2_eq_one)

lemma u64_succ: "unat q + 1 < 18446744073709551616 \<Longrightarrow> unat ((q :: u64) + 1) = unat q + 1"
  by (simp add: unat_word_ariths)

text \<open>
  The kept digits: \<open>q\<close> with \<open>blq\<close> digits and the tail \<open>t\<close> after them, cut to \<open>n\<close> digits, the
  tail growing by what is cut.
\<close>

lemma kept_digits:
  fixes t :: real
  assumes "has_bits (unat q) blq" "0 < blq" "blq \<le> 64" "0 \<le> t" "t < 1" "n \<le> 54" "0 < n" "blq < n \<Longrightarrow> t = 0"
  shows "\<exists>t'. real (unat (q_shift (int blq - int n) q)) + t' = (real (unat q) + t) * 2 powi (int n - int blq) \<and>
    0 \<le> t' \<and> t' < 1 \<and> (0 < t' \<longleftrightarrow> 0 < t \<or> (int blq - int n > 0 \<and> unat q mod 2 ^ nat (int blq - int n) \<noteq> 0))"
proof (cases "n < blq")
  case True
  define k where "k = blq - n"
  have k: "int blq - int n = int k" "int n - int blq = - int k" "0 < k" using True by (simp_all add: k_def)
  let ?t = "(real (unat q mod 2 ^ k) + t) / 2 ^ k"
  have "real (unat q) = real (unat q div 2 ^ k) * 2 ^ k + real (unat q mod 2 ^ k)"
    using div_mult_mod_eq [of "unat q" "2 ^ k"] by (metis of_nat_add of_nat_mult of_nat_power of_nat_numeral)
  then have sum: "real (unat q div 2 ^ k) + ?t = (real (unat q) + t) * 2 powi (- int k)"
    by (simp add: power_int_minus field_simps)
  have "unat q mod 2 ^ k + 1 \<le> 2 ^ k" by (simp add: Suc_leI)
  then have "real (unat q mod 2 ^ k + 1) \<le> real (2 ^ k)" by (simp only: of_nat_le_iff)
  then have "real (unat q mod 2 ^ k) \<le> 2 ^ k - 1" by simp
  then have "real (unat q mod 2 ^ k) + t < 2 ^ k" using assms(5) by linarith
  then have "?t < 1" by simp
  moreover have "0 \<le> ?t" using assms(4) by simp
  moreover have "0 < ?t \<longleftrightarrow> 0 < t \<or> unat q mod 2 ^ k \<noteq> 0"
    using assms(4) by (auto simp: zero_less_divide_iff add_pos_nonneg add_nonneg_pos)
  ultimately show ?thesis
    using k(3) sum unfolding k by (intro exI [of _ ?t]) (simp add: q_shift_def u64_drop)
next
  case False
  define k where "k = n - blq"
  have k: "int n - int blq = int k" "int blq - int n = - int k" using False by (simp_all add: k_def)
  have "unat q * 2 ^ k < 2 ^ blq * 2 ^ k" using assms(1) by (simp add: has_bits_def)
  also have "\<dots> = (2 :: nat) ^ n" using False by (simp add: k_def flip: power_add)
  also have "\<dots> \<le> 2 ^ 54" using assms(6) by (intro power_increasing) auto
  finally have p: "unat (push_bit k q) = unat q * 2 ^ k" by (intro u64_push) simp
  show ?thesis
  proof (cases "k = 0")
    case True
    then show ?thesis using assms(4,5) unfolding k by (intro exI [of _ t]) (simp add: q_shift_def)
  next
    case f: False
    then have "t = 0" using assms(8) by (simp add: k_def)
    then show ?thesis using p f unfolding k by (intro exI [of _ 0]) (simp add: q_shift_def)
  qed
qed

section \<open>The core rounds correctly\<close>

lemma ulp_exp_val:
  assumes "has_bits n k" "0 < k" "0 \<le> t" "t < 1" "x = (real n + t) * 2 powi (e2 - int k)"
  shows "ulp_exp x = max (- 1074) (e2 - 53)" "0 < x" "2 powi (e2 - 1) \<le> x" "x < 2 powi e2"
proof -
  have n: "real n + t < 2 ^ k" "2 ^ (k - 1) \<le> real n"
  proof -
    have "n + 1 \<le> 2 ^ k" using assms(1) by (simp add: has_bits_def)
    then have "real (n + 1) \<le> real (2 ^ k)" by (simp only: of_nat_le_iff)
    with assms(4) show "real n + t < 2 ^ k" by simp
    have "2 ^ (k - 1) \<le> n" using assms(1,2) by (simp add: has_bits_def)
    then have "real (2 ^ (k - 1)) \<le> real n" by (simp only: of_nat_le_iff)
    then show "2 ^ (k - 1) \<le> real n" by simp
  qed
  have e: "(2 :: real) powi e2 = 2 ^ k * 2 powi (e2 - int k)"
    "(2 :: real) powi (e2 - 1) = 2 ^ (k - 1) * 2 powi (e2 - int k)"
    using assms(2) by (simp_all add: of_nat_diff flip: power_int_of_nat power_int_add)
  show lo: "2 powi (e2 - 1) \<le> x"
    unfolding e(2) assms(5) using n(2) assms(3) by (intro mult_right_mono) (linarith, simp)
  show up: "x < 2 powi e2"
    unfolding e(1) assms(5) using n(1) by (intro mult_strict_right_mono) simp_all
  show "0 < x" using lo by (rule order_less_le_trans [rotated]) simp
  show "ulp_exp x = max (- 1074) (e2 - 53)"
    using floor_log2 [of "e2 - 1" x] lo up by (simp add: ulp_exp_def)
qed

lemma round_bits_tiny:
  assumes "2 powi (e2 - 1) \<le> x" "x < 2 powi e2" "e2 \<le> - 1074"
  shows "round_bits x = (if e2 = - 1074 \<and> x > 2 powi (- 1075) then 1 else 0)"
proof -
  have E: "ulp_exp x = - 1074"
    using floor_log2 [of "e2 - 1" x] assms by (simp add: ulp_exp_def)
  define y where "y = x / 2 powi (- 1074)"
  have y: "0 \<le> y" "y < 2 powi (e2 + 1074)" "2 powi (e2 + 1073) \<le> y"
  proof -
    have "0 \<le> x" using assms(1) by (rule order_trans [rotated]) simp
    then show "0 \<le> y" by (simp add: y_def)
    show "y < 2 powi (e2 + 1074)" "2 powi (e2 + 1073) \<le> y"
      using assms(1,2) by (simp_all add: y_def power_int_minus field_simps power_int_diff power_int_add)
  qed
  have one: "y < 1"
    using y(2) power_int_increasing [of "e2 + 1074" 0 "2 :: real"] assms(3) by simp
  have r: "rne y = (if y \<le> 1 / 2 then 0 else 1)"
    using rne_of_int_add [of y 0] y(1) one by auto
  have "y \<le> 1 / 2 \<longleftrightarrow> \<not> (e2 = - 1074 \<and> x > 2 powi (- 1075))"
  proof (cases "e2 = - 1074")
    case True
    have "y \<le> 1 / 2 \<longleftrightarrow> x \<le> 2 powi (- 1075)"
      by (simp add: y_def power_int_minus field_simps)
    with True show ?thesis by (simp only: not_less simp_thms)
  next
    case False
    then have "2 powi (e2 + 1074) \<le> 2 powi (- 1 :: int) * (1 :: real)"
      using assms(3) by (simp only: mult_1_right) (intro power_int_increasing, auto)
    with y(2) False show ?thesis by (simp add: power_int_minus)
  qed
  then show ?thesis
    unfolding round_bits_def E y_def [symmetric] r by (simp add: inf_bits_def)
qed

lemma u64_of_unat: "unat x = n \<Longrightarrow> (x :: u64) = of_nat n"
  by (metis of_nat_unat ucast_id)

text \<open>
  The bits put together: \<open>m\<close> units of the last place \<open>2^E\<close>, where a carry to \<open>2^53\<close> moves on
  to the next exponent.
\<close>

lemma frac_bits: "unat (x AND (push_bit 52 1 - 1) :: u64) = unat x mod 4503599627370496"
proof -
  have "x AND (push_bit 52 1 - 1) = take_bit 52 x"
    by (simp only: take_bit_eq_mask mask_eq_exp_minus_1) (simp add: push_bit_eq_mult)
  moreover have "unat (take_bit 52 x) = unat x mod 2 ^ 52"
    by (simp only: unsigned_take_bit_eq) (simp add: take_bit_eq_mod)
  ultimately show ?thesis by simp
qed

lemma field_bits:
  assumes "0 \<le> f" "f < 2048" "m < 4503599627370496" "unat (y :: u64) = m"
  shows "unat (push_bit 52 (word_of_int f) OR y) = nat f * 4503599627370496 + m"
proof -
  have f: "unat (word_of_int f :: u64) = nat f"
    using assms(1,2) by (simp add: unsigned_of_int take_bit_int_eq_self)
  have "unat (push_bit 52 (word_of_int f :: u64)) = nat f * 2 ^ 52"
    using assms(1,2) by (subst u64_push) (simp_all add: f)
  then have "unat (push_bit 52 (word_of_int f) OR y) = push_bit 52 (nat f) OR m"
    by (simp add: unsigned_or_eq assms(4) push_bit_eq_mult)
  then show ?thesis using or_add [of m 52 "nat f"] assms(3) by simp
qed

lemma q_round_val:
  assumes "0 \<le> t" "t < 1" "s \<longleftrightarrow> 0 < t" "unat q < 36028797018963968"
  shows "int (unat (q_round s q)) = rne ((real (unat q) + t) / 2)"
proof -
  have d: "unat (drop_bit 1 q) = unat q div 2" using u64_drop [of 1 q] by simp
  have "unat (drop_bit 1 q + 1) = unat q div 2 + 1"
    using assms(4) d by (subst u64_succ) auto
  then show ?thesis
    using assms d rne_half [OF assms(1,2), of "unat q"]
    by (simp add: q_round_def Let_def u64_odd del: One_nat_def of_nat_unat)
qed

lemma q_pack_val:
  assumes "mb = (if e2 \<ge> - 1021 then 53 else e2 + 1074)" "- 1074 < e2" "e2 \<le> 1024"
    "2 ^ nat (mb - 1) \<le> unat q" "unat q \<le> 2 ^ nat mb"
  shows "q_pack mb q e2 neg = signed_bits neg (of_nat (min inf_bits
    (nat (int (unat q) + (max (- 1074) (e2 - 53) + 1074) * 4503599627370496))))"
proof (cases "e2 \<ge> - 1021")
  case True
  then have mb: "mb = 53" using assms(1) by simp
  have q: "4503599627370496 \<le> unat q" "unat q \<le> 9007199254740992" using assms(4,5) by (simp_all add: mb)
  have max: "max (- 1074) (e2 - 53) + 1074 = e2 + 1021" using True by simp
  note top = u64_drop_zero [of 53 q]
  show ?thesis
  proof (cases "unat q = 9007199254740992")
    case c: True
    then have carry: "drop_bit (nat 53) q \<noteq> 0" using top by simp
    have h: "unat (drop_bit 1 q) = 4503599627370496" using u64_drop [of 1 q] c by simp
    have "unat (push_bit 52 (word_of_int (e2 + 1023)) OR (drop_bit 1 q AND (push_bit 52 1 - 1))) =
        nat (e2 + 1023) * 4503599627370496" if "e2 \<le> 1023"
      using field_bits [of "e2 + 1023" 0, OF _ _ _ frac_bits [of "drop_bit 1 q", unfolded h, simplified]] that True by simp
    then have w: "push_bit 52 (word_of_int (e2 + 1023)) OR (drop_bit 1 q AND (push_bit 52 1 - 1)) =
        of_nat (nat (e2 + 1023) * 4503599627370496)" if "e2 \<le> 1023"
      using that by (intro u64_of_unat)
    show ?thesis
    proof (cases "e2 = 1024")
      case True
      then show ?thesis using carry
        by (simp only: q_pack_def mb Let_def c max) (simp add: inf_bits_def)
    next
      case False
      with assms(3) have e: "e2 \<le> 1023" by simp
      have "nat (int 9007199254740992 + (e2 + 1021) * 4503599627370496) = nat (e2 + 1023) * 4503599627370496"
        using True by (simp add: nat_eq_iff)
      moreover have "nat (e2 + 1023) * 4503599627370496 \<le> inf_bits"
      proof -
        have "nat (e2 + 1023) \<le> 2046" using e by simp
        then show ?thesis by (simp add: inf_bits_def)
      qed
      moreover have "q_pack mb q e2 neg =
          signed_bits neg (push_bit 52 (word_of_int (e2 + 1023)) OR (drop_bit 1 q AND (push_bit 52 1 - 1)))"
        using carry e True unfolding q_pack_def Let_def mb by simp
      ultimately show ?thesis using w [OF e] by (simp only: c max) (simp add: min_absorb2)
    qed
  next
    case n: False
    then have carry: "drop_bit (nat 53) q = 0" using top q by simp
    have "unat (push_bit 52 (word_of_int (e2 + 1022)) OR (q AND (push_bit 52 1 - 1))) =
        nat (e2 + 1022) * 4503599627370496 + (unat q - 4503599627370496)"
    proof (rule field_bits)
      have "unat q mod 4503599627370496 = unat q - 4503599627370496"
        using q n by (simp add: le_mod_geq)
      then show "unat (q AND (push_bit 52 1 - 1)) = unat q - 4503599627370496"
        by (simp only: frac_bits)
    qed (use True assms(3) q n in auto)
    then have w: "push_bit 52 (word_of_int (e2 + 1022)) OR (q AND (push_bit 52 1 - 1)) =
        of_nat (nat (e2 + 1022) * 4503599627370496 + (unat q - 4503599627370496))"
      by (rule u64_of_unat)
    have "nat (int (unat q) + (e2 + 1021) * 4503599627370496) =
        nat (e2 + 1022) * 4503599627370496 + (unat q - 4503599627370496)"
      using True q by (simp add: nat_eq_iff of_nat_diff)
    moreover have "nat (e2 + 1022) * 4503599627370496 + (unat q - 4503599627370496) \<le> inf_bits"
    proof -
      have "nat (e2 + 1022) \<le> 2046" using assms(3) by simp
      then have "nat (e2 + 1022) * 4503599627370496 \<le> 2046 * 4503599627370496" by (rule mult_le_mono1)
      with q show ?thesis by (simp add: inf_bits_def)
    qed
    moreover have "q_pack mb q e2 neg =
        signed_bits neg (push_bit 52 (word_of_int (e2 + 1022)) OR (q AND (push_bit 52 1 - 1)))"
      using carry True unfolding q_pack_def Let_def mb by (simp add: add.commute)
    ultimately show ?thesis using w by (simp only: max) (simp add: min_absorb2)
  qed
next
  case False
  have "unat q \<le> 4503599627370496"
  proof -
    have "(2 :: nat) ^ nat mb \<le> 2 ^ 52" using assms(1) False by (intro power_increasing) auto
    then show ?thesis using assms(5) by simp
  qed
  moreover from this have "drop_bit 53 q = 0" using u64_drop_zero [of 53 q] by simp
  ultimately show ?thesis
    using False assms(1) by (simp add: q_pack_def Let_def inf_bits_def min_absorb2)
qed

lemma round_bits_over:
  assumes "2 powi (e2 - 1) \<le> x" "x < 2 powi e2" "1024 < e2"
  shows "round_bits x = inf_bits"
proof -
  have E: "ulp_exp x = e2 - 53"
    using floor_log2 [of "e2 - 1" x] assms by (simp add: ulp_exp_def)
  have "2 powi (e2 - 1) = (2 :: real) powi 52 * 2 powi (e2 - 53)"
    using powi_split [of 52 "e2 - 53"] by (simp add: algebra_simps)
  then have "2 powi 52 \<le> x / 2 powi (e2 - 53)" using assms(1) by (simp add: field_simps)
  then have "4503599627370496 \<le> \<lfloor>x / 2 powi (e2 - 53)\<rfloor>" by (simp add: le_floor_iff)
  moreover have "\<lfloor>y\<rfloor> \<le> rne y" for y by (simp add: rne_def Let_def)
  ultimately have "4503599627370496 \<le> rne (x / 2 powi ulp_exp x)" unfolding E by (meson order_trans)
  then have "9218868437227405312 \<le> rne (x / 2 powi ulp_exp x) + (ulp_exp x + 1074) * 4503599627370496"
    using assms(3) unfolding E by simp
  then show ?thesis unfolding round_bits_def inf_bits_def by (intro min_absorb1) (simp add: le_nat_iff)
qed

lemma half_bounds:
  "(a + t) / 2 < b \<Longrightarrow> 0 \<le> t \<Longrightarrow> a < 2 * b" "b \<le> (a + t) / 2 \<Longrightarrow> t < 1 \<Longrightarrow> 2 * b < a + 1"
  for a b t :: real
  by (simp_all add: field_simps)

text \<open>
  The core is right whenever the digits handed to it determine the result: a nonzero tail needs at
  least 56 of them. The exception is the code's test for the least binade, which ignores the tail
  when the digits are exactly half of the least double.
\<close>

lemma sh_round_64_correct:
  assumes q: "has_bits (unat q) blq" "0 < blq" "blq \<le> 56"
    and t: "0 \<le> t" "t < 1" "sticky \<longleftrightarrow> 0 < t" "0 < t \<Longrightarrow> blq = 56"
    and x: "x = (real (unat q) + t) * 2 powi (e2 - int blq)"
    and half: "\<not> (e2 = - 1074 \<and> sticky \<and> unat q = 2 ^ (blq - 1))"
  shows "sh_round_64 q sticky blq e2 neg = signed_bits neg (of_nat (round_bits x))"
proof -
  note u = ulp_exp_val [OF q(1,2) t(1,2) x]
  have q0: "q \<noteq> 0" using q(1,2) by (auto simp: has_bits_def)
  consider "1024 < e2" | "e2 \<le> - 1074" | "- 1074 < e2" "e2 \<le> 1024" by linarith
  then show ?thesis
  proof cases
    case 1
    then show ?thesis
      using round_bits_over [OF u(3,4)] q0 by (simp add: sh_round_64_def)
  next
    case 2
    have "q > push_bit (blq - 1) 1 \<longleftrightarrow> x > 2 powi (- 1075)" if "e2 = - 1074"
    proof -
      have "unat (push_bit (blq - 1) 1 :: u64) = 2 ^ (blq - 1)"
        using q(3) power_strict_increasing [of "blq - 1" 64 "2 :: nat"] by (subst u64_push) simp_all
      then have 1: "q > push_bit (blq - 1) 1 \<longleftrightarrow> 2 ^ (blq - 1) < unat q"
        by (simp only: word_less_nat_alt)
      have "int (blq - 1) + (e2 - int blq) = - 1075" using q(2) that by (simp add: of_nat_diff)
      then have "(2 :: real) powi (- 1075) = 2 ^ (blq - 1) * 2 powi (e2 - int blq)"
        using powi_split [of "int (blq - 1)" "e2 - int blq"] by (simp only: power_int_of_nat)
      then have 2: "x > 2 powi (- 1075) \<longleftrightarrow> 2 ^ (blq - 1) < real (unat q) + t"
        unfolding x by (simp only: mult_less_cancel_right_pos zero_less_power_int zero_less_numeral)
      have 3: "2 ^ (blq - 1) \<le> unat q" using q(1,2) by (simp add: has_bits_def)
      show ?thesis
      proof (cases "unat q = 2 ^ (blq - 1)")
        case True
        then have "t = 0" using half that t(1,3) by auto
        then show ?thesis unfolding 1 2 by (simp only: True) simp
      next
        case False
        then have less: "2 ^ (blq - 1) < unat q" using 3 by simp
        then have "real (2 ^ (blq - 1)) < real (unat q)" by (simp only: of_nat_less_iff)
        then have "2 ^ (blq - 1) < real (unat q) + t" using t(1) by (simp only: of_nat_power of_nat_numeral)
        with less show ?thesis unfolding 1 2 by blast
      qed
    qed
    moreover have "blq < 64" using q(3) by simp
    ultimately show ?thesis
      unfolding round_bits_tiny [OF u(3,4) 2] sh_round_64_def using q0 2 by auto
  next
    case 3
    define mb where "mb = (if e2 \<ge> - 1021 then 53 else e2 + 1074)"
    have mb: "1 \<le> mb" "mb \<le> 53" "ulp_exp x = e2 - mb"
      using 3 by (auto simp: mb_def u(1))
    define n where "n = nat (mb + 1)"
    have n: "int n = mb + 1" "n \<le> 54" "0 < n" using mb by (simp_all add: n_def)
    have "blq < n \<Longrightarrow> t = 0" using t n(2) by (cases "t = 0") auto
    from kept_digits [OF q(1,2) _ t(1,2) n(2,3) this] q(3) obtain t' where
      t': "real (unat (q_shift (int blq - int n) q)) + t' = (real (unat q) + t) * 2 powi (int n - int blq)"
      "0 \<le> t'" "t' < 1"
      "0 < t' \<longleftrightarrow> 0 < t \<or> (int blq - int n > 0 \<and> unat q mod 2 ^ nat (int blq - int n) \<noteq> 0)" by auto
    define k where "k = q_shift (int blq - int n) q"
    define s1 where "s1 = (sticky \<or> (int blq - int n > 0 \<and> q AND (push_bit (nat (int blq - int n)) 1 - 1) \<noteq> 0))"
    have s1: "s1 \<longleftrightarrow> 0 < t'" unfolding s1_def t'(4) t(3) u64_low_zero by blast
    have run: "sh_round_64 q sticky blq e2 neg = q_pack mb (q_round s1 k) e2 neg"
    proof -
      have "(if e2 - 1 \<ge> - 1022 then 53 else max 1 (53 - (- 1022 - (e2 - 1)))) = mb"
        using 3 by (auto simp: mb_def)
      moreover have "int blq - (mb + 1) = int blq - int n" by (simp add: n)
      ultimately show ?thesis
        unfolding sh_round_64_def Let_def k_def s1_def using q0 3 by (simp only: if_False) simp
    qed
    have half_x: "(real (unat k) + t') / 2 = x / 2 powi ulp_exp x"
    proof -
      have "(2 :: real) powi (int n - int blq) = 2 * (2 powi (e2 - int blq) / 2 powi (e2 - mb))"
        by (simp add: n(1) power_int_diff power_int_add)
      then show ?thesis unfolding k_def t'(1) mb(3) by (simp add: x)
    qed
    have bounds: "2 powi (mb - 1) \<le> x / 2 powi ulp_exp x" "x / 2 powi ulp_exp x < 2 powi mb"
      unfolding mb(3) using u(3,4) by (simp_all add: power_int_diff field_simps)
    have P: "(2 :: real) powi mb = real (2 ^ nat mb)" "(2 :: real) powi (mb - 1) = real (2 ^ nat (mb - 1))"
      using mb(1) by (simp_all add: powi_nat)
    have k_up: "unat k < 2 * 2 ^ nat mb"
    proof -
      have "real (unat k) < 2 * real (2 ^ nat mb)"
        using bounds(2) t'(2) unfolding half_x [symmetric] P by (rule half_bounds(1))
      then have "real (unat k) < real (2 * 2 ^ nat mb)" by (simp del: of_nat_unat)
      then show ?thesis by (simp only: of_nat_less_iff)
    qed
    have k_lo: "2 * 2 ^ nat (mb - 1) \<le> unat k"
    proof -
      have "2 * real (2 ^ nat (mb - 1)) < real (unat k) + 1"
        using bounds(1) t'(3) unfolding half_x [symmetric] P by (rule half_bounds(2))
      then have "real (2 * 2 ^ nat (mb - 1)) < real (unat k + 1)" by (simp del: of_nat_unat)
      then have "2 * 2 ^ nat (mb - 1) < unat k + 1" by (simp only: of_nat_less_iff)
      then show ?thesis by simp
    qed
    have "(2 :: nat) ^ nat mb \<le> 2 ^ 53" using mb(2) by (intro power_increasing) auto
    then have "unat k < 36028797018963968" using k_up by simp
    from q_round_val [OF t'(2,3) s1 this]
    have m: "int (unat (q_round s1 k)) = rne (x / 2 powi ulp_exp x)" by (simp only: half_x)
    have mk: "unat (q_round s1 k) = unat k div 2 + (if odd (unat k) \<and> (0 < t' \<or> odd (unat k div 2)) then 1 else 0)"
      using m rne_half [OF t'(2,3), of "unat k"] unfolding half_x by (simp only: of_nat_eq_iff)
    have div: "unat k div 2 < 2 ^ nat mb" "2 ^ nat (mb - 1) \<le> unat k div 2" using k_up k_lo by auto
    have lo: "2 ^ nat (mb - 1) \<le> unat (q_round s1 k)" and up: "unat (q_round s1 k) \<le> 2 ^ nat mb"
      unfolding mk using div by auto
    show ?thesis
      unfolding run q_pack_val [OF mb_def 3 lo up] round_bits_def m u(1) by simp
  qed
qed

lemma div_mod_eqI: "a = r + d * q \<Longrightarrow> r < d \<Longrightarrow> a div d = q \<and> a mod d = (r :: nat)"
  by simp

section \<open>The rounded bits are the nearest double\<close>

text \<open>
  The IEEE 754 rule, over the values of all finite doubles: from half a place above the largest
  double on the result is infinity; below, no finite double is nearer, and when another one is as
  near the last bit is 0.
\<close>

definition nearest_double :: "real \<Rightarrow> nat \<Rightarrow> bool" where
  "nearest_double x b \<longleftrightarrow>
     (if 18014398509481983 * 2 powi 970 \<le> x then b = inf_bits
      else b < inf_bits \<and>
        (\<forall>c<inf_bits. \<bar>mag_val b - x\<bar> \<le> \<bar>mag_val c - x\<bar>) \<and>
        (\<forall>c<inf_bits. c \<noteq> b \<and> \<bar>mag_val b - x\<bar> = \<bar>mag_val c - x\<bar> \<longrightarrow> even b))"

lemma rne_bounds: "\<bar>of_int (rne y) - y\<bar> \<le> 1 / 2" "\<bar>of_int (rne y) - y\<bar> = 1 / 2 \<Longrightarrow> even (rne y)"
  using floor_correct [of y] by (auto simp: rne_def Let_def split: if_splits)

lemma rne_nearest:
  assumes "j \<noteq> rne y"
  shows "\<bar>of_int (rne y) - y\<bar> \<le> \<bar>of_int j - y\<bar>" "\<bar>of_int (rne y) - y\<bar> = \<bar>of_int j - y\<bar> \<Longrightarrow> even (rne y)"
proof -
  have "1 \<le> \<bar>rne y - j\<bar>" using assms by auto
  then have "1 \<le> \<bar>of_int (rne y) - of_int j :: real\<bar>" by (metis of_int_1_le_iff of_int_abs of_int_diff)
  then have far: "1 / 2 \<le> \<bar>of_int j - y\<bar>" using rne_bounds(1) [of y] by linarith
  with rne_bounds(1) [of y] show "\<bar>of_int (rne y) - y\<bar> \<le> \<bar>of_int j - y\<bar>" by linarith
  assume "\<bar>of_int (rne y) - y\<bar> = \<bar>of_int j - y\<bar>"
  with far rne_bounds(1) [of y] have "\<bar>of_int (rne y) - y\<bar> = 1 / 2" by linarith
  then show "even (rne y)" by (rule rne_bounds(2))
qed

lemma mag_val_units:
  assumes "e = 0 \<or> 4503599627370496 \<le> j" "j \<le> 9007199254740992"
  shows "mag_val (e * 4503599627370496 + j) = real j * 2 powi (int e - 1074)"
proof -
  consider "j < 4503599627370496" "e = 0" | "4503599627370496 \<le> j" "j < 9007199254740992" | "j = 9007199254740992"
    using assms by linarith
  then show ?thesis
  proof cases
    case 1
    then show ?thesis by (simp add: mag_val_def Let_def)
  next
    case 2
    have "(e * 4503599627370496 + j) div 4503599627370496 = Suc e"
      "(e * 4503599627370496 + j) mod 4503599627370496 = j - 4503599627370496"
      using 2 div_mod_eqI [of "e * 4503599627370496 + j" "j - 4503599627370496" 4503599627370496 "Suc e"] by auto
    with 2 show ?thesis unfolding mag_val_def by (simp add: Let_def)
  next
    case 3
    have "(e * 4503599627370496 + j) div 4503599627370496 = Suc (Suc e)"
      "(e * 4503599627370496 + j) mod 4503599627370496 = 0"
      using 3 div_mod_eqI [of "e * 4503599627370496 + j" 0 4503599627370496 "Suc (Suc e)"] by auto
    moreover have "(2 :: real) powi (int e - 1073) = 2 * 2 powi (int e - 1074)"
      using powi_split [of 1 "int e - 1074"] by simp
    ultimately show ?thesis unfolding mag_val_def by (simp add: Let_def 3)
  qed
qed

lemma mag_val_Suc: "mag_val b < mag_val (Suc b)"
proof -
  define f m where "f = b div 4503599627370496" and "m = b mod 4503599627370496"
  have m: "m < 4503599627370496" by (simp add: m_def)
  obtain e j where b: "b = e * 4503599627370496 + j" "e = 0 \<or> 4503599627370496 \<le> j" "Suc j \<le> 9007199254740992"
  proof (cases f)
    case 0
    then have "b = 0 * 4503599627370496 + m" by (simp add: f_def m_def)
    then show ?thesis using that [of 0 m] m by simp
  next
    case (Suc e)
    have "b = f * 4503599627370496 + m" by (simp only: f_def m_def div_mult_mod_eq)
    then have "b = e * 4503599627370496 + (m + 4503599627370496)" by (simp add: Suc)
    then show ?thesis using that [of e "m + 4503599627370496"] m by simp
  qed
  have "mag_val b = real j * 2 powi (int e - 1074)"
    unfolding b(1) using b(2,3) by (intro mag_val_units) auto
  moreover have "mag_val (Suc b) = real (Suc j) * 2 powi (int e - 1074)"
    using mag_val_units [of e "Suc j"] b by auto
  ultimately show ?thesis by (simp add: mult_strict_right_mono)
qed

lemma mag_val_mono: "b \<le> c \<Longrightarrow> mag_val b \<le> mag_val c"
  by (rule lift_Suc_mono_le [where f = mag_val, OF less_imp_le [OF mag_val_Suc]])

lemma mag_val_strict: "b < c \<Longrightarrow> mag_val b < mag_val c"
  by (rule lift_Suc_mono_less [where f = mag_val, OF mag_val_Suc])

lemma ulp_range:
  assumes "0 < x" "E = ulp_exp x"
  shows "x < 9007199254740992 * 2 powi E" "E = - 1074 \<or> 4503599627370496 * 2 powi E \<le> x" "- 1074 \<le> E"
proof -
  define k where "k = \<lfloor>log 2 x\<rfloor>"
  have k: "2 powi k \<le> x" "x < 2 powi (k + 1)"
    using floor_log2_iff [OF assms(1), of k] by (simp_all add: k_def)
  have E: "E = max (- 1074) (k - 52)" by (simp add: assms(2) ulp_exp_def k_def)
  have "(2 :: real) powi (k + 1) \<le> 2 powi (53 + E)" using E by (intro power_int_increasing) auto
  with k(2) show "x < 9007199254740992 * 2 powi E" by (simp add: powi_split)
  show "E = - 1074 \<or> 4503599627370496 * 2 powi E \<le> x"
  proof (cases "E = - 1074")
    case False
    then have "k = 52 + E" using E by auto
    with k(1) show ?thesis by (simp add: powi_split)
  qed simp
  show "- 1074 \<le> E" using E by simp
qed

lemma round_bits_nearest:
  assumes "0 < x"
  shows "nearest_double x (round_bits x)"
proof -
  define E where "E = ulp_exp x"
  define e where "e = nat (E + 1074)"
  define y where "y = x / 2 powi E"
  define m where "m = rne y"
  define lo where "lo = (if E = - 1074 then 0 else 4503599627370496 :: nat)"
  note range = ulp_range [OF assms E_def]
  have P: "0 < (2 :: real) powi E" by simp
  have e: "int e = E + 1074" "int e - 1074 = E" using range(3) by (simp_all add: e_def)
  have y: "real lo \<le> y" "y < 9007199254740992"
    using range(1,2) assms P by (auto simp: y_def lo_def field_simps)
  have y_floor: "int lo \<le> \<lfloor>y\<rfloor>" "\<lfloor>y\<rfloor> < 9007199254740992" using y by (simp_all add: le_floor_iff floor_less_iff)
  then have m: "int lo \<le> m" "m \<le> 9007199254740992" by (auto simp: m_def rne_def Let_def)
  define b where "b = e * 4503599627370496 + nat m"
  have units: "mag_val (e * 4503599627370496 + j) = real j * 2 powi E" if "lo \<le> j" "j \<le> 9007199254740992" for j
    using mag_val_units [of e j] that e by (auto simp: lo_def split: if_splits)
  have b: "mag_val b = of_int m * 2 powi E"
    using units [of "nat m"] m by (simp add: b_def)
  have round: "round_bits x = min inf_bits b"
    using m e by (simp add: round_bits_def b_def flip: E_def y_def m_def)
  have x: "x = y * 2 powi E" by (simp add: y_def)
  have dist: "\<bar>of_int j * 2 powi E - x\<bar> = \<bar>of_int j - y\<bar> * 2 powi E" for j
    by (simp add: x abs_mult flip: left_diff_distrib)
  have near: "\<bar>mag_val b - x\<bar> \<le> \<bar>mag_val c - x\<bar> \<and> (c \<noteq> b \<and> \<bar>mag_val b - x\<bar> = \<bar>mag_val c - x\<bar> \<longrightarrow> even b)" for c
  proof -
    have in_range: "\<bar>of_int m * 2 powi E - x\<bar> \<le> \<bar>of_int j * 2 powi E - x\<bar>" for j
      unfolding dist using rne_nearest(1) [of j y] P by (cases "j = m") (simp_all add: m_def)
    consider "c < e * 4503599627370496 + lo" | "e * 4503599627370496 + 9007199254740992 < c"
      | j where "c = e * 4503599627370496 + j" "lo \<le> j" "j \<le> 9007199254740992"
    proof (cases "c < e * 4503599627370496 + lo \<or> e * 4503599627370496 + 9007199254740992 < c")
      case False
      then have "c = e * 4503599627370496 + (c - e * 4503599627370496)" by simp
      with False that(3) [of "c - e * 4503599627370496"] show ?thesis by simp
    qed (use that in blast)
    then show ?thesis
    proof cases
      case 1
      from mag_val_strict [OF this] have "mag_val c < real lo * 2 powi E"
        using units [of lo] by (simp add: lo_def split: if_splits)
      moreover have "real lo * 2 powi E \<le> x" using y(1) P by (simp add: x)
      ultimately have "\<bar>of_int (int lo) * 2 powi E - x\<bar> < \<bar>mag_val c - x\<bar>" by simp
      with in_range [of "int lo"] show ?thesis unfolding b by linarith
    next
      case 2
      from mag_val_strict [OF this] have "9007199254740992 * 2 powi E < mag_val c"
        using units [of 9007199254740992] by (simp add: lo_def)
      moreover have "x \<le> 9007199254740992 * 2 powi E" using range(1) by simp
      ultimately have "\<bar>of_int 9007199254740992 * 2 powi E - x\<bar> < \<bar>mag_val c - x\<bar>" by simp
      with in_range [of 9007199254740992] show ?thesis unfolding b by linarith
    next
      case 3
      have c: "mag_val c = of_int (int j) * 2 powi E" using units 3 by simp
      have "even b" if "c \<noteq> b" "\<bar>mag_val b - x\<bar> = \<bar>mag_val c - x\<bar>"
      proof -
        have "int j \<noteq> m" using that(1) by (auto simp: 3(1) b_def)
        moreover have "\<bar>of_int m - y\<bar> = \<bar>of_int (int j) - y\<bar>"
          using that(2) P unfolding b c dist by simp
        ultimately have "even m" using rne_nearest(2) [of "int j" y] by (simp add: m_def)
        then show ?thesis using m(1) by (simp add: b_def even_nat_iff)
      qed
      then show ?thesis using in_range [of "int j"] unfolding b c by blast
    qed
  qed
  have over: "inf_bits \<le> b \<longleftrightarrow> 18014398509481983 * 2 powi 970 \<le> x"
  proof -
    consider "971 < E" | "E = 971" | "E < 971" by linarith
    then show ?thesis
    proof cases
      case 1
      then have "2046 \<le> e" "lo = 4503599627370496" by (simp_all add: e_def lo_def)
      moreover from this have "4503599627370496 \<le> nat m" using m(1) by simp
      ultimately have "inf_bits \<le> b" by (simp add: inf_bits_def b_def)
      moreover have "18014398509481983 * 2 powi 970 \<le> x"
      proof -
        have "(2 :: real) powi (2 + 970) \<le> 2 powi E" using 1 by (intro power_int_increasing) auto
        then have p: "4 * 2 powi 970 \<le> (2 :: real) powi E" by (simp only: powi_split) simp
        have "18014398509481983 * 2 powi 970 \<le> 4503599627370496 * (4 * (2 :: real) powi 970)" by simp
        also have "\<dots> \<le> 4503599627370496 * 2 powi E" using p by (intro mult_left_mono) simp_all
        also have "\<dots> \<le> x" using range(2) 1 by simp
        finally show ?thesis .
      qed
      ultimately show ?thesis by simp
    next
      case 2
      then have e2: "e = 2045" by (simp add: e_def)
      have "inf_bits \<le> b \<longleftrightarrow> 9007199254740992 \<le> m"
        using m by (simp add: inf_bits_def b_def e2 le_nat_iff)
      also have "\<dots> \<longleftrightarrow> 9007199254740991 + 1 / 2 \<le> y"
      proof (cases "\<lfloor>y\<rfloor> = 9007199254740991")
        case True
        then show ?thesis using floor_correct [of y] by (simp add: m_def rne_def Let_def)
      next
        case False
        with y_floor have "\<lfloor>y\<rfloor> \<le> 9007199254740990" by linarith
        then show ?thesis
          using floor_correct [of y] by (auto simp: m_def rne_def Let_def floor_le_iff)
      qed
      also have "\<dots> \<longleftrightarrow> (9007199254740991 + 1 / 2) * 2 powi E \<le> x"
        using P by (simp only: x mult_le_cancel_right_pos)
      also have "(9007199254740991 + 1 / 2 :: real) * 2 powi E = 18014398509481983 * 2 powi 970"
        using powi_split [of 1 970] by (simp only: 2) simp
      finally show ?thesis .
    next
      case 3
      then have "e \<le> 2044" by (simp add: e_def)
      then have "\<not> inf_bits \<le> b" using m by (simp add: inf_bits_def b_def)
      moreover have "x < 18014398509481983 * 2 powi 970"
      proof -
        have "(2 :: real) powi E \<le> 2 powi 970" using 3 by (intro power_int_increasing) auto
        then have "9007199254740992 * 2 powi E \<le> 9007199254740992 * (2 :: real) powi 970" by simp
        also have "\<dots> < 18014398509481983 * 2 powi 970" by (intro mult_strict_right_mono) simp_all
        finally show ?thesis using range(1) by linarith
      qed
      ultimately show ?thesis by simp
    qed
  qed
  show ?thesis
  proof (cases "inf_bits \<le> b")
    case True
    then show ?thesis using over by (simp add: nearest_double_def round min_absorb1)
  next
    case False
    then have "\<not> 18014398509481983 * 2 powi 970 \<le> x" "b < inf_bits" "min inf_bits b = b" using over by simp_all
    then show ?thesis unfolding nearest_double_def round using near by (simp only: if_False) blast
  qed
qed

text \<open>Far out of range in either direction the exact value does not matter.\<close>

lemma round_bits_huge: "2 powi 1024 \<le> x \<Longrightarrow> round_bits x = inf_bits"
proof -
  assume x: "2 powi 1024 \<le> x"
  define k where "k = \<lfloor>log 2 x\<rfloor>"
  have "0 < x" using x by (rule order_less_le_trans [rotated]) simp
  then have k: "2 powi k \<le> x" "x < 2 powi (k + 1)" using floor_log2_iff [of x k] by (simp_all add: k_def)
  have "1024 < k + 1"
  proof (rule ccontr)
    assume "\<not> 1024 < k + 1"
    then have "(2 :: real) powi (k + 1) \<le> 2 powi 1024" by (intro power_int_increasing) auto
    with k(2) x show False by linarith
  qed
  with k show ?thesis by (intro round_bits_over [of "k + 1"]) simp_all
qed

lemma round_bits_small: "0 < x \<Longrightarrow> x < 2 powi (- 1075) \<Longrightarrow> round_bits x = 0"
proof -
  assume x: "0 < x" "x < 2 powi (- 1075)"
  define k where "k = \<lfloor>log 2 x\<rfloor>"
  have k: "2 powi k \<le> x" "x < 2 powi (k + 1)" using floor_log2_iff [OF x(1), of k] by (simp_all add: k_def)
  have "k < - 1075"
  proof (rule ccontr)
    assume "\<not> k < - 1075"
    then have "(2 :: real) powi (- 1075) \<le> 2 powi k" by (intro power_int_increasing) auto
    with k(1) x(2) show False by linarith
  qed
  with k show ?thesis using round_bits_tiny [of "k + 1" x] by simp
qed

end
