(* ===== verification/Boot_Text.thy ===== *)
theory Boot_Text
  imports C_Text "HOL-Library.Sublist"
begin

text \<open>
  The memory and string functions of the freestanding libc (\<open>scripts/crossboot/stub.c\<close>):
  \<open>memcpy\<close>, \<open>memmove\<close>, the \<open>str\<close> functions, \<open>strtoll\<close> and its kin, and the byte generator
  \<open>zan_urandom\<close>. Memory is the list of its bytes, an address an index into it; a C string is the
  list of its bytes before the terminator, and a pointer into it an offset.
\<close>

text \<open>
  A function of this libc returns, ends the program with a status, or accesses memory outside its
  object or does something else undefined in C (\<open>Wild\<close>).
\<close>

datatype 'a result = Returns 'a | Exits nat | Wild

section \<open>Copying\<close>

text \<open>
  One byte at a time, upwards from \<open>i\<close> or downwards from \<open>i\<close>: later reads see the earlier
  writes when the areas overlap.
\<close>

function copy_up :: "u8 list \<Rightarrow> nat \<Rightarrow> nat \<Rightarrow> nat \<Rightarrow> nat \<Rightarrow> u8 list" where
  "copy_up m d s n i = (if i < n then copy_up (m[d + i := m ! (s + i)]) d s n (i + 1) else m)"
  by pat_completeness auto
termination by (relation "measure (\<lambda>(m, d, s, n, i). n - i)") auto

declare copy_up.simps [simp del]

fun copy_down :: "u8 list \<Rightarrow> nat \<Rightarrow> nat \<Rightarrow> nat \<Rightarrow> u8 list" where
  "copy_down m d s 0 = m"
| "copy_down m d s (Suc i) = copy_down (m[d + i := m ! (s + i)]) d s i"

definition memcpy :: "u8 list \<Rightarrow> nat \<Rightarrow> nat \<Rightarrow> nat \<Rightarrow> u8 list" where
  "memcpy m d s n = copy_up m d s n 0"

definition memmove :: "u8 list \<Rightarrow> nat \<Rightarrow> nat \<Rightarrow> nat \<Rightarrow> u8 list" where
  "memmove m d s n = (if d < s then copy_up m d s n 0 else copy_down m d s n)"

section \<open>Strings in memory\<close>

text \<open>\<open>strlen\<close> of the string at \<open>s\<close>; \<^const>\<open>None\<close> when the memory ends before a terminator.\<close>

function strlen_from :: "u8 list \<Rightarrow> nat \<Rightarrow> nat \<Rightarrow> nat option" where
  "strlen_from m s n =
     (if s + n < length m then (if m ! (s + n) \<noteq> 0 then strlen_from m s (n + 1) else Some n) else None)"
  by pat_completeness auto
termination by (relation "measure (\<lambda>(m, s, n). length m - (s + n))") auto

declare strlen_from.simps [simp del]

definition strlen :: "u8 list \<Rightarrow> nat \<Rightarrow> nat option" where
  "strlen m s = strlen_from m s 0"

section \<open>Comparing and searching\<close>

text \<open>The text \<open>[]\<close> stands at the terminator, whose byte is 0.\<close>

fun strcmp :: "cstr \<Rightarrow> cstr \<Rightarrow> int" where
  "strcmp (x # xs) (y # ys) = (if x = y then strcmp xs ys else uint x - uint y)"
| "strcmp [] (y # ys) = - uint y"
| "strcmp (x # xs) [] = uint x"
| "strcmp [] [] = 0"

text \<open>\<open>strchr\<close> and \<open>strrchr\<close> look at the terminator, too. The result is the offset of the match.\<close>

fun strchr_from :: "cstr \<Rightarrow> u8 \<Rightarrow> nat \<Rightarrow> nat option" where
  "strchr_from [] c i = (if c = 0 then Some i else None)"
| "strchr_from (x # xs) c i = (if x = c then Some i else strchr_from xs c (i + 1))"

definition strchr :: "cstr \<Rightarrow> 32 word \<Rightarrow> nat option" where
  "strchr s c = strchr_from s (ucast c) 0"

fun strrchr_from :: "cstr \<Rightarrow> u8 \<Rightarrow> nat \<Rightarrow> nat option \<Rightarrow> nat option" where
  "strrchr_from [] c i seen = (if c = 0 then Some i else seen)"
| "strrchr_from (x # xs) c i seen = strrchr_from xs c (i + 1) (if x = c then Some i else seen)"

definition strrchr :: "cstr \<Rightarrow> 32 word \<Rightarrow> nat option" where
  "strrchr s c = strrchr_from s (ucast c) 0 None"

text \<open>The inner loop of \<open>strstr\<close>: whether \<open>n\<close> is used up before the texts differ.\<close>

fun str_match :: "cstr \<Rightarrow> cstr \<Rightarrow> bool" where
  "str_match (a # as) (b # bs) = (if a = b then str_match as bs else False)"
| "str_match [] bs = (bs = [])"
| "str_match as [] = True"

fun strstr_from :: "cstr \<Rightarrow> cstr \<Rightarrow> nat \<Rightarrow> nat option" where
  "strstr_from [] n i = None"
| "strstr_from (x # h) n i = (if str_match (x # h) n then Some i else strstr_from h n (i + 1))"

definition strstr :: "cstr \<Rightarrow> cstr \<Rightarrow> nat option" where
  "strstr h n = (if n = [] then Some 0 else strstr_from h n 0)"

section \<open>Numbers\<close>

definition sh_isspace :: "u8 \<Rightarrow> bool" where
  "sh_isspace c \<longleftrightarrow> c = 32 \<or> c = 9 \<or> c = 10 \<or> c = 11 \<or> c = 12 \<or> c = 13"

text \<open>The value of a digit or letter, as \<open>strtoll_full\<close> reads it.\<close>

definition digit_of :: "u8 \<Rightarrow> nat option" where
  "digit_of c =
     (if 48 \<le> c \<and> c \<le> 57 then Some (unat (c - 48))
      else if 97 \<le> c \<and> c \<le> 122 then Some (unat (c - 97) + 10)
      else if 65 \<le> c \<and> c \<le> 90 then Some (unat (c - 65) + 10)
      else None)"

text \<open>The accumulator, which stays at its largest value once the next digit does not fit.\<close>

definition acc_step :: "nat \<Rightarrow> u64 \<Rightarrow> nat \<Rightarrow> u64" where
  "acc_step base acc d =
     (if acc > (- 1 - of_nat d) div of_nat base then - 1 else acc * of_nat base + of_nat d)"

fun ll_digits :: "nat \<Rightarrow> cstr \<Rightarrow> u64 \<Rightarrow> bool \<Rightarrow> u64 \<times> cstr \<times> bool" where
  "ll_digits base [] acc any = (acc, [], any)"
| "ll_digits base (c # p) acc any =
     (case digit_of c of
        None \<Rightarrow> (acc, c # p, any)
      | Some d \<Rightarrow> if d \<ge> base then (acc, c # p, any) else ll_digits base p (acc_step base acc d) True)"

definition ll_sign :: "cstr \<Rightarrow> bool \<times> cstr" where
  "ll_sign p =
     (case p of [] \<Rightarrow> (False, [])
      | c # q \<Rightarrow> if c = ch_plus then (False, q) else if c = ch_minus then (True, q) else (False, p))"

text \<open>A prefix \<open>0x\<close> selects base 16; base 0 stands for 8 after a \<open>0\<close> and for 10 otherwise.\<close>

definition ll_base :: "cstr \<Rightarrow> nat \<Rightarrow> nat \<times> cstr" where
  "ll_base p base =
     (case (if (base = 16 \<or> base = 0) \<and> (case p of a # b # _ \<Rightarrow> a = ch_0 \<and> (b = 120 \<or> b = 88) | _ \<Rightarrow> False)
            then (16, drop 2 p) else (base, p)) of
        (b, q) \<Rightarrow> (if b = 0 then (case q of c # _ \<Rightarrow> if c = ch_0 then 8 else 10 | [] \<Rightarrow> 10) else b, q))"

definition strtoll_full :: "cstr \<Rightarrow> nat \<Rightarrow> u64 \<times> cstr" where
  "strtoll_full s base =
     (case ll_sign (dropWhile sh_isspace s) of (neg, p) \<Rightarrow>
      case ll_base p base of (b, q) \<Rightarrow>
      case ll_digits b q 0 False of (acc, e, any) \<Rightarrow>
        (if neg then 0 - acc else acc, if any then e else s))"

text \<open>\<open>long long\<close>, \<open>long\<close> and \<open>int\<close> results: the same bits, or the low 32 of them.\<close>

definition strtoll :: "cstr \<Rightarrow> nat \<Rightarrow> i64 \<times> cstr" where
  "strtoll s base = strtoll_full s base"

definition atol :: "cstr \<Rightarrow> i64" where
  "atol s = fst (strtoll_full s 10)"

definition atoi :: "cstr \<Rightarrow> 32 word" where
  "atoi s = ucast (fst (strtoll_full s 10))"

text \<open>\<open>abs\<close> and \<open>labs\<close>; the negation of the least value is undefined in C (\<^const>\<open>None\<close>).\<close>

definition abs_int :: "32 word \<Rightarrow> 32 word option" where
  "abs_int n = (if sint n < 0 then (if sint n = - (2 ^ 31) then None else Some (- n)) else Some n)"

definition abs_long :: "i64 \<Rightarrow> i64 option" where
  "abs_long n = (if sint n < 0 then (if sint n = - (2 ^ 63) then None else Some (- n)) else Some n)"

section \<open>The byte generator\<close>

fun urandom_loop :: "nat \<Rightarrow> u64 \<Rightarrow> u8 list" where
  "urandom_loop 0 x = []"
| "urandom_loop (Suc n) x =
     (let x' = x * 6364136223846793005 + 1442695040888963407 in ucast (drop_bit 33 x') # urandom_loop n x')"

definition zan_urandom :: "nat \<Rightarrow> u8 list" where
  "zan_urandom n = urandom_loop n 0x9E3779B97F4A7C15"

section \<open>Copies\<close>

lemma copy_up_val:
  assumes "d \<le> s \<or> s + n \<le> d" "s + n \<le> length m" "d + n \<le> length m" "i \<le> n"
  shows "copy_up m d s n i = take (d + i) m @ take (n - i) (drop (s + i) m) @ drop (d + n) m"
  using assms
proof (induction m d s n i rule: copy_up.induct)
  case (1 m d s n i)
  show ?case
  proof (cases "i < n")
    case True
    let ?m = "m[d + i := m ! (s + i)]"
    have "copy_up m d s n i = take (d + (i + 1)) ?m @ take (n - (i + 1)) (drop (s + (i + 1)) ?m) @ drop (d + n) ?m"
      using 1(1) [OF True] 1(2-) True by (simp add: copy_up.simps [of m])
    also have "take (d + (i + 1)) ?m = take (d + i) m @ [m ! (s + i)]"
      using 1(2-) True by (simp add: take_Suc_conv_app_nth)
    also have "take (n - (i + 1)) (drop (s + (i + 1)) ?m) = take (n - (i + 1)) (drop (s + (i + 1)) m)"
      using 1(2) True by (auto simp: drop_update_swap take_update_cancel)
    also have "drop (d + n) ?m = drop (d + n) m" using True by simp
    also have "take (n - i) (drop (s + i) m) = m ! (s + i) # take (n - (i + 1)) (drop (s + (i + 1)) m)"
    proof -
      have "drop (s + i) m = m ! (s + i) # drop (Suc (s + i)) m" using 1(3) True by (intro Cons_nth_drop_Suc [symmetric]) simp
      moreover have "n - i = Suc (n - (i + 1))" using True by simp
      ultimately show ?thesis by simp
    qed
    ultimately show ?thesis by simp
  next
    case False
    then show ?thesis using 1(5) by (simp add: copy_up.simps [of m])
  qed
qed

lemma copy_down_val:
  assumes "s \<le> d" "s + n \<le> length m" "d + n \<le> length m"
  shows "copy_down m d s n = take d m @ take n (drop s m) @ drop (d + n) m"
  using assms
proof (induction m d s n rule: copy_down.induct)
  case (2 m d s i)
  let ?m = "m[d + i := m ! (s + i)]"
  have "copy_down m d s (Suc i) = take d ?m @ take i (drop s ?m) @ drop (d + i) ?m"
    using 2 by simp
  also have "take i (drop s ?m) = take i (drop s m)"
    using 2(2) by (simp add: drop_update_swap take_update_cancel)
  also have "drop (d + i) ?m = m ! (s + i) # drop (d + Suc i) m"
    using 2(4) Cons_nth_drop_Suc [of "d + i" ?m] by simp
  also have "take i (drop s m) @ m ! (s + i) # drop (d + Suc i) m = take (Suc i) (drop s m) @ drop (d + Suc i) m"
    using 2(3) by (simp add: take_Suc_conv_app_nth)
  finally show ?case by simp
qed simp

section \<open>Searching\<close>

lemma str_match_prefix: "str_match h n \<longleftrightarrow> prefix n h"
  by (induction h n rule: str_match.induct) (auto simp: prefix_def)

lemma strstr_from_val:
  "n \<noteq> [] \<Longrightarrow> strstr_from h n i =
    (if sublist n h then Some (i + (LEAST j. prefix n (drop j h))) else None)"
proof (induction h n i rule: strstr_from.induct)
  case (2 x h n i)
  show ?case
  proof (cases "prefix n (x # h)")
    case True
    then have "(LEAST j. prefix n (drop j (x # h))) = 0" by (intro Least_equality) simp_all
    then show ?thesis using True by (simp add: str_match_prefix prefix_imp_sublist)
  next
    case False
    have "sublist n (x # h) \<longleftrightarrow> sublist n h" using False by (simp add: sublist_Cons_right)
    moreover have "(LEAST j. prefix n (drop j (x # h))) = Suc (LEAST j. prefix n (drop j h))" if "sublist n h"
    proof -
      from that obtain ps ss where "h = ps @ n @ ss" by (auto simp: sublist_def)
      then have "prefix n (drop (Suc (length ps)) (x # h))" by simp
      then show ?thesis using False by (subst Least_Suc [of _ "Suc (length ps)"]) simp_all
    qed
    ultimately show ?thesis using 2 False by (simp add: str_match_prefix)
  qed
qed (simp add: sublist_def)

section \<open>Numbers\<close>

text \<open>The value of a list of digits in a base, the first the most significant.\<close>

definition base_val :: "nat \<Rightarrow> nat list \<Rightarrow> nat" where
  "base_val base ds = foldl (\<lambda>a d. a * base + d) 0 ds"

definition sat64 :: "nat \<Rightarrow> u64" where
  "sat64 n = of_nat (min n 18446744073709551615)"

lemma unat_top: "unat (- 1 :: u64) = 18446744073709551615"
  by (simp add: unsigned_minus_1_eq_mask mask_eq_exp_minus_1)

lemma unat_sat64: "unat (sat64 n) = min n 18446744073709551615"
  by (simp add: sat64_def unat_of_nat)

lemma acc_step_sat:
  assumes "d < base" "2 \<le> base" "base \<le> 36"
  shows "acc_step base (sat64 a) d = sat64 (a * base + d)"
proof -
  define q where "q = (18446744073709551615 - d) div base"
  have "unat (- 1 - of_nat d :: u64) = 18446744073709551615 - d"
    using assms by (subst unat_sub) (simp_all add: unat_top unat_of_nat word_le_nat_alt)
  then have q: "unat ((- 1 - of_nat d) div of_nat base :: u64) = q"
    using assms by (simp add: q_def unat_div unat_of_nat)
  have room: "x * base + d \<le> 18446744073709551615 \<longleftrightarrow> x \<le> q" for x
    using assms less_eq_div_iff_mult_less_eq [of base x "18446744073709551615 - d"] by (auto simp: q_def)
  have lt: "sat64 a > (- 1 - of_nat d) div of_nat base \<longleftrightarrow> q < a"
  proof -
    have "q < 18446744073709551615" using assms by (auto simp: q_def intro: order_le_less_trans [OF div_le_mono2 [of 2 base]])
    then show ?thesis by (simp add: word_less_nat_alt q unat_sat64)
  qed
  show ?thesis
  proof (cases "q < a")
    case True
    then have "\<not> a * base + d \<le> 18446744073709551615" using room [of a] by simp
    then have "sat64 (a * base + d) = - 1" by (simp add: sat64_def)
    then show ?thesis using True lt by (simp add: acc_step_def)
  next
    case False
    then have r: "a * base + d \<le> 18446744073709551615" using room [of a] by simp
    have "a * 1 \<le> a * base" using assms(2) by (intro mult_le_mono2) simp
    then have "a \<le> 18446744073709551615" using r by linarith
    then show ?thesis using False lt r by (simp add: acc_step_def sat64_def min_absorb1)
  qed
qed

lemma ll_digits_val:
  assumes "2 \<le> base" "base \<le> 36"
  shows "ll_digits base p (sat64 a) any =
    (let t = takeWhile (\<lambda>c. \<exists>d<base. digit_of c = Some d) p
     in (sat64 (foldl (\<lambda>a d. a * base + d) a (map (the \<circ> digit_of) t)),
         dropWhile (\<lambda>c. \<exists>d<base. digit_of c = Some d) p, any \<or> t \<noteq> []))"
proof (induction p arbitrary: a any)
  case (Cons c p)
  show ?case
  proof (cases "\<exists>d<base. digit_of c = Some d")
    case True
    then obtain d where d: "d < base" "digit_of c = Some d" by blast
    then show ?thesis using Cons acc_step_sat [OF d(1) assms, of a] by (simp add: Let_def)
  next
    case False
    then show ?thesis by (auto simp: Let_def split: option.splits)
  qed
qed (simp add: Let_def)

lemma strtoll_sat:
  assumes "2 \<le> base" "base \<le> 36" "list_all (\<lambda>c. \<exists>d<base. digit_of c = Some d) ds" "ds \<noteq> []"
    "case rest of [] \<Rightarrow> True | c # _ \<Rightarrow> \<not> (\<exists>d<base. digit_of c = Some d)"
  shows "ll_digits base (ds @ rest) 0 False = (sat64 (base_val base (map (the \<circ> digit_of) ds)), rest, True)"
proof -
  have z: "(0 :: u64) = sat64 0" by (simp add: sat64_def)
  have t: "takeWhile (\<lambda>c. \<exists>d<base. digit_of c = Some d) (ds @ rest) = ds"
    "dropWhile (\<lambda>c. \<exists>d<base. digit_of c = Some d) (ds @ rest) = rest"
    using assms(3,5) by (induction ds) (auto split: list.splits)
  show ?thesis
    unfolding z ll_digits_val [OF assms(1,2)] t Let_def using assms(4) by (simp add: base_val_def)
qed

lemma first_char:
  assumes "digit_of c = Some d"
  shows "\<not> sh_isspace c" "c \<noteq> ch_plus" "c \<noteq> ch_minus"
  using assms by (auto simp: digit_of_def sh_isspace_def split: if_splits)

section \<open>Properties\<close>

text \<open>
  C17. \<open>memmove\<close> copies the bytes that the source area held before the call, whatever the overlap
  of the two areas, and changes nothing else.
\<close>

theorem memmove_correct:
  assumes "s + n \<le> length m" "d + n \<le> length m"
  shows "memmove m d s n = take d m @ take n (drop s m) @ drop (d + n) m"
  using copy_up_val [of d s n m 0] copy_down_val [of s d n m] assms by (simp add: memmove_def)

theorem memmove_correct_witness: "memmove [1, 2, 3, 4, 5] 1 0 4 = [1, 1, 2, 3, 4]"
  using memmove_correct [of 0 4 "[1, 2, 3, 4, 5]" 1] by simp

text \<open>
  \<open>strstr\<close> finds the first occurrence of its second text in the first one, and nothing exactly
  when there is none.
\<close>

theorem strstr_first:
  "strstr h n = (if sublist n h then Some (LEAST j. prefix n (drop j h)) else None)"
proof (cases "n = []")
  case True
  then have "(LEAST j. prefix n (drop j h)) = 0" by (intro Least_equality) simp_all
  then show ?thesis using True by (simp add: strstr_def)
qed (simp add: strstr_def strstr_from_val)

text \<open>
  \<open>strtoll_full\<close> on a text of white space, an optional minus sign and digits of an explicit base
  other than 16: it reads the digits up to the first byte that is not one, stops at the largest
  64-bit value when they denote more, and then negates in 64 bits. So out of range \<open>strtoll\<close> yields
  -1, or 1 after a minus sign.
\<close>

theorem strtoll_saturates:
  assumes "2 \<le> base" "base \<le> 36" "base \<noteq> 16" "list_all sh_isspace sp"
    "list_all (\<lambda>c. \<exists>d<base. digit_of c = Some d) ds" "ds \<noteq> []"
    "case rest of [] \<Rightarrow> True | c # _ \<Rightarrow> \<not> (\<exists>d<base. digit_of c = Some d)"
  shows "strtoll_full (sp @ (if neg then [ch_minus] else []) @ ds @ rest) base =
    (let v = sat64 (base_val base (map (the \<circ> digit_of) ds)) in if neg then - v else v, rest)"
proof -
  obtain c cs d where c: "ds = c # cs" "digit_of c = Some d" using assms(5,6) by (cases ds) auto
  have "dropWhile sh_isspace (sp @ (if neg then [ch_minus] else []) @ ds @ rest) = (if neg then [ch_minus] else []) @ ds @ rest"
    using assms(4) c first_char(1) [OF c(2)] by (induction sp) (auto simp: sh_isspace_def)
  moreover have "ll_sign ((if neg then [ch_minus] else []) @ ds @ rest) = (neg, ds @ rest)"
    using c first_char [OF c(2)] by (simp add: ll_sign_def)
  moreover have "ll_base (ds @ rest) base = (base, ds @ rest)" using assms(1,3) by (simp add: ll_base_def)
  ultimately show ?thesis
    using strtoll_sat [OF assms(1,2,5-7)] by (simp add: strtoll_full_def)
qed

theorem strtoll_saturates_witness:
  "strtoll_full [32, 45, 49, 56, 52, 52, 54, 55, 52, 52, 48, 55, 51, 55, 48, 57, 53, 53, 49, 54, 49, 55, 46] 10 = (1, [46])"
  using strtoll_saturates [of 10 "[32]" "[49, 56, 52, 52, 54, 55, 52, 52, 48, 55, 51, 55, 48, 57, 53, 53, 49, 54, 49, 55]" "[46]" True]
  by (simp add: sh_isspace_def digit_of_def base_val_def sat64_def)

text \<open>Every call of \<open>zan_urandom\<close> returns the same bytes.\<close>

lemma zan_urandom_repeats: "n \<le> k \<Longrightarrow> zan_urandom n = take n (zan_urandom k)"
proof -
  have "n \<le> k \<Longrightarrow> urandom_loop n x = take n (urandom_loop k x)" for x
  proof (induction n arbitrary: k x)
    case (Suc n)
    then obtain j where "k = Suc j" "n \<le> j" by (cases k) auto
    with Suc.IH [of j] show ?case by (simp add: Let_def)
  qed simp
  then show "n \<le> k \<Longrightarrow> zan_urandom n = take n (zan_urandom k)" by (simp add: zan_urandom_def)
qed

end
