(* ===== verification/Boot_Strtod.thy ===== *)
theory Boot_Strtod
  imports Boot_Round Boot_Text
begin

text \<open>
  \<open>strtod\<close> of the freestanding libc (\<open>scripts/crossboot/stub.c\<close>): the decimal text is taken into a
  bignum of at most 1100 digits, multiplied or divided by a power of five, and rounded once. The
  result is the 64 bits of the double and the text after the number. The cache of powers of five
  is the state that the calls share.
\<close>

section \<open>Powers of five\<close>

record p5 =
  p5_cache :: nbig
  p5_k :: int

definition p5_boot :: p5 where
  "p5_boot = \<lparr> p5_cache = [], p5_k = - 1 \<rparr>"

text \<open>\<open>mul5 k b\<close> is \<open>k\<close> rounds of the loop \<open>nb_mul_add(b, 5, 0)\<close>.\<close>

fun mul5 :: "nat \<Rightarrow> nbig \<Rightarrow> nbig" where
  "mul5 0 b = b"
| "mul5 (Suc k) b = mul5 k (nb_mul_add b 5 0)"

definition pow5 :: "int \<Rightarrow> p5 \<Rightarrow> nbig \<times> p5" where
  "pow5 k st =
     (if k \<le> p5_k st then (mul5 (nat k) (nb_mul_add nb_init 1 1), st)
      else let st1 = (if p5_k st < 0 then \<lparr> p5_cache = nb_mul_add nb_init 1 1, p5_k = 0 \<rparr> else st);
               c = mul5 (nat (k - p5_k st1)) (p5_cache st1)
        in (c, \<lparr> p5_cache = c, p5_k = max k (p5_k st1) \<rparr>))"

section \<open>Rounding a product and a quotient\<close>

definition sh_round :: "nbig \<Rightarrow> int \<Rightarrow> bool \<Rightarrow> u64" where
  "sh_round m0 s neg =
     (let bitlen = nb_bitlen m0; e2 = int bitlen + s
      in if bitlen = 0 then signed_bits neg 0
         else if e2 - 1 > 2000 \<or> e2 < - 2000 - 60 then
           (if e2 - 1 > 1023 then signed_bits neg (of_nat inf_bits) else signed_bits neg 0)
         else
           let (B, sticky) = (if bitlen > 56 then nb_shr_sticky m0 (int bitlen - 56) else (m0, False));
               blq = (if bitlen > 56 then 56 else bitlen);
               q = ucast (limb B 0) OR (if length B > 1 then push_bit 32 (ucast (limb B 1)) else 0)
           in sh_round_64 (push_bit (56 - blq) q) sticky 56 e2 neg)"

text \<open>
  Long division of \<open>N\<close>, followed by zero bits, for a quotient of 56 digits: the bit number \<open>i\<close>,
  the remainder, the quotient and its length so far.
\<close>

function div_loop :: "nbig \<Rightarrow> nbig \<Rightarrow> int \<Rightarrow> nbig \<Rightarrow> u64 \<Rightarrow> nat \<Rightarrow> int \<times> nbig \<times> u64" where
  "div_loop N D i rem q got =
     (if got < 56 \<and> i \<ge> - (int (nb_bitlen D) + 64) then
        let r1 = rem_push rem (if i \<ge> 0 then nb_bit N (nat i) else 0);
            ge = (nb_cmp r1 D \<ge> 0);
            r2 = (if ge then nb_sub r1 D else r1);
            q2 = (if ge then push_bit 1 q OR 1 else push_bit 1 q)
        in div_loop N D (i - 1) r2 q2 (if q2 \<noteq> 0 then word_bits q2 else got)
      else (i, rem, q))"
  by pat_completeness auto
termination by (relation "measure (\<lambda>(N, D, i, rem, q, got). nat (i + int (nb_bitlen D) + 65))") auto

declare div_loop.simps [simp del]

text \<open>Whether one of the low \<open>k\<close> bits of \<open>N\<close>, which were never consumed, is set.\<close>

definition low_bits :: "nbig \<Rightarrow> nat \<Rightarrow> bool" where
  "low_bits N k =
     list_ex (\<lambda>li. li * 32 < k \<and>
        N ! li AND (if li * 32 + 32 \<le> k then - 1 else push_bit (k - li * 32) 1 - 1) \<noteq> 0) [0..<length N]"

definition sh_round_div :: "nbig \<Rightarrow> nbig \<Rightarrow> int \<Rightarrow> bool \<Rightarrow> u64" where
  "sh_round_div N D s neg =
     (let blN = nb_bitlen N
      in if blN = 0 then signed_bits neg 0
         else case div_loop N D (int blN - 1) nb_init 0 0 of (i, rem, q) \<Rightarrow>
           let t = int blN - 1 - i
           in if q = 0 then signed_bits neg 0
              else let sticky = (\<not> nb_is_zero rem \<or> (t < int blN \<and> low_bits N (nat (int blN - t))));
                       blq = word_bits q
                in sh_round_64 q sticky blq (int blq + int blN - t + s) neg)"

section \<open>The text\<close>

text \<open>The byte at \<open>p[i]\<close> of a text, with its terminator.\<close>

definition ch_at :: "cstr \<Rightarrow> nat \<Rightarrow> u8" where
  "ch_at p i = (if i < length p then p ! i else 0)"

definition lit_sign :: "cstr \<Rightarrow> bool \<times> cstr" where
  "lit_sign p = (if ch_at p 0 = ch_plus then (False, tl p) else if ch_at p 0 = ch_minus then (True, tl p) else (False, p))"

text \<open>One digit taken into the mantissa, of which only the first 1100 count.\<close>

definition take_digit :: "u8 \<Rightarrow> nbig \<Rightarrow> nat \<Rightarrow> nbig \<times> nat" where
  "take_digit c mant digits =
     (if digits < 1100 then (nb_mul_add mant 10 (ucast (c - ch_0)), digits + 1) else (mant, digits))"

fun int_digits :: "cstr \<Rightarrow> nbig \<Rightarrow> nat \<Rightarrow> bool \<Rightarrow> cstr \<times> nbig \<times> nat \<times> bool" where
  "int_digits [] mant digits any = ([], mant, digits, any)"
| "int_digits (c # p) mant digits any =
     (if is_digit c then (case take_digit c mant digits of (m, d) \<Rightarrow> int_digits p m d True)
      else (c # p, mant, digits, any))"

fun frac_digits :: "cstr \<Rightarrow> nbig \<Rightarrow> nat \<Rightarrow> bool \<Rightarrow> int \<Rightarrow> cstr \<times> nbig \<times> nat \<times> bool \<times> int" where
  "frac_digits [] mant digits any dexp = ([], mant, digits, any, dexp)"
| "frac_digits (c # p) mant digits any dexp =
     (if is_digit c then
        (case take_digit c mant digits of (m, d) \<Rightarrow>
           frac_digits p m d True (if digits < 1100 then dexp - 1 else dexp))
      else (c # p, mant, digits, any, dexp))"

text \<open>The digits of an exponent, at most 100000.\<close>

fun exp_digits :: "cstr \<Rightarrow> int \<Rightarrow> bool \<Rightarrow> cstr \<times> int \<times> bool" where
  "exp_digits [] ev any = ([], ev, any)"
| "exp_digits (c # p) ev any =
     (if is_digit c then exp_digits p (min 100000 (ev * 10 + int (digit_val c))) True else (c # p, ev, any))"

text \<open>\<open>lit_exp\<close> reads an exponent when one follows; without a digit the text stays before the mark.\<close>

definition lit_exp :: "bool \<Rightarrow> cstr \<Rightarrow> cstr \<times> int" where
  "lit_exp mark p =
     (if mark then
        (case lit_sign (tl p) of (eneg, q) \<Rightarrow>
           (case exp_digits q 0 False of (q2, ev, eany) \<Rightarrow>
              if eany then (q2, if eneg then - ev else ev) else (p, 0)))
      else (p, 0))"

section \<open>Hexadecimal literals\<close>

definition hex_val :: "u8 \<Rightarrow> nat option" where
  "hex_val c =
     (if is_digit c then Some (unat (c - 48))
      else if 97 \<le> c \<and> c \<le> 102 then Some (unat (c - 97) + 10)
      else if 65 \<le> c \<and> c \<le> 70 then Some (unat (c - 65) + 10)
      else None)"

record hexacc =
  hx_mant :: u64
  hx_sticky :: bool
  hx_expo :: int
  hx_seen :: bool

text \<open>Digits before and after the point; those that no longer fit only leave a trace.\<close>

fun hex_digits :: "bool \<Rightarrow> cstr \<Rightarrow> hexacc \<Rightarrow> cstr \<times> hexacc" where
  "hex_digits fr [] a = ([], a)"
| "hex_digits fr (c # p) a =
     (case hex_val c of
        None \<Rightarrow> (c # p, a)
      | Some d \<Rightarrow>
          hex_digits fr p
            (if hx_mant a < push_bit 60 1 then
               a\<lparr> hx_mant := push_bit 4 (hx_mant a) OR of_nat d, hx_seen := True,
                  hx_expo := hx_expo a - (if fr then 4 else 0) \<rparr>
             else
               a\<lparr> hx_sticky := hx_sticky a \<or> d \<noteq> 0, hx_seen := True,
                  hx_expo := hx_expo a + (if fr then 0 else 4) \<rparr>))"

fun skip_zeros :: "cstr \<Rightarrow> bool \<Rightarrow> cstr \<times> bool" where
  "skip_zeros [] seen = ([], seen)"
| "skip_zeros (c # p) seen = (if c = ch_0 then skip_zeros p True else (c # p, seen))"

text \<open>Shift the top bit up to bit 63.\<close>

fun hex_norm :: "nat \<Rightarrow> u64 \<Rightarrow> int \<Rightarrow> u64 \<times> int" where
  "hex_norm 0 m e2 = (m, e2)"
| "hex_norm (Suc k) m e2 = (if m AND push_bit 63 1 = 0 then hex_norm k (push_bit 1 m) (e2 - 1) else (m, e2))"

definition hex_finish :: "hexacc \<Rightarrow> int \<Rightarrow> bool \<Rightarrow> u64" where
  "hex_finish a expo neg =
     (case hex_norm 64 (hx_mant a) 0 of (q, e2) \<Rightarrow>
        let rb = drop_bit 10 q AND 1;
            tail = (q AND (push_bit 10 1 - 1) \<noteq> 0 \<or> hx_sticky a);
            q1 = drop_bit 11 q;
            q2 = (if rb \<noteq> 0 \<and> (tail \<or> q1 AND 1 \<noteq> 0) then q1 + 1 else q1);
            (q3, x) = (if drop_bit 53 q2 \<noteq> 0 then (drop_bit 1 q2, expo + 1) else (q2, expo))
        in sh_round_64 q3 False 53 (x + e2 + 64) neg)"

definition sh_hexfloat :: "cstr \<Rightarrow> bool \<Rightarrow> u64 \<times> cstr" where
  "sh_hexfloat s neg =
     (case skip_zeros (drop 2 s) False of (p0, seen0) \<Rightarrow>
      case hex_digits False p0 \<lparr> hx_mant = 0, hx_sticky = False, hx_expo = 0, hx_seen = seen0 \<rparr> of (p1, a1) \<Rightarrow>
      case (if ch_at p1 0 = 46 then hex_digits True (tl p1) a1 else (p1, a1)) of (p2, a2) \<Rightarrow>
      case lit_exp (ch_at p2 0 = 112 \<or> ch_at p2 0 = 80) p2 of (p3, ev) \<Rightarrow>
        if \<not> hx_seen a2 then (0, s)
        else if hx_mant a2 = 0 then (signed_bits neg 0, p3)
        else (hex_finish a2 (hx_expo a2 + ev) neg, p3))"

section \<open>\<open>strtod_full\<close>\<close>

text \<open>The bits of \<open>__builtin_nan("")\<close>, and letters in either case.\<close>

definition nan_bits :: u64 where "nan_bits = 9221120237041090560"

definition letters :: "cstr \<Rightarrow> nat \<Rightarrow> u8 list \<Rightarrow> bool" where
  "letters p i cs = list_all (\<lambda>k. ch_at p (i + k) = cs ! k \<or> ch_at p (i + k) = cs ! k - 32) [0..<length cs]"

definition strtod_full :: "p5 \<Rightarrow> cstr \<Rightarrow> u64 \<times> cstr \<times> p5" where
  "strtod_full st s =
     (case lit_sign (dropWhile sh_isspace s) of (neg, p) \<Rightarrow>
        if letters p 0 [110, 97, 110] then (nan_bits, drop 3 p, st)
        else if letters p 0 [105, 110, 102] then
          (signed_bits neg (of_nat inf_bits), if letters p 3 [105, 110, 105, 116, 121] then drop 8 p else drop 3 p, st)
        else if ch_at p 0 = ch_0 \<and> (ch_at p 1 = 120 \<or> ch_at p 1 = 88) then
          (case sh_hexfloat p neg of (v, e) \<Rightarrow> (v, e, st))
        else
          case int_digits p nb_init 0 False of (p1, m1, d1, any1) \<Rightarrow>
          case (if ch_at p1 0 = 46 then frac_digits (tl p1) m1 d1 any1 0 else (p1, m1, d1, any1, 0))
            of (p2, mant, digits, any, dexp0) \<Rightarrow>
          if \<not> any then (0, s, st)
          else case lit_exp (ch_at p2 0 = 101 \<or> ch_at p2 0 = 69) p2 of (p3, eexp) \<Rightarrow>
            let dexp1 = dexp0 + eexp
            in if nb_is_zero mant then (signed_bits neg 0, p3, st)
               else let dexp = (if dexp1 > 1500 then 1500 else if dexp1 < - 1500 then - 1500 else dexp1)
                 in if dexp \<ge> 0 then
                      (case pow5 dexp st of (f, st1) \<Rightarrow> (sh_round (nb_mul_big mant f) dexp neg, p3, st1))
                    else
                      (case pow5 (- dexp) st of (f, st1) \<Rightarrow> (sh_round_div mant f dexp neg, p3, st1)))"

section \<open>Powers of five\<close>

definition p5_ok :: "p5 \<Rightarrow> bool" where
  "p5_ok st \<longleftrightarrow> p5_k st \<le> 1500 \<and>
     (0 \<le> p5_k st \<longrightarrow> trimmed (p5_cache st) \<and> limbs_val (p5_cache st) = 5 ^ nat (p5_k st))"

lemma pow5_less: "(5 :: nat) ^ k < 4294967296 ^ 110" if "k \<le> 1500"
proof -
  have "(5 :: nat) ^ k \<le> 5 ^ (3 * 500)" using that by (intro power_increasing) auto
  also have "\<dots> = (5 ^ 3) ^ 500" by (rule power_mult)
  also have "\<dots> \<le> (2 ^ 7) ^ 500" by (rule power_mono) simp_all
  also have "\<dots> = 2 ^ (7 * 500)" by (rule power_mult [symmetric])
  also have "\<dots> < 2 ^ (32 * 110)" by (intro power_strict_increasing) auto
  also have "\<dots> = (2 ^ 32) ^ 110" by (rule power_mult)
  also have "(2 :: nat) ^ 32 = 4294967296" by simp
  finally show ?thesis .
qed

lemma one_val: "limbs_val (nb_mul_add nb_init 1 1) = 1" "trimmed (nb_mul_add nb_init 1 1)"
  using nb_mul_add_val(1) [of nb_init 1 1] nb_mul_add_trimmed [of nb_init 1 1]
  by (simp_all add: nb_init_val NBIG_def)

lemma mul5_val:
  "trimmed b \<Longrightarrow> limbs_val b = 5 ^ j \<Longrightarrow> j + k \<le> 1500 \<Longrightarrow>
    limbs_val (mul5 k b) = 5 ^ (j + k) \<and> trimmed (mul5 k b)"
proof (induction k arbitrary: b j)
  case (Suc k)
  have len: "length b < NBIG"
    using Suc.prems pow5_less [of j] by (intro room [of b 110]) (simp_all add: NBIG_def)
  have "trimmed (nb_mul_add b 5 0)" "limbs_val (nb_mul_add b 5 0) = 5 ^ Suc j"
    using nb_mul_add_trimmed [OF Suc.prems(1) len, of 5 0] nb_mul_add_val(1) [OF len, of 5 0] Suc.prems(2)
    by simp_all
  with Suc.IH [of "nb_mul_add b 5 0" "Suc j"] Suc.prems(3) show ?case by simp
qed simp

lemma pow5_val:
  assumes "p5_ok st" "0 \<le> k" "k \<le> 1500" "pow5 k st = (b, st')"
  shows "limbs_val b = 5 ^ nat k" "trimmed b" "p5_ok st'" "length b \<le> 110"
proof -
  have "limbs_val b = 5 ^ nat k \<and> trimmed b \<and> p5_ok st'"
  proof (cases "k \<le> p5_k st")
    case True
    then show ?thesis
      using assms mul5_val [OF one_val(2), of 0 "nat k"] by (auto simp: pow5_def one_val)
  next
    case False
    define st1 where "st1 = (if p5_k st < 0 then \<lparr> p5_cache = nb_mul_add nb_init 1 1, p5_k = 0 \<rparr> else st)"
    have st1: "trimmed (p5_cache st1)" "limbs_val (p5_cache st1) = 5 ^ nat (p5_k st1)" "0 \<le> p5_k st1" "p5_k st1 \<le> k"
      using assms(1,2) False by (auto simp: st1_def p5_ok_def one_val)
    have "limbs_val (mul5 (nat (k - p5_k st1)) (p5_cache st1)) = 5 ^ nat k \<and>
        trimmed (mul5 (nat (k - p5_k st1)) (p5_cache st1))"
    proof -
      have "nat (p5_k st1) + nat (k - p5_k st1) = nat k" using st1 by simp
      then show ?thesis
        using mul5_val [OF st1(1,2), of "nat (k - p5_k st1)"] assms(3) by simp
    qed
    moreover have "b = mul5 (nat (k - p5_k st1)) (p5_cache st1)" "st' = \<lparr> p5_cache = b, p5_k = max k (p5_k st1) \<rparr>"
      using assms(4) False by (auto simp: pow5_def Let_def st1_def)
    moreover have "max k (p5_k st1) = k" using st1(4) by simp
    ultimately show ?thesis using assms(2,3) by (simp add: p5_ok_def)
  qed
  then show "limbs_val b = 5 ^ nat k" "trimmed b" "p5_ok st'" "length b \<le> 110"
    using pow5_less [of "nat k"] assms(2,3) trimmed_length_less [of b 110] by simp_all
qed

section \<open>The multiply path\<close>

lemma low_u64:
  assumes "trimmed b" "limbs_val b < 18446744073709551616"
  shows "unat (ucast (limb b 0) OR (if length b > 1 then push_bit 32 (ucast (limb b 1)) else 0) :: u64) = limbs_val b"
proof -
  have "length b \<le> 2" using assms by (intro trimmed_length_less) simp_all
  then consider x where "b = [x]" | x y where "b = [x, y]"
    using assms(1) by (cases b; cases "tl b") (auto simp: trimmed_def)
  then show ?thesis
  proof cases
    case (2 x y)
    have "unat (push_bit 32 (ucast y :: u64)) = unat y * 2 ^ 32"
      using limb_less [of y] by (subst u64_push) (simp_all add: unat_up)
    then have "unat (ucast x OR push_bit 32 (ucast y) :: u64) = push_bit 32 (unat y) OR unat x"
      by (simp add: unsigned_or_eq unat_up push_bit_eq_mult or.commute)
    then show ?thesis using or_add [of "unat x" 32 "unat y"] limb_less [of x] by (simp add: 2 limb_def)
  qed (simp add: limb_def unat_up)
qed

lemma has_bits_shift: "has_bits v k \<Longrightarrow> 0 < k \<Longrightarrow> has_bits (v * 2 ^ j) (k + j)"
  by (cases k) (auto simp: has_bits_def power_add)

lemma has_bits_div: "has_bits v (k + j) \<Longrightarrow> 0 < k \<Longrightarrow> has_bits (v div 2 ^ j) k"
proof -
  assume h: "has_bits v (k + j)" "0 < k"
  then have "v < 2 ^ k * 2 ^ j" "2 ^ (k - 1) * 2 ^ j \<le> v"
    by (simp_all add: has_bits_def flip: power_add)
  then have "v div 2 ^ j < 2 ^ k" "2 ^ (k - 1) \<le> v div 2 ^ j"
    by (simp_all add: less_mult_imp_div_less less_eq_div_iff_mult_less_eq)
  then show ?thesis by (simp add: has_bits_def)
qed

lemma sh_round_correct:
  assumes "trimmed m" "0 < limbs_val m" "0 \<le> s"
  shows "sh_round m s neg = signed_bits neg (of_nat (round_bits (real (limbs_val m) * 2 powi s)))"
proof -
  define v k where "v = limbs_val m" and "k = nb_bitlen m"
  have h: "has_bits v k" using nb_bitlen_val [OF assms(1)] by (simp add: v_def k_def)
  have k: "0 < k" using h assms(2) by (intro gr0I) (auto simp: has_bits_def v_def)
  define e2 where "e2 = int k + s"
  have x: "real v * 2 powi s = (real v + 0) * 2 powi (e2 - int k)" by (simp add: e2_def)
  show ?thesis
  proof (cases "2000 < e2 - 1")
    case True
    have "round_bits (real v * 2 powi s) = inf_bits"
      using ulp_exp_val(3,4) [OF h k _ _ x] True by (intro round_bits_over [of e2]) simp_all
    then show ?thesis using True k by (simp add: sh_round_def Let_def v_def flip: k_def e2_def)
  next
    case False
    define B where "B = (if k > 56 then fst (nb_shr_sticky m (int k - 56)) else m)"
    define sticky where "sticky = (if k > 56 then snd (nb_shr_sticky m (int k - 56)) else False)"
    define j where "j = k - 56"
    have B: "trimmed B" "limbs_val B = v div 2 ^ j" "sticky \<longleftrightarrow> v mod 2 ^ j \<noteq> 0"
      using assms(1) nb_shr_trimmed [OF assms(1)] nb_shr_sticky_val [of "int k - 56" m]
      by (auto simp: B_def sticky_def j_def v_def nat_diff_distrib)
    define blq where "blq = min k 56"
    have hB: "has_bits (v div 2 ^ j) blq"
      using has_bits_div [of v blq j] h k by (simp add: blq_def j_def min_def)
    have small: "v div 2 ^ j < 2 ^ 56"
    proof -
      have "v div 2 ^ j < 2 ^ blq" using hB by (simp add: has_bits_def)
      also have "(2 :: nat) ^ blq \<le> 2 ^ 56" by (intro power_increasing) (auto simp: blq_def)
      finally show ?thesis .
    qed
    define q where "q = (ucast (limb B 0) OR (if length B > 1 then push_bit 32 (ucast (limb B 1)) else 0) :: u64)"
    have q: "unat q = v div 2 ^ j" using low_u64 [OF B(1)] small by (simp add: q_def B(2))
    define q' where "q' = push_bit (56 - blq) q"
    have h': "has_bits (unat q * 2 ^ (56 - blq)) 56"
      using has_bits_shift [OF hB, of "56 - blq"] k unfolding q by (simp add: blq_def)
    have q': "unat q' = unat q * 2 ^ (56 - blq)"
      using h' unfolding q'_def by (intro u64_push) (simp add: has_bits_def)
    have run: "sh_round m s neg = sh_round_64 q' sticky 56 e2 neg"
    proof -
      have "\<not> (e2 - 1 > 2000 \<or> e2 < - 2000 - 60)" using False assms(3) by (simp add: e2_def)
      then show ?thesis
        using k unfolding sh_round_def Let_def k_def [symmetric] e2_def [symmetric] q'_def q_def B_def sticky_def blq_def
        by (auto simp: min_def split: prod.split)
    qed
    define t where "t = real (v mod 2 ^ j) / 2 ^ j"
    have t: "0 \<le> t" "t < 1" "sticky \<longleftrightarrow> 0 < t"
      by (simp_all add: t_def B(3) zero_less_divide_iff flip: of_nat_power)
    have xq: "real v * 2 powi s = (real (unat q') + t) * 2 powi (e2 - int 56)"
    proof (cases "k \<le> 56")
      case True
      then have "j = 0" "blq = k" by (simp_all add: j_def blq_def)
      moreover have "real (v * 2 ^ (56 - k)) * 2 powi (e2 - 56) = real v * 2 powi (int (56 - k) + (e2 - 56))"
        by (simp add: powi_split)
      moreover have "int (56 - k) + (e2 - 56) = s" using True by (simp add: e2_def of_nat_diff)
      ultimately show ?thesis unfolding q' q by (auto simp: t_def)
    next
      case False
      then have "blq = 56" by (simp add: blq_def)
      have "real v = (real (v div 2 ^ j) + t) * 2 ^ j"
        using div_mult_mod_eq [of v "2 ^ j"] unfolding t_def
        by (simp add: distrib_right) (metis of_nat_add of_nat_mult of_nat_numeral of_nat_power)
      moreover have "e2 - 56 = int j + s" using False by (simp add: e2_def j_def of_nat_diff)
      ultimately show ?thesis unfolding q' q \<open>blq = 56\<close> by (simp add: powi_split)
    qed
    have "\<not> (e2 = - 1074 \<and> sticky \<and> unat q' = 2 ^ (56 - 1))" using assms(3) by (simp add: e2_def)
    moreover have "has_bits (unat q') 56" unfolding q' by (rule h')
    ultimately show ?thesis
      unfolding run v_def [symmetric] using t xq by (intro sh_round_64_correct [of q' 56 t]) simp_all
  qed
qed

section \<open>The division path\<close>

lemma word_bits_has: "has_bits (unat q) (word_bits q)"
proof (cases "q = 0")
  case False
  with word_bits_bounds [OF False] show ?thesis by (simp add: has_bits_def)
qed (simp add: word_bits.simps [of 0] has_bits_def)

text \<open>The first \<open>t\<close> bits of \<open>N\<close>, which has \<open>n\<close> of them, continued by zeros.\<close>

definition leading :: "nat \<Rightarrow> nat \<Rightarrow> nat \<Rightarrow> nat" where
  "leading N n t = N * 2 ^ t div 2 ^ n"

lemma leading_low: "t \<le> n \<Longrightarrow> leading N n t = N div 2 ^ (n - t)"
proof -
  assume "t \<le> n"
  then have "(2 :: nat) ^ n = 2 ^ (n - t) * 2 ^ t" by (simp flip: power_add)
  then show ?thesis by (simp add: leading_def)
qed

lemma double_div_mod: "2 * m = 2 * (m mod d) + d * (2 * (m div d))" for m d :: nat
  by (metis mult_div_mod_eq distrib_left add.commute mult.left_commute)

lemma leading_high: "n \<le> t \<Longrightarrow> leading N n t = N * 2 ^ (t - n)"
proof -
  assume "n \<le> t"
  then have "(2 :: nat) ^ t = 2 ^ (t - n) * 2 ^ n" by (simp flip: power_add)
  then show ?thesis by (simp add: leading_def)
qed

lemma leading_Suc:
  "leading N n (Suc t) = 2 * leading N n t + (if Suc t \<le> n then N div 2 ^ (n - Suc t) mod 2 else 0)"
proof (cases "Suc t \<le> n")
  case True
  then have "n - t = Suc (n - Suc t)" by simp
  then have "leading N n t = N div 2 ^ (n - Suc t) div 2"
    using True by (simp add: leading_low div_mult2_eq mult.commute [of 2])
  with True show ?thesis by (simp add: leading_low)
next
  case False
  then have "Suc t - n = Suc (t - n)" by simp
  with False show ?thesis by (simp add: leading_high)
qed

definition div_inv :: "nbig \<Rightarrow> nbig \<Rightarrow> nat \<Rightarrow> nbig \<Rightarrow> u64 \<Rightarrow> nat \<Rightarrow> bool" where
  "div_inv N D t rem q got \<longleftrightarrow>
     limbs_val rem = leading (limbs_val N) (nb_bitlen N) t mod limbs_val D \<and>
     unat q = leading (limbs_val N) (nb_bitlen N) t div limbs_val D \<and>
     trimmed rem \<and> got = word_bits q \<and> got \<le> 56"

lemma bit_place: "trimmed N \<Longrightarrow> i < nb_bitlen N \<Longrightarrow> i < 32 * length N"
proof -
  assume a: "trimmed N" "i < nb_bitlen N"
  have "2 ^ (nb_bitlen N - 1) \<le> limbs_val N" using nb_bitlen_val [OF a(1)] a(2) by (simp add: has_bits_def)
  also have "limbs_val N < 4294967296 ^ length N" by (rule limbs_val_less)
  also have "(4294967296 :: nat) ^ length N = 2 ^ (32 * length N)"
    using power_mult [of "2 :: nat" 32 "length N"] by simp
  finally have "nb_bitlen N - 1 < 32 * length N" by (simp add: power_less_imp_less_exp)
  with a(2) show ?thesis by simp
qed

lemma quot_shift:
  fixes q :: u64
  assumes "unat q < 36028797018963968"
  shows "unat (push_bit 1 q) = 2 * unat q" "unat (push_bit 1 q OR 1) = 2 * unat q + 1"
proof -
  show p: "unat (push_bit 1 q) = 2 * unat q" using assms u64_push [of q 1] by simp
  have "unat (push_bit 1 q OR 1) = push_bit 1 (unat q) OR 1"
    by (simp only: unsigned_or_eq p unsigned_1) (simp add: push_bit_eq_mult mult.commute)
  also have "\<dots> = 2 * unat q + 1" using or_add [of 1 1 "unat q"] by simp
  finally show "unat (push_bit 1 q OR 1) = 2 * unat q + 1" .
qed

lemma div_step:
  assumes inv: "div_inv N D t rem q got" "got < 56"
    and N: "trimmed N" and D: "D \<noteq> []" "0 < limbs_val D" "length D < NBIG"
    and r1: "r1 = rem_push rem (if int (nb_bitlen N) - 1 - int t \<ge> 0 then nb_bit N (nat (int (nb_bitlen N) - 1 - int t)) else 0)"
    and q2: "q2 = (if nb_cmp r1 D \<ge> 0 then push_bit 1 q OR 1 else push_bit 1 q)"
  shows "div_inv N D (Suc t) (if nb_cmp r1 D \<ge> 0 then nb_sub r1 D else r1) q2
    (if q2 \<noteq> 0 then word_bits q2 else got)"
proof -
  let ?n = "nb_bitlen N" and ?N = "limbs_val N" and ?D = "limbs_val D"
  let ?M = "leading ?N ?n"
  define c where "c = (if Suc t \<le> ?n then ?N div 2 ^ (?n - Suc t) mod 2 else 0)"
  have i: "int ?n - 1 - int t \<ge> 0 \<longleftrightarrow> Suc t \<le> ?n" "nat (int ?n - 1 - int t) = ?n - Suc t" by auto
  have bit: "unat (if int ?n - 1 - int t \<ge> 0 then nb_bit N (nat (int ?n - 1 - int t)) else 0) = c"
    unfolding i c_def using nb_bit_val [OF bit_place [OF N]] by simp
  have c: "c < 2" by (simp add: c_def)
  have rem: "trimmed rem" "limbs_val rem = ?M t mod ?D" "unat q = ?M t div ?D" "got = word_bits q"
    using inv(1) by (simp_all add: div_inv_def)
  have len: "length rem < NBIG"
    using trimmed_length_le [OF rem(1) D(1)] rem(2) D(2,3) by simp
  have R: "limbs_val r1 = 2 * limbs_val rem + c" "trimmed r1"
    using rem_push_val [OF _ rem(1) len] bit c by (simp_all add: r1)
  have ne: "r1 \<noteq> []" using R(2) by (simp add: trimmed_def)
  have q: "unat q < 36028797018963968"
  proof -
    have "unat q < 2 ^ got" using word_bits_has [of q] by (simp add: has_bits_def rem(4))
    also have "(2 :: nat) ^ got \<le> 2 ^ 55" using inv(2) by (intro power_increasing) auto
    finally show ?thesis by simp
  qed
  have M: "?M (Suc t) = limbs_val r1 + ?D * (2 * unat q)"
    unfolding leading_Suc c_def [symmetric] R(1) rem(2,3)
    using double_div_mod [of "?M t" ?D] by linarith
  have bits: "(if q2 \<noteq> 0 then word_bits q2 else got) = word_bits q2 \<and> word_bits q2 \<le> 56"
    if u: "unat q2 = 2 * unat q + e" "e < 2" for e
  proof
    have "q2 = 0 \<Longrightarrow> q = 0" using u by (simp add: unat_eq_zero [symmetric])
    then show "(if q2 \<noteq> 0 then word_bits q2 else got) = word_bits q2" using rem(4) by auto
    show "word_bits q2 \<le> 56"
    proof (rule ccontr)
      assume more: "\<not> word_bits q2 \<le> 56"
      then have "(2 :: nat) ^ 56 \<le> 2 ^ (word_bits q2 - 1)" by (intro power_increasing) auto
      also have "\<dots> \<le> unat q2" using word_bits_has [of q2] more by (simp add: has_bits_def)
      finally show False using u q by simp
    qed
  qed
  show ?thesis
  proof (cases "?D \<le> limbs_val r1")
    case True
    then have ge: "(nb_cmp r1 D \<ge> 0) = True" using ne D(1) by (simp add: nb_cmp_val)
    have u: "unat q2 = 2 * unat q + 1" using quot_shift(2) [OF q] by (simp only: q2 ge if_True)
    have v: "limbs_val (nb_sub r1 D) = limbs_val r1 - ?D" using True by (simp add: nb_sub_val)
    have "limbs_val rem < ?D" using rem(2) D(2) by simp
    then have small: "limbs_val r1 - ?D < ?D" using R(1) c by linarith
    have "?M (Suc t) = (limbs_val r1 - ?D) + ?D * (2 * unat q + 1)" using True by (simp add: M)
    from div_mod_eqI [OF this small]
    have "?M (Suc t) div ?D = 2 * unat q + 1" "?M (Suc t) mod ?D = limbs_val r1 - ?D" by blast+
    moreover have "sub_loop r1 D 0 \<noteq> []" using ne by (cases r1) (simp_all add: Let_def)
    ultimately show ?thesis
      using u v bits [OF u] unfolding ge if_True div_inv_def by (simp add: nb_sub_def nb_trim_trimmed)
  next
    case False
    then have ge: "(nb_cmp r1 D \<ge> 0) = False" using ne D(1) by (simp add: nb_cmp_val)
    have u: "unat q2 = 2 * unat q + 0" using quot_shift(1) [OF q] by (simp only: q2 ge if_False add_0_right)
    have "?M (Suc t) div ?D = 2 * unat q" "?M (Suc t) mod ?D = limbs_val r1" using False by (simp_all add: M)
    then show ?thesis
      using u R(2) bits [OF u] unfolding ge if_False div_inv_def by simp
  qed
qed

lemma div_loop_val:
  assumes N: "trimmed N" "0 < limbs_val N" and D: "trimmed D" "0 < limbs_val D" "length D < NBIG"
  shows "div_inv N D t rem q got \<Longrightarrow> nb_bitlen N + nb_bitlen D + 64 - t = k \<Longrightarrow>
    \<exists>t' rem' q'. div_loop N D (int (nb_bitlen N) - 1 - int t) rem q got = (int (nb_bitlen N) - 1 - int t', rem', q') \<and>
      div_inv N D t' rem' q' 56"
proof (induction k arbitrary: t rem q got)
  case 0
  have "got = 56"
  proof (rule ccontr)
    assume "got \<noteq> 56"
    then have "got < 56" using 0(1) by (simp add: div_inv_def)
    have "2 ^ (nb_bitlen D + 64) \<le> leading (limbs_val N) (nb_bitlen N) t"
    proof -
      have "nb_bitlen N \<le> t" "nb_bitlen D + 64 \<le> t - nb_bitlen N" using 0(2) by simp_all
      then have "(2 :: nat) ^ (nb_bitlen D + 64) \<le> 2 ^ (t - nb_bitlen N)" by (intro power_increasing) auto
      also have "\<dots> \<le> limbs_val N * 2 ^ (t - nb_bitlen N)" using N(2) by simp
      finally show ?thesis using \<open>nb_bitlen N \<le> t\<close> by (simp add: leading_high)
    qed
    moreover have "limbs_val D * 2 ^ 64 \<le> 2 ^ (nb_bitlen D + 64)"
      using nb_bitlen_val [OF D(1)] unfolding power_add by (intro mult_le_mono1) (simp add: has_bits_def)
    ultimately have "limbs_val D * 2 ^ 64 \<le> leading (limbs_val N) (nb_bitlen N) t" by linarith
    then have "2 ^ 64 \<le> leading (limbs_val N) (nb_bitlen N) t div limbs_val D"
      using D(2) by (simp add: less_eq_div_iff_mult_less_eq mult.commute)
    then show False using 0(1) u64_less [of q] by (simp add: div_inv_def)
  qed
  then have "div_loop N D (int (nb_bitlen N) - 1 - int t) rem q got = (int (nb_bitlen N) - 1 - int t, rem, q)"
    by (simp add: div_loop.simps)
  with 0(1) \<open>got = 56\<close> show ?case by blast
next
  case (Suc k)
  show ?case
  proof (cases "got < 56")
    case False
    then have "got = 56" using Suc.prems(1) by (simp add: div_inv_def)
    then have "div_loop N D (int (nb_bitlen N) - 1 - int t) rem q got = (int (nb_bitlen N) - 1 - int t, rem, q)"
      by (simp add: div_loop.simps)
    with Suc.prems(1) \<open>got = 56\<close> show ?thesis by blast
  next
    case True
    define i where "i = int (nb_bitlen N) - 1 - int t"
    define r1 where "r1 = rem_push rem (if i \<ge> 0 then nb_bit N (nat i) else 0)"
    define q2 where "q2 = (if nb_cmp r1 D \<ge> 0 then push_bit 1 q OR 1 else push_bit 1 q)"
    have go: "i \<ge> - (int (nb_bitlen D) + 64)" using Suc.prems(2) by (simp add: i_def)
    have step: "div_loop N D i rem q got =
        div_loop N D (i - 1) (if nb_cmp r1 D \<ge> 0 then nb_sub r1 D else r1) q2 (if q2 \<noteq> 0 then word_bits q2 else got)"
      using True go by (subst div_loop.simps) (simp only: Let_def r1_def q2_def if_True simp_thms)
    have next_i: "i - 1 = int (nb_bitlen N) - 1 - int (Suc t)" by (simp add: i_def)
    have Dne: "D \<noteq> []" using D(1) by (simp add: trimmed_def)
    have inv: "div_inv N D (Suc t) (if nb_cmp r1 D \<ge> 0 then nb_sub r1 D else r1) q2 (if q2 \<noteq> 0 then word_bits q2 else got)"
      by (rule div_step [OF Suc.prems(1) True N(1) Dne D(2,3) r1_def [unfolded i_def] q2_def])
    have "nb_bitlen N + nb_bitlen D + 64 - Suc t = k" using Suc.prems(2) by simp
    from Suc.IH [OF inv this] show ?thesis
      unfolding i_def [symmetric] step next_i .
  qed
qed

lemma low_bits_val: "low_bits N k \<longleftrightarrow> limbs_val N mod 2 ^ k \<noteq> 0"
proof -
  have bits: "(x :: u32) \<noteq> 0 \<longleftrightarrow> (\<exists>j<32. bit x j)" for x
  proof
    assume "x \<noteq> 0"
    then obtain j where "bit x j" by (auto simp: bit_eq_iff)
    with bit_imp_le_length [OF this] show "\<exists>j<32. bit x j" by auto
  qed auto
  have mask: "bit (if li * 32 + 32 \<le> k then - 1 else push_bit (k - li * 32) 1 - 1 :: u32) j \<longleftrightarrow> li * 32 + j < k"
    if "j < 32" "li * 32 < k" for li j
  proof (cases "li * 32 + 32 \<le> k")
    case False
    then have "push_bit (k - li * 32) 1 - 1 = (mask (k - li * 32) :: u32)"
      by (simp add: mask_eq_exp_minus_1)
    with False that show ?thesis by (auto simp: bit_mask_iff)
  qed (use that in auto)
  have "low_bits N k \<longleftrightarrow> (\<exists>li<length N. \<exists>j<32. li * 32 + j < k \<and> bit (N ! li) j)"
  proof -
    have "(li * 32 < k \<and> N ! li AND (if li * 32 + 32 \<le> k then - 1 else push_bit (k - li * 32) 1 - 1) \<noteq> 0) \<longleftrightarrow>
        (\<exists>j<32. li * 32 + j < k \<and> bit (N ! li) j)" for li
      unfolding bits using mask [of _ li] by (auto simp: bit_and_iff)
    then show ?thesis by (simp add: low_bits_def list_ex_iff Bex_def)
  qed
  also have "\<dots> \<longleftrightarrow> (\<exists>i<k. bit (limbs_val N) i)"
  proof
    assume "\<exists>li<length N. \<exists>j<32. li * 32 + j < k \<and> bit (N ! li) j"
    then obtain li j where "li < length N" "j < 32" "li * 32 + j < k" "bit (N ! li) j" by blast
    then show "\<exists>i<k. bit (limbs_val N) i" by (intro exI [of _ "li * 32 + j"]) (simp add: bit_limbs_val)
  next
    assume "\<exists>i<k. bit (limbs_val N) i"
    then obtain i where i: "i < k" "bit (limbs_val N) i" by blast
    then show "\<exists>li<length N. \<exists>j<32. li * 32 + j < k \<and> bit (N ! li) j"
      by (intro exI [of _ "i div 32"]) (auto simp: bit_limbs_val intro!: exI [of _ "i mod 32"])
  qed
  also have "\<dots> \<longleftrightarrow> take_bit k (limbs_val N) \<noteq> 0"
    by (auto simp: bit_eq_iff bit_take_bit_iff)
  finally show ?thesis by (simp only: take_bit_eq_mod)
qed

lemma div_rest:
  assumes "0 < D"
  shows "N * 2 ^ t mod (2 ^ n * D) \<noteq> 0 \<longleftrightarrow>
    leading N n t mod D \<noteq> 0 \<or> (t < n \<and> N mod 2 ^ (n - t) \<noteq> (0 :: nat))"
proof -
  have "N * 2 ^ t mod (2 ^ n * D) = 2 ^ n * (leading N n t mod D) + N * 2 ^ t mod 2 ^ n"
    by (simp add: mod_mult2_eq leading_def)
  moreover have "N * 2 ^ t mod 2 ^ n \<noteq> 0 \<longleftrightarrow> t < n \<and> N mod 2 ^ (n - t) \<noteq> 0"
  proof (cases "t < n")
    case True
    then have "(2 :: nat) ^ n = 2 ^ (n - t) * 2 ^ t" by (simp flip: power_add)
    with True show ?thesis by (simp add: mult_mod_left [symmetric])
  next
    case False
    then have "(2 :: nat) ^ t = 2 ^ (t - n) * 2 ^ n" by (simp flip: power_add)
    with False show ?thesis by simp
  qed
  ultimately show ?thesis by auto
qed

text \<open>The place where the code does not round to nearest: just above half of the least double.\<close>

definition half_gap :: "real \<Rightarrow> bool" where
  "half_gap x \<longleftrightarrow> 2 powi (- 1075) < x \<and> x < 2 powi (- 1075) * (1 + 2 powi (- 55))"

lemma sh_round_div_run:
  assumes N: "trimmed N" "0 < limbs_val N" and D: "trimmed D" "0 < limbs_val D" "length D < NBIG"
    and x: "x = real (limbs_val N) / real (limbs_val D) * 2 powi s"
  shows "\<exists>q th sticky e2. sh_round_div N D s neg = sh_round_64 q sticky 56 e2 neg \<and> has_bits (unat q) 56 \<and>
    0 \<le> th \<and> th < 1 \<and> (sticky \<longleftrightarrow> 0 < th) \<and> x = (real (unat q) + th) * 2 powi (e2 - int 56)"
proof -
  let ?n = "nb_bitlen N" and ?N = "limbs_val N" and ?D = "limbs_val D"
  have n: "0 < ?n" using nb_bitlen_val [OF N(1)] N(2) by (intro gr0I) (simp add: has_bits_def)
  have start: "div_inv N D 0 nb_init 0 0"
  proof -
    have "leading ?N ?n 0 = 0"
      using nb_bitlen_val [OF N(1)] by (simp add: leading_low has_bits_def)
    then show ?thesis by (simp add: div_inv_def nb_init_val word_bits.simps [of 0])
  qed
  obtain t rem q where l: "div_loop N D (int ?n - 1) nb_init 0 0 = (int ?n - 1 - int t, rem, q)"
      and inv: "div_inv N D t rem q 56"
    using div_loop_val [OF N D start] by auto
  have q: "has_bits (unat q) 56" "word_bits q = 56" using inv word_bits_has [of q] by (simp_all add: div_inv_def)
  have q0: "q \<noteq> 0" using q(1) by (auto simp: has_bits_def)
  have rem: "limbs_val rem = leading ?N ?n t mod ?D" "unat q = leading ?N ?n t div ?D"
    using inv by (simp_all add: div_inv_def)
  define sticky where "sticky = (\<not> nb_is_zero rem \<or> (int t < int ?n \<and> low_bits N (nat (int ?n - int t))))"
  define e2 where "e2 = int 56 + int ?n - int t + s"
  have run: "sh_round_div N D s neg = sh_round_64 q sticky 56 e2 neg"
    using n q0 by (simp add: sh_round_div_def Let_def l q(2) sticky_def e2_def)
  define r where "r = ?N * 2 ^ t mod (2 ^ ?n * ?D)"
  define th where "th = real r / real (2 ^ ?n * ?D)"
  have P: "0 < 2 ^ ?n * ?D" using D(2) by simp
  have r: "r < 2 ^ ?n * ?D" using P by (simp add: r_def)
  have th: "0 \<le> th" "th < 1" "0 < th \<longleftrightarrow> r \<noteq> 0"
  proof -
    show "0 \<le> th" by (simp add: th_def)
    have "real r < real (2 ^ ?n * ?D)" using r by (simp only: of_nat_less_iff)
    then show "th < 1" using P by (simp add: th_def del: of_nat_mult of_nat_power)
    show "0 < th \<longleftrightarrow> r \<noteq> 0" using P by (simp add: th_def zero_less_divide_iff del: of_nat_mult of_nat_power)
  qed
  have sticky: "sticky \<longleftrightarrow> 0 < th"
  proof -
    have "nat (int ?n - int t) = ?n - t" by simp
    then show ?thesis
      unfolding th(3) r_def div_rest [OF D(2)] sticky_def by (simp add: nb_is_zero_val low_bits_val rem)
  qed
  have "unat q = ?N * 2 ^ t div (2 ^ ?n * ?D)" unfolding rem(2) leading_def by (simp add: div_mult2_eq)
  then have "?N * 2 ^ t = unat q * (2 ^ ?n * ?D) + r" by (simp only: r_def div_mult_mod_eq)
  then have "real ?N * 2 ^ t = real (unat q) * real (2 ^ ?n * ?D) + real r"
    by (metis of_nat_add of_nat_mult of_nat_numeral of_nat_power)
  then have "(real (unat q) + th) * real (2 ^ ?n * ?D) = real ?N * 2 ^ t"
    using P by (simp add: th_def distrib_right del: of_nat_mult of_nat_power)
  then have "real (unat q) + th = real ?N * 2 ^ t / (2 ^ ?n * real ?D)"
    using P by (simp add: field_simps)
  moreover have "(2 :: real) ^ t / 2 ^ ?n * 2 powi (e2 - 56) = 2 powi s"
  proof -
    have "(2 :: real) ^ t * 2 powi (e2 - 56) = 2 powi s * 2 ^ ?n"
      unfolding power_int_of_nat [symmetric] powi_split [symmetric] by (simp add: e2_def add.commute)
    then show ?thesis by (simp add: field_simps)
  qed
  ultimately have xq: "x = (real (unat q) + th) * 2 powi (e2 - int 56)"
    unfolding x by (simp add: field_simps)
  show ?thesis
    by (rule exI [of _ q], rule exI [of _ th], rule exI [of _ sticky], rule exI [of _ e2])
      (use run q(1) th(1,2) sticky xq in blast)
qed

lemma half_pow: "(2 :: real) powi (- 1075) = 36028797018963968 * 2 powi (- 1130)"
  using powi_split [of 55 "- 1130"] by (simp only: power_int_numeral) simp

lemma gap_place:
  assumes "has_bits n 56" "0 \<le> th" "th < 1" "x = (real n + th) * 2 powi (e2 - int 56)"
  shows "half_gap x \<longleftrightarrow> e2 = - 1074 \<and> 0 < th \<and> n = 36028797018963968"
proof
  assume "e2 = - 1074 \<and> 0 < th \<and> n = 36028797018963968"
  then have x: "x = (36028797018963968 + th) * 2 powi (- 1130)" "0 < th" using assms(4) by simp_all
  have "36028797018963968 * 2 powi - 1130 < (36028797018963968 + th) * (2 :: real) powi - 1130"
    using x(2) by (intro mult_strict_right_mono) simp_all
  moreover have "(36028797018963968 + th) * (2 :: real) powi - 1130 < 36028797018963969 * 2 powi - 1130"
    using assms(3) by (intro mult_strict_right_mono) simp_all
  moreover have "36028797018963969 * (2 :: real) powi - 1130 = 36028797018963968 * 2 powi - 1130 * (1 + 2 powi - 55)"
    by (simp only: power_int_minus power_int_numeral) (simp add: field_simps)
  ultimately show "half_gap x" by (simp only: half_gap_def half_pow x)
next
  assume gap: "half_gap x"
  note u = ulp_exp_val [OF assms(1) _ assms(2-4)]
  have up: "x < 2 powi (- 1074)"
  proof -
    have "(2 :: real) powi (- 1075) * (1 + 2 powi (- 55)) \<le> 2 powi (- 1075) * 2"
      by (intro mult_left_mono) (simp_all only: power_int_minus, simp_all)
    also have "\<dots> = 2 powi (- 1074)" using powi_split [of "- 1075" 1] by (simp only: power_int_1_right) simp
    finally show ?thesis using gap by (simp only: half_gap_def) linarith
  qed
  have e2: "e2 = - 1074"
  proof (rule antisym)
    show "e2 \<le> - 1074"
    proof (rule ccontr)
      assume "\<not> e2 \<le> - 1074"
      then have "(2 :: real) powi (- 1074) \<le> 2 powi (e2 - 1)" by (intro power_int_increasing) auto
      with u(3) up show False by simp
    qed
    show "- 1074 \<le> e2"
    proof (rule ccontr)
      assume "\<not> - 1074 \<le> e2"
      then have "(2 :: real) powi e2 \<le> 2 powi (- 1075)" by (intro power_int_increasing) auto
      with u(4) gap show False by (simp only: half_gap_def) linarith
    qed
  qed
  have x: "x = (real n + th) * 2 powi (- 1130)" using assms(4) by (simp only: e2) simp
  have "36028797018963969 * (2 :: real) powi - 1130 = 36028797018963968 * 2 powi - 1130 * (1 + 2 powi - 55)"
    by (simp only: power_int_minus power_int_numeral) (simp add: field_simps)
  with gap have "36028797018963968 * 2 powi - 1130 < (real n + th) * (2 :: real) powi - 1130"
      "(real n + th) * (2 :: real) powi - 1130 < 36028797018963969 * 2 powi - 1130"
    by (simp_all only: half_gap_def half_pow x)
  then have b: "36028797018963968 < real n + th" "real n + th < 36028797018963969"
    by (simp_all only: mult_less_cancel_right_pos zero_less_power_int zero_less_numeral)
  then have "real n < real 36028797018963969" "real 36028797018963967 < real n" using assms(2,3) by simp_all
  then have "n = 36028797018963968" by (simp only: of_nat_less_iff)
  with b e2 show "e2 = - 1074 \<and> 0 < th \<and> n = 36028797018963968" by simp
qed

lemma sh_round_div_correct:
  assumes N: "trimmed N" "0 < limbs_val N" and D: "trimmed D" "0 < limbs_val D" "length D < NBIG"
    and x: "x = real (limbs_val N) / real (limbs_val D) * 2 powi s"
  shows "sh_round_div N D s neg = signed_bits neg (if half_gap x then 0 else of_nat (round_bits x))"
proof -
  obtain q th sticky e2 where r: "sh_round_div N D s neg = sh_round_64 q sticky 56 e2 neg" "has_bits (unat q) 56"
      "0 \<le> th" "th < 1" "sticky \<longleftrightarrow> 0 < th" "x = (real (unat q) + th) * 2 powi (e2 - int 56)"
    using sh_round_div_run [OF assms] by blast
  note gap = gap_place [OF r(2-4,6)]
  show ?thesis
  proof (cases "half_gap x")
    case True
    then have g: "e2 = - 1074" "unat q = 36028797018963968" using gap by simp_all
    have "unat (push_bit (56 - 1) 1 :: u64) = 36028797018963968" by (subst u64_push) simp_all
    then have "\<not> push_bit (56 - 1) 1 < q" by (simp only: word_less_nat_alt g(2))
    with True g r(1) show ?thesis by (simp add: sh_round_64_def)
  next
    case False
    then have "\<not> (e2 = - 1074 \<and> sticky \<and> unat q = 2 ^ (56 - 1))" using gap r(5) by simp
    with False r show ?thesis by (simp add: sh_round_64_correct [of q 56 th])
  qed
qed

end
