(* ===== verification/Boot_Decimal.thy ===== *)
theory Boot_Decimal
  imports Boot_Strtod "HOL-Library.Log_Nat"
begin

text \<open>
  \<open>printf\<close> of doubles in the freestanding libc (\<open>scripts/crossboot/stub.c\<close>, \<open>d2_digits\<close> to
  \<open>zan_fmt_double\<close>): the double is scaled by a power of ten and rounded half to even in exact
  bignum arithmetic, its decimal exponent is found by comparing with powers of ten, and the digits
  are laid out in the styles e, f and g. The cache of powers of five is passed along.
\<close>

section \<open>Digits\<close>

text \<open>The digits of \<open>t\<close>, the last first, by repeated division by ten.\<close>

function d2_loop :: "nbig \<Rightarrow> cstr" where
  "d2_loop t =
     (if nb_is_zero t then []
      else case nb_divmod_small t 10 of (t', r) \<Rightarrow> (ch_0 + ucast r) # d2_loop t')"
  by pat_completeness auto
termination
proof (relation "measure limbs_val")
  fix t t' r assume a: "\<not> nb_is_zero t" "(t', r) = nb_divmod_small t 10"
  then have "limbs_val t \<noteq> 0" "t \<noteq> []" by (auto simp: nb_is_zero_val)
  then show "(t', t) \<in> measure limbs_val"
    using nb_divmod_small_val(1) [of 10 t t' r] a(2) by simp
qed simp

declare d2_loop.simps [simp del]

definition d2_digits :: "nbig \<Rightarrow> cstr" where
  "d2_digits q = (if nb_is_zero q then [ch_0] else rev (d2_loop q))"

section \<open>Comparing with a power of ten\<close>

text \<open>Whether \<open>mant * 2^e2\<close> is at least \<open>10^X\<close>.\<close>

definition d2_ge_pow10 :: "p5 \<Rightarrow> u64 \<Rightarrow> int \<Rightarrow> int \<Rightarrow> bool \<times> p5" where
  "d2_ge_pow10 st mant e2 X =
     (let d = e2 - X
      in if X > 0 then
           (case pow5 X st of (R, st1) \<Rightarrow>
              if d \<ge> 0 then (nb_cmp (nb_shl (nb_set_u64 mant) d) R \<ge> 0, st1)
              else (nb_cmp (nb_set_u64 mant) (nb_shl R (- d)) \<ge> 0, st1))
         else if d \<ge> 0 then (True, st)
         else
           (case pow5 (- X) st of (R, st1) \<Rightarrow>
              (nb_cmp (nb_mul_big (nb_set_u64 mant) R) (nb_shl (nb_set_u64 1) (- d)) \<ge> 0, st1)))"

section \<open>Scaling and rounding\<close>

text \<open>The loops of \<open>d2_round_pow10\<close> that add the remainder and double the sum in place.\<close>

fun add_loop :: "nbig \<Rightarrow> nbig \<Rightarrow> u64 \<Rightarrow> nbig \<times> u64" where
  "add_loop [] [] c = ([], c)"
| "add_loop (x # xs) [] c =
     (let v = c + ucast x in case add_loop xs [] (drop_bit 32 v) of (zs, c') \<Rightarrow> (ucast v # zs, c'))"
| "add_loop [] (y # ys) c =
     (let v = c + ucast y in case add_loop [] ys (drop_bit 32 v) of (zs, c') \<Rightarrow> (ucast v # zs, c'))"
| "add_loop (x # xs) (y # ys) c =
     (let v = c + ucast x + ucast y
      in case add_loop xs ys (drop_bit 32 v) of (zs, c') \<Rightarrow> (ucast v # zs, c'))"

fun dbl_loop :: "nbig \<Rightarrow> u64 \<Rightarrow> nbig \<times> u64" where
  "dbl_loop [] c = ([], c)"
| "dbl_loop (x # xs) c =
     (let v = push_bit 1 (ucast x) OR c
      in case dbl_loop xs (drop_bit 32 v) of (zs, c') \<Rightarrow> (ucast v # zs, c'))"

definition put_carry :: "nbig \<times> u64 \<Rightarrow> nbig" where
  "put_carry p = (case p of (zs, c) \<Rightarrow> if c \<noteq> 0 \<and> length zs < NBIG then zs @ [ucast c] else zs)"

text \<open>The low \<open>b\<close> bits of \<open>q\<close>.\<close>

definition low_part :: "nbig \<Rightarrow> nat \<Rightarrow> nbig" where
  "low_part q b =
     (let nl = (b + 31) div 32; l = take nl q
      in nb_trim (if length l = nl \<and> b mod 32 \<noteq> 0
                  then l[nl - 1 := l ! (nl - 1) AND (push_bit (b mod 32) 1 - 1)] else l))"

text \<open>
  Round up when the part cut off, against a whole of which it is the fraction, is more than a half
  (\<open>c > 0\<close>), or a half and the number is odd. \<open>up\<close> is the memory above the number.
\<close>

definition half_even :: "int \<Rightarrow> nbig \<Rightarrow> nbig \<Rightarrow> nbig option" where
  "half_even c up q = (if c > 0 \<or> (c = 0 \<and> q ! 0 AND 1 \<noteq> 0) then nb_inc up q else Some q)"

text \<open>
  \<open>d2_round_pow10\<close>: \<open>mant * 2^e2 * 10^s\<close> rounded half to even. \<^const>\<open>None\<close> is an increment that
  leaves the array. The memory above a quotient and above a shifted number is zero up to the length
  that it had before it was trimmed.
\<close>

definition d2_scale :: "p5 \<Rightarrow> nbig \<Rightarrow> int \<Rightarrow> nbig \<times> p5" where
  "d2_scale st q a =
     (if a > 0 then (case pow5 a st of (den, st1) \<Rightarrow> (nb_mul_big q den, st1)) else (q, st))"

definition d2_round_up :: "p5 \<Rightarrow> nbig \<Rightarrow> int \<Rightarrow> int \<Rightarrow> (nbig \<times> p5) option" where
  "d2_round_up st q bexp s =
     (let q1 = (if bexp > 0 then nb_shl q bexp else q)
      in if s \<ge> 0 then Some (d2_scale st q1 s)
         else (case pow5 (- s) st of (den, st1) \<Rightarrow>
           case nb_divmod True q1 den of (q2, rem) \<Rightarrow>
             map_option (\<lambda>r. (r, st1))
               (half_even (nb_cmp (nb_shl rem 1) den)
                 (replicate ((nb_bitlen q1 + 31) div 32 - length q2) 0) q2)))"

definition d2_round_down :: "p5 \<Rightarrow> nbig \<Rightarrow> nat \<Rightarrow> int \<Rightarrow> (nbig \<times> p5) option" where
  "d2_round_down st q b s =
     (let (q1, rem, st1) =
            (if s \<ge> 0 then (case d2_scale st q s of (q1, st1) \<Rightarrow> (q1, nb_init, st1))
             else (case pow5 (- s) st of (den, st1) \<Rightarrow>
               case nb_divmod True q den of (q1, rem) \<Rightarrow> (q1, rem, st1)));
          low = low_part q1 b;
          q2 = fst (nb_shr_sticky q1 (int b))
      in if s = 0 \<and> b = 0 then Some (q2, st1)
         else
           let (lhs, rhs, st2) =
                 (if s \<noteq> 0 then (case pow5 \<bar>s\<bar> st1 of (den, st2) \<Rightarrow> (nb_mul_big low den, den, st2))
                  else (low, nb_set_u64 1, st1));
               lhs1 = (if s < 0 \<and> \<not> nb_is_zero rem then put_carry (add_loop lhs rem 0) else lhs);
               lhs2 = put_carry (dbl_loop lhs1 0)
           in map_option (\<lambda>r. (r, st2))
                (half_even (nb_cmp lhs2 (nb_shl rhs (int b))) (drop (length q2) (shr_limbs q1 b)) q2))"

definition d2_round_pow10 :: "p5 \<Rightarrow> u64 \<Rightarrow> int \<Rightarrow> int \<Rightarrow> (nbig \<times> p5) option" where
  "d2_round_pow10 st mant e2 s =
     (if e2 + s \<ge> 0 then d2_round_up st (nb_set_u64 mant) (e2 + s) s
      else d2_round_down st (nb_set_u64 mant) (nat (- (e2 + s))) s)"

section \<open>The decimal exponent\<close>

text \<open>
  The first guess is the product of the length in bits and the double \<open>0.30102999566398119521\<close>,
  whose significand is \<open>5422874305198079\<close> over \<open>2^54\<close>: the product is rounded to 53 digits, and
  truncated. Two loops then move it to the exponent of the leading digit.
\<close>

definition round53 :: "int \<Rightarrow> int" where
  "round53 p =
     (let k = nat (bitlen p - 53); r = p mod 2 ^ k; q = p div 2 ^ k
      in (if 2 * r > 2 ^ k \<or> (2 * r = 2 ^ k \<and> odd q) then q + 1 else q) * 2 ^ k)"

definition exp_guess :: "int \<Rightarrow> int" where
  "exp_guess bl = sgn bl * (round53 (\<bar>bl\<bar> * 5422874305198079) div 2 ^ 54)"

function exp_down :: "p5 \<Rightarrow> u64 \<Rightarrow> int \<Rightarrow> int \<Rightarrow> int \<times> p5" where
  "exp_down st mant e2 X =
     (if X > - 400 then
        (case d2_ge_pow10 st mant e2 X of (ge, st1) \<Rightarrow>
           if ge then (X, st1) else exp_down st1 mant e2 (X - 1))
      else (X, st))"
  by pat_completeness auto
termination by (relation "measure (\<lambda>(st, mant, e2, X). nat (X + 400))") auto

function exp_up :: "p5 \<Rightarrow> u64 \<Rightarrow> int \<Rightarrow> int \<Rightarrow> int \<times> p5" where
  "exp_up st mant e2 X =
     (if X < 400 then
        (case d2_ge_pow10 st mant e2 (X + 1) of (ge, st1) \<Rightarrow>
           if ge then exp_up st1 mant e2 (X + 1) else (X, st1))
      else (X, st))"
  by pat_completeness auto
termination by (relation "measure (\<lambda>(st, mant, e2, X). nat (400 - X))") auto

declare exp_down.simps [simp del] exp_up.simps [simp del]

definition find_exp :: "p5 \<Rightarrow> u64 \<Rightarrow> int \<Rightarrow> int \<times> p5" where
  "find_exp st mant e2 =
     (case exp_down st mant e2 (exp_guess (e2 + int (word_bits mant))) of (X, st1) \<Rightarrow> exp_up st1 mant e2 X)"

section \<open>The three styles\<close>

abbreviation (input) ch_dot :: u8 where "ch_dot \<equiv> 46"

definition zeros_txt :: "int \<Rightarrow> cstr" where
  "zeros_txt n = replicate (nat n) ch_0"

text \<open>Style f: the digits of the scaled number, with the point put in front of the last \<open>prec\<close>.\<close>

definition fmt_fixed :: "cstr \<Rightarrow> int \<Rightarrow> cstr" where
  "fmt_fixed dig prec =
     (let nd = int (length dig)
      in if nd \<le> prec then
           [ch_0] @ (if prec > 0 then [ch_dot] @ zeros_txt (prec - nd) @ dig else [])
         else take (nat (nd - prec)) dig @ (if prec > 0 then [ch_dot] @ drop (nat (nd - prec)) dig else []))"

text \<open>The exponent: a sign and two or three digits.\<close>

definition fmt_exp :: "bool \<Rightarrow> int \<Rightarrow> cstr" where
  "fmt_exp upper xe =
     (let e = nat \<bar>xe\<bar>; dg = (\<lambda>n. ch_0 + of_nat n)
      in [if upper then 69 else 101, if xe < 0 then ch_minus else ch_plus] @
         (if e div 100 > 0 then [dg (e div 100)] else []) @ [dg (e div 10 mod 10), dg (e mod 10)])"

text \<open>Style e: one digit before the point, and the rest up to \<open>ecap\<close> digits after it.\<close>

definition fmt_sci :: "bool \<Rightarrow> cstr \<Rightarrow> nat \<Rightarrow> int \<Rightarrow> cstr" where
  "fmt_sci upper dig ecap X =
     [hd dig] @ (if ecap > 1 then [ch_dot] @ take (ecap - 1) (tl dig) else []) @ fmt_exp upper X"

text \<open>Style g in fixed notation, for a number of exponent \<open>X\<close>.\<close>

definition fmt_plain :: "cstr \<Rightarrow> int \<Rightarrow> cstr" where
  "fmt_plain dig X =
     (let nd = int (length dig)
      in if X \<ge> 0 then
           take (nat (X + 1)) dig @ zeros_txt (X + 1 - nd) @
           (if X + 1 < nd then [ch_dot] @ drop (nat (X + 1)) dig else [])
         else [ch_0, ch_dot] @ zeros_txt (- X - 1) @ dig)"

text \<open>Trailing zeros, of which the first digit is kept.\<close>

definition strip_zeros :: "cstr \<Rightarrow> cstr" where
  "strip_zeros dig = hd dig # rev (dropWhile (\<lambda>c. c = ch_0) (rev (tl dig)))"

definition is_g :: "u8 \<Rightarrow> bool" where "is_g c \<longleftrightarrow> c = 103 \<or> c = 71"
definition is_e :: "u8 \<Rightarrow> bool" where "is_e c \<longleftrightarrow> c = 101 \<or> c = 69"
definition is_f :: "u8 \<Rightarrow> bool" where "is_f c \<longleftrightarrow> c = 102 \<or> c = 70"

definition fmt_zero :: "int \<Rightarrow> u8 \<Rightarrow> cstr" where
  "fmt_zero prec style =
     (if is_g style then [ch_0]
      else if is_e style then
        [ch_0, ch_dot] @ zeros_txt prec @ [if style = 69 then 69 else 101, ch_plus, ch_0, ch_0]
      else [ch_0] @ (if prec > 0 then [ch_dot] @ zeros_txt prec else []))"

text \<open>The text of a nonzero finite double, \<open>mant * 2^e2\<close>.\<close>

definition fmt_nonzero :: "p5 \<Rightarrow> u64 \<Rightarrow> int \<Rightarrow> int \<Rightarrow> u8 \<Rightarrow> (cstr \<times> p5) option" where
  "fmt_nonzero st mant e2 prec style =
     (case find_exp st mant e2 of (X0, st1) \<Rightarrow>
        if is_f style then
          map_option (\<lambda>(q, st2). (fmt_fixed (d2_digits q) prec, st2)) (d2_round_pow10 st1 mant e2 prec)
        else
          let sig = (if is_e style then prec + 1 else prec)
          in map_option
               (\<lambda>(q, st2).
                  let dig = d2_digits q;
                      X = (if int (length dig) = sig + 1 then X0 + 1 else X0);
                      dig' = (if is_g style then strip_zeros dig else dig)
                  in (if \<not> is_g style \<or> X < - 4 \<or> X \<ge> sig
                      then fmt_sci (style = 69 \<or> style = 71) dig' (if is_e style then nat sig else length dig') X
                      else fmt_plain dig' X, st2))
               (d2_round_pow10 st1 mant e2 (sig - 1 - X0)))"

text \<open>
  \<open>zan_fmt_double\<close> on the bits of a double. \<^const>\<open>None\<close> stands for an access outside an array, which
  does not happen. The text is without its terminator; the code returns its length.
\<close>

definition zan_fmt_double :: "p5 \<Rightarrow> u64 \<Rightarrow> int \<Rightarrow> u8 \<Rightarrow> (cstr \<times> p5) option" where
  "zan_fmt_double st v prec0 style =
     (let sign = (if drop_bit 63 v \<noteq> 0 then [ch_minus] else []);
          be = unat (drop_bit 52 v AND 2047);
          fr = v AND (push_bit 52 1 - 1);
          prec = (if prec0 < 0 then 6 else if prec0 > 1080 then 1080 else prec0)
      in if be = 2047 then
           Some (sign @ (if fr \<noteq> 0 then [110, 97, 110] else [105, 110, 102]), st)
         else
           let mant = (if be = 0 then fr else fr OR push_bit 52 1);
               e2 = (if be = 0 then - 1074 else int be - 1075)
           in if mant = 0 then Some (sign @ fmt_zero prec style, st)
              else map_option (\<lambda>(t, st1). (sign @ t, st1))
                     (fmt_nonzero st mant e2 (if is_g style \<and> prec = 0 then 1 else prec) style))"

section \<open>Digits of a number\<close>

lemma small_digit: "n < 10 \<Longrightarrow> ch_0 + ucast (r :: u32) = ch_0 + (of_nat n :: u8)" if "unat r = n"
  by (simp flip: that)

lemma d2_loop_val: "trimmed t \<Longrightarrow> 0 < limbs_val t \<Longrightarrow> rev (d2_loop t) = dec_nat (limbs_val t)"
proof (induction t rule: d2_loop.induct)
  case (1 t)
  obtain t' r where d: "nb_divmod_small t 10 = (t', r)" by fastforce
  have ne: "t \<noteq> []" using 1(2) by (simp add: trimmed_def)
  note v = nb_divmod_small_val [OF _ ne d, simplified]
  have nz: "\<not> nb_is_zero t" using 1(3) by (simp add: nb_is_zero_val)
  have step: "rev (d2_loop t) = rev (d2_loop t') @ [ch_0 + of_nat (limbs_val t mod 10)]"
    using nz small_digit [OF v(2)] by (simp add: d2_loop.simps [of t] d)
  show ?case
  proof (cases "limbs_val t < 10")
    case True
    then have "limbs_val t' = 0" by (simp add: v(1))
    then show ?thesis using True step by (simp add: d2_loop.simps [of t'] nb_is_zero_val dec_nat.simps [of "limbs_val t"])
  next
    case False
    then have "0 < limbs_val t'" by (simp add: v(1) div_greater_zero_iff)
    with 1(1) [OF nz d [symmetric]] v(4) have "rev (d2_loop t') = dec_nat (limbs_val t div 10)" by (simp add: v(1))
    then show ?thesis using False step by (simp add: dec_nat.simps [of "limbs_val t"])
  qed
qed

lemma d2_digits_val: "trimmed q \<Longrightarrow> d2_digits q = dec_nat (limbs_val q)"
  using d2_loop_val [of q] by (auto simp: d2_digits_def nb_is_zero_val dec_nat.simps [of 0])

section \<open>Powers of two and ten\<close>

lemma nb_shl_trimmed: "trimmed a \<Longrightarrow> trimmed (nb_shl a sh)"
proof -
  assume a: "trimmed a"
  have "trimmed (nb_trim (map f [0..<min (length a + n + 1) NBIG]))" for f n
    by (rule nb_trim_trimmed) (use a in \<open>auto simp: NBIG_def trimmed_def\<close>)
  then show ?thesis using a by (simp add: nb_shl_def Let_def)
qed

text \<open>The sizes that occur: a shift by at most 2600 bits of a number of at most 112 limbs has room.\<close>

lemma shl_room: "sh \<le> 2600 \<Longrightarrow> length a \<le> 300 \<Longrightarrow> length a + nat sh div 32 + 1 \<le> NBIG"
  by (simp add: NBIG_def)

lemma real_pow2: "0 \<le> k \<Longrightarrow> (2 :: real) powi k = real (2 ^ nat k)"
  by (simp add: power_int_def)

lemma real_pow5: "0 \<le> k \<Longrightarrow> (5 :: real) powi k = real (5 ^ nat k)"
  by (simp add: power_int_def)

lemma d2_ge_pow10_val:
  assumes "p5_ok st" "mant \<noteq> 0" "\<bar>X\<bar> \<le> 400" "\<bar>e2\<bar> \<le> 1100"
  shows "\<exists>st'. d2_ge_pow10 st mant e2 X = (10 powi X \<le> real (unat mant) * 2 powi e2, st') \<and> p5_ok st'"
proof -
  define d where "d = e2 - X"
  note mv = nb_set_u64_val [of mant]
  have two: "(2 :: real) powi e2 = 2 powi X * 2 powi d" by (simp add: d_def flip: power_int_add)
  have goal: "10 powi X \<le> real (unat mant) * 2 powi e2 \<longleftrightarrow> 5 powi X \<le> real (unat mant) * 2 powi d"
    unfolding two powi10 by (simp add: mult.left_commute mult.commute [of "5 powi X"])
  consider "0 < X" "0 \<le> d" | "0 < X" "d < 0" | "X \<le> 0" "0 \<le> d" | "X \<le> 0" "d < 0" by linarith
  then show ?thesis
  proof cases
    case 1
    obtain R st1 where p: "pow5 X st = (R, st1)" by fastforce
    note r = pow5_val [OF assms(1) _ _ p]
    have "limbs_val (nb_shl (nb_set_u64 mant) d) = unat mant * 2 ^ nat d"
      using nb_shl_val [of d "nb_set_u64 mant"] shl_room [of d "nb_set_u64 mant"] mv 1 assms(3,4) by (simp add: d_def)
    moreover have "nb_shl (nb_set_u64 mant) d \<noteq> []" "R \<noteq> []"
      using nb_shl_trimmed [OF mv(2)] r 1 assms(3) by (auto simp: trimmed_def)
    ultimately have "nb_cmp (nb_shl (nb_set_u64 mant) d) R \<ge> 0 \<longleftrightarrow> 5 ^ nat X \<le> unat mant * 2 ^ nat d"
      using r 1 assms(3) by (simp add: nb_cmp_val)
    also have "\<dots> \<longleftrightarrow> 5 powi X \<le> real (unat mant) * 2 powi d"
      using 1 by (simp only: real_pow2 real_pow5 less_imp_le flip: of_nat_mult) (simp only: of_nat_le_iff)
    finally show ?thesis
      unfolding goal using 1 r assms(3) by (simp add: d2_ge_pow10_def p flip: d_def)
  next
    case 2
    obtain R st1 where p: "pow5 X st = (R, st1)" by fastforce
    note r = pow5_val [OF assms(1) _ _ p]
    have "limbs_val (nb_shl R (- d)) = 5 ^ nat X * 2 ^ nat (- d)"
      using nb_shl_val [of "- d" R] shl_room [of "- d" R] r 2 assms(3,4) by (simp add: d_def)
    moreover have "nb_shl R (- d) \<noteq> []"
      using nb_shl_trimmed [of R] r 2 assms(3) by (auto simp: trimmed_def)
    ultimately have "nb_cmp (nb_set_u64 mant) (nb_shl R (- d)) \<ge> 0 \<longleftrightarrow> 5 ^ nat X * 2 ^ nat (- d) \<le> unat mant"
      using mv by (simp add: nb_cmp_val)
    also have "\<dots> \<longleftrightarrow> 5 powi X * 2 powi (- d) \<le> real (unat mant)"
      using 2 by (simp only: real_pow2 real_pow5 less_imp_le neg_0_le_iff_le flip: of_nat_mult) (simp only: of_nat_le_iff)
    also have "\<dots> \<longleftrightarrow> 5 powi X \<le> real (unat mant) * 2 powi d"
      by (simp add: power_int_minus field_simps)
    finally show ?thesis
      unfolding goal using 2 r assms(3) by (simp add: d2_ge_pow10_def p flip: d_def)
  next
    case 3
    have "5 powi X \<le> (1 :: real) * 1"
      using 3 power_int_increasing [of X 0 "5 :: real"] by simp
    also have "\<dots> \<le> real (unat mant) * 2 powi d"
    proof (rule mult_mono)
      have "0 < unat mant" using assms(2) by (simp add: unat_gt_0)
      then show "(1 :: real) \<le> real (unat mant)" by linarith
      show "(1 :: real) \<le> 2 powi d" using 3 power_int_increasing [of 0 d "2 :: real"] by simp
      show "(0 :: real) \<le> real (unat mant)" by (rule of_nat_0_le_iff)
    qed simp
    finally show ?thesis unfolding goal using 3 assms(1) by (simp add: d2_ge_pow10_def flip: d_def)
  next
    case 4
    obtain R st1 where p: "pow5 (- X) st = (R, st1)" by fastforce
    note r = pow5_val [OF assms(1) _ _ p]
    have prod: "limbs_val (nb_mul_big (nb_set_u64 mant) R) = unat mant * 5 ^ nat (- X)"
      using nb_mul_big_val [of "nb_set_u64 mant" R] mv r 4 assms(3) by (simp add: NBIG_def)
    moreover have "nb_mul_big (nb_set_u64 mant) R \<noteq> []"
      using nb_mul_big_trimmed [of "nb_set_u64 mant" R] mv r 4 assms(3) by (simp add: NBIG_def trimmed_def)
    moreover have "limbs_val (nb_shl (nb_set_u64 1) (- d)) = 2 ^ nat (- d)" "nb_shl (nb_set_u64 1) (- d) \<noteq> []"
      using nb_shl_val [of "- d" "nb_set_u64 1"] shl_room [of "- d" "nb_set_u64 1"] nb_set_u64_val [of 1]
        nb_shl_trimmed [of "nb_set_u64 1" "- d"] 4 assms(3,4) by (simp_all add: d_def trimmed_def)
    ultimately have "nb_cmp (nb_mul_big (nb_set_u64 mant) R) (nb_shl (nb_set_u64 1) (- d)) \<ge> 0 \<longleftrightarrow>
        2 ^ nat (- d) \<le> unat mant * 5 ^ nat (- X)"
      by (simp add: nb_cmp_val)
    also have "\<dots> \<longleftrightarrow> 2 powi (- d) \<le> real (unat mant) * 5 powi (- X)"
      using 4 by (simp only: real_pow2 real_pow5 less_imp_le neg_0_le_iff_le flip: of_nat_mult) (simp only: of_nat_le_iff)
    also have "\<dots> \<longleftrightarrow> 5 powi X \<le> real (unat mant) * 2 powi d"
      by (simp add: power_int_minus field_simps)
    finally show ?thesis
      unfolding goal using 4 r assms(3) by (simp add: d2_ge_pow10_def p flip: d_def)
  qed
qed

section \<open>Rounding half to even\<close>

lemma rne_of_int: "rne (of_int n) = n"
  by (simp add: rne_def)

lemma half_frac:
  assumes "0 < d"
  shows "real m / real d < 1 / 2 \<longleftrightarrow> 2 * m < d" "real m / real d > 1 / 2 \<longleftrightarrow> 2 * m > d"
proof -
  have "real m / real d < 1 / 2 \<longleftrightarrow> 2 * real m < real d" "real m / real d > 1 / 2 \<longleftrightarrow> 2 * real m > real d"
    using assms by (simp_all add: divide_less_eq less_divide_eq mult.commute [of "real m"])
  then show "real m / real d < 1 / 2 \<longleftrightarrow> 2 * m < d" "real m / real d > 1 / 2 \<longleftrightarrow> 2 * m > d" by linarith+
qed

text \<open>The integer nearest to a fraction, ties to even, by its quotient and remainder.\<close>

lemma rne_div:
  assumes "0 < d"
  shows "rne (real n / real d) =
    int (if 2 * (n mod d) > d \<or> (2 * (n mod d) = d \<and> odd (n div d)) then n div d + 1 else n div d)"
proof -
  have f: "\<lfloor>real n / real d\<rfloor> = int (n div d)" by (simp add: floor_divide_of_nat_eq)
  have "real n = real d * real (n div d) + real (n mod d)"
    by (metis mult_div_mod_eq of_nat_add of_nat_mult)
  then have "real n / real d - real (n div d) = real (n mod d) / real d"
    using assms by (simp add: field_simps)
  then have r: "real n / real d - of_int (int (n div d)) = real (n mod d) / real d" by simp
  show ?thesis
    unfolding rne_def Let_def f r half_frac [OF assms] by auto
qed

lemma odd_limbs: "q \<noteq> [] \<Longrightarrow> q ! 0 AND 1 \<noteq> 0 \<longleftrightarrow> odd (limbs_val q)"
  using limb_mask_zero [of "hd q" 1] by (cases q) (auto simp: odd_iff_mod_2_eq_one)

lemma nb_inc_trimmed:
  assumes "trimmed a" "list_all (\<lambda>x. x + 1 = 0) a \<Longrightarrow> up \<noteq> [] \<and> hd up = 0" "nb_inc up a = Some b"
  shows "trimmed b"
proof (cases "list_all (\<lambda>x. x + 1 = 0) a")
  case True
  with assms(2) obtain us where u: "up = 0 # us" by (cases up) auto
  have "inc_loop (a @ up) = replicate (length a) 0 @ 1 # us"
    using inc_loop_ones [OF True, of up] by (simp add: u)
  then have "b = replicate (length a) 0 @ [1]"
    using assms(3) True by (auto simp: nb_inc_def Let_def u nth_append)
  then show ?thesis by (simp add: trimmed_def)
next
  case False
  note w = inc_loop_within [OF False, of up]
  then have "b = inc_loop a" using assms(3) False by (auto simp: nb_inc_def Let_def)
  moreover have "inc_loop a \<noteq> []" using w assms(1) by (cases "inc_loop a") (auto simp: trimmed_def)
  moreover have "1 < length a \<Longrightarrow> 4294967296 ^ (length a - 1) \<le> limbs_val a + 1"
    using assms(1) by (simp add: trimmed_iff)
  ultimately show ?thesis using w by (simp add: trimmed_iff)
qed

lemma half_even_val:
  fixes l d :: nat
  assumes "trimmed q" "c = (if l < d then - 1 else if l = d then 0 else 1)"
    "list_all (\<lambda>x. x + 1 = 0) q \<Longrightarrow> up \<noteq> [] \<and> hd up = 0"
  shows "\<exists>r. half_even c up q = Some r \<and> trimmed r \<and>
    limbs_val r = (if l > d \<or> (l = d \<and> odd (limbs_val q)) then limbs_val q + 1 else limbs_val q)"
proof -
  have "q \<noteq> []" using assms(1) by (simp add: trimmed_def)
  then have o: "(c > 0 \<or> (c = 0 \<and> q ! 0 AND 1 \<noteq> 0)) \<longleftrightarrow> l > d \<or> (l = d \<and> odd (limbs_val q))"
    using assms(2) odd_limbs by auto
  obtain r where r: "nb_inc up q = Some r" "limbs_val r = limbs_val q + 1"
    using nb_inc_val [of q up] assms(3) by blast
  with nb_inc_trimmed [OF assms(1,3) r(1)] show ?thesis
    unfolding half_even_def o using assms(1) by auto
qed

section \<open>The loops on limbs\<close>

lemma carry_out:
  assumes "limbs_val ws + 4294967296 ^ length ws * c = T + hi" "lo + 4294967296 * hi = v"
  shows "lo + 4294967296 * limbs_val ws + 4294967296 ^ Suc (length ws) * c = v + 4294967296 * T"
proof -
  have "4294967296 * (limbs_val ws + 4294967296 ^ length ws * c) = 4294967296 * (T + hi)" by (simp only: assms(1))
  then show ?thesis using assms(2) by (simp add: algebra_simps)
qed

lemma add_loop_val:
  "unat c < 2 \<Longrightarrow> add_loop xs ys c = (zs, c') \<Longrightarrow>
    limbs_val zs + 4294967296 ^ length zs * unat c' = limbs_val xs + limbs_val ys + unat c \<and> unat c' < 2 \<and>
    length zs = max (length xs) (length ys)"
proof (induction xs ys c arbitrary: zs rule: add_loop.induct)
  case (1 c)
  then show ?case by simp
next
  case (2 x xs c)
  define v where "v = c + (ucast x :: u64)"
  obtain ws where w: "add_loop xs [] (drop_bit 32 v) = (ws, c')" "zs = ucast v # ws"
    using 2(3) by (auto simp: Let_def v_def split: prod.splits)
  have v: "unat v = unat c + unat x"
    using 2(2) unat_add_carry [of c x] unfolding v_def by (simp add: add.commute)
  have "unat (drop_bit 32 v) < 2" unfolding unat_high v using 2(2) limb_less [of x] by linarith
  then have ih: "limbs_val ws + 4294967296 ^ length ws * unat c' = limbs_val xs + limbs_val [] + unat (drop_bit 32 v)"
      "unat c' < 2" "length ws = max (length xs) (length ([] :: nbig))" using 2(1) [OF v_def _ w(1)] by blast+
  then show ?case using carry_out [OF ih(1) halves] by (simp add: w(2) v)
next
  case (3 y ys c)
  define v where "v = c + (ucast y :: u64)"
  obtain ws where w: "add_loop [] ys (drop_bit 32 v) = (ws, c')" "zs = ucast v # ws"
    using 3(3) by (auto simp: Let_def v_def split: prod.splits)
  have v: "unat v = unat c + unat y"
    using 3(2) unat_add_carry [of c y] by (simp add: v_def add.commute)
  have "unat (drop_bit 32 v) < 2" unfolding unat_high v using 3(2) limb_less [of y] by linarith
  then have ih: "limbs_val ws + 4294967296 ^ length ws * unat c' = limbs_val [] + limbs_val ys + unat (drop_bit 32 v)"
      "unat c' < 2" "length ws = max (length ([] :: nbig)) (length ys)" using 3(1) [OF v_def _ w(1)] by blast+
  then show ?case using carry_out [OF ih(1) halves] by (simp add: w(2) v)
next
  case (4 x xs y ys c)
  define v where "v = c + ucast x + (ucast y :: u64)"
  obtain ws where w: "add_loop xs ys (drop_bit 32 v) = (ws, c')" "zs = ucast v # ws"
    using 4(3) by (auto simp: Let_def v_def split: prod.splits)
  have v: "unat v = unat c + unat x + unat y"
    using 4(2) unat_mul_add [of c x 1 y] limb_less [of x] by (simp add: v_def add.commute add.left_commute)
  have "unat (drop_bit 32 v) < 2" unfolding unat_high v using 4(2) limb_less [of x] limb_less [of y] by linarith
  then have ih: "limbs_val ws + 4294967296 ^ length ws * unat c' = limbs_val xs + limbs_val ys + unat (drop_bit 32 v)" "unat c' < 2"
      "length ws = max (length xs) (length ys)" using 4(1) [OF v_def _ w(1)] by blast+
  then show ?case using carry_out [OF ih(1) halves] by (simp add: w(2) v add.assoc distrib_left)
qed

lemma dbl_loop_val:
  "unat c < 2 \<Longrightarrow> dbl_loop xs c = (zs, c') \<Longrightarrow>
    limbs_val zs + 4294967296 ^ length zs * unat c' = 2 * limbs_val xs + unat c \<and> unat c' < 2 \<and>
    length zs = length xs"
proof (induction xs c arbitrary: zs rule: dbl_loop.induct)
  case (2 x xs c)
  define v where "v = push_bit 1 (ucast x) OR (c :: u64)"
  obtain ws where w: "dbl_loop xs (drop_bit 32 v) = (ws, c')" "zs = ucast v # ws"
    using 2(3) by (auto simp: Let_def v_def split: prod.splits)
  have v: "unat v = 2 * unat x + unat c"
  proof -
    have "unat (push_bit 1 (ucast x :: u64)) = unat x * 2 ^ 1"
      using limb_less [of x] by (subst u64_push) (simp_all add: unat_up)
    then have "unat v = push_bit 1 (unat x) OR unat c"
      by (simp add: v_def unsigned_or_eq)
    then show ?thesis using or_add [of "unat c" 1 "unat x"] 2(2) by simp
  qed
  have "unat (drop_bit 32 v) < 2" unfolding unat_high v using 2(2) limb_less [of x] by linarith
  then have ih: "limbs_val ws + 4294967296 ^ length ws * unat c' = 2 * limbs_val xs + unat (drop_bit 32 v)" "unat c' < 2"
      "length ws = length xs" using 2(1) [OF v_def _ w(1)] by blast+
  then show ?case using carry_out [OF ih(1) halves] by (simp add: w(2) v add.assoc distrib_left)
qed simp

lemma put_carry_val:
  "unat c < 4294967296 \<Longrightarrow> length zs < NBIG \<Longrightarrow>
    limbs_val (put_carry (zs, c)) = limbs_val zs + 4294967296 ^ length zs * unat c \<and>
    length (put_carry (zs, c)) \<le> length zs + 1 \<and> length zs \<le> length (put_carry (zs, c))"
  by (auto simp: put_carry_def limbs_val_append unat_low)

lemma low_part_val:
  assumes "0 < b" "q \<noteq> []"
  shows "limbs_val (low_part q b) = limbs_val q mod 2 ^ b" "low_part q b \<noteq> []" "length (low_part q b) \<le> length q"
proof -
  define nl where "nl = (b + 31) div 32"
  define l where "l = take nl q"
  define l' where "l' = (if length l = nl \<and> b mod 32 \<noteq> 0
    then l[nl - 1 := l ! (nl - 1) AND (push_bit (b mod 32) 1 - 1)] else l)"
  have nl: "0 < nl" using assms(1) by (simp add: nl_def)
  have lp: "low_part q b = nb_trim l'" by (simp add: low_part_def Let_def l'_def l_def nl_def)
  have len: "length l' = length l" "l' \<noteq> []" using nl assms(2) by (auto simp: l'_def l_def)
  have lv: "limbs_val l = limbs_val q mod 4294967296 ^ nl" by (simp add: l_def limbs_val_take_drop)
  have "limbs_val l' = limbs_val q mod 2 ^ b"
  proof (cases "b mod 32 = 0")
    case True
    then have "b = 32 * nl" by (auto simp: nl_def)
    then have "(2 :: nat) ^ b = 4294967296 ^ nl" by (simp add: power_mult)
    then show ?thesis using True lv by (simp add: l'_def)
  next
    case False
    define k where "k = b div 32"
    define r where "r = b mod 32"
    have k: "nl = Suc k" "b = 32 * k + r" "r < 32" "0 < r"
    proof -
      show b: "b = 32 * k + r" "r < 32" "0 < r" using False by (simp_all add: k_def r_def)
      then have "(r + 31) div 32 = 1" by (intro div_nat_eqI) auto
      then show "nl = Suc k" unfolding nl_def b(1) by (simp add: add.assoc)
    qed
    have B: "(2 :: nat) ^ b = 4294967296 ^ k * 2 ^ r" by (simp add: k(2) power_add power_mult)
    show ?thesis
    proof (cases "length l = nl")
      case True
      then have klen: "k < length q" by (simp add: l_def k(1))
      define x where "x = q ! k"
      have l: "l = take k q @ [x]" using klen by (simp add: l_def k(1) x_def take_Suc_conv_app_nth)
      have "l' = take k q @ [x AND (push_bit r 1 - 1)]"
        using True False klen by (simp add: l'_def k(1) l r_def [symmetric] nth_append list_update_append)
      moreover have "unat (x AND (push_bit r 1 - 1)) = unat x mod 2 ^ r"
        using limb_mask [of x r] by (simp add: push_bit_eq_mult)
      moreover have "limbs_val q mod 2 ^ b = limbs_val (take k q) + 4294967296 ^ k * (unat x mod 2 ^ r)"
      proof -
        have d: "drop k q = x # drop (Suc k) q" using klen by (simp add: x_def Cons_nth_drop_Suc)
        have "(4294967296 :: nat) = 2 ^ r * 2 ^ (32 - r)" using k(3) by (simp flip: power_add)
        then have "limbs_val (drop k q) = unat x + 2 ^ r * (2 ^ (32 - r) * limbs_val (drop (Suc k) q))"
          unfolding d by (simp flip: mult.assoc)
        then have "limbs_val (drop k q) mod 2 ^ r = unat x mod 2 ^ r"
          by (simp only: mod_mult_self2)
        then show ?thesis
          unfolding B mod_mult2_eq by (simp add: limbs_val_take_drop)
      qed
      ultimately show ?thesis using klen by (simp add: limbs_val_append)
    next
      case False
      then have "length q \<le> k" by (auto simp: l_def k(1))
      then have "limbs_val q < 4294967296 ^ k"
        by (intro order_less_le_trans [OF limbs_val_less] power_increasing) auto
      also have "\<dots> \<le> 2 ^ b" unfolding B by simp
      finally show ?thesis using \<open>length q \<le> k\<close> False by (simp add: l'_def l_def k(1))
    qed
  qed
  then show "limbs_val (low_part q b) = limbs_val q mod 2 ^ b" by (simp add: lp nb_trim_val)
  show "low_part q b \<noteq> []" using nb_trim_trimmed [OF len(2)] by (simp add: lp trimmed_def)
  show "length (low_part q b) \<le> length q"
    using length_nb_trim [of l'] len(1) by (simp add: lp l_def)
qed

section \<open>Scaling\<close>

lemma length_nb_mul_big: "length a + length b \<le> NBIG \<Longrightarrow> length (nb_mul_big a b) \<le> length a + length b"
proof -
  assume a: "length a + length b \<le> NBIG"
  have "limbs_val a * limbs_val b < 4294967296 ^ (length a + length b)"
    unfolding power_add by (intro mult_strict_mono limbs_val_less) auto
  then have "length (mul_rows a b (replicate (length a + length b) 0)) = length a + length b"
    using mul_rows_val [of "replicate (length a + length b) 0" a b] by simp
  then show ?thesis
    using a length_nb_trim [of "mul_rows a b (replicate (length a + length b) 0)"]
    by (simp add: nb_mul_big_def min_absorb1)
qed

lemma d2_scale_val:
  assumes "p5_ok st" "trimmed q" "length q \<le> 300" "0 \<le> a" "a \<le> 1500" "d2_scale st q a = (r, st')"
  shows "limbs_val r = limbs_val q * 5 ^ nat a" "trimmed r" "length r \<le> length q + 110" "p5_ok st'"
proof -
  have "limbs_val r = limbs_val q * 5 ^ nat a \<and> trimmed r \<and> length r \<le> length q + 110 \<and> p5_ok st'"
  proof (cases "0 < a")
    case True
    obtain den st1 where p: "pow5 a st = (den, st1)" by fastforce
    note d = pow5_val [OF assms(1,4,5) p]
    have ne: "q \<noteq> []" "length q + length den \<le> NBIG"
      using assms(2,3) d(4) by (simp_all add: trimmed_def NBIG_def)
    have "length (nb_mul_big q den) \<le> length q + length den"
      using ne(2) by (rule length_nb_mul_big)
    then show ?thesis
      using assms(6) True d ne nb_mul_big_val [of q den] nb_mul_big_trimmed [of q den]
      by (simp add: d2_scale_def p)
  qed (use assms in \<open>auto simp: d2_scale_def\<close>)
  then show "limbs_val r = limbs_val q * 5 ^ nat a" "trimmed r" "length r \<le> length q + 110" "p5_ok st'"
    by auto
qed

text \<open>A quotient by five or more leaves a zero limb above it.\<close>

lemma quot_above:
  assumes "trimmed n" "trimmed q" "limbs_val q = limbs_val n div d" "2 \<le> d" "list_all (\<lambda>x. x + 1 = 0) q"
  shows "replicate ((nb_bitlen n + 31) div 32 - length q) (0 :: u32) \<noteq> [] \<and>
    hd (replicate ((nb_bitlen n + 31) div 32 - length q) (0 :: u32)) = 0"
proof -
  have ones: "limbs_val q + 1 = 4294967296 ^ length q" using inc_loop_ones [OF assms(5)] by blast
  have hb: "limbs_val n < 2 ^ nb_bitlen n" using nb_bitlen_val [OF assms(1)] by (simp add: has_bits_def)
  have q: "0 < length q" using assms(2) by (simp add: trimmed_def)
  then have "(4294967296 :: nat) ^ 1 \<le> 4294967296 ^ length q" by (intro power_increasing) (simp_all add: Suc_le_eq)
  then have q0: "0 < limbs_val q" using ones by simp
  have "limbs_val q * 2 \<le> limbs_val q * d" using assms(4) by simp
  also have "\<dots> \<le> limbs_val n" unfolding assms(3) by simp
  finally have "limbs_val q + 1 \<le> limbs_val n" using q0 by simp
  then have "(2 :: nat) ^ (32 * length q) < 2 ^ nb_bitlen n"
    using hb ones by (simp add: power_mult)
  then have "32 * length q < nb_bitlen n" by (rule power_less_imp_less_exp [rotated]) simp
  then have "length q < (nb_bitlen n + 31) div 32" by linarith
  then show ?thesis by simp
qed

lemma bitlen_ge: "trimmed a \<Longrightarrow> trimmed b \<Longrightarrow> limbs_val b \<le> limbs_val a \<Longrightarrow> nb_bitlen b \<le> nb_bitlen a"
  using bitlen_less [of a b] by (metis not_le)

lemma nat_mult_2: "2 * n = n * 2" for n :: nat by simp

lemma d2_round_up_val:
  assumes "p5_ok st" "trimmed q" "length q \<le> 2" "0 < limbs_val q" "0 \<le> bexp" "bexp \<le> 2600" "\<bar>s\<bar> \<le> 1500"
    "s < 0 \<Longrightarrow> 5 ^ nat (- s) \<le> limbs_val q * 2 ^ nat bexp"
  shows "\<exists>r st'. d2_round_up st q bexp s = Some (r, st') \<and> p5_ok st' \<and> trimmed r \<and>
    int (limbs_val r) = rne (real (limbs_val q) * 2 powi bexp * 5 powi s)"
proof -
  define q1 where "q1 = (if bexp > 0 then nb_shl q bexp else q)"
  have room: "length q + nat bexp div 32 + 1 \<le> NBIG" using assms(3,6) by (intro shl_room) simp_all
  have q1: "trimmed q1" "limbs_val q1 = limbs_val q * 2 ^ nat bexp"
    using nb_shl_val [OF assms(5) room] nb_shl_trimmed [OF assms(2)] assms(2,5) by (auto simp: q1_def)
  have len: "length q1 \<le> 300"
  proof -
    have "length (nb_shl q bexp) \<le> length q + nat bexp div 32 + 1"
      using room by (auto simp: nb_shl_def Let_def intro!: order_trans [OF length_nb_trim])
    then show ?thesis using assms(3,6) by (simp add: q1_def) linarith
  qed
  have x: "real (limbs_val q) * 2 powi bexp * 5 powi s = real (limbs_val q1) * 5 powi s"
    using assms(5) by (simp add: q1(2) real_pow2)
  show ?thesis
  proof (cases "0 \<le> s")
    case True
    obtain r st' where d: "d2_scale st q1 s = (r, st')" by fastforce
    note v = d2_scale_val [OF assms(1) q1(1) len True _ d]
    have "real (limbs_val q1) * 5 powi s = of_int (int (limbs_val r))"
      using v(1) assms(7) True by (simp add: real_pow5)
    then have "rne (real (limbs_val q1) * 5 powi s) = int (limbs_val r)" by (simp only: rne_of_int)
    then show ?thesis
      using v(2,4) assms(7) True by (simp add: d2_round_up_def d x flip: q1_def)
  next
    case False
    define a where "a = nat (- s)"
    obtain den st1 where p: "pow5 (- s) st = (den, st1)" by fastforce
    note d = pow5_val [OF assms(1) _ _ p]
    have den: "limbs_val den = 5 ^ a" "trimmed den" "length den \<le> 110" "p5_ok st1" "den \<noteq> []"
      using d False assms(7) by (auto simp: a_def trimmed_def)
    obtain q2 rem where dm: "nb_divmod True q1 den = (q2, rem)" by fastforce
    have "nb_bitlen den \<le> nb_bitlen q1"
      using assms(8) False by (intro bitlen_ge [OF q1(1) den(2)]) (simp add: den(1) q1(2) a_def)
    then have v: "limbs_val q2 = limbs_val q1 div 5 ^ a" "limbs_val rem = limbs_val q1 mod 5 ^ a" "trimmed q2" "trimmed rem"
      using nb_divmod_val [OF q1(1) den(2) _ _ dm] den by (simp_all add: NBIG_def)
    have rl: "length rem \<le> 300"
    proof -
      have "limbs_val rem \<le> limbs_val den" by (simp add: v(2) den(1) less_imp_le)
      then have "length rem \<le> length den" by (rule trimmed_length_le [OF v(4) den(5)])
      then show ?thesis using den(3) by simp
    qed
    have c: "nb_cmp (nb_shl rem 1) den =
        (if 2 * limbs_val rem < 5 ^ a then - 1 else if 2 * limbs_val rem = 5 ^ a then 0 else 1)"
      using nb_shl_val [of 1 rem] shl_room [of 1 rem] rl nb_shl_trimmed [OF v(4), of 1] den
      by (simp add: nb_cmp_val trimmed_def nat_mult_2)
    have a2: "2 \<le> (5 :: nat) ^ a"
    proof -
      have "(5 :: nat) ^ 1 \<le> 5 ^ a" using False by (intro power_increasing) (auto simp: a_def)
      then show ?thesis by simp
    qed
    obtain r where r: "half_even (nb_cmp (nb_shl rem 1) den) (replicate ((nb_bitlen q1 + 31) div 32 - length q2) 0) q2 = Some r"
      "trimmed r" "limbs_val r = (if 2 * limbs_val rem > 5 ^ a \<or> (2 * limbs_val rem = 5 ^ a \<and> odd (limbs_val q2))
        then limbs_val q2 + 1 else limbs_val q2)"
      using half_even_val [OF v(3) c quot_above [OF q1(1) v(3) v(1) a2]] by blast
    have "real (limbs_val q1) * 5 powi s = real (limbs_val q1) / real (5 ^ a)"
      using False by (simp add: a_def power_int_def field_simps)
    then have "rne (real (limbs_val q1) * 5 powi s) = int (limbs_val r)"
      using rne_div [of "5 ^ a" "limbs_val q1"] unfolding r(3) v(1,2) by simp
    then show ?thesis
      using r(1,2) den(4) False by (simp add: d2_round_up_def p dm x flip: q1_def)
  qed
qed

lemma shr_above:
  assumes "0 < b" "q \<noteq> []" "r = nb_trim (shr_limbs q b)" "list_all (\<lambda>x. x + 1 = 0) r"
  shows "drop (length r) (shr_limbs q b) \<noteq> [] \<and> hd (drop (length r) (shr_limbs q b)) = 0"
proof -
  have len: "length (shr_limbs q b) = length q" by (simp add: shr_limbs_def)
  have "2 * limbs_val (shr_limbs q b) \<le> 2 ^ b * (limbs_val q div 2 ^ b)"
    using assms(1) by (intro mult_mono) (simp_all add: shr_limbs_val drop_bit_eq_div self_le_power)
  also have "\<dots> \<le> limbs_val q" by simp
  also have "\<dots> < 4294967296 ^ length q" by (rule limbs_val_less)
  finally have "2 * limbs_val (shr_limbs q b) < 4294967296 ^ length q" .
  moreover have "4294967296 ^ 1 \<le> (4294967296 :: nat) ^ length q"
    using assms(2) by (intro power_increasing) (simp_all add: Suc_le_eq)
  ultimately have "limbs_val (shr_limbs q b) + 1 < 4294967296 ^ length (shr_limbs q b)"
    unfolding len by simp
  then show ?thesis using above_trim [of "shr_limbs q b"] assms(3,4) by simp
qed

text \<open>The quotient and remainder of a division in two steps, by \<open>d\<close> and by \<open>p\<close>.\<close>

lemma two_steps:
  assumes "0 < d" "0 < p"
  shows "rne (real m / (real d * real p)) =
    int (if 2 * (d * (m div d mod p) + m mod d) > d * p \<or> (2 * (d * (m div d mod p) + m mod d) = d * p \<and> odd (m div d div p))
      then m div d div p + 1 else m div d div p)"
  using rne_div [of "d * p" m] assms by (simp add: div_mult2_eq mod_mult2_eq)

text \<open>The comparison of twice the part cut off with the divisor.\<close>

lemma double_val:
  assumes "length xs < NBIG" "xs \<noteq> []"
  shows "limbs_val (put_carry (dbl_loop xs 0)) = 2 * limbs_val xs" "put_carry (dbl_loop xs 0) \<noteq> []"
proof -
  obtain zs c where d: "dbl_loop xs 0 = (zs, c)" by fastforce
  note v = dbl_loop_val [OF _ d]
  have "unat c < 4294967296" using v by simp
  with put_carry_val [of c zs] v assms show "limbs_val (put_carry (dbl_loop xs 0)) = 2 * limbs_val xs"
    "put_carry (dbl_loop xs 0) \<noteq> []" unfolding d by auto
qed

lemma sum_val:
  assumes "length xs < NBIG" "length ys < NBIG" "xs \<noteq> []"
  shows "limbs_val (put_carry (add_loop xs ys 0)) = limbs_val xs + limbs_val ys" "put_carry (add_loop xs ys 0) \<noteq> []"
    "length (put_carry (add_loop xs ys 0)) \<le> max (length xs) (length ys) + 1"
proof -
  obtain zs c where d: "add_loop xs ys 0 = (zs, c)" by fastforce
  note v = add_loop_val [OF _ d]
  have "unat c < 4294967296" using v by simp
  with put_carry_val [of c zs] v assms show "limbs_val (put_carry (add_loop xs ys 0)) = limbs_val xs + limbs_val ys"
    "put_carry (add_loop xs ys 0) \<noteq> []" "length (put_carry (add_loop xs ys 0)) \<le> max (length xs) (length ys) + 1"
    unfolding d by auto
qed

text \<open>The decision of \<open>d2_round_down\<close> for a part cut off from \<open>b\<close> bits, against a divisor.\<close>

lemma cut_cmp:
  assumes "den \<noteq> []" "length den \<le> 110" "0 < limbs_val den" "lhs \<noteq> []" "length lhs \<le> 300" "b \<le> 2600"
  shows "nb_cmp (put_carry (dbl_loop lhs 0)) (nb_shl den (int b)) =
    (if 2 * limbs_val lhs < limbs_val den * 2 ^ b then - 1 else if 2 * limbs_val lhs = limbs_val den * 2 ^ b then 0 else 1)"
proof -
  have "limbs_val (nb_shl den (int b)) = limbs_val den * 2 ^ b"
    using nb_shl_val [of "int b" den] shl_room [of "int b" den] assms(2,6) by simp
  moreover have "nb_shl den (int b) \<noteq> []"
    using calculation assms(3) by auto
  ultimately show ?thesis
    using double_val [of lhs] assms(4,5) by (simp add: nb_cmp_val NBIG_def)
qed

lemma d2_round_down_val:
  assumes "p5_ok st" "trimmed q" "length q \<le> 2" "0 < limbs_val q" "0 < b" "b \<le> 2600" "\<bar>s\<bar> \<le> 1500"
    "s < 0 \<Longrightarrow> 5 ^ nat (- s) \<le> limbs_val q"
  shows "\<exists>r st'. d2_round_down st q b s = Some (r, st') \<and> p5_ok st' \<and> trimmed r \<and>
    int (limbs_val r) = rne (real (limbs_val q) * 5 powi s / 2 ^ b)"
proof (cases "0 \<le> s")
  case True
  have s15: "s \<le> 1500" using assms(7) by simp
  obtain q1 st1 where d: "d2_scale st q s = (q1, st1)" by fastforce
  have v: "limbs_val q1 = limbs_val q * 5 ^ nat s" "trimmed q1" "length q1 \<le> 112" "p5_ok st1"
    using d2_scale_val [OF assms(1,2) _ True _ d] assms(3) s15 by simp_all
  have ne: "q1 \<noteq> []" using v(2) by (simp add: trimmed_def)
  define low where "low = low_part q1 b"
  note lv = low_part_val [OF assms(5) ne, folded low_def]
  define q2 where "q2 = nb_trim (shr_limbs q1 b)"
  have q2: "fst (nb_shr_sticky q1 (int b)) = q2" "limbs_val q2 = limbs_val q1 div 2 ^ b"
    using assms(5) by (simp_all add: nb_shr_sticky_def q2_def nb_trim_val shr_limbs_val drop_bit_eq_div)
  have t2: "trimmed q2" using nb_shr_trimmed [OF v(2), of "int b"] by (simp only: q2(1))
  obtain lhs rhs st2 where l: "(if s \<noteq> 0 then (case pow5 \<bar>s\<bar> st1 of (den, st2) \<Rightarrow> (nb_mul_big low den, den, st2))
      else (low, nb_set_u64 1, st1)) = (lhs, rhs, st2)" by (rule prod_cases3)
  have lr: "limbs_val lhs = limbs_val low * 5 ^ nat s" "limbs_val rhs = 5 ^ nat s" "p5_ok st2" "lhs \<noteq> []" "rhs \<noteq> []"
    "length lhs \<le> 222" "length rhs \<le> 110"
  proof -
    have "limbs_val lhs = limbs_val low * 5 ^ nat s \<and> limbs_val rhs = 5 ^ nat s \<and> p5_ok st2 \<and> lhs \<noteq> [] \<and> rhs \<noteq> [] \<and>
        length lhs \<le> 222 \<and> length rhs \<le> 110"
    proof (cases "s = 0")
      case True
      then show ?thesis using l lv v nb_set_u64_val [of 1] by auto
    next
      case False
      obtain den st3 where p: "pow5 \<bar>s\<bar> st1 = (den, st3)" by fastforce
      note dv = pow5_val [OF v(4) _ _ p]
      have den: "limbs_val den = 5 ^ nat s" "trimmed den" "length den \<le> 110" "p5_ok st3"
        using dv True assms(7) by auto
      moreover have "length low + length den \<le> NBIG" using lv(3) v(3) den(3) by (simp add: NBIG_def)
      ultimately show ?thesis
        using l False p lv v(3) nb_mul_big_val [of low den] nb_mul_big_trimmed [of low den] length_nb_mul_big [of low den]
        by (auto simp: trimmed_def)
    qed
    then show "limbs_val lhs = limbs_val low * 5 ^ nat s" "limbs_val rhs = 5 ^ nat s" "p5_ok st2" "lhs \<noteq> []" "rhs \<noteq> []"
      "length lhs \<le> 222" "length rhs \<le> 110" by auto
  qed
  have c: "nb_cmp (put_carry (dbl_loop lhs 0)) (nb_shl rhs (int b)) =
      (if 2 * (limbs_val q1 mod 2 ^ b) < 2 ^ b then - 1 else if 2 * (limbs_val q1 mod 2 ^ b) = 2 ^ b then 0 else 1)"
    using cut_cmp [OF lr(5,7) _ lr(4) _ assms(6)] lr(6) unfolding lr(1,2) lv(1)
    by (simp add: mult.commute [of _ "5 ^ nat s"] mult.left_commute [of 2])
  obtain r where r: "half_even (nb_cmp (put_carry (dbl_loop lhs 0)) (nb_shl rhs (int b))) (drop (length q2) (shr_limbs q1 b)) q2 = Some r"
    "trimmed r" "limbs_val r = (if 2 * (limbs_val q1 mod 2 ^ b) > 2 ^ b \<or> (2 * (limbs_val q1 mod 2 ^ b) = 2 ^ b \<and> odd (limbs_val q2))
      then limbs_val q2 + 1 else limbs_val q2)"
    using half_even_val [OF t2 c shr_above [OF assms(5) ne q2_def]] by blast
  have "real (limbs_val q) * 5 powi s / 2 ^ b = real (limbs_val q1) / real (2 ^ b)"
    using True by (simp add: v(1) power_int_def)
  then have "rne (real (limbs_val q) * 5 powi s / 2 ^ b) = int (limbs_val r)"
    using rne_div [of "2 ^ b" "limbs_val q1"] by (simp add: r(3) q2(2))
  moreover have "d2_round_down st q b s = Some (r, st2)"
    using True assms(5) r(1) l unfolding d2_round_down_def Let_def
    by (auto simp: d q2(1) split: prod.splits if_splits simp flip: low_def)
  ultimately show ?thesis using lr(3) r(2) by simp
next
  case False
  define a where "a = nat (- s)"
  have abs: "\<bar>s\<bar> = - s" using False by simp
  obtain den st1 where p: "pow5 (- s) st = (den, st1)" by fastforce
  have den: "limbs_val den = 5 ^ a" "trimmed den" "length den \<le> 110" "p5_ok st1" "den \<noteq> []"
    using pow5_val [OF assms(1) _ _ p] False assms(7) by (auto simp: a_def trimmed_def)
  obtain q1 rem where dm: "nb_divmod True q den = (q1, rem)" by fastforce
  have "nb_bitlen den \<le> nb_bitlen q"
    using assms(8) False by (intro bitlen_ge [OF assms(2) den(2)]) (simp add: den(1) a_def)
  then have v: "limbs_val q1 = limbs_val q div 5 ^ a" "limbs_val rem = limbs_val q mod 5 ^ a" "trimmed q1" "trimmed rem"
    using nb_divmod_val [OF assms(2) den(2) _ _ dm] den by (simp_all add: NBIG_def)
  have ne: "q1 \<noteq> []" "rem \<noteq> []" "q \<noteq> []" using v(3,4) assms(2) by (simp_all add: trimmed_def)
  have lens: "length q1 \<le> 2" "length rem \<le> 2"
    using trimmed_length_le [OF v(3) ne(3)] trimmed_length_le [OF v(4) ne(3)] assms(3) by (auto simp: v(1,2))
  define low where "low = low_part q1 b"
  note lv = low_part_val [OF assms(5) ne(1), folded low_def]
  define q2 where "q2 = nb_trim (shr_limbs q1 b)"
  have q2: "fst (nb_shr_sticky q1 (int b)) = q2" "limbs_val q2 = limbs_val q1 div 2 ^ b"
    using assms(5) by (simp_all add: nb_shr_sticky_def q2_def nb_trim_val shr_limbs_val drop_bit_eq_div)
  have t2: "trimmed q2" using nb_shr_trimmed [OF v(3), of "int b"] by (simp only: q2(1))
  obtain den' st2 where p2: "pow5 \<bar>s\<bar> st1 = (den', st2)" by fastforce
  have den': "limbs_val den' = 5 ^ a" "trimmed den'" "length den' \<le> 110" "p5_ok st2" "den' \<noteq> []"
    using pow5_val [OF den(4) _ _ p2] False assms(7) by (auto simp: a_def abs trimmed_def)
  define lhs where "lhs = nb_mul_big low den'"
  have room: "length low + length den' \<le> NBIG" using lv(3) lens den'(3) by (simp add: NBIG_def)
  have lhs: "limbs_val lhs = limbs_val low * 5 ^ a" "lhs \<noteq> []" "length lhs \<le> 112"
    using nb_mul_big_val [OF room] nb_mul_big_trimmed [OF lv(2) room] length_nb_mul_big [OF room] lv(3) lens den'
    by (simp_all add: lhs_def trimmed_def)
  define lhs1 where "lhs1 = (if s < 0 \<and> \<not> nb_is_zero rem then put_carry (add_loop lhs rem 0) else lhs)"
  have lhs1: "limbs_val lhs1 = 5 ^ a * (limbs_val q1 mod 2 ^ b) + limbs_val rem" "lhs1 \<noteq> []" "length lhs1 \<le> 300"
    using sum_val [of lhs rem] lhs lens lv(1) False by (auto simp: lhs1_def NBIG_def nb_is_zero_val mult.commute)
  have c: "nb_cmp (put_carry (dbl_loop lhs1 0)) (nb_shl den' (int b)) =
      (if 2 * (5 ^ a * (limbs_val q1 mod 2 ^ b) + limbs_val rem) < 5 ^ a * 2 ^ b then - 1
       else if 2 * (5 ^ a * (limbs_val q1 mod 2 ^ b) + limbs_val rem) = 5 ^ a * 2 ^ b then 0 else 1)"
    using cut_cmp [OF den'(5,3) _ lhs1(2,3) assms(6)] unfolding den'(1) lhs1(1) by simp
  obtain r where r: "half_even (nb_cmp (put_carry (dbl_loop lhs1 0)) (nb_shl den' (int b))) (drop (length q2) (shr_limbs q1 b)) q2 = Some r"
    "trimmed r" "limbs_val r = (if 2 * (5 ^ a * (limbs_val q1 mod 2 ^ b) + limbs_val rem) > 5 ^ a * 2 ^ b \<or>
        (2 * (5 ^ a * (limbs_val q1 mod 2 ^ b) + limbs_val rem) = 5 ^ a * 2 ^ b \<and> odd (limbs_val q2))
      then limbs_val q2 + 1 else limbs_val q2)"
    using half_even_val [OF t2 c shr_above [OF assms(5) ne(1) q2_def]] by blast
  have "real (limbs_val q) * 5 powi s / 2 ^ b = real (limbs_val q) / (real (5 ^ a) * real (2 ^ b))"
    using False by (simp add: a_def power_int_def field_simps)
  then have "rne (real (limbs_val q) * 5 powi s / 2 ^ b) = int (limbs_val r)"
    using two_steps [of "5 ^ a" "2 ^ b" "limbs_val q"] by (simp only: r(3) q2(2) v(1,2)) simp
  moreover have "d2_round_down st q b s = Some (r, st2)"
    using False r(1) unfolding d2_round_down_def Let_def
    by (simp add: p dm p2 [unfolded abs] q2(1) lhs1_def flip: low_def lhs_def)
  ultimately show ?thesis using den'(4) r(2) by simp
qed

lemma d2_round_pow10_val:
  assumes "p5_ok st" "mant \<noteq> 0" "\<bar>e2\<bar> \<le> 1100" "\<bar>s\<bar> \<le> 1500"
    "s < 0 \<Longrightarrow> 10 powi (- s) \<le> real (unat mant) * 2 powi e2"
  shows "\<exists>q st'. d2_round_pow10 st mant e2 s = Some (q, st') \<and> p5_ok st' \<and> trimmed q \<and>
    int (limbs_val q) = rne (real (unat mant) * 2 powi e2 * 10 powi s)"
proof -
  note m = nb_set_u64_val [of mant]
  have m0: "0 < limbs_val (nb_set_u64 mant)" using assms(2) by (simp add: m(1) unat_gt_0)
  have x: "real (unat mant) * 2 powi e2 * 10 powi s = real (unat mant) * 2 powi (e2 + s) * 5 powi s"
    by (simp only: powi10) (simp add: power_int_add mult_ac)
  have five: "5 powi (- s) \<le> real (unat mant) * 2 powi (e2 + s)" if "s < 0"
  proof -
    have "5 powi (- s) * 2 powi (- s) * 2 powi s \<le> real (unat mant) * 2 powi e2 * 2 powi s"
      using assms(5) that by (intro mult_right_mono) (simp_all only: powi10, simp_all)
    moreover have "(2 :: real) powi (- s) * 2 powi s = 1" by (simp add: power_int_minus)
    ultimately show ?thesis by (simp add: mult.assoc power_int_add)
  qed
  show ?thesis
  proof (cases "0 \<le> e2 + s")
    case True
    have "5 ^ nat (- s) \<le> limbs_val (nb_set_u64 mant) * 2 ^ nat (e2 + s)" if "s < 0"
    proof -
      have "real (5 ^ nat (- s)) \<le> real (unat mant * 2 ^ nat (e2 + s))"
        using five [OF that] real_pow5 [of "- s"] real_pow2 [OF True] that by simp
      then show ?thesis by (simp only: of_nat_le_iff m(1))
    qed
    moreover have "e2 + s \<le> 2600" using assms(3,4) by simp
    ultimately show ?thesis
      using d2_round_up_val [OF assms(1) m(2,4) m0 True _ assms(4)] True
      unfolding d2_round_pow10_def x m(1) by simp
  next
    case False
    define b where "b = nat (- (e2 + s))"
    have b: "0 < b" "b \<le> 2600" "e2 + s = - int b" using False assms(3,4) by (auto simp: b_def)
    have two: "(2 :: real) powi (e2 + s) = 1 / 2 ^ b" by (simp add: b(3) power_int_minus field_simps)
    have "5 ^ nat (- s) \<le> limbs_val (nb_set_u64 mant)" if "s < 0"
    proof -
      have "5 powi (- s) \<le> real (unat mant) * (1 / 2 ^ b)" using five [OF that] two by simp
      also have "\<dots> \<le> real (unat mant) * 1" by (rule mult_left_mono) (simp, rule of_nat_0_le_iff)
      finally have "real (5 ^ nat (- s)) \<le> real (unat mant)" using real_pow5 [of "- s"] that by simp
      then show ?thesis by (simp only: of_nat_le_iff m(1))
    qed
    moreover have "real (unat mant) * (1 / 2 ^ b) * 5 powi s = real (unat mant) * 5 powi s / 2 ^ b" by simp
    ultimately show ?thesis
      using d2_round_down_val [OF assms(1) m(2,4) m0 b(1,2) assms(4)] False
      unfolding d2_round_pow10_def x m(1) two b_def [symmetric] by simp
  qed
qed

end
