(* ===== verification/Boot_Literal.thy ===== *)
theory Boot_Literal
  imports Boot_Strtod
begin

text \<open>
  What \<open>strtod_full\<close> returns on a decimal literal: the double nearest to the value of the text, for
  every literal of at most 1100 digits and any exponent. The literals are described by their parts,
  independently of the scanner.
\<close>

section \<open>Scanning digits\<close>

lemma digits_val_append: "digits_val (xs @ ys) = digits_val xs * 10 ^ length ys + digits_val ys"
proof (induction ys rule: rev_induct)
  case (snoc y ys)
  then show ?case
    using digits_val_snoc [of "xs @ ys" y] by (simp add: algebra_simps)
qed (simp add: digits_val_def)

lemma digits_val_Cons: "digits_val (d # ds) = digit_val d * 10 ^ length ds + digits_val ds"
  using digits_val_append [of "[d]" ds] by (simp add: digits_val_def)

lemma digits_val_Nil [simp]: "digits_val [] = 0"
  by (simp add: digits_val_def)

lemma digit_val_less: "is_digit d \<Longrightarrow> digit_val d < 10"
proof -
  assume "is_digit d"
  then have d: "48 \<le> unat d" "unat d \<le> 57" by (simp_all add: is_digit_def word_le_nat_alt)
  then have "unat (d - 48) = unat d - 48" by (simp add: unat_sub word_le_nat_alt)
  with d show ?thesis by (simp add: digit_val_def)
qed

lemma digits_val_less: "list_all is_digit ds \<Longrightarrow> digits_val ds < 10 ^ length ds"
proof (induction ds)
  case (Cons d ds)
  have "digit_val d + 1 \<le> 10" using digit_val_less [of d] Cons.prems by simp
  then have "(digit_val d + 1) * 10 ^ length ds \<le> 10 * 10 ^ length ds" by (rule mult_le_mono1)
  then have "digit_val d * 10 ^ length ds + 10 ^ length ds \<le> 10 * 10 ^ length ds" by (simp only: add_mult_distrib mult_1)
  moreover have "digits_val ds < 10 ^ length ds" using Cons by simp
  ultimately have "digit_val d * 10 ^ length ds + digits_val ds < 10 * 10 ^ length ds" by linarith
  then show ?case by (simp add: digits_val_Cons)
qed simp

lemma pow10_less: "d \<le> 1100 \<Longrightarrow> (10 :: nat) ^ d < 4294967296 ^ 115"
proof -
  assume "d \<le> 1100"
  then have "(10 :: nat) ^ d \<le> 10 ^ (3 * 367)" by (intro power_increasing) auto
  also have "\<dots> = (10 ^ 3) ^ 367" by (rule power_mult)
  also have "\<dots> \<le> (2 ^ 10) ^ 367" by (rule power_mono) simp_all
  also have "\<dots> = 2 ^ (10 * 367)" by (rule power_mult [symmetric])
  also have "\<dots> < 2 ^ (32 * 115)" by (intro power_strict_increasing) auto
  also have "\<dots> = (2 ^ 32) ^ 115" by (rule power_mult)
  also have "(2 :: nat) ^ 32 = 4294967296" by simp
  finally show ?thesis .
qed

lemma take_digit_val:
  assumes "is_digit c" "trimmed m" "limbs_val m < 10 ^ d" "d < 1100"
  shows "\<exists>m'. take_digit c m d = (m', Suc d) \<and> trimmed m' \<and>
    limbs_val m' = limbs_val m * 10 + digit_val c \<and> limbs_val m' < 10 ^ Suc d"
proof -
  have len: "length m < NBIG"
    using assms(2-4) pow10_less [of d] by (intro room [of m 115]) (simp_all add: NBIG_def)
  have c: "unat (ucast (c - ch_0) :: u32) = digit_val c"
  proof -
    have "unat (c - ch_0) < 2 ^ 32"
      by (rule order_less_le_trans [OF unsigned_less]) simp
    then show ?thesis by (simp add: digit_val_def unsigned_ucast_eq take_bit_nat_eq_self)
  qed
  have "limbs_val m + 1 \<le> 10 ^ d" using assms(3) by simp
  then have "(limbs_val m + 1) * 10 \<le> 10 ^ d * 10" by (rule mult_le_mono1)
  with digit_val_less [OF assms(1)] have "limbs_val m * 10 + digit_val c < 10 ^ Suc d" by simp
  then show ?thesis
    using nb_mul_add_val(1) [OF len, of 10 "ucast (c - ch_0)"] nb_mul_add_trimmed [OF assms(2) len, of 10]
      assms(4) c by (simp add: take_digit_def)
qed

lemma int_digits_val:
  "trimmed m \<Longrightarrow> limbs_val m < 10 ^ d \<Longrightarrow> d \<le> 1100 \<Longrightarrow> us = take (1100 - d) (takeWhile is_digit p) \<Longrightarrow>
    \<exists>m'. int_digits p m d any = (dropWhile is_digit p, m', d + length us, any \<or> takeWhile is_digit p \<noteq> []) \<and>
      trimmed m' \<and> limbs_val m' = limbs_val m * 10 ^ length us + digits_val us \<and> limbs_val m' < 10 ^ (d + length us)"
proof (induction p arbitrary: m d any us)
  case (Cons c p)
  show ?case
  proof (cases "is_digit c \<and> d < 1100")
    case True
    then obtain m1 where m1: "take_digit c m d = (m1, Suc d)" "trimmed m1"
        "limbs_val m1 = limbs_val m * 10 + digit_val c" "limbs_val m1 < 10 ^ Suc d"
      using take_digit_val Cons.prems by blast
    define vs where "vs = take (1100 - Suc d) (takeWhile is_digit p)"
    have "1100 - d = Suc (1100 - Suc d)" using True by arith
    then have us: "us = c # vs" using True Cons.prems(4) by (simp add: vs_def)
    show ?thesis
      using Cons.IH [OF m1(2,4) _ vs_def, of True] True m1(1,3)
      by (auto simp: us digits_val_Cons algebra_simps)
  next
    case False
    show ?thesis
    proof (cases "is_digit c")
      case True
      with False have d: "d = 1100" using Cons.prems(3) by simp
      then have "us = []" using Cons.prems(4) by simp
      have run: "int_digits (c # p) m d any = int_digits p m d True"
        using True d by (simp add: take_digit_def)
      have none: "[] = take (1100 - d) (takeWhile is_digit p)" using d by simp
      show ?thesis
        unfolding run using Cons.IH [OF Cons.prems(1,2,3) none, of True] True \<open>us = []\<close> by simp
    qed (use Cons.prems in auto)
  qed
qed auto

lemma frac_digits_int:
  "frac_digits p m d any dexp =
    (case int_digits p m d any of (p', m', d', any') \<Rightarrow> (p', m', d', any', dexp - (int d' - int d)))"
proof (induction p arbitrary: m d any dexp)
  case (Cons c p)
  then show ?case by (auto simp: take_digit_def split: prod.splits)
qed simp

lemma exp_digits_val:
  "exp_digits p (min 100000 (int e)) any = (dropWhile is_digit p,
      min 100000 (int (e * 10 ^ length (takeWhile is_digit p) + digits_val (takeWhile is_digit p))),
      any \<or> takeWhile is_digit p \<noteq> [])"
proof (induction p arbitrary: e any)
  case (Cons c p)
  have "min 100000 (min 100000 (int e) * 10 + int (digit_val c)) = min 100000 (int (e * 10 + digit_val c))"
    by (simp add: min_def)
  with Cons.IH [of "e * 10 + digit_val c" True] show ?case
    by (simp add: digits_val_Cons algebra_simps)
qed simp

section \<open>Literals\<close>

text \<open>
  The parts of a decimal literal: white space, sign, digits, the digits after a point, and an
  exponent with its mark, sign and digits.
\<close>

record lit =
  l_space :: cstr
  l_sign :: cstr
  l_int :: cstr
  l_frac :: "cstr option"
  l_exp :: "(u8 \<times> cstr \<times> cstr) option"

definition frac_of :: "lit \<Rightarrow> cstr" where
  "frac_of l = (case l_frac l of None \<Rightarrow> [] | Some ds \<Rightarrow> ds)"

definition exp_of :: "lit \<Rightarrow> int" where
  "exp_of l = (case l_exp l of None \<Rightarrow> 0
     | Some (m, sg, ds) \<Rightarrow> if sg = [ch_minus] then - int (digits_val ds) else int (digits_val ds))"

definition lit_text :: "lit \<Rightarrow> cstr" where
  "lit_text l = l_space l @ l_sign l @ l_int l @ (case l_frac l of None \<Rightarrow> [] | Some ds \<Rightarrow> 46 # ds) @
     (case l_exp l of None \<Rightarrow> [] | Some (m, sg, ds) \<Rightarrow> m # sg @ ds)"

definition sign_ok :: "cstr \<Rightarrow> bool" where
  "sign_ok sg \<longleftrightarrow> sg = [] \<or> sg = [ch_plus] \<or> sg = [ch_minus]"

definition lit_ok :: "lit \<Rightarrow> bool" where
  "lit_ok l \<longleftrightarrow> list_all sh_isspace (l_space l) \<and> sign_ok (l_sign l) \<and>
     list_all is_digit (l_int l @ frac_of l) \<and> l_int l @ frac_of l \<noteq> [] \<and>
     (case l_exp l of None \<Rightarrow> True
      | Some (m, sg, ds) \<Rightarrow> (m = 101 \<or> m = 69) \<and> sign_ok sg \<and> ds \<noteq> [] \<and> list_all is_digit ds)"

text \<open>What may follow a literal: nothing that would continue it.\<close>

definition stops :: "cstr \<Rightarrow> bool" where
  "stops q \<longleftrightarrow> q = [] \<or> (\<not> is_digit (hd q) \<and> hd q \<noteq> 46 \<and> hd q \<noteq> 101 \<and> hd q \<noteq> 69 \<and> hd q \<noteq> 120 \<and> hd q \<noteq> 88)"

text \<open>The magnitude of the literal.\<close>

definition lit_value :: "lit \<Rightarrow> real" where
  "lit_value l = real (digits_val (l_int l @ frac_of l)) * 10 powi (exp_of l - int (length (frac_of l)))"

lemma ch_at_0 [simp]: "ch_at [] 0 = 0" "ch_at (c # p) 0 = c"
  by (simp_all add: ch_at_def)

lemma span_digits:
  "list_all is_digit ds \<Longrightarrow> q = [] \<or> \<not> is_digit (hd q) \<Longrightarrow>
    takeWhile is_digit (ds @ q) = ds \<and> dropWhile is_digit (ds @ q) = q"
  by (induction ds) (cases q; auto)+

lemma lit_sign_val:
  "sign_ok sg \<Longrightarrow> p = [] \<or> (hd p \<noteq> ch_plus \<and> hd p \<noteq> ch_minus) \<Longrightarrow> lit_sign (sg @ p) = (sg = [ch_minus], p)"
  by (cases p) (auto simp: sign_ok_def lit_sign_def)

lemma digit_hd: "list_all is_digit ds \<Longrightarrow> ds \<noteq> [] \<Longrightarrow> is_digit (hd (ds @ q))"
  by (cases ds) auto

lemma lit_exp_val:
  assumes "lit_ok l" "stops rest" "p = (case l_exp l of None \<Rightarrow> [] | Some (m, sg, ds) \<Rightarrow> m # sg @ ds) @ rest"
  shows "\<exists>e. lit_exp (ch_at p 0 = 101 \<or> ch_at p 0 = 69) p = (rest, e) \<and>
    (\<bar>exp_of l\<bar> \<le> 100000 \<longrightarrow> e = exp_of l) \<and> (100000 < exp_of l \<longrightarrow> e = 100000) \<and> (exp_of l < - 100000 \<longrightarrow> e = - 100000)"
proof (cases "l_exp l")
  case None
  then show ?thesis
    using assms(2,3) by (cases rest) (auto simp: lit_exp_def exp_of_def stops_def)
next
  case (Some e)
  obtain m sg ds where e: "e = (m, sg, ds)" by (cases e)
  have ok: "m = 101 \<or> m = 69" "sign_ok sg" "ds \<noteq> []" "list_all is_digit ds"
    using assms(1) Some by (auto simp: lit_ok_def e)
  have p: "p = m # sg @ ds @ rest" using assms(3) Some by (simp add: e)
  have "hd (ds @ rest) \<noteq> ch_plus \<and> hd (ds @ rest) \<noteq> ch_minus"
    using digit_class [OF digit_hd [OF ok(4,3)]] by blast
  then have sg: "lit_sign (sg @ ds @ rest) = (sg = [ch_minus], ds @ rest)"
    by (intro lit_sign_val [OF ok(2)]) blast
  have sp: "takeWhile is_digit (ds @ rest) = ds" "dropWhile is_digit (ds @ rest) = rest"
    using span_digits [OF ok(4)] assms(2) by (auto simp: stops_def)
  have "exp_digits (ds @ rest) 0 False = (rest, min 100000 (int (digits_val ds)), True)"
    using exp_digits_val [of "ds @ rest" 0 False] sp ok(3) by simp
  then show ?thesis
    using ok(1) Some by (auto simp: lit_exp_def p sg e exp_of_def min_def)
qed

section \<open>Scaling\<close>

definition clamp1500 :: "int \<Rightarrow> int" where
  "clamp1500 k = (if k > 1500 then 1500 else if k < - 1500 then - 1500 else k)"

text \<open>The bits for \<open>m * 10^k\<close>, 0 included, as the code computes them.\<close>

definition dec_bits :: "nat \<Rightarrow> int \<Rightarrow> nat" where
  "dec_bits m k = (if m = 0 \<or> half_gap (real m * 10 powi k) then 0 else round_bits (real m * 10 powi k))"

lemma mul_path:
  assumes "trimmed m" "0 < limbs_val m" "limbs_val m < 10 ^ 1100" "p5_ok st" "0 \<le> k" "k \<le> 1500" "pow5 k st = (f, st')"
  shows "sh_round (nb_mul_big m f) k neg = signed_bits neg (of_nat (round_bits (real (limbs_val m) * 10 powi k)))"
proof -
  note f = pow5_val [OF assms(4-7)]
  have "length m \<le> 115" by (rule trimmed_length_less [OF assms(1) order_less_trans [OF assms(3) pow10_less [OF order_refl]]]) simp
  then have len: "length m + length f \<le> NBIG" using f(4) by (simp add: NBIG_def)
  have v: "limbs_val (nb_mul_big m f) = limbs_val m * 5 ^ nat k"
    by (simp add: nb_mul_big_val [OF len] f(1))
  have "trimmed (nb_mul_big m f)" using assms(1) len by (intro nb_mul_big_trimmed) (simp_all add: trimmed_def)
  moreover have eq: "real (limbs_val m * 5 ^ nat k) * 2 powi k = real (limbs_val m) * 10 powi k"
    using assms(5) by (simp add: power_int_def flip: power_mult_distrib)
  ultimately show ?thesis
    using sh_round_correct [of "nb_mul_big m f" k neg, unfolded v eq] assms(2,5) by simp
qed

lemma div_path:
  assumes "trimmed m" "0 < limbs_val m" "p5_ok st" "k < 0" "- 1500 \<le> k" "pow5 (- k) st = (f, st')"
  shows "sh_round_div m f k neg = signed_bits neg (of_nat (dec_bits (limbs_val m) k))"
proof -
  have "0 \<le> - k" "- k \<le> 1500" using assms(4,5) by simp_all
  note f = pow5_val [OF assms(3) this assms(6)]
  have x: "real (limbs_val m) * 10 powi k = real (limbs_val m) / real (limbs_val f) * 2 powi k"
  proof -
    have "(5 :: real) powi k = 1 / 5 ^ nat (- k)" using assms(4) by (simp add: power_int_def field_simps)
    then show ?thesis by (simp add: powi10 f(1))
  qed
  have "length f < NBIG" using f(4) by (simp add: NBIG_def)
  then show ?thesis
    using sh_round_div_correct [OF assms(1,2) f(2) _ _ x] f(1) assms(2) by (simp add: dec_bits_def)
qed

lemma no_gap: "0 < m \<Longrightarrow> 0 \<le> k \<Longrightarrow> \<not> half_gap (real m * 10 powi k)"
proof -
  assume a: "0 < m" "0 \<le> k"
  have "(10 :: real) powi 0 \<le> 10 powi k" using a(2) by (intro power_int_increasing) auto
  then have "1 * 1 \<le> real m * 10 powi k" using a(1) by (intro mult_mono) simp_all
  moreover have "(2 :: real) powi (- 1075) * (1 + 2 powi (- 55)) \<le> 1"
    by (simp only: power_int_minus power_int_numeral) (simp add: field_simps)
  ultimately show ?thesis by (simp only: half_gap_def) linarith
qed

text \<open>The last step of \<open>strtod_full\<close>, on any mantissa it can have collected.\<close>

definition strtod_scale :: "p5 \<Rightarrow> nbig \<Rightarrow> int \<Rightarrow> bool \<Rightarrow> cstr \<Rightarrow> u64 \<times> cstr \<times> p5" where
  "strtod_scale st mant dexp1 neg p3 =
     (if nb_is_zero mant then (signed_bits neg 0, p3, st)
      else let dexp = (if dexp1 > 1500 then 1500 else if dexp1 < - 1500 then - 1500 else dexp1)
        in if dexp \<ge> 0 then (case pow5 dexp st of (f, st1) \<Rightarrow> (sh_round (nb_mul_big mant f) dexp neg, p3, st1))
           else (case pow5 (- dexp) st of (f, st1) \<Rightarrow> (sh_round_div mant f dexp neg, p3, st1)))"

lemma strtod_scale_val:
  assumes "trimmed m" "limbs_val m < 10 ^ 1100" "p5_ok st"
  shows "\<exists>st'. strtod_scale st m k neg p = (signed_bits neg (of_nat (dec_bits (limbs_val m) (clamp1500 k))), p, st') \<and> p5_ok st'"
proof (cases "limbs_val m = 0")
  case True
  with assms(3) show ?thesis by (simp add: strtod_scale_def nb_is_zero_val dec_bits_def)
next
  case False
  define d where "d = clamp1500 k"
  have d: "- 1500 \<le> d" "d \<le> 1500" by (simp_all add: d_def clamp1500_def)
  have s: "strtod_scale st m k neg p = (if d \<ge> 0
      then (case pow5 d st of (f, st1) \<Rightarrow> (sh_round (nb_mul_big m f) d neg, p, st1))
      else (case pow5 (- d) st of (f, st1) \<Rightarrow> (sh_round_div m f d neg, p, st1)))"
    using False by (simp add: strtod_scale_def nb_is_zero_val d_def clamp1500_def Let_def)
  show ?thesis
  proof (cases "0 \<le> d")
    case True
    obtain f st1 where f: "pow5 d st = (f, st1)" by fastforce
    then show ?thesis
      using mul_path [OF assms(1) _ assms(2,3) True d(2) f] pow5_val(3) [OF assms(3) True d(2) f] True False
        no_gap [of "limbs_val m" d]
      unfolding s d_def [symmetric] by (simp add: dec_bits_def)
  next
    case neg: False
    obtain f st1 where f: "pow5 (- d) st = (f, st1)" by fastforce
    have "0 \<le> - d" "- d \<le> 1500" using d neg by simp_all
    note p5 = pow5_val(3) [OF assms(3) this f]
    show ?thesis
      using div_path [OF assms(1) _ assms(3) _ d(1) f] p5 neg False f
      unfolding s d_def [symmetric] by simp
  qed
qed

section \<open>The scanner\<close>

text \<open>The digits that are kept, and how many of them stand after the point.\<close>

definition lit_mant :: "lit \<Rightarrow> cstr" where
  "lit_mant l = take 1100 (l_int l @ frac_of l)"

definition lit_scale :: "lit \<Rightarrow> int" where
  "lit_scale l = int (length (take (1100 - length (l_int l)) (frac_of l)))"

lemma strtod_scan:
  assumes ok: "lit_ok l" "stops rest"
  shows "\<exists>m e. strtod_full st (lit_text l @ rest) = strtod_scale st m (e - lit_scale l) (l_sign l = [ch_minus]) rest \<and>
    trimmed m \<and> limbs_val m = digits_val (lit_mant l) \<and> limbs_val m < 10 ^ 1100 \<and>
    (\<bar>exp_of l\<bar> \<le> 100000 \<longrightarrow> e = exp_of l) \<and> (100000 < exp_of l \<longrightarrow> e = 100000) \<and> (exp_of l < - 100000 \<longrightarrow> e = - 100000)"
proof -
  define xs where "xs = (case l_exp l of None \<Rightarrow> [] | Some (m, sg, ds) \<Rightarrow> m # sg @ ds) @ rest"
  define tail where "tail = (case l_frac l of None \<Rightarrow> [] | Some ds \<Rightarrow> 46 # ds) @ xs"
  define body where "body = l_int l @ tail"
  have split: "lit_text l @ rest = l_space l @ l_sign l @ body"
    by (simp add: lit_text_def body_def tail_def xs_def)
  have dig: "list_all is_digit (l_int l)" "list_all is_digit (frac_of l)" "l_int l @ frac_of l \<noteq> []"
    using ok(1) by (simp_all add: lit_ok_def)
  have ex: "xs = [] \<or> \<not> is_digit (hd xs)" "xs = [] \<or> hd xs \<noteq> 46" "xs = [] \<or> hd xs \<noteq> 120 \<and> hd xs \<noteq> 88"
  proof -
    have d: "\<not> is_digit 101" "\<not> is_digit 69" by (simp_all add: is_digit_def)
    show "xs = [] \<or> \<not> is_digit (hd xs)" "xs = [] \<or> hd xs \<noteq> 46" "xs = [] \<or> hd xs \<noteq> 120 \<and> hd xs \<noteq> 88"
      using ok d by (auto simp: xs_def lit_ok_def stops_def split: option.splits)
  qed
  have tail: "tail = [] \<or> \<not> is_digit (hd tail)" "tail = [] \<or> hd tail \<noteq> 120 \<and> hd tail \<noteq> 88"
    using ex by (auto simp: tail_def is_digit_def split: option.splits)
  have body_hd: "body \<noteq> []" "is_digit (hd body) \<or> hd body = 46"
    using dig by (auto simp: body_def tail_def frac_of_def split: option.splits) (cases "l_int l"; auto)+
  then obtain c cs where b: "body = c # cs" "is_digit c \<or> c = 46" by (cases body) auto
  have c: "\<not> sh_isspace c" "c \<noteq> ch_plus" "c \<noteq> ch_minus" "c \<noteq> 110 \<and> c \<noteq> 78 \<and> c \<noteq> 105 \<and> c \<noteq> 73"
    using b(2) by (auto simp: is_digit_def sh_isspace_def word_le_nat_alt)
  have sp: "dropWhile sh_isspace (lit_text l @ rest) = l_sign l @ body"
  proof -
    have "\<not> sh_isspace ch_plus" "\<not> sh_isspace ch_minus" by (simp_all add: sh_isspace_def)
    then have "dropWhile sh_isspace (l_sign l @ body) = l_sign l @ body"
      using ok(1) c(1) by (auto simp: lit_ok_def sign_ok_def b(1))
    moreover have "dropWhile sh_isspace (l_space l @ q) = dropWhile sh_isspace q" for q
      using ok(1) by (intro dropWhile_append2) (auto simp: lit_ok_def list_all_iff)
    ultimately show ?thesis by (simp add: split)
  qed
  have sg: "lit_sign (l_sign l @ body) = (l_sign l = [ch_minus], body)"
    using ok(1) c by (intro lit_sign_val) (simp_all add: lit_ok_def b(1))
  have names: "\<not> letters body 0 [110, 97, 110]" "\<not> letters body 0 [105, 110, 102]"
    using c(4) by (simp_all add: letters_def b(1) upt_rec)
  have hex: "\<not> (ch_at body 0 = ch_0 \<and> (ch_at body 1 = 120 \<or> ch_at body 1 = 88))"
  proof (cases "l_int l")
    case Nil
    then have "ch_at body 0 = 46"
      using dig(3) by (auto simp: body_def tail_def frac_of_def split: option.splits)
    then show ?thesis by simp
  next
    case (Cons d ds)
    have "ch_at body 1 = ch_at (ds @ tail) 0" by (simp add: body_def Cons ch_at_def)
    moreover have "ch_at (ds @ tail) 0 \<noteq> 120 \<and> ch_at (ds @ tail) 0 \<noteq> 88"
    proof (cases ds)
      case Nil
      then show ?thesis using tail(2) by (cases tail) auto
    next
      case ds: (Cons d' ds')
      then have "is_digit d'" using dig(1) Cons by simp
      then show ?thesis by (auto simp: ds is_digit_def)
    qed
    ultimately show ?thesis by simp
  qed
  have zero: "limbs_val nb_init < 10 ^ 0" by (simp add: nb_init_val)
  have int_sp: "takeWhile is_digit body = l_int l" "dropWhile is_digit body = tail"
    using span_digits [OF dig(1) tail(1)] by (simp_all add: body_def)
  define us where "us = take 1100 (l_int l)"
  obtain m1 where m1: "int_digits body nb_init 0 False = (tail, m1, length us, l_int l \<noteq> [])"
      "trimmed m1" "limbs_val m1 = digits_val us" "limbs_val m1 < 10 ^ length us"
    using int_digits_val [OF nb_init_val(2) zero _ refl, of body False] by (auto simp: int_sp us_def nb_init_val)
  define vs where "vs = take (1100 - length us) (frac_of l)"
  have len: "1100 - length us = 1100 - length (l_int l)" "length us \<le> 1100" by (simp_all add: us_def)
  have mant: "us @ vs = lit_mant l" "int (length vs) = lit_scale l"
    by (simp_all only: vs_def len lit_mant_def lit_scale_def) (simp_all add: us_def)
  have upto: "length us + length vs \<le> 1100" by (simp add: us_def vs_def)
  have "\<exists>m. (if ch_at tail 0 = 46 then frac_digits (tl tail) m1 (length us) (l_int l \<noteq> []) 0
        else (tail, m1, length us, l_int l \<noteq> [], 0)) = (xs, m, length us + length vs, True, - lit_scale l) \<and>
      trimmed m \<and> limbs_val m = digits_val (lit_mant l) \<and> limbs_val m < 10 ^ (length us + length vs)"
  proof (cases "l_frac l")
    case None
    then have "vs = []" "l_int l \<noteq> []" "tail = xs" using dig(3) by (simp_all add: vs_def frac_of_def tail_def)
    moreover have "ch_at xs 0 \<noteq> 46" using ex(2) by (cases xs) auto
    ultimately show ?thesis using m1(2-4) mant by simp
  next
    case (Some ds)
    then have fr: "frac_of l = ds" "tail = 46 # ds @ xs" by (simp_all add: frac_of_def tail_def)
    have sp: "takeWhile is_digit (ds @ xs) = ds" "dropWhile is_digit (ds @ xs) = xs"
      using span_digits [OF _ ex(1)] dig(2) fr(1) by simp_all
    obtain m where "int_digits (ds @ xs) m1 (length us) (l_int l \<noteq> []) = (xs, m, length us + length vs, l_int l \<noteq> [] \<or> ds \<noteq> [])"
        "trimmed m" "limbs_val m = limbs_val m1 * 10 ^ length vs + digits_val vs" "limbs_val m < 10 ^ (length us + length vs)"
      using int_digits_val [OF m1(2,4) len(2) refl, of "ds @ xs" "l_int l \<noteq> []"] by (auto simp: sp vs_def fr)
    then show ?thesis
      using dig(3) m1(3) mant by (auto simp: fr frac_digits_int digits_val_append simp flip: mant(1))
  qed
  then obtain m where m: "(if ch_at tail 0 = 46 then frac_digits (tl tail) m1 (length us) (l_int l \<noteq> []) 0
        else (tail, m1, length us, l_int l \<noteq> [], 0)) = (xs, m, length us + length vs, True, - lit_scale l)"
      "trimmed m" "limbs_val m = digits_val (lit_mant l)" "limbs_val m < 10 ^ (length us + length vs)" by blast
  have "(10 :: nat) ^ (length us + length vs) \<le> 10 ^ 1100" using upto by (intro power_increasing) auto
  with m(4) have less: "limbs_val m < 10 ^ 1100" by linarith
  obtain e where e: "lit_exp (ch_at xs 0 = 101 \<or> ch_at xs 0 = 69) xs = (rest, e)"
      "\<bar>exp_of l\<bar> \<le> 100000 \<longrightarrow> e = exp_of l" "100000 < exp_of l \<longrightarrow> e = 100000" "exp_of l < - 100000 \<longrightarrow> e = - 100000"
    using lit_exp_val [OF ok xs_def] by blast
  have "strtod_full st (lit_text l @ rest) = strtod_scale st m (e - lit_scale l) (l_sign l = [ch_minus]) rest"
    unfolding strtod_full_def sp sg prod.case if_not_P [OF names(1)] if_not_P [OF names(2)] if_not_P [OF hex]
      m1(1) m(1) e(1) strtod_scale_def Let_def by simp
  with m(2,3) less e(2-4) show ?thesis by blast
qed

section \<open>Correct rounding\<close>

text \<open>Exponents beyond the clamps give the same bits as the clamped ones.\<close>

lemma powi10_two: "(2 :: real) powi (3 * k) \<le> 10 powi k" if "0 \<le> k"
proof -
  have "(2 :: real) powi (3 * k) = 8 powi k" by (simp add: power_int_mult)
  also have "\<dots> \<le> 10 powi k" using that by (simp add: power_int_def power_mono)
  finally show ?thesis .
qed

lemma scaled_huge: "0 < m \<Longrightarrow> 1500 \<le> k \<Longrightarrow> 2 powi 1024 \<le> real m * 10 powi k"
proof -
  assume a: "0 < m" "1500 \<le> k"
  have "(2 :: real) powi 1024 \<le> 2 powi (3 * k)" using a(2) by (intro power_int_increasing) auto
  also have "\<dots> \<le> 1 * 10 powi k" using powi10_two [of k] a(2) by simp
  also have "\<dots> \<le> real m * 10 powi k" using a(1) by (intro mult_right_mono) simp_all
  finally show ?thesis .
qed

lemma scaled_less: "m < 10 ^ n \<Longrightarrow> real m * 10 powi k < 10 powi (int n + k)"
proof -
  assume "m < 10 ^ n"
  then have "real m < real (10 ^ n)" by (simp only: of_nat_less_iff)
  then have "real m * 10 powi k < 10 powi int n * 10 powi k" by (intro mult_strict_right_mono) simp_all
  then show ?thesis by (simp add: power_int_add)
qed

lemma scaled_small: "m < 10 ^ 1100 \<Longrightarrow> k \<le> - 1500 \<Longrightarrow> real m * 10 powi k < 2 powi (- 1075)"
proof -
  assume a: "m < 10 ^ 1100" "k \<le> - 1500"
  have "real m * 10 powi k < 10 powi (int 1100 + k)" by (rule scaled_less [OF a(1)])
  also have "\<dots> \<le> 10 powi (- 400)" using a(2) by (intro power_int_increasing) auto
  also have "\<dots> = 1 / 10 powi 400" by (simp only: power_int_minus inverse_eq_divide)
  also have "\<dots> \<le> 1 / 2 powi (3 * 400)"
  proof (rule divide_left_mono)
    show "(2 :: real) powi (3 * 400) \<le> 10 powi 400" by (rule powi10_two) simp
  qed (simp_all only: zero_le_one mult_pos_pos zero_less_power_int zero_less_numeral)
  also have "\<dots> = 2 powi (- 1200)" by (simp only: power_int_minus inverse_eq_divide) simp
  also have "\<dots> \<le> 2 powi (- 1075)" by (intro power_int_increasing) auto
  finally show ?thesis .
qed

lemma clamp_same:
  assumes "m < 10 ^ 1100" "k = k' \<or> (1500 < k \<and> 1500 < k') \<or> (k < - 1500 \<and> k' < - 1500)"
  shows "dec_bits m (clamp1500 k) = dec_bits m k'"
proof -
  have small: "0 < m \<Longrightarrow> j \<le> - 1500 \<Longrightarrow> dec_bits m j = 0" for j
  proof -
    assume a: "0 < m" "j \<le> - 1500"
    have "0 < real m * 10 powi j" using a(1) by simp
    with scaled_small [OF assms(1) a(2)] have "round_bits (real m * 10 powi j) = 0"
      by (intro round_bits_small)
    then show ?thesis by (simp only: dec_bits_def) simp
  qed
  have huge: "0 < m \<Longrightarrow> 1500 \<le> j \<Longrightarrow> dec_bits m j = inf_bits" for j
    using round_bits_huge [OF scaled_huge [of m j]] no_gap [of m j] by (simp add: dec_bits_def)
  have "clamp1500 k = k' \<or> (clamp1500 k = 1500 \<and> 1500 < k') \<or> (clamp1500 k = - 1500 \<and> k' < - 1500)"
    using assms(2) unfolding clamp1500_def by (cases "1500 < k"; cases "k < - 1500"; auto)
  then consider "m = 0" | "0 < m" "clamp1500 k = k'" | "0 < m" "clamp1500 k = 1500" "1500 < k'"
    | "0 < m" "clamp1500 k = - 1500" "k' < - 1500" by blast
  then show "dec_bits m (clamp1500 k) = dec_bits m k'"
  proof cases
    case 1
    show ?thesis by (simp add: 1 dec_bits_def)
  next
    case 2
    show ?thesis by (simp only: 2)
  next
    case 3
    show ?thesis by (simp only: 3(2) huge [OF 3(1) order_refl] huge [OF 3(1) less_imp_le [OF 3(3)]])
  next
    case 4
    show ?thesis by (simp only: 4(2) small [OF 4(1) order_refl] small [OF 4(1) less_imp_le [OF 4(3)]])
  qed
qed

text \<open>\<open>strtod_full\<close> on any literal, by the digits it keeps.\<close>

lemma strtod_kept:
  assumes "lit_ok l" "stops rest" "p5_ok st"
  shows "\<exists>st'. strtod_full st (lit_text l @ rest) = (signed_bits (l_sign l = [ch_minus])
      (of_nat (dec_bits (digits_val (lit_mant l)) (exp_of l - lit_scale l))), rest, st') \<and> p5_ok st'"
proof -
  obtain m e where m: "strtod_full st (lit_text l @ rest) = strtod_scale st m (e - lit_scale l) (l_sign l = [ch_minus]) rest"
      "trimmed m" "limbs_val m = digits_val (lit_mant l)" "limbs_val m < 10 ^ 1100"
      "\<bar>exp_of l\<bar> \<le> 100000 \<longrightarrow> e = exp_of l" "100000 < exp_of l \<longrightarrow> e = 100000" "exp_of l < - 100000 \<longrightarrow> e = - 100000"
    using strtod_scan [OF assms(1,2)] by blast
  have sc: "0 \<le> lit_scale l" "lit_scale l \<le> 1100" by (auto simp: lit_scale_def)
  define k where "k = exp_of l - lit_scale l"
  have "e - lit_scale l = k \<or> (1500 < e - lit_scale l \<and> 1500 < k) \<or> (e - lit_scale l < - 1500 \<and> k < - 1500)"
    using m(5-7) sc k_def by linarith
  note same = clamp_same [OF m(4) this]
  from strtod_scale_val [OF m(2,4) assms(3), of "e - lit_scale l" "l_sign l = [ch_minus]" rest] show ?thesis
    unfolding m(1) m(3) same [unfolded m(3)] k_def .
qed

lemma short_literal:
  assumes "length (l_int l @ frac_of l) \<le> 1100"
  shows "lit_mant l = l_int l @ frac_of l" "lit_scale l = int (length (frac_of l))"
  using assms by (simp_all add: lit_mant_def lit_scale_def)

lemma strtod_short:
  assumes "lit_ok l" "length (l_int l @ frac_of l) \<le> 1100" "stops rest" "p5_ok st"
  shows "\<exists>st'. strtod_full st (lit_text l @ rest) = (signed_bits (l_sign l = [ch_minus])
      (of_nat (if lit_value l = 0 \<or> half_gap (lit_value l) then 0 else round_bits (lit_value l))), rest, st') \<and> p5_ok st'"
proof -
  have "dec_bits (digits_val (lit_mant l)) (exp_of l - lit_scale l) =
      (if lit_value l = 0 \<or> half_gap (lit_value l) then 0 else round_bits (lit_value l))"
    by (simp add: lit_value_def short_literal [OF assms(2)] dec_bits_def)
  with strtod_kept [OF assms(1,3,4)] show ?thesis by simp
qed

section \<open>Properties\<close>

text \<open>
  C14. \<open>strtod_full\<close> rounds correctly. On every decimal literal with at most 1100 digits, whatever
  its exponent, it consumes exactly the literal and returns its sign with a magnitude that is 0
  for a zero literal, and otherwise is the IEEE 754 nearest double of the exact decimal value:
  infinity from half a place above the largest double on, ties to the even neighbour. The one
  exception is a value just above half of the least double (within a factor of 1 + 2^-55).
\<close>

theorem strtod_correctly_rounded:
  assumes "lit_ok l" "length (l_int l @ frac_of l) \<le> 1100" "stops rest" "p5_ok st" "\<not> half_gap (lit_value l)"
  shows "\<exists>b st'. strtod_full st (lit_text l @ rest) = (signed_bits (l_sign l = [ch_minus]) (of_nat b), rest, st') \<and>
    p5_ok st' \<and> (if lit_value l = 0 then b = 0 else nearest_double (lit_value l) b)"
proof -
  have "0 \<le> lit_value l" by (simp add: lit_value_def)
  then have "if lit_value l = 0 then (if lit_value l = 0 \<or> half_gap (lit_value l) then 0 else round_bits (lit_value l)) = 0
      else nearest_double (lit_value l) (if lit_value l = 0 \<or> half_gap (lit_value l) then 0 else round_bits (lit_value l))"
    using round_bits_nearest [of "lit_value l"] assms(5) by auto
  with strtod_short [OF assms(1-4)] show ?thesis by blast
qed

text \<open>A literal for the witness: \<open>-1.5e2x\<close>, where \<open>x\<close> ends it.\<close>

definition demo_lit :: lit where
  "demo_lit = \<lparr> l_space = [32], l_sign = [45], l_int = [49], l_frac = Some [53], l_exp = Some (101, [], [50]) \<rparr>"

lemma demo_lit_facts:
  "lit_ok demo_lit" "length (l_int demo_lit @ frac_of demo_lit) \<le> 1100" "stops [41]" "p5_ok p5_boot"
  "lit_value demo_lit = 150" "lit_text demo_lit @ [41] = [32, 45, 49, 46, 53, 101, 50, 41]" "l_sign demo_lit = [ch_minus]"
  by (simp_all add: lit_ok_def demo_lit_def sh_isspace_def sign_ok_def frac_of_def is_digit_def stops_def p5_ok_def
      p5_boot_def lit_value_def exp_of_def digits_val_def digit_val_def lit_text_def power_int_minus)

theorem strtod_correctly_rounded_witness:
  "\<exists>b st'. strtod_full p5_boot [32, 45, 49, 46, 53, 101, 50, 41] = (signed_bits True (of_nat b), [41], st') \<and>
    nearest_double 150 b"
proof -
  have "\<not> half_gap 150" by (simp add: half_gap_def)
  with strtod_correctly_rounded [OF demo_lit_facts(1-4)] show ?thesis
    unfolding demo_lit_facts(5-7) by auto
qed

text \<open>
  The exception is real: on a literal whose value lies above half of the least double by less
  than a factor of 1 + 2^-55, \<open>strtod_full\<close> returns zero, while the nearest double is not zero.
\<close>

theorem strtod_half_gap:
  assumes "lit_ok l" "length (l_int l @ frac_of l) \<le> 1100" "stops rest" "p5_ok st" "half_gap (lit_value l)"
  shows "(\<exists>st'. strtod_full st (lit_text l @ rest) = (signed_bits (l_sign l = [ch_minus]) 0, rest, st')) \<and>
    \<not> nearest_double (lit_value l) 0"
proof
  show "\<exists>st'. strtod_full st (lit_text l @ rest) = (signed_bits (l_sign l = [ch_minus]) 0, rest, st')"
    using strtod_short [OF assms(1-4)] assms(5) by auto
  define x where "x = lit_value l"
  have one: "mag_val 1 = 2 powi (- 1074)" "mag_val 0 = 0" by (simp_all only: mag_val_def Let_def) simp_all
  have two: "2 * (2 :: real) powi (- 1075) = 2 powi (- 1074)"
    using powi_split [of 1 "- 1075"] by (simp only: power_int_1_right) simp
  have up: "x < 2 powi (- 1074)"
  proof -
    have "(2 :: real) powi (- 1075) * (1 + 2 powi (- 55)) \<le> 2 powi (- 1075) * 2"
      by (intro mult_left_mono) (simp_all only: power_int_minus, simp_all)
    then show ?thesis using assms(5) two unfolding x_def half_gap_def by linarith
  qed
  have "0 < x" using assms(5) unfolding x_def half_gap_def by (meson less_trans zero_less_numeral zero_less_power_int)
  then have "\<bar>mag_val 1 - x\<bar> < \<bar>mag_val 0 - x\<bar>"
    using up two assms(5) unfolding one half_gap_def x_def by linarith
  moreover have "\<not> 18014398509481983 * 2 powi 970 \<le> x"
  proof -
    have "(2 :: real) powi (- 1074) \<le> 1" by (simp only: power_int_minus power_int_numeral) simp
    then show ?thesis using up by simp
  qed
  moreover have "1 < inf_bits" "0 \<noteq> inf_bits" by (simp_all add: inf_bits_def)
  ultimately show "\<not> nearest_double (lit_value l) 0"
    unfolding nearest_double_def x_def [symmetric] by (auto simp: not_less dest: spec [of _ 1])
qed

text \<open>The literal \<open>24703282292062327209e-343\<close>.\<close>

definition gap_lit :: lit where
  "gap_lit = \<lparr> l_space = [], l_sign = [], l_int = map (\<lambda>d. ch_0 + of_nat d) [2,4,7,0,3,2,8,2,2,9,2,0,6,2,3,2,7,2,0,9],
     l_frac = None, l_exp = Some (101, [45], [51, 52, 51]) \<rparr>"

lemma gap_lit_facts:
  "lit_ok gap_lit" "length (l_int gap_lit @ frac_of gap_lit) \<le> 1100" "stops []"
  "l_sign gap_lit = []" "lit_value gap_lit = 24703282292062327209 * 10 powi (- 343)"
  "lit_text gap_lit = [50,52,55,48,51,50,56,50,50,57,50,48,54,50,51,50,55,50,48,57,101,45,51,52,51]"
  by (simp_all add: lit_ok_def gap_lit_def sign_ok_def frac_of_def is_digit_def stops_def
      lit_value_def exp_of_def digits_val_def digit_val_def lit_text_def)

theorem strtod_half_gap_witness:
  "\<exists>st'. strtod_full p5_boot [50,52,55,48,51,50,56,50,50,57,50,48,54,50,51,50,55,50,48,57,101,45,51,52,51] = (0, [], st')"
proof -
  have "half_gap (24703282292062327209 * 10 powi (- 343))"
    by (simp only: half_gap_def power_int_minus power_int_numeral) (simp add: field_simps)
  with strtod_half_gap [OF gap_lit_facts(1-3) demo_lit_facts(4)] show ?thesis
    unfolding gap_lit_facts(4-6) append_Nil2 by (simp add: signed_bits_def)
qed

text \<open>
  Digits before the point beyond the 1100th are dropped without adjusting the exponent: the
  result is that of the literal cut after 1100 digits, whose value is smaller by a factor of ten
  for every digit dropped.
\<close>

theorem strtod_excess_digits:
  assumes "lit_ok l" "stops rest" "p5_ok st" "1100 \<le> length (l_int l)"
    "l' = l\<lparr> l_int := take 1100 (l_int l), l_frac := None \<rparr>"
  shows "fst (strtod_full st (lit_text l @ rest)) = fst (strtod_full st (lit_text l' @ rest)) \<and>
    lit_value l' * 10 ^ (length (l_int l) - 1100) \<le> lit_value l"
proof
  have ok': "lit_ok l'"
    using assms(1,4) by (auto simp: lit_ok_def assms(5) frac_of_def list_all_iff dest: in_set_takeD split: option.splits)
  have fields: "lit_mant l' = take 1100 (l_int l)" "lit_mant l = take 1100 (l_int l)" "lit_scale l' = 0" "lit_scale l = 0"
    "exp_of l' = exp_of l" "l_sign l' = l_sign l" "frac_of l' = []" "l_int l' = take 1100 (l_int l)"
    using assms(4) by (simp_all add: lit_mant_def lit_scale_def exp_of_def frac_of_def assms(5))
  obtain a b where
    "strtod_full st (lit_text l @ rest) =
       (signed_bits (l_sign l = [ch_minus]) (of_nat (dec_bits (digits_val (take 1100 (l_int l))) (exp_of l))), rest, a)"
    "strtod_full st (lit_text l' @ rest) =
       (signed_bits (l_sign l = [ch_minus]) (of_nat (dec_bits (digits_val (take 1100 (l_int l))) (exp_of l))), rest, b)"
    using strtod_kept [OF assms(1-3)] strtod_kept [OF ok' assms(2,3)] unfolding fields by auto
  then show "fst (strtod_full st (lit_text l @ rest)) = fst (strtod_full st (lit_text l' @ rest))" by simp
  define n where "n = length (l_int l) - 1100"
  have "digits_val (l_int l) = digits_val (take 1100 (l_int l)) * 10 ^ n + digits_val (drop 1100 (l_int l))"
    using digits_val_append [of "take 1100 (l_int l)" "drop 1100 (l_int l)"] by (simp add: n_def)
  then have "digits_val (take 1100 (l_int l)) * 10 ^ n * 10 ^ length (frac_of l) \<le> digits_val (l_int l @ frac_of l)"
    unfolding digits_val_append by (intro trans_le_add1 mult_le_mono1) simp
  then have "real (digits_val (take 1100 (l_int l)) * 10 ^ n * 10 ^ length (frac_of l)) \<le> real (digits_val (l_int l @ frac_of l))"
    by (simp only: of_nat_le_iff)
  then have "real (digits_val (take 1100 (l_int l)) * 10 ^ n * 10 ^ length (frac_of l)) * 10 powi (exp_of l - int (length (frac_of l)))
      \<le> lit_value l"
    unfolding lit_value_def by (rule mult_right_mono) simp
  moreover have "(10 :: real) powi exp_of l = 10 ^ length (frac_of l) * 10 powi (exp_of l - int (length (frac_of l)))"
    by (simp flip: power_int_of_nat power_int_add)
  ultimately show "lit_value l' * 10 ^ (length (l_int l) - 1100) \<le> lit_value l"
    unfolding n_def [symmetric] by (simp add: lit_value_def fields mult_ac)
qed

definition long_lit :: lit where
  "long_lit = \<lparr> l_space = [], l_sign = [], l_int = 49 # replicate 1100 48, l_frac = None, l_exp = Some (101, [45], [49, 49, 48, 48]) \<rparr>"

theorem strtod_excess_digits_witness:
  "fst (strtod_full p5_boot (49 # replicate 1100 48 @ [101, 45, 49, 49, 48, 48])) =
     fst (strtod_full p5_boot (49 # replicate 1099 48 @ [101, 45, 49, 49, 48, 48]))"
proof -
  have ok: "lit_ok long_lit"
    by (simp add: lit_ok_def long_lit_def sign_ok_def frac_of_def is_digit_def list_all_iff)
  have len: "1100 \<le> length (l_int long_lit)" by (simp add: long_lit_def)
  have t: "take 1100 (l_int long_lit) = 49 # replicate 1099 48" by (simp add: long_lit_def take_Cons')
  have a: "lit_text long_lit @ [] = 49 # replicate 1100 48 @ [101, 45, 49, 49, 48, 48]"
    by (simp add: lit_text_def long_lit_def)
  have b: "lit_text (long_lit\<lparr> l_int := take 1100 (l_int long_lit), l_frac := None \<rparr>) @ [] =
      49 # replicate 1099 48 @ [101, 45, 49, 49, 48, 48]"
    unfolding t by (simp add: lit_text_def long_lit_def)
  show ?thesis
    using strtod_excess_digits [OF ok gap_lit_facts(3) demo_lit_facts(4) len refl] unfolding a b by blast
qed

lemma hex_digits_tiny: "hex_digits True [48, 48, 48, 48, 48, 48, 48, 48, 48, 48, 48, 48, 48, 49, 112, 45, 49, 48, 55, 53]
    \<lparr> hx_mant = 1, hx_sticky = False, hx_expo = 0, hx_seen = True \<rparr> =
  ([112, 45, 49, 48, 55, 53], \<lparr> hx_mant = 72057594037927937, hx_sticky = False, hx_expo = - 56, hx_seen = True \<rparr>)"
  by (simp add: hex_val_def is_digit_def)

lemma hex_finish_tiny:
  "hex_finish \<lparr> hx_mant = 72057594037927937, hx_sticky = False, hx_expo = - 56, hx_seen = True \<rparr> (- 1131) False = 0"
  by code_simp

lemma hexfloat_tiny:
  "sh_hexfloat [48, 120, 49, 46, 48, 48, 48, 48, 48, 48, 48, 48, 48, 48, 48, 48, 48, 49, 112, 45, 49, 48, 55, 53] False = (0, [])"
proof -
  have 1: "hex_digits False [49, 46, 48, 48, 48, 48, 48, 48, 48, 48, 48, 48, 48, 48, 48, 49, 112, 45, 49, 48, 55, 53]
      \<lparr> hx_mant = 0, hx_sticky = False, hx_expo = 0, hx_seen = False \<rparr> =
    ([46, 48, 48, 48, 48, 48, 48, 48, 48, 48, 48, 48, 48, 48, 49, 112, 45, 49, 48, 55, 53],
     \<lparr> hx_mant = 1, hx_sticky = False, hx_expo = 0, hx_seen = True \<rparr>)"
    by (simp add: hex_val_def is_digit_def)
  have 2: "lit_exp True [112, 45, 49, 48, 55, 53] = ([], - 1075)"
    by (simp add: lit_exp_def lit_sign_def is_digit_def digit_val_def)
  show ?thesis
    unfolding sh_hexfloat_def by (simp add: 1 2 hex_digits_tiny hex_finish_tiny del: hex_digits.simps)
qed
lemma strtod_tiny:
  "fst (strtod_full p5_boot [48, 120, 49, 46, 48, 48, 48, 48, 48, 48, 48, 48, 48, 48, 48, 48, 48, 49, 112, 45, 49, 48, 55, 53]) = 0"
proof -
  let ?s = "[48, 120, 49, 46, 48, 48, 48, 48, 48, 48, 48, 48, 48, 48, 48, 48, 48, 49, 112, 45, 49, 48, 55, 53] :: cstr"
  have 1: "dropWhile sh_isspace ?s = ?s" by (simp add: sh_isspace_def)
  have 2: "lit_sign ?s = (False, ?s)" by (simp add: lit_sign_def)
  have 3: "\<not> letters ?s 0 [110, 97, 110]" "\<not> letters ?s 0 [105, 110, 102]"
    by (simp_all add: letters_def upt_rec)
  have 4: "ch_at ?s 0 = ch_0 \<and> (ch_at ?s 1 = 120 \<or> ch_at ?s 1 = 88)" by (simp add: ch_at_def)
  show ?thesis
    unfolding strtod_full_def 1 2 prod.case if_not_P [OF 3(1)] if_not_P [OF 3(2)] if_P [OF 4] hexfloat_tiny by simp
qed
text \<open>
  Hexadecimal literals below the normal range are rounded twice, first to 53 digits and then
  to the digits a subnormal has: 0x1.00000000000001p-1075 lies above half of the least double,
  which is the nearest one, but the result is zero.
\<close>

theorem hexfloat_rounds_twice:
  "fst (strtod_full p5_boot [48, 120, 49, 46, 48, 48, 48, 48, 48, 48, 48, 48, 48, 48, 48, 48, 48, 49, 112, 45, 49, 48, 55, 53]) = 0 \<and>
    nearest_double ((1 + 1 / 2 ^ 56) * 2 powi (- 1075)) 1"
proof
  show "fst (strtod_full p5_boot [48, 120, 49, 46, 48, 48, 48, 48, 48, 48, 48, 48, 48, 48, 48, 48, 48, 49, 112, 45, 49, 48, 55, 53]) = 0"
    by (rule strtod_tiny)
  define x :: real where "x = (1 + 1 / 2 ^ 56) * 2 powi (- 1075)"
  have "1 * 2 powi (- 1075) < x" unfolding x_def by (intro mult_strict_right_mono) simp_all
  then have lo: "2 powi (- 1075) < x" by simp
  have "x < 2 * 2 powi (- 1075)" unfolding x_def by (intro mult_strict_right_mono) simp_all
  also have "\<dots> = 2 powi (- 1074)" using powi_split [of 1 "- 1075"] by (simp only: power_int_1_right) simp
  finally have up: "x < 2 powi (- 1074)" .
  have "round_bits x = 1" using round_bits_tiny [of "- 1074" x] lo up by simp
  moreover have "0 < x" using lo by (rule less_trans [rotated]) simp
  ultimately show "nearest_double ((1 + 1 / 2 ^ 56) * 2 powi (- 1075)) 1"
    using round_bits_nearest [of x] by (simp add: x_def)
qed

end
