(* ===== verification/Boot_Print.thy ===== *)
theory Boot_Print
  imports Boot_Decimal Boot_Literal
begin

text \<open>
  What \<open>zan_fmt_double\<close> prints, as a decimal literal in the sense of \<open>Boot_Literal\<close>: in every style
  the literal has the value of the double rounded half to even at the place that the style and the
  precision name. Read back by \<open>strtod_full\<close>, seventeen significant digits give the same double.
\<close>

section \<open>The decimal exponent\<close>

lemma round53_bounds:
  assumes "0 \<le> p" "p < 9223372036854775808"
  shows "0 \<le> round53 p" "round53 p \<le> p + 1024"
proof -
  define k where "k = nat (bitlen p - 53)"
  define q where "q = p div 2 ^ k"
  have qp: "q * 2 ^ k \<le> p" "0 \<le> q"
    using assms(1) by (simp_all add: q_def minus_mod_eq_div_mult [symmetric] pos_imp_zdiv_nonneg_iff)
  have k: "(2 :: int) ^ k \<le> 1024"
  proof (cases "k = 0")
    case False
    then have b: "0 < bitlen p - 53" by (simp add: k_def)
    then have p: "0 < p" using bitlen_eq_zero_iff [of p] by (auto simp: not_le intro: ccontr)
    have "nat (bitlen p - 1) = k + 52" using b by (simp add: k_def)
    then have "(2 :: int) ^ (k + 52) < 2 ^ 63"
      using bitlen_bounds [OF p] assms(2) by simp
    then have "k + 52 < 63" by (rule power_less_imp_less_exp [rotated]) simp
    then have "k \<le> 10" by simp
    then have "(2 :: int) ^ k \<le> 2 ^ 10" by (intro power_increasing) auto
    then show ?thesis by simp
  qed simp
  have r: "round53 p = q * 2 ^ k \<or> round53 p = (q + 1) * 2 ^ k"
    by (auto simp: round53_def Let_def k_def q_def)
  then show "0 \<le> round53 p" "round53 p \<le> p + 1024"
    using qp k by (auto simp: distrib_right)
qed

lemma exp_guess_range: "\<bar>bl\<bar> \<le> 1164 \<Longrightarrow> \<bar>exp_guess bl\<bar> \<le> 400"
proof -
  assume bl: "\<bar>bl\<bar> \<le> 1164"
  define p where "p = \<bar>bl\<bar> * 5422874305198079"
  have p: "0 \<le> p" "p \<le> 1164 * 5422874305198079" using bl by (simp_all add: p_def)
  then have r: "0 \<le> round53 p" "round53 p \<le> p + 1024" using round53_bounds [of p] by simp_all
  then have "round53 p < 400 * 2 ^ 54" using p by simp
  then have "round53 p div 2 ^ 54 \<le> 400" "0 \<le> round53 p div 2 ^ 54"
    using r(1) by (simp_all add: pos_imp_zdiv_nonneg_iff)
  then show ?thesis by (auto simp: exp_guess_def p_def sgn_if abs_mult)
qed

text \<open>From here on \<open>v\<close> is the value of the double.\<close>

lemma ge_pow10:
  assumes "v = real (unat mant) * 2 powi e2" "mant \<noteq> 0" "\<bar>e2\<bar> \<le> 1100" "p5_ok st" "- 400 \<le> X" "X \<le> 400"
  obtains st1 where "d2_ge_pow10 st mant e2 X = (10 powi X \<le> v, st1)" "p5_ok st1"
  using d2_ge_pow10_val [OF assms(4,2) _ assms(3), of X] assms(1,5,6) by (auto simp: abs_le_iff)

lemma exp_down_val:
  assumes "v = real (unat mant) * 2 powi e2" "mant \<noteq> 0" "\<bar>e2\<bar> \<le> 1100" "10 powi (- 400) \<le> v"
  shows "p5_ok st \<Longrightarrow> - 400 \<le> X \<Longrightarrow> X \<le> 400 \<Longrightarrow>
    \<exists>Y st'. exp_down st mant e2 X = (Y, st') \<and> p5_ok st' \<and> - 400 \<le> Y \<and> Y \<le> 400 \<and> 10 powi Y \<le> v"
  using assms
proof (induction st mant e2 X rule: exp_down.induct)
  case (1 st mant e2 X)
  show ?case
  proof (cases "X > - 400")
    case True
    obtain st1 where g: "d2_ge_pow10 st mant e2 X = (10 powi X \<le> v, st1)" "p5_ok st1"
      by (rule ge_pow10 [OF 1(5-7,2-4)])
    show ?thesis
    proof (cases "10 powi X \<le> v")
      case ge: True
      then show ?thesis using True g 1(3,4) by (simp add: exp_down.simps [of st])
    next
      case ge: False
      then have "exp_down st mant e2 X = exp_down st1 mant e2 (X - 1)"
        using True g by (simp add: exp_down.simps [of st])
      moreover have "\<exists>Y st'. exp_down st1 mant e2 (X - 1) = (Y, st') \<and> p5_ok st' \<and> - 400 \<le> Y \<and> Y \<le> 400 \<and> 10 powi Y \<le> v"
        by (rule 1(1) [OF True g(1) [symmetric] ge g(2) _ _ 1(5-8)]) (use 1(4) True in linarith)+
      ultimately show ?thesis by (simp only:)
    qed
  next
    case False
    then have "X = - 400" using 1(3) by simp
    then show ?thesis using 1(2,8) by (simp add: exp_down.simps [of st])
  qed
qed

lemma exp_up_val:
  assumes "v = real (unat mant) * 2 powi e2" "mant \<noteq> 0" "\<bar>e2\<bar> \<le> 1100" "v < 10 powi 400"
  shows "p5_ok st \<Longrightarrow> - 400 \<le> X \<Longrightarrow> X \<le> 400 \<Longrightarrow> 10 powi X \<le> v \<Longrightarrow>
    \<exists>Y st'. exp_up st mant e2 X = (Y, st') \<and> p5_ok st' \<and> \<bar>Y\<bar> \<le> 400 \<and> 10 powi Y \<le> v \<and> v < 10 powi (Y + 1)"
  using assms
proof (induction st mant e2 X rule: exp_up.induct)
  case (1 st mant e2 X)
  have X: "X < 400"
  proof (rule ccontr)
    assume "\<not> X < 400"
    then have "X = 400" using 1(4) by simp
    with 1(5,9) show False by simp
  qed
  have X1: "- 400 \<le> X + 1" "X + 1 \<le> 400" using 1(3) X by linarith+
  obtain st1 where g: "d2_ge_pow10 st mant e2 (X + 1) = (10 powi (X + 1) \<le> v, st1)" "p5_ok st1"
    by (rule ge_pow10 [OF 1(6-8,2) X1])
  show ?case
  proof (cases "10 powi (X + 1) \<le> v")
    case ge: True
    then have "exp_up st mant e2 X = exp_up st1 mant e2 (X + 1)"
      using X g by (simp add: exp_up.simps [of st])
    moreover have "\<exists>Y st'. exp_up st1 mant e2 (X + 1) = (Y, st') \<and> p5_ok st' \<and> \<bar>Y\<bar> \<le> 400 \<and> 10 powi Y \<le> v \<and> v < 10 powi (Y + 1)"
      by (rule 1(1) [OF X g(1) [symmetric] ge g(2) X1 ge 1(6-9)])
    ultimately show ?thesis by (simp only:)
  next
    case ge: False
    then have "exp_up st mant e2 X = (X, st1)" using X g by (simp add: exp_up.simps [of st])
    then show ?thesis using ge g(2) 1(3,5) X by simp
  qed
qed

lemma find_exp_val:
  assumes "v = real (unat mant) * 2 powi e2" "mant \<noteq> 0" "- 1074 \<le> e2" "e2 \<le> 1000" "p5_ok st"
  obtains X st' where "find_exp st mant e2 = (X, st')" "p5_ok st'" "\<bar>X\<bar> \<le> 400" "10 powi X \<le> v" "v < 10 powi (X + 1)"
proof -
  have wb: "word_bits mant \<le> 64"
  proof (rule ccontr)
    assume "\<not> word_bits mant \<le> 64"
    then have "(2 :: nat) ^ 64 \<le> 2 ^ (word_bits mant - 1)" by (intro power_increasing) auto
    with word_bits_bounds [OF assms(2)] u64_less [of mant] show False by simp
  qed
  have g: "\<bar>exp_guess (e2 + int (word_bits mant))\<bar> \<le> 400"
    using assms(3,4) wb by (intro exp_guess_range) auto
  have one: "1 \<le> real (unat mant)"
  proof -
    have "0 < unat mant" using assms(2) by (simp add: unat_gt_0)
    then show ?thesis by linarith
  qed
  have lo: "10 powi (- 400) \<le> v"
  proof -
    have "(2 :: real) powi (3 * 400) \<le> 10 powi 400" by (rule powi10_two) simp
    then have "inverse (10 powi 400) \<le> inverse ((2 :: real) powi (3 * 400))" by (rule le_imp_inverse_le) simp
    then have "10 powi (- 400) \<le> (2 :: real) powi (- 1200)" by (simp only: power_int_minus) simp
    also have "\<dots> \<le> 2 powi e2" using assms(3) by (intro power_int_increasing) auto
    also have "\<dots> \<le> v" unfolding assms(1) using mult_right_mono [OF one, of "2 powi e2"] by simp
    finally show ?thesis .
  qed
  have hi: "v < 10 powi 400"
  proof -
    have "real (unat mant) < real (2 ^ 64)" using u64_less [of mant] by (simp only: of_nat_less_iff) simp
    then have "real (unat mant) < 2 powi 64" by (simp add: power_int_def)
    then have "v < 2 powi 64 * 2 powi e2" unfolding assms(1) by (intro mult_strict_right_mono) simp_all
    also have "\<dots> = 2 powi (64 + e2)" by (rule powi_split [symmetric])
    also have "\<dots> \<le> 2 powi (3 * 400)" using assms(4) by (intro power_int_increasing) auto
    also have "\<dots> \<le> 10 powi 400" by (rule powi10_two) simp
    finally show ?thesis .
  qed
  have e2: "\<bar>e2\<bar> \<le> 1100" using assms(3,4) by simp
  obtain Y st1 where d: "exp_down st mant e2 (exp_guess (e2 + int (word_bits mant))) = (Y, st1)" "p5_ok st1"
    "- 400 \<le> Y" "Y \<le> 400" "10 powi Y \<le> v"
    using exp_down_val [OF assms(1,2) e2 lo assms(5)] g by (metis abs_le_iff minus_le_iff)
  obtain X st' where u: "exp_up st1 mant e2 Y = (X, st')" "p5_ok st'" "\<bar>X\<bar> \<le> 400" "10 powi X \<le> v" "v < 10 powi (X + 1)"
    using exp_up_val [OF assms(1,2) e2 hi d(2-5)] by blast
  have "find_exp st mant e2 = (X, st')" by (simp add: find_exp_def d(1) u(1))
  with u show thesis by (intro that)
qed

section \<open>The digits\<close>

text \<open>The scaled number has the digits asked for, or is the next power of ten.\<close>

lemma rne_mono_int:
  assumes "real a \<le> y" "y \<le> real b"
  shows "int a \<le> rne y" "rne y \<le> int b"
proof -
  have "\<bar>of_int (rne y) - y\<bar> \<le> 1 / 2" by (rule rne_bounds)
  then have "real a - 1 / 2 \<le> of_int (rne y)" "of_int (rne y) \<le> real b + 1 / 2" using assms by linarith+
  then show "int a \<le> rne y" "rne y \<le> int b" by linarith+
qed

lemma powi10_nat: "0 \<le> k \<Longrightarrow> (10 :: real) powi k = real (10 ^ nat k)"
  by (simp add: power_int_def)

lemma scaled_digits:
  assumes "10 powi X \<le> v" "v < 10 powi (X + 1)" "0 \<le> p" "int n = rne (v * 10 powi (p - X))"
  shows "10 ^ nat p \<le> n" "n \<le> 10 ^ (nat p + 1)"
proof -
  have "10 powi X * 10 powi (p - X) \<le> v * 10 powi (p - X)" "v * 10 powi (p - X) \<le> 10 powi (X + 1) * 10 powi (p - X)"
    using assms(1,2) by (simp_all add: mult_right_mono)
  moreover have "(10 :: real) powi X * 10 powi (p - X) = real (10 ^ nat p)"
    using powi10_nat [OF assms(3)] by (simp flip: power_int_add)
  moreover have "(10 :: real) powi (X + 1) * 10 powi (p - X) = real (10 ^ (nat p + 1))"
    using powi10_nat [of "p + 1"] assms(3) by (simp add: nat_add_distrib add.commute flip: power_int_add)
  ultimately show "10 ^ nat p \<le> n" "n \<le> 10 ^ (nat p + 1)"
    using rne_mono_int [of "10 ^ nat p" "v * 10 powi (p - X)" "10 ^ (nat p + 1)"]
    unfolding assms(4) [symmetric] of_nat_le_iff by (simp_all only:)
qed

lemma length_dec_nat_eq: "10 ^ k \<le> n \<Longrightarrow> n < 10 ^ (k + 1) \<Longrightarrow> length (dec_nat n) = k + 1"
proof (induction k arbitrary: n)
  case 0
  then show ?case by (simp add: dec_nat.simps [of n])
next
  case (Suc k)
  have "(1 :: nat) \<le> 10 ^ k" by simp
  moreover have "10 * 10 ^ k \<le> n" using Suc.prems(1) by simp
  ultimately have n: "\<not> n < 10" by linarith
  have "length (dec_nat (n div 10)) = k + 1"
    using Suc.prems by (intro Suc.IH) (simp_all add: less_mult_imp_div_less mult.commute div_le_mono [of "10 * 10 ^ k" n 10, simplified])
  then show ?case using n by (simp add: dec_nat.simps [of n])
qed

lemma dec_nat_pow10: "dec_nat (10 ^ k) = 49 # replicate k ch_0"
proof (induction k)
  case (Suc k)
  have "(1 :: nat) \<le> 10 ^ k" by simp
  then have "\<not> (10 :: nat) * 10 ^ k < 10" by linarith
  then show ?case
    using Suc by (simp add: dec_nat.simps [of "10 * 10 ^ k"] replicate_append_same)
qed (simp add: dec_nat.simps [of "Suc 0"])

section \<open>The text is a literal\<close>

lemma digits_val_zeros: "digits_val (replicate n ch_0) = 0"
proof (induction n)
  case (Suc n)
  have "digit_val ch_0 = 0" using digit_val_digit [of 0] by simp
  with Suc show ?case by (simp add: digits_val_Cons)
qed simp

lemma zeros_digits: "list_all is_digit (replicate n ch_0)"
  using is_digit_digit [of 0] by (simp add: list_all_iff)

text \<open>
  \<open>prints t u m k\<close>: the text is a literal without spaces and sign, of value \<open>m * 10^k\<close> and with at
  most \<open>u\<close> digits.
\<close>

definition prints :: "cstr \<Rightarrow> nat \<Rightarrow> nat \<Rightarrow> int \<Rightarrow> bool" where
  "prints t u m k \<longleftrightarrow>
     (\<exists>l. t = lit_text l \<and> lit_ok l \<and> l_space l = [] \<and> l_sign l = [] \<and>
        length (l_int l @ frac_of l) \<le> u \<and> lit_value l = real m * 10 powi k)"

text \<open>An integer part, the digits after the point, and an exponent.\<close>

definition the_lit :: "cstr \<Rightarrow> cstr \<Rightarrow> (u8 \<times> cstr \<times> cstr) option \<Rightarrow> lit" where
  "the_lit i f x = \<lparr>l_space = [], l_sign = [], l_int = i, l_frac = (if f = [] then None else Some f), l_exp = x\<rparr>"

lemma the_lit_fields [simp]:
  "l_space (the_lit i f x) = []" "l_sign (the_lit i f x) = []" "l_int (the_lit i f x) = i"
  "frac_of (the_lit i f x) = f" "l_exp (the_lit i f x) = x"
  by (simp_all add: the_lit_def frac_of_def)

lemma the_lit_text:
  "lit_text (the_lit i f x) = i @ (if f = [] then [] else ch_dot # f) @
     (case x of None \<Rightarrow> [] | Some (m, sg, ds) \<Rightarrow> m # sg @ ds)"
  by (simp add: lit_text_def the_lit_def)

lemma prints_plain:
  assumes "t = i @ (if f = [] then [] else ch_dot # f)" "list_all is_digit (i @ f)" "i \<noteq> []"
    "length (i @ f) \<le> u" "real m * 10 powi k = real (digits_val (i @ f)) * 10 powi (- int (length f))"
  shows "prints t u m k"
  unfolding prints_def
proof (intro exI [of _ "the_lit i f None"] conjI)
  show "lit_value (the_lit i f None) = real m * 10 powi k"
    unfolding lit_value_def assms(5) by (simp add: exp_of_def)
qed (use assms(1-4) in \<open>auto simp: the_lit_text lit_ok_def sign_ok_def\<close>)

lemma fmt_exp_parts:
  assumes "\<bar>xe\<bar> < 1000"
  obtains sg ds where "fmt_exp up xe = (if up then 69 else 101) # sg @ ds" "sign_ok sg" "sg = [ch_minus] \<longleftrightarrow> xe < 0"
    "ds \<noteq> []" "list_all is_digit ds" "int (digits_val ds) = \<bar>xe\<bar>"
proof -
  define e where "e = nat \<bar>xe\<bar>"
  define dg :: "nat \<Rightarrow> u8" where "dg n = ch_0 + of_nat n" for n
  define ds where "ds = (if e div 100 > 0 then [dg (e div 100)] else []) @ [dg (e div 10 mod 10), dg (e mod 10)]"
  have e: "e div 100 < 10" using assms by (simp add: e_def)
  have d: "is_digit (dg n)" "digit_val (dg n) = n" if "n < 10" for n
    using that by (simp_all add: dg_def)
  have dv: "digits_val [x, y] = 10 * digit_val x + digit_val y" "digits_val [x, y, z] = 100 * digit_val x + 10 * digit_val y + digit_val z" for x y z
    by (simp_all add: digits_val_def)
  have split: "e div 100 * 100 + e div 10 mod 10 * 10 + e mod 10 = e"
  proof -
    have "e div 100 = e div 10 div 10" using div_mult2_eq [of e 10 10] by simp
    with div_mult_mod_eq [of e 10] div_mult_mod_eq [of "e div 10" 10] show ?thesis by linarith
  qed
  have v: "digits_val ds = e"
  proof (cases "0 < e div 100")
    case True
    then have "digits_val ds = 100 * (e div 100) + 10 * (e div 10 mod 10) + e mod 10"
      unfolding ds_def using e by (simp add: dv d)
    with split show ?thesis by simp
  next
    case False
    then have "digits_val ds = 10 * (e div 10 mod 10) + e mod 10"
      unfolding ds_def by (simp add: dv d)
    with split False show ?thesis by simp
  qed
  have dig: "list_all is_digit ds" "ds \<noteq> []" using e by (simp_all add: ds_def d)
  have "fmt_exp up xe = (if up then 69 else 101) # (if xe < 0 then [ch_minus] else [ch_plus]) @ ds"
    by (simp add: fmt_exp_def Let_def ds_def dg_def e_def)
  moreover have "sign_ok (if xe < 0 then [ch_minus] else [ch_plus])" by (simp add: sign_ok_def)
  moreover have "(if xe < 0 then [ch_minus] else [ch_plus]) = [ch_minus] \<longleftrightarrow> xe < 0" by simp
  moreover have "int (digits_val ds) = \<bar>xe\<bar>" by (simp add: v e_def)
  ultimately show thesis using dig by (intro that [of "if xe < 0 then [ch_minus] else [ch_plus]" ds])
qed

lemma prints_sci:
  assumes "list_all is_digit dig" "dig \<noteq> []" "ecap \<le> length dig" "0 < ecap" "\<bar>X\<bar> < 1000"
  shows "prints (fmt_sci up dig ecap X) ecap (digits_val (take ecap dig)) (X + 1 - int ecap)"
proof -
  obtain d ds where dig: "dig = d # ds" using assms(2) by (cases dig) auto
  obtain n where n: "ecap = Suc n" using assms(4) by (cases ecap) auto
  obtain sg es where x: "fmt_exp up X = (if up then 69 else 101) # sg @ es" "sign_ok sg" "sg = [ch_minus] \<longleftrightarrow> X < 0"
    "es \<noteq> []" "list_all is_digit es" "int (digits_val es) = \<bar>X\<bar>"
    by (rule fmt_exp_parts [OF assms(5)])
  define l where "l = the_lit [d] (take n ds) (Some (if up then 69 else 101, sg, es))"
  have dd: "is_digit d" "list_all is_digit (take n ds)" using assms(1) dig by (auto simp: list_all_iff dest: in_set_takeD)
  have len: "length (take n ds) = n" using assms(3) dig n by simp
  have "exp_of l = X" using x(3,6) by (auto simp: l_def exp_of_def)
  moreover have "d # take n ds = take ecap dig" by (simp add: dig n)
  ultimately have v: "lit_value l = real (digits_val (take ecap dig)) * 10 powi (X + 1 - int ecap)"
    using len by (simp add: lit_value_def l_def n)
  have t: "fmt_sci up dig ecap X = lit_text l"
    using len by (auto simp: fmt_sci_def dig n l_def the_lit_text x(1))
  have ok: "lit_ok l" using dd x(2,4,5) by (simp add: lit_ok_def l_def) (simp add: sign_ok_def)
  show ?thesis unfolding prints_def
    by (intro exI [of _ l] conjI t ok v) (use len n in \<open>simp_all add: l_def\<close>)
qed

lemma prints_fixed:
  assumes "list_all is_digit dig" "dig \<noteq> []" "0 \<le> prec"
  shows "prints (fmt_fixed dig prec) (length dig + nat prec + 1) (digits_val dig) (- prec)"
proof (cases "int (length dig) \<le> prec")
  case True
  define f where "f = replicate (nat (prec - int (length dig))) ch_0 @ dig"
  have f: "f \<noteq> []" "length f = nat prec" using assms(2) True by (simp_all add: f_def)
  have "0 < prec" using True assms(2) by (cases dig) simp_all
  then have "fmt_fixed dig prec = [ch_0] @ (if f = [] then [] else ch_dot # f)"
    using True f(1) by (simp add: fmt_fixed_def zeros_txt_def f_def)
  moreover have "digits_val ([ch_0] @ f) = digits_val dig"
    unfolding f_def digits_val_append digits_val_zeros by simp (use digits_val_zeros [of 1] in simp)
  moreover have "list_all is_digit ([ch_0] @ f)" using assms(1) zeros_digits zeros_digits [of 1] by (simp add: f_def)
  ultimately show ?thesis using f(2) assms(3) by (intro prints_plain [of _ "[ch_0]" f]) simp_all
next
  case False
  define n where "n = nat (int (length dig) - prec)"
  have n: "0 < n" "n \<le> length dig" "length (drop n dig) = nat prec" using False assms(3) by (simp_all add: n_def)
  have "fmt_fixed dig prec = take n dig @ (if drop n dig = [] then [] else ch_dot # drop n dig)"
    using False n(3) assms(3) by (cases "prec = 0") (simp_all add: fmt_fixed_def n_def [symmetric])
  with n assms show ?thesis by (intro prints_plain [of _ "take n dig" "drop n dig"]) simp_all
qed

lemma prints_plain_g:
  assumes "list_all is_digit dig" "dig \<noteq> []"
  shows "prints (fmt_plain dig X) (max (length dig) (nat (X + 1)) + nat (- X) + 1) (digits_val dig) (X + 1 - int (length dig))"
proof (cases "0 \<le> X")
  case True
  define n where "n = nat (X + 1)"
  define z where "z = nat (X + 1 - int (length dig))"
  define i where "i = take n dig @ replicate z ch_0"
  have n: "int n = X + 1" "0 < n" using True by (simp_all add: n_def)
  have z: "z = n - length dig" using True by (simp add: z_def n_def nat_diff_distrib)
  have t: "fmt_plain dig X = i @ (if drop n dig = [] then [] else ch_dot # drop n dig)"
    using True n by (simp add: fmt_plain_def zeros_txt_def i_def n_def [symmetric] z_def [symmetric])
  have ok: "list_all is_digit (i @ drop n dig)"
    using assms(1) zeros_digits [of z] by (simp add: i_def) (auto simp: list_all_iff dest: in_set_takeD in_set_dropD)
  have ne: "i \<noteq> []" using n(2) assms(2) by (simp add: i_def)
  have len: "length (i @ drop n dig) \<le> max (length dig) (nat (X + 1)) + nat (- X) + 1"
    unfolding n_def [symmetric] by (simp add: i_def z)
  have v: "real (digits_val dig) * 10 powi (X + 1 - int (length dig)) =
    real (digits_val (i @ drop n dig)) * 10 powi (- int (length (drop n dig)))"
  proof (cases "n \<le> length dig")
    case n': True
    then have "i @ drop n dig = dig" "int (length (drop n dig)) = int (length dig) - (X + 1)"
      using z n(1) by (simp_all add: i_def)
    then show ?thesis by simp
  next
    case False
    then have "i @ drop n dig = dig @ replicate z ch_0" "X + 1 - int (length dig) = int z" "length (drop n dig) = 0"
      using z n(1) by (simp_all add: i_def)
    then show ?thesis by (simp add: digits_val_append digits_val_zeros)
  qed
  show ?thesis by (rule prints_plain [OF t ok ne len v])
next
  case False
  define f where "f = replicate (nat (- X - 1)) ch_0 @ dig"
  have t: "fmt_plain dig X = [ch_0] @ (if f = [] then [] else ch_dot # f)"
    using False assms(2) by (simp add: fmt_plain_def zeros_txt_def f_def)
  have dv: "digits_val ([ch_0] @ f) = digits_val dig"
    unfolding f_def digits_val_append digits_val_zeros by simp (use digits_val_zeros [of 1] in simp)
  have ok: "list_all is_digit ([ch_0] @ f)" using assms(1) zeros_digits zeros_digits [of 1] by (simp add: f_def)
  have len: "int (length f) = int (length dig) - X - 1" using False by (simp add: f_def)
  show ?thesis
    by (rule prints_plain [OF t ok]) (use len False in \<open>simp_all add: dv del: append.simps\<close>, simp_all add: algebra_simps)
qed

section \<open>Trailing zeros\<close>

lemma strip_zeros_val:
  assumes "dig \<noteq> []" "list_all is_digit dig"
  obtains k where "dig = strip_zeros dig @ replicate k ch_0" "list_all is_digit (strip_zeros dig)" "strip_zeros dig \<noteq> []"
proof -
  obtain d ds where dig: "dig = d # ds" using assms(1) by (cases dig) auto
  have "rev ds = takeWhile (\<lambda>c. c = ch_0) (rev ds) @ dropWhile (\<lambda>c. c = ch_0) (rev ds)" by simp
  then have "ds = rev (dropWhile (\<lambda>c. c = ch_0) (rev ds)) @ rev (takeWhile (\<lambda>c. c = ch_0) (rev ds))"
    by (metis rev_append rev_rev_ident)
  moreover have "rev (takeWhile (\<lambda>c. c = ch_0) (rev ds)) = replicate (length (takeWhile (\<lambda>c. c = ch_0) (rev ds))) ch_0"
    by (subst replicate_length_same [symmetric]) (auto dest: set_takeWhileD simp: replicate_length_same)
  ultimately have "ds = rev (dropWhile (\<lambda>c. c = ch_0) (rev ds)) @ replicate (length (takeWhile (\<lambda>c. c = ch_0) (rev ds))) ch_0"
    by metis
  then have "dig = strip_zeros dig @ replicate (length (takeWhile (\<lambda>c. c = ch_0) (rev ds))) ch_0"
    by (simp add: strip_zeros_def dig)
  moreover from this have "list_all is_digit (strip_zeros dig)"
    using assms(2) by (metis list_all_append)
  ultimately show thesis by (rule that) (simp add: strip_zeros_def)
qed

lemma prints_cong: "prints t u m k \<Longrightarrow> real m * 10 powi k = real m' * 10 powi k' \<Longrightarrow> u \<le> u' \<Longrightarrow> prints t u' m' k'"
  unfolding prints_def by fastforce

lemma zeros_moved:
  assumes "dig = d @ replicate k ch_0"
  shows "real (digits_val d) * 10 powi (X + 1 - int (length d)) = real (digits_val dig) * 10 powi (X + 1 - int (length dig))"
proof -
  have "real (digits_val dig) = real (digits_val d) * 10 powi (int k)"
    unfolding assms digits_val_append digits_val_zeros by simp
  then have "real (digits_val dig) * 10 powi (X + 1 - int (length dig)) =
      real (digits_val d) * (10 powi (int k) * 10 powi (X + 1 - int (length dig)))" by simp
  also have "10 powi (int k) * 10 powi (X + 1 - int (length dig)) = (10 :: real) powi (X + 1 - int (length d))"
    by (subst power_int_add [symmetric]) (simp_all add: assms algebra_simps)
  finally show ?thesis by simp
qed

section \<open>The text of a nonzero double\<close>

text \<open>The place at which a style and a precision round a number whose leading digit has exponent \<open>X\<close>.\<close>

definition fmt_place :: "int \<Rightarrow> u8 \<Rightarrow> int \<Rightarrow> int" where
  "fmt_place prec style X = (if is_f style then prec else if is_e style then prec - X else prec - 1 - X)"

lemma styles: "is_f c \<Longrightarrow> \<not> is_e c" "is_f c \<Longrightarrow> \<not> is_g c" "is_e c \<Longrightarrow> \<not> is_g c"
  by (auto simp: is_f_def is_e_def is_g_def)

text \<open>The digits of a number rounded to \<open>sig\<close> digits: as many, or one more if it is the next power of ten.\<close>

lemma sig_digits:
  assumes "10 powi X \<le> v" "v < 10 powi (X + 1)" "0 < sig" "int n = rne (v * 10 powi (int sig - 1 - X))"
  obtains k where "length (dec_nat n) = sig + k" "k \<le> 1" "dec_nat n = take sig (dec_nat n) @ replicate k ch_0"
proof -
  have p: "0 \<le> int sig - 1" "nat (int sig - 1) = sig - 1" using assms(3) by simp_all
  have n: "10 ^ (sig - 1) \<le> n" "n \<le> 10 ^ sig"
    using scaled_digits [OF assms(1,2) p(1) assms(4)] assms(3) unfolding p(2) by simp_all
  show thesis
  proof (cases "n = 10 ^ sig")
    case True
    then have "dec_nat n = 49 # replicate sig ch_0" by (simp add: dec_nat_pow10)
    moreover from assms(3) obtain m where m: "sig = Suc m" by (cases sig) auto
    moreover have "take (Suc m) (49 # replicate (Suc m) ch_0) @ replicate 1 ch_0 = 49 # replicate (Suc m) ch_0"
      by (simp only: take_Suc_Cons take_replicate) (simp add: replicate_append_same)
    ultimately show thesis using that [of 1] by (simp only:) simp
  next
    case False
    then have "length (dec_nat n) = sig" using n assms(3) length_dec_nat_eq [of "sig - 1" n] by simp
    then show thesis using that [of 0] by simp
  qed
qed

lemma prints_rounded_e:
  assumes "10 powi X \<le> v" "v < 10 powi (X + 1)" "\<bar>X\<bar> \<le> 400" "0 < sig" "int n = rne (v * 10 powi (int sig - 1 - X))"
  shows "prints (fmt_sci up (dec_nat n) sig (if length (dec_nat n) = sig + 1 then X + 1 else X)) sig n (X + 1 - int sig)"
proof -
  obtain k where k: "length (dec_nat n) = sig + k" "k \<le> 1" "dec_nat n = take sig (dec_nat n) @ replicate k ch_0"
    by (rule sig_digits [OF assms(1,2,4,5)])
  have X: "(if length (dec_nat n) = sig + 1 then X + 1 else X) = X + int k" using k(1,2) by auto
  have len: "length (take sig (dec_nat n)) = sig" using k(1) by simp
  have "real (digits_val (take sig (dec_nat n))) * 10 powi (X + int k + 1 - int sig) =
      real n * 10 powi (X + 1 - int sig)"
  proof -
    have "X + int k + 1 - int (sig + k) = X + 1 - int sig" by simp
    with zeros_moved [OF k(3), of "X + int k"] show ?thesis unfolding len k(1) digits_val_dec_nat by (simp only:)
  qed
  moreover have "prints (fmt_sci up (dec_nat n) sig (X + int k)) sig (digits_val (take sig (dec_nat n))) (X + int k + 1 - int sig)"
    using assms(3,4) k(1,2) by (intro prints_sci dec_nat_digits) auto
  ultimately show ?thesis unfolding X by (elim prints_cong) simp_all
qed

lemma prints_rounded_g:
  assumes "10 powi X \<le> v" "v < 10 powi (X + 1)" "\<bar>X\<bar> \<le> 400" "0 < sig" "sig \<le> 1080"
    "int n = rne (v * 10 powi (int sig - 1 - X))"
    "X' = (if length (dec_nat n) = sig + 1 then X + 1 else X)" "d = strip_zeros (dec_nat n)"
  shows "prints (fmt_sci up d (length d) X') 1100 n (X + 1 - int sig)"
    "\<not> X' < - 4 \<Longrightarrow> \<not> X' \<ge> int sig \<Longrightarrow> prints (fmt_plain d X') 1100 n (X + 1 - int sig)"
proof -
  obtain k where k: "length (dec_nat n) = sig + k" "k \<le> 1"
    by (rule sig_digits [OF assms(1,2,4,6)])
  have X: "X' = X + int k" using k assms(7) by auto
  obtain j where j: "dec_nat n = d @ replicate j ch_0" "list_all is_digit d" "d \<noteq> []"
    unfolding assms(8) by (rule strip_zeros_val [OF dec_nat_nonempty dec_nat_digits])
  have len: "length d \<le> sig + 1" using k arg_cong [OF j(1), of length] by simp
  have v: "real (digits_val d) * 10 powi (X' + 1 - int (length d)) = real n * 10 powi (X + 1 - int sig)"
  proof -
    have "X' + 1 - int (sig + k) = X + 1 - int sig" by (simp add: X)
    with zeros_moved [OF j(1), of X'] show ?thesis unfolding digits_val_dec_nat k(1) by (simp only:)
  qed
  have "prints (fmt_sci up d (length d) X') (length d) (digits_val (take (length d) d)) (X' + 1 - int (length d))"
    using assms(3) k(2) j(3) X by (intro prints_sci j(2,3)) auto
  then show "prints (fmt_sci up d (length d) X') 1100 n (X + 1 - int sig)"
    by (rule prints_cong) (use v len assms(5) in simp_all)
  assume "\<not> X' < - 4" "\<not> X' \<ge> int sig"
  then have "max (length d) (nat (X' + 1)) + nat (- X') + 1 \<le> 1100" using len assms(5) by linarith
  then show "prints (fmt_plain d X') 1100 n (X + 1 - int sig)"
    by (rule prints_cong [OF prints_plain_g [OF j(2,3)] v])
qed

lemma fmt_nonzero_val:
  assumes "v = real (unat mant) * 2 powi e2" "mant \<noteq> 0" "- 1074 \<le> e2" "e2 \<le> 1000" "p5_ok st"
    "is_f style \<or> is_e style \<or> is_g style" "0 \<le> prec" "prec \<le> 1080" "is_g style \<longrightarrow> 0 < prec"
  shows "\<exists>t st' n X u. fmt_nonzero st mant e2 prec style = Some (t, st') \<and> p5_ok st' \<and>
    10 powi X \<le> v \<and> v < 10 powi (X + 1) \<and> int n = rne (v * 10 powi (fmt_place prec style X)) \<and>
    prints t u n (- fmt_place prec style X) \<and> (\<not> is_f style \<longrightarrow> u = 1100)"
proof -
  obtain X st1 where fe: "find_exp st mant e2 = (X, st1)" "p5_ok st1" "\<bar>X\<bar> \<le> 400" "10 powi X \<le> v" "v < 10 powi (X + 1)"
    by (rule find_exp_val [OF assms(1-5)])
  define s where "s = fmt_place prec style X"
  have s: "\<bar>s\<bar> \<le> 1500" using fe(3) assms(7,8) by (auto simp: s_def fmt_place_def)
  have down: "10 powi (- s) \<le> real (unat mant) * 2 powi e2" if "s < 0"
  proof -
    have "- s \<le> X" using that assms(7,9) assms(6) by (auto simp: s_def fmt_place_def)
    then have "(10 :: real) powi (- s) \<le> 10 powi X" by (intro power_int_increasing) simp_all
    with fe(4) show ?thesis unfolding assms(1) by linarith
  qed
  have e2: "\<bar>e2\<bar> \<le> 1100" using assms(3,4) by simp
  obtain q st' where q: "d2_round_pow10 st1 mant e2 s = Some (q, st')" "p5_ok st'" "trimmed q"
      "int (limbs_val q) = rne (v * 10 powi s)"
    using d2_round_pow10_val [OF fe(2) assms(2) e2 s down] unfolding assms(1) by blast
  define n where "n = limbs_val q"
  have dig: "d2_digits q = dec_nat n" using d2_digits_val [OF q(3)] by (simp add: n_def)
  have nv: "int n = rne (v * 10 powi s)" using q(4) by (simp add: n_def)
  have "\<exists>t u. fmt_nonzero st mant e2 prec style = Some (t, st') \<and> prints t u n (- s) \<and> (\<not> is_f style \<longrightarrow> u = 1100)"
  proof (cases "is_f style")
    case True
    then have sp: "s = prec" by (simp add: s_def fmt_place_def)
    have "fmt_nonzero st mant e2 prec style = Some (fmt_fixed (dec_nat n) prec, st')"
      using fe(1) q(1) True by (simp add: fmt_nonzero_def dig sp)
    then show ?thesis using prints_fixed [OF dec_nat_digits dec_nat_nonempty assms(7), of n] True sp by auto
  next
    case f: False
    define sig where "sig = nat (if is_e style then prec + 1 else prec)"
    have sig: "0 < sig" "sig \<le> 1081" "int sig = (if is_e style then prec + 1 else prec)" "s = int sig - 1 - X"
      using assms(6-9) f by (auto simp: sig_def s_def fmt_place_def)
    define X' where "X' = (if length (dec_nat n) = sig + 1 then X + 1 else X)"
    define up where "up \<longleftrightarrow> style = 69 \<or> style = 71"
    have step: "fmt_nonzero st mant e2 prec style =
      (let dig' = (if is_g style then strip_zeros (dec_nat n) else dec_nat n)
       in Some (if \<not> is_g style \<or> X' < - 4 \<or> X' \<ge> int sig
                then fmt_sci up dig' (if is_e style then sig else length dig') X' else fmt_plain dig' X', st'))"
    proof -
      have X': "X' = (if int (length (dec_nat n)) = int sig + 1 then X + 1 else X)" by (auto simp: X'_def)
      show ?thesis
        using f by (simp only: fmt_nonzero_def fe(1) prod.case if_False Let_def sig(3) [symmetric] sig(4) [symmetric]
          q(1) option.map dig X' [symmetric] up_def [symmetric] nat_int)
    qed
    note rd = fe(4,5,3) sig(1)
    have ns: "int n = rne (v * 10 powi (int sig - 1 - X))" "- s = X + 1 - int sig" using nv sig(4) by simp_all
    show ?thesis
    proof (cases "is_e style")
      case True
      have "prints (fmt_sci up (dec_nat n) sig X') 1100 n (- s)"
        using prints_cong [OF prints_rounded_e [OF rd ns(1)]] sig(2) unfolding X'_def ns(2) by simp
      then show ?thesis using True styles(3) [OF True] unfolding step by (auto simp: Let_def)
    next
      case False
      then have g: "is_g style" "sig \<le> 1080" using assms(6,8) f sig(3) by auto
      note pg = prints_rounded_g [OF rd g(2) ns(1) X'_def refl, folded ns(2)]
      show ?thesis using False g(1) pg unfolding step by (auto simp: Let_def)
    qed
  qed
  then show ?thesis using q(2) fe(4,5) nv unfolding s_def by blast
qed

section \<open>The fields of a double\<close>

lemma signed_bits_val:
  assumes "b < inf_bits"
  shows "unat (signed_bits neg (of_nat b)) = b + (if neg then 9223372036854775808 else 0)"
proof -
  have b: "unat (of_nat b :: u64) = b" "b < 2 ^ 63" using assms by (simp_all add: inf_bits_def unat_of_nat)
  have p: "unat (push_bit 63 1 :: u64) = push_bit 63 1" by (simp add: push_bit_eq_mult)
  have "unat (of_nat b OR push_bit 63 1 :: u64) = push_bit 63 1 OR b"
    unfolding unsigned_or_eq p b(1) by (rule or.commute)
  also have "\<dots> = 1 * 2 ^ 63 + b" by (rule or_add [OF b(2)])
  finally show ?thesis using b(1) by (simp add: signed_bits_def)
qed

lemma double_fields:
  assumes "b < inf_bits" "v = signed_bits neg (of_nat b)"
  shows "drop_bit 63 v \<noteq> 0 \<longleftrightarrow> neg" "unat (drop_bit 52 v AND 2047) = b div 4503599627370496"
    "unat (v AND (push_bit 52 1 - 1)) = b mod 4503599627370496" "b div 4503599627370496 < 2047"
proof -
  have v: "unat v = b + (if neg then 9223372036854775808 else 0)"
    unfolding assms(2) by (rule signed_bits_val [OF assms(1)])
  have b: "b < 9218868437227405312" using assms(1) by (simp add: inf_bits_def)
  then show d: "b div 4503599627370496 < 2047" by (simp add: less_mult_imp_div_less)
  have "unat (drop_bit 63 v) = (if neg then 1 else 0)" using v b by (simp only: unat_drop_bit_eq) (auto simp: drop_bit_eq_div)
  then show "drop_bit 63 v \<noteq> 0 \<longleftrightarrow> neg" by (auto simp: unat_eq_zero [symmetric] split: if_splits)
  have "(2047 :: u64) = mask 11" by (simp add: mask_eq_exp_minus_1)
  then have "unat (drop_bit 52 v AND 2047) = unat v div 4503599627370496 mod 2048"
    by (simp only: take_bit_eq_mask [symmetric] unsigned_take_bit_eq unat_drop_bit_eq) (simp add: drop_bit_eq_div take_bit_eq_mod)
  also have "\<dots> = b div 4503599627370496"
  proof -
    have "(b + 2048 * 4503599627370496) div 4503599627370496 = 2048 + b div 4503599627370496" by (rule div_mult_self1) simp
    then show ?thesis using d by (simp add: v)
  qed
  finally show "unat (drop_bit 52 v AND 2047) = b div 4503599627370496" .
  have "unat v mod 4503599627370496 = b mod 4503599627370496" unfolding v by (cases neg) (simp_all add: mod_add_eq [symmetric])
  then show "unat (v AND (push_bit 52 1 - 1)) = b mod 4503599627370496" by (simp only: frac_bits)
qed

text \<open>The number of digits asked for, as the code reads it.\<close>

definition fmt_prec :: "int \<Rightarrow> u8 \<Rightarrow> int" where
  "fmt_prec prec style =
     (let p = (if prec < 0 then 6 else min prec 1080) in if is_g style then max 1 p else p)"

lemma mant_val:
  assumes "b < inf_bits" "0 < b" "v = signed_bits neg (of_nat b)"
    "be = b div 4503599627370496" "fr = v AND (push_bit 52 1 - 1)"
    "mant = (if be = 0 then fr else fr OR push_bit 52 1)" "e2 = (if be = 0 then - 1074 else int be - 1075)"
  shows "mag_val b = real (unat mant) * 2 powi e2" "mant \<noteq> 0" "- 1074 \<le> e2" "e2 \<le> 1000"
proof -
  note f = double_fields [OF assms(1,3)]
  have fr: "unat fr = b mod 4503599627370496" using f(3) by (simp add: assms(5))
  have m: "unat mant = (if be = 0 then b mod 4503599627370496 else b mod 4503599627370496 + 4503599627370496)"
    using field_bits [of 1 "b mod 4503599627370496" fr] fr by (simp add: assms(6) or.commute)
  show "mag_val b = real (unat mant) * 2 powi e2"
    unfolding mag_val_def assms(4) [symmetric] m by (simp add: Let_def assms(7))
  have "0 < unat mant"
    using assms(2,4) m div_mult_mod_eq [of b 4503599627370496] by (cases "be = 0") auto
  then show "mant \<noteq> 0" by (simp add: unat_gt_0)
  show "- 1074 \<le> e2" "e2 \<le> 1000" using f(4) by (simp_all add: assms(4,7))
qed

lemma zan_fmt_double_prints:
  assumes "p5_ok st" "b < inf_bits" "0 < b" "is_f style \<or> is_e style \<or> is_g style"
  shows "\<exists>t st' n X u. zan_fmt_double st (signed_bits neg (of_nat b)) prec style =
        Some ((if neg then [ch_minus] else []) @ t, st') \<and> p5_ok st' \<and>
    10 powi X \<le> mag_val b \<and> mag_val b < 10 powi (X + 1) \<and>
    int n = rne (mag_val b * 10 powi (fmt_place (fmt_prec prec style) style X)) \<and>
    prints t u n (- fmt_place (fmt_prec prec style) style X) \<and> (\<not> is_f style \<longrightarrow> u = 1100)"
proof -
  define v where "v = signed_bits neg (of_nat b)"
  define be where "be = b div 4503599627370496"
  define fr where "fr = v AND (push_bit 52 1 - 1)"
  define mant where "mant = (if be = 0 then fr else fr OR push_bit 52 1)"
  define e2 where "e2 = (if be = 0 then - 1074 else int be - 1075)"
  define p where "p = (if prec < 0 then 6 else if prec > 1080 then 1080 else prec)"
  note f = double_fields [OF assms(2) v_def, folded be_def]
  note m = mant_val [OF assms(2,3) v_def be_def fr_def mant_def e2_def]
  have p: "(if is_g style \<and> p = 0 then 1 else p) = fmt_prec prec style" by (auto simp: fmt_prec_def p_def)
  have pb: "0 \<le> fmt_prec prec style" "fmt_prec prec style \<le> 1080" "is_g style \<longrightarrow> 0 < fmt_prec prec style"
    by (auto simp: fmt_prec_def)
  have "zan_fmt_double st v prec style =
      map_option (\<lambda>(t, st1). ((if neg then [ch_minus] else []) @ t, st1)) (fmt_nonzero st mant e2 (fmt_prec prec style) style)"
    using less_imp_neq [OF f(4)] m(2) by (simp only: zan_fmt_double_def Let_def f(1,2) fr_def [symmetric] mant_def [symmetric]
      e2_def [symmetric] p_def [symmetric] p if_False simp_thms)
  with fmt_nonzero_val [OF m assms(1,4) pb] show ?thesis unfolding v_def [symmetric] by fastforce
qed

text \<open>Zero, with its sign.\<close>

lemma zan_fmt_double_zero:
  assumes "is_f style \<or> is_e style \<or> is_g style"
  shows "\<exists>t u. zan_fmt_double st (signed_bits neg 0) prec style = Some ((if neg then [ch_minus] else []) @ t, st) \<and>
    prints t u 0 0 \<and> (\<not> is_f style \<longrightarrow> u = 1100)"
proof -
  define v where "v = signed_bits neg (of_nat 0)"
  define p where "p = (if prec < 0 then 6 else if prec > 1080 then 1080 else prec)"
  have p: "0 \<le> p" "p \<le> 1080" by (simp_all add: p_def)
  have "0 < inf_bits" by (simp add: inf_bits_def)
  note f = double_fields [OF this v_def]
  have "unat (v AND (push_bit 52 1 - 1)) = 0" unfolding f(3) by simp
  then have fr: "v AND (push_bit 52 1 - 1) = 0" by (simp only: unat_eq_zero)
  have zan: "zan_fmt_double st v prec style = Some ((if neg then [ch_minus] else []) @ fmt_zero p style, st)"
    by (simp only: zan_fmt_double_def Let_def f(1,2) fr p_def [symmetric]) simp
  have d: "is_digit ch_0" "digit_val ch_0 = 0" using is_digit_digit [of 0] digit_val_digit [of 0] by simp_all
  have dz: "digits_val (replicate k ch_0 @ q) = digits_val q" for k q
    by (simp add: digits_val_append digits_val_zeros)
  have "\<exists>u. prints (fmt_zero p style) u 0 0 \<and> (\<not> is_f style \<longrightarrow> u = 1100)"
  proof (cases "is_e style")
    case True
    define l where "l = (the_lit [ch_0] [] (Some (if style = 69 then 69 else 101, [ch_plus], [ch_0, ch_0])))
        \<lparr>l_frac := Some (zeros_txt p)\<rparr>"
    have fr: "frac_of l = replicate (nat p) ch_0" by (simp add: frac_of_def l_def zeros_txt_def)
    have "fmt_zero p style = lit_text l" using True styles(3) [OF True]
      by (simp add: fmt_zero_def lit_text_def l_def the_lit_def)
    moreover have "lit_ok l" using d(1) zeros_digits by (simp add: lit_ok_def fr) (simp add: l_def sign_ok_def)
    moreover have "lit_value l = 0"
      using d(2) by (simp add: lit_value_def fr) (simp add: l_def digits_val_Cons digits_val_zeros)
    ultimately have "prints (fmt_zero p style) 1100 0 0"
      using p(2) unfolding prints_def by (intro exI [of _ l]) (simp add: fr, simp add: l_def)
    then show ?thesis by blast
  next
    case False
    then have z: "fmt_zero p style = [ch_0] @ (if zeros_txt (if is_g style then 0 else p) = [] then []
        else ch_dot # zeros_txt (if is_g style then 0 else p))"
      using p(1) by (simp add: fmt_zero_def zeros_txt_def)
    have "prints (fmt_zero p style) (if is_g style then 1 else 1 + nat p) 0 0"
      using d zeros_digits by (intro prints_plain [OF z]) (simp_all add: zeros_txt_def digits_val_Cons digits_val_zeros)
    then have "prints (fmt_zero p style) 1100 0 0" by (rule prints_cong) (use p(2) in auto)
    then show ?thesis by blast
  qed
  with zan show ?thesis unfolding v_def by auto
qed

section \<open>Properties\<close>

text \<open>Every text that \<open>prints\<close> describes, with a sign in front.\<close>

lemma prints_signed:
  assumes "prints t u n k"
  obtains l where "(if neg then [ch_minus] else []) @ t = lit_text l" "lit_ok l" "l_sign l = [ch_minus] \<longleftrightarrow> neg"
    "length (l_int l @ frac_of l) \<le> u" "lit_value l = real n * 10 powi k"
proof -
  obtain l where l: "t = lit_text l" "lit_ok l" "l_space l = []" "l_sign l = []"
      "length (l_int l @ frac_of l) \<le> u" "lit_value l = real n * 10 powi k"
    using assms unfolding prints_def by blast
  define l' where "l' = l\<lparr>l_sign := if neg then [ch_minus] else []\<rparr>"
  have fr: "frac_of l' = frac_of l" "exp_of l' = exp_of l" by (simp_all add: l'_def frac_of_def exp_of_def)
  show thesis
  proof (rule that [of l'])
    show "(if neg then [ch_minus] else []) @ t = lit_text l'" using l(1,3,4) by (simp add: lit_text_def l'_def)
    show "lit_ok l'" using l(2) by (simp add: lit_ok_def fr) (simp add: l'_def sign_ok_def)
    show "length (l_int l' @ frac_of l') \<le> u" using l(5) by (simp add: fr) (simp add: l'_def)
    show "lit_value l' = real n * 10 powi k" using l(6) by (simp add: lit_value_def fr) (simp add: l'_def)
  qed (simp add: l'_def)
qed

text \<open>
  C15. \<open>zan_fmt_double\<close> is exact. For every nonzero finite double, sign, precision and style e, f or
  g (in either case), the code finds no array too short and prints a decimal literal whose sign is
  that of the double and whose value is the double rounded half to even at the decimal place that
  the style and the precision name: the \<open>n\<close> of the statement is the integer nearest to the value
  scaled by that power of ten.
\<close>

theorem zan_fmt_double_exact:
  assumes "p5_ok st" "b < inf_bits" "0 < b" "is_f style \<or> is_e style \<or> is_g style"
  shows "\<exists>l n X st'. zan_fmt_double st (signed_bits neg (of_nat b)) prec style = Some (lit_text l, st') \<and> p5_ok st' \<and>
    lit_ok l \<and> (l_sign l = [ch_minus] \<longleftrightarrow> neg) \<and> 10 powi X \<le> mag_val b \<and> mag_val b < 10 powi (X + 1) \<and>
    lit_value l = real n * 10 powi (- fmt_place (fmt_prec prec style) style X) \<and>
    int n = rne (mag_val b * 10 powi (fmt_place (fmt_prec prec style) style X))"
  using zan_fmt_double_prints [OF assms, of neg prec] by (elim exE conjE, elim prints_signed [of _ _ _ _ neg]) metis

text \<open>The double nearest to 0.1, negated, in style g with 17 digits.\<close>

theorem zan_fmt_double_exact_witness:
  "\<exists>l st'. zan_fmt_double p5_boot (signed_bits True (of_nat 4591870180066957722)) 17 103 = Some (lit_text l, st') \<and>
    lit_ok l \<and> l_sign l = [ch_minus]"
proof -
  have "4591870180066957722 < inf_bits" "is_g 103" by (simp_all add: inf_bits_def is_g_def)
  with zan_fmt_double_exact [OF demo_lit_facts(4), of 4591870180066957722 103 True 17] show ?thesis by auto
qed

text \<open>Doubles next to each other differ by at least one part in \<open>2^53\<close>.\<close>

lemma mag_val_gap_down:
  assumes "0 < b"
  shows "mag_val (b - 1) + mag_val b / 9007199254740992 \<le> mag_val b"
proof -
  obtain e j where b: "b = e * 4503599627370496 + j" "e = 0 \<or> 4503599627370496 \<le> j" "j < 9007199254740992" "0 < j"
  proof (cases "b div 4503599627370496")
    case 0
    then have "b < 4503599627370496" by (simp add: div_eq_0_iff)
    then show ?thesis using that [of 0 b] assms by simp
  next
    case (Suc f)
    then have "b = f * 4503599627370496 + (4503599627370496 + b mod 4503599627370496)"
      using div_mult_mod_eq [of b 4503599627370496] by simp
    then show ?thesis using that [of f "4503599627370496 + b mod 4503599627370496"] by simp
  qed
  define u where "u = (2 :: real) powi (int e - 1074)"
  have u: "0 < u" by (simp add: u_def)
  have v: "mag_val b = real j * u" unfolding b(1) u_def using b(2,3) by (intro mag_val_units) simp_all
  have jr: "real j \<le> 9007199254740992" using b(3) by simp
  show ?thesis
  proof (cases "e = 0 \<or> 4503599627370496 < j")
    case True
    have "b - 1 = e * 4503599627370496 + (j - 1)" using b(1,4) by simp
    then have "mag_val (b - 1) = real (j - 1) * u" unfolding u_def
      using True b(3) by (simp only:) (rule mag_val_units, auto)
    also have "\<dots> = real j * u - u" using b(4) by (simp add: of_nat_diff left_diff_distrib)
    finally have "mag_val (b - 1) = mag_val b - u" by (simp add: v)
    moreover have "mag_val b \<le> 9007199254740992 * u" unfolding v using jr u by (intro mult_right_mono) simp_all
    ultimately show ?thesis by simp
  next
    case False
    then obtain f where f: "e = Suc f" "j = 4503599627370496" using b(2) by (cases e) auto
    then have "b - 1 = f * 4503599627370496 + 9007199254740991" using b(1) by simp
    then have w: "mag_val (b - 1) = 9007199254740991 * 2 powi (int f - 1074)"
      using mag_val_units [of f 9007199254740991] by simp
    have "u = 2 * 2 powi (int f - 1074)" unfolding u_def f(1) by (simp add: power_int_add power_int_diff)
    with w show ?thesis unfolding v f(2) by simp
  qed
qed

lemma mag_val_gap:
  assumes "0 < b" "c \<noteq> b"
  shows "mag_val b / 9007199254740992 \<le> \<bar>mag_val c - mag_val b\<bar>"
proof (cases "c < b")
  case True
  then have "mag_val c \<le> mag_val (b - 1)" by (intro mag_val_mono) simp
  with mag_val_gap_down [OF assms(1)] show ?thesis by linarith
next
  case False
  then have c: "Suc b \<le> c" using assms(2) by simp
  have "mag_val b \<le> mag_val (Suc b)" by (rule mag_val_mono) simp
  moreover have "mag_val b + mag_val (Suc b) / 9007199254740992 \<le> mag_val (Suc b)"
    using mag_val_gap_down [of "Suc b"] by simp
  ultimately have "mag_val b + mag_val b / 9007199254740992 \<le> mag_val (Suc b)" by linarith
  also have "\<dots> \<le> mag_val c" by (rule mag_val_mono [OF c])
  finally show ?thesis by linarith
qed

lemma mag_val_top: "b < inf_bits \<Longrightarrow> mag_val b \<le> 9007199254740991 * 2 powi 971"
proof -
  assume "b < inf_bits"
  then have "mag_val b \<le> mag_val (2045 * 4503599627370496 + 9007199254740991)"
    by (intro mag_val_mono) (simp add: inf_bits_def)
  also have "\<dots> = 9007199254740991 * 2 powi 971" by (subst mag_val_units) simp_all
  finally show ?thesis .
qed

lemma mag_val_least: "0 < b \<Longrightarrow> 2 powi (- 1074) \<le> mag_val b"
  using mag_val_mono [of 1 b] by (simp add: mag_val_def)

text \<open>A real number nearer to a double than a fourth of a gap rounds to it.\<close>

lemma close_rounds:
  assumes "0 < b" "b < inf_bits" "\<bar>d - mag_val b\<bar> \<le> mag_val b / 20000000000000000"
  shows "round_bits d = b" "0 < d" "\<not> half_gap d"
proof -
  define v where "v = mag_val b"
  define u where "u = (2 :: real) powi (- 1074)"
  have u: "0 < u" "u \<le> v" using mag_val_least [OF assms(1)] by (simp_all add: u_def v_def)
  have d: "\<bar>d - v\<bar> \<le> v / 20000000000000000" using assms(3) by (simp add: v_def)
  then show d0: "0 < d" using u by linarith
  have "u = 2 powi (- 1075) * 2" unfolding u_def using powi_split [of "- 1075" 1] by simp
  then have "2 powi (- 1075) * (1 + 2 powi (- 55)) = u * (1 + 2 powi (- 55)) / 2" by simp
  moreover have "(2 :: real) powi (- 55) < 1 / 2" by (simp add: power_int_def field_simps)
  ultimately have "2 powi (- 1075) * (1 + 2 powi (- 55)) \<le> u * (3 / 2) / 2" using u by simp
  then show "\<not> half_gap d" unfolding half_gap_def using d u by linarith
  define top where "top = (2 :: real) powi 970"
  have "(2 :: real) powi 971 = 2 * top" unfolding top_def by (simp add: power_int_def)
  then have "v \<le> 18014398509481982 * top" using mag_val_top [OF assms(2)] by (simp add: v_def)
  moreover have "0 < top" by (simp add: top_def)
  ultimately have "d < 18014398509481983 * top" using d by linarith
  then have near: "round_bits d < inf_bits" "\<bar>mag_val (round_bits d) - d\<bar> \<le> \<bar>v - d\<bar>"
    using round_bits_nearest [OF d0] assms(2) by (simp_all add: nearest_double_def top_def v_def split: if_splits)
  show "round_bits d = b"
  proof (rule ccontr)
    assume "round_bits d \<noteq> b"
    from mag_val_gap [OF assms(1) this] have "v / 9007199254740992 \<le> \<bar>mag_val (round_bits d) - v\<bar>" by (simp add: v_def)
    with near(2) d u show False by linarith
  qed
qed

lemma rounded_close:
  assumes "10 powi X \<le> v" "16 - X \<le> s" "int n = rne (v * 10 powi s)"
  shows "\<bar>real n * 10 powi (- s) - v\<bar> \<le> v / 20000000000000000"
proof -
  define t where "t = (10 :: real) powi (- s)"
  have t: "0 < t" "v * 10 powi s * t = v" by (simp_all add: t_def power_int_minus)
  have "\<bar>of_int (rne (v * 10 powi s)) - v * 10 powi s\<bar> \<le> 1 / 2" by (rule rne_bounds)
  then have "\<bar>real n - v * 10 powi s\<bar> \<le> 1 / 2" unfolding assms(3) [symmetric] by simp
  then have "\<bar>real n - v * 10 powi s\<bar> * t \<le> 1 / 2 * t" using t(1) by (intro mult_right_mono) simp_all
  moreover have "\<bar>real n - v * 10 powi s\<bar> * t = \<bar>(real n - v * 10 powi s) * t\<bar>" using t(1) by (simp add: abs_mult)
  moreover have "(real n - v * 10 powi s) * t = real n * t - v" using t(2) by (simp only: left_diff_distrib)
  moreover have "t \<le> v / 10000000000000000"
  proof -
    have "t * 10 powi 16 = 10 powi (16 - s)"
      unfolding t_def by (subst power_int_add [symmetric]) (simp_all add: add.commute)
    also have "\<dots> \<le> 10 powi X" using assms(2) by (intro power_int_increasing) simp_all
    finally show ?thesis using assms(1) by (simp add: power_int_def)
  qed
  ultimately have "\<bar>real n * t - v\<bar> \<le> 1 / 2 * t" "t \<le> v / 10000000000000000" by simp_all
  then show ?thesis unfolding t_def by linarith
qed

text \<open>
  C16. Seventeen digits are enough. The text that \<open>zan_fmt_double\<close> prints of a finite double in
  style e with at least 16 digits after the point, or in style g with at least 17 digits, is read back by
  \<open>strtod_full\<close> to the same 64 bits, subnormal numbers and zeros with their sign included, up to
  whatever text follows that does not continue the number.
\<close>

theorem zan_fmt_double_roundtrip:
  assumes "p5_ok st" "b < inf_bits" "(is_e style \<and> 16 \<le> prec) \<or> (is_g style \<and> 17 \<le> prec)" "stops rest"
  shows "\<exists>t st1 st2. zan_fmt_double st (signed_bits neg (of_nat b)) prec style = Some (t, st1) \<and>
    strtod_full st1 (t @ rest) = (signed_bits neg (of_nat b), rest, st2) \<and> p5_ok st2"
proof -
  have style: "is_f style \<or> is_e style \<or> is_g style" "\<not> is_f style" using assms(3) styles by blast+
  have "\<exists>t st1 n k. zan_fmt_double st (signed_bits neg (of_nat b)) prec style =
      Some ((if neg then [ch_minus] else []) @ t, st1) \<and> p5_ok st1 \<and> prints t 1100 n k \<and>
      (if real n * 10 powi k = 0 \<or> half_gap (real n * 10 powi k) then 0 else round_bits (real n * 10 powi k)) = b"
  proof (cases "b = 0")
    case True
    then show ?thesis using zan_fmt_double_zero [OF style(1), of st neg prec] style(2) assms(1) by fastforce
  next
    case False
    then have b: "0 < b" by simp
    obtain t st1 n X where z: "zan_fmt_double st (signed_bits neg (of_nat b)) prec style =
        Some ((if neg then [ch_minus] else []) @ t, st1)" "p5_ok st1" "10 powi X \<le> mag_val b"
      "int n = rne (mag_val b * 10 powi (fmt_place (fmt_prec prec style) style X))"
      "prints t 1100 n (- fmt_place (fmt_prec prec style) style X)"
      using zan_fmt_double_prints [OF assms(1,2) b style(1), of neg prec] style(2) by metis
    have "16 - X \<le> fmt_place (fmt_prec prec style) style X"
      using assms(3) style(2) styles(3) by (auto simp: fmt_place_def fmt_prec_def)
    note c = close_rounds [OF b assms(2) rounded_close [OF z(3) this z(4)]]
    show ?thesis using z(1,2,5) c by (metis less_irrefl)
  qed
  then obtain t st1 n k where z: "zan_fmt_double st (signed_bits neg (of_nat b)) prec style =
      Some ((if neg then [ch_minus] else []) @ t, st1)" "p5_ok st1" "prints t 1100 n k"
      "(if real n * 10 powi k = 0 \<or> half_gap (real n * 10 powi k) then 0 else round_bits (real n * 10 powi k)) = b"
    by blast
  obtain l where l: "(if neg then [ch_minus] else []) @ t = lit_text l" "lit_ok l" "l_sign l = [ch_minus] \<longleftrightarrow> neg"
    "length (l_int l @ frac_of l) \<le> 1100" "lit_value l = real n * 10 powi k"
    by (rule prints_signed [OF z(3)])
  show ?thesis
    using strtod_short [OF l(2,4) assms(4) z(2)] z(1) unfolding l(1,3,5) z(4) by auto
qed

theorem zan_fmt_double_roundtrip_witness:
  "\<exists>t st1 st2. zan_fmt_double p5_boot (signed_bits True (of_nat 4591870180066957722)) 17 103 = Some (t, st1) \<and>
    strtod_full st1 (t @ [41]) = (signed_bits True (of_nat 4591870180066957722), [41], st2)"
proof -
  have "4591870180066957722 < inf_bits" "is_g 103" "stops [41]"
    by (simp_all add: inf_bits_def is_g_def stops_def is_digit_def)
  with zan_fmt_double_roundtrip [OF demo_lit_facts(4), of 4591870180066957722 103 17 "[41]" True] show ?thesis by auto
qed

text \<open>
  Style e with no digits after the point omits the point, as the C standard asks, except for zero:
  \<open>1e+00\<close>, but \<open>0.e+00\<close>.
\<close>

lemma fmt_zero_point:
  "fmt_zero 0 101 = [48, 46, 101, 43, 48, 48]"
  "fmt_sci False [49] 1 0 = [49, 101, 43, 48, 48]"
  by (simp_all add: fmt_zero_def zeros_txt_def is_g_def is_e_def fmt_sci_def fmt_exp_def Let_def)

end
