(* ===== verification/Net_Address.thy ===== *)
theory Net_Address
  imports C_Text
begin

text \<open>
  Socket addresses, \<open>zan_io_sockaddr_family\<close> to \<open>zan_io_resolve_all\<close> of \<open>zanstubs.c\<close>: which addresses
  the runtime is willing to connect to, and the set of addresses of a host name. The resolver
  (\<open>getaddrinfo\<close>) is a parameter.
\<close>

section \<open>Addresses\<close>

datatype af = AF_UNSPEC | AF_INET | AF_INET6 | AF_OTHER nat

text \<open>
  A \<open>struct sockaddr\<close>: the family, and the bytes from the port on. They have the same offsets on
  Linux and on the BSDs: the port at 2, an IPv4 address at 4, an IPv6 address at 8.
\<close>

record sockaddr =
  sa_family :: af
  sa_data :: "u8 list"

definition SOCKADDR_IN :: int where "SOCKADDR_IN = 16"
definition SOCKADDR_IN6 :: int where "SOCKADDR_IN6 = 28"

definition sin_addr :: "sockaddr \<Rightarrow> u8 list" where "sin_addr a = take 4 (drop 2 (sa_data a))"
definition sin6_addr :: "sockaddr \<Rightarrow> u8 list" where "sin6_addr a = take 16 (drop 6 (sa_data a))"

text \<open>A \<open>struct sockaddr_in\<close> that was zeroed and given a family and an address.\<close>

definition sockaddr_in_of :: "u8 list \<Rightarrow> sockaddr" where
  "sockaddr_in_of b = \<lparr> sa_family = AF_INET, sa_data = [0, 0] @ take 4 b @ replicate 8 0 \<rparr>"

definition zan_io_sockaddr_family :: "sockaddr option \<Rightarrow> int \<Rightarrow> af" where
  "zan_io_sockaddr_family sa len =
     (case sa of None \<Rightarrow> AF_UNSPEC
      | Some a \<Rightarrow>
          if len < 2 then AF_UNSPEC
          else if sa_family a = AF_INET \<and> len \<ge> SOCKADDR_IN then AF_INET
          else if sa_family a = AF_INET6 \<and> len \<ge> SOCKADDR_IN6 then AF_INET6
          else AF_UNSPEC)"

section \<open>Which addresses are safe\<close>

definition ntohl :: "u8 list \<Rightarrow> u32" where
  "ntohl b = push_bit 24 (ucast (b ! 0)) OR push_bit 16 (ucast (b ! 1)) OR push_bit 8 (ucast (b ! 2)) OR ucast (b ! 3)"

text \<open>The branch for IPv4.\<close>

definition is_safe4 :: "u8 list \<Rightarrow> bool \<Rightarrow> bool" where
  "is_safe4 addr allow_loopback =
     (let a = ntohl addr; first = drop_bit 24 a; second = drop_bit 16 a AND 255; third = drop_bit 8 a AND 255
      in if first = 127 then allow_loopback
         else if first = 0 \<or> first = 10 \<or> first \<ge> 224 \<or> first \<ge> 240 then False
         else if first = 169 \<and> second = 254 then False
         else if first = 172 \<and> second \<ge> 16 \<and> second \<le> 31 then False
         else if first = 192 \<and> second = 168 then False
         else if first = 192 \<and> second = 0 then False
         else if first = 192 \<and> second = 2 then False
         else if first = 192 \<and> second = 88 \<and> third = 99 then False
         else if first = 198 \<and> second \<ge> 18 \<and> second \<le> 19 then False
         else if first = 198 \<and> second = 51 \<and> third = 100 then False
         else if first = 203 \<and> second = 0 \<and> third = 113 then False
         else if first = 100 \<and> second \<ge> 64 \<and> second \<le> 127 then False
         else a \<noteq> 4294967295)"

text \<open>Where an IPv6 address holds an IPv4 address, apart from mapped and Teredo addresses.\<close>

definition v4_off :: "u8 list \<Rightarrow> bool \<Rightarrow> nat option" where
  "v4_off b mapped =
     (if b ! 0 = 32 \<and> b ! 1 = 2 then Some 2
      else if b ! 0 = 0 \<and> b ! 1 = 100 \<and> b ! 2 = 255 \<and> b ! 3 = 155 then Some 12
      else if mapped then Some 12 else None)"

text \<open>The embedded addresses are judged by a call of the function on a \<open>sockaddr_in\<close>.\<close>

function zan_io_sockaddr_is_safe :: "sockaddr option \<Rightarrow> int \<Rightarrow> bool \<Rightarrow> bool" where
  "zan_io_sockaddr_is_safe sa len allow_loopback =
     (case (zan_io_sockaddr_family sa len, sa) of
        (AF_INET, Some a) \<Rightarrow> is_safe4 (sin_addr a) allow_loopback
      | (AF_INET6, Some a) \<Rightarrow>
          (let b = sin6_addr a;
               all_zero = (\<forall>i<16. b ! i = 0);
               loop = (\<forall>i<15. b ! i = 0);
               mapped = (\<forall>i<10. b ! i = 0)
           in if all_zero then False
              else if loop \<and> b ! 15 = 1 then allow_loopback
              else if b ! 0 AND 254 = 252 then False
              else if b ! 0 AND 254 = 254 \<and> b ! 1 AND 192 = 128 then False
              else if b ! 0 = 255 then False
              else if b ! 0 = 32 \<and> b ! 1 = 1 \<and> b ! 2 = 13 \<and> b ! 3 = 184 then False
              else if mapped \<and> b ! 10 = 255 \<and> b ! 11 = 255 then
                zan_io_sockaddr_is_safe (Some (sockaddr_in_of (drop 12 b))) SOCKADDR_IN allow_loopback
              else if b ! 0 = 32 \<and> b ! 1 = 1 \<and> b ! 2 = 0 \<and> b ! 3 = 0 then
                if \<not> zan_io_sockaddr_is_safe (Some (sockaddr_in_of (drop 4 b))) SOCKADDR_IN allow_loopback then False
                else zan_io_sockaddr_is_safe
                       (Some (sockaddr_in_of (map (\<lambda>i. b ! (12 + i) XOR 255) [0..<4]))) SOCKADDR_IN allow_loopback
              else (case v4_off b mapped of
                      Some off \<Rightarrow> zan_io_sockaddr_is_safe (Some (sockaddr_in_of (drop off b))) SOCKADDR_IN allow_loopback
                    | None \<Rightarrow> True))
      | _ \<Rightarrow> False)"
  by pat_completeness auto
termination
  by (relation "measure (\<lambda>(sa, len, al). if zan_io_sockaddr_family sa len = AF_INET6 then 1 else 0)")
    (auto simp: zan_io_sockaddr_family_def sockaddr_in_of_def split: option.splits if_splits)

declare zan_io_sockaddr_is_safe.simps [simp del]

section \<open>Networks\<close>

text \<open>The address \<open>b\<close> lies in the network of the first \<open>n\<close> bits of \<open>net\<close>.\<close>

definition in_net :: "u8 list \<Rightarrow> u8 list \<times> nat \<Rightarrow> bool" where
  "in_net b = (\<lambda>(net, n). take (n div 8) b = take (n div 8) net \<and>
     (n mod 8 = 0 \<or> drop_bit (8 - n mod 8) (b ! (n div 8)) = drop_bit (8 - n mod 8) (net ! (n div 8))))"

text \<open>
  The networks that are refused: this network, private, shared, link-local, protocol assignments,
  documentation, relays, benchmarking, multicast and reserved; and for IPv6 unique-local,
  link-local, multicast and documentation.
\<close>

definition refused4 :: "(u8 list \<times> nat) list" where
  "refused4 = [([0], 8), ([10], 8), ([100, 64], 10), ([169, 254], 16), ([172, 16], 12), ([192, 0], 16), ([192, 2], 16),
     ([192, 88, 99], 24), ([192, 168], 16), ([198, 18], 15), ([198, 51, 100], 24), ([203, 0, 113], 24), ([224], 3)]"

definition refused6 :: "(u8 list \<times> nat) list" where
  "refused6 = [([252], 7), ([254, 128], 10), ([255], 8), ([32, 1, 13, 184], 32)]"

definition public4 :: "bool \<Rightarrow> u8 list \<Rightarrow> bool" where
  "public4 allow b = (if in_net b ([127], 8) then allow else \<not> list_ex (in_net b) refused4)"

text \<open>
  An IPv6 address: the IPv4 addresses in mapped (\<open>::ffff:0:0/96\<close>), Teredo (\<open>2001::/32\<close>, the server
  and the complemented client), 6to4 (\<open>2002::/16\<close>), translated (\<open>64:ff9b::/32\<close>) and compatible
  (\<open>::/80\<close>) addresses have to be public themselves.
\<close>

definition zeros8 :: "nat \<Rightarrow> u8 list" where "zeros8 n = replicate n 0"

definition public6 :: "bool \<Rightarrow> u8 list \<Rightarrow> bool" where
  "public6 allow b =
     (if b = zeros8 16 then False
      else if b = zeros8 15 @ [1] then allow
      else if list_ex (in_net b) refused6 then False
      else if in_net b ([32, 1, 0, 0], 32) then
        public4 allow (take 4 (drop 4 b)) \<and> public4 allow (map NOT (drop 12 b))
      else if in_net b ([32, 2], 16) then public4 allow (take 4 (drop 2 b))
      else if in_net b ([0, 100, 255, 155], 32) \<or> in_net b (zeros8 10, 80) then public4 allow (drop 12 b)
      else True)"

section \<open>The code's tests are those networks\<close>

lemma u8_bit: "bit (b :: u8) n \<Longrightarrow> n < 8"
  using bit_imp_le_length [of b n] by simp

lemma ntohl_fields:
  "drop_bit 24 (ntohl [b0, b1, b2, b3]) = ucast b0"
  "drop_bit 16 (ntohl [b0, b1, b2, b3]) AND 255 = ucast b1"
  "drop_bit 8 (ntohl [b0, b1, b2, b3]) AND 255 = ucast b2"
proof -
  have m: "(255 :: u32) = mask 8" by (simp add: mask_eq_exp_minus_1)
  show "drop_bit 24 (ntohl [b0, b1, b2, b3]) = ucast b0"
    by (rule bit_word_eqI) (auto simp: ntohl_def bit_simps dest: u8_bit)
  show "drop_bit 16 (ntohl [b0, b1, b2, b3]) AND 255 = ucast b1" "drop_bit 8 (ntohl [b0, b1, b2, b3]) AND 255 = ucast b2"
    unfolding m by (rule bit_word_eqI, auto simp: ntohl_def bit_simps dest: u8_bit)+
qed

lemma unat_byte_up: "unat (ucast (b :: u8) :: u32) = unat b"
proof -
  have "unat b < 2 ^ 32" using u8_less [of b] by simp
  then show ?thesis by (simp add: unsigned_ucast_eq take_bit_nat_eq_self)
qed

lemma unat_drop8: "drop_bit k (b :: u8) = c \<longleftrightarrow> unat b div 2 ^ k = unat c"
  by (metis drop_bit_eq_div unat_drop_bit_eq word_unat_eq_iff)

lemma and_high: "(b :: u8) AND NOT (mask k) = push_bit k (drop_bit k b)"
  by (rule bit_word_eqI) (auto simp: bit_simps)

lemma high_eq: "(b :: u8) AND NOT (mask k) = push_bit k c \<longleftrightarrow> drop_bit k b = c" if "drop_bit k (push_bit k c) = c"
proof
  assume "b AND NOT (mask k) = push_bit k c"
  then have "drop_bit k (push_bit k (drop_bit k b)) = drop_bit k (push_bit k c)" by (simp only: and_high)
  moreover have "drop_bit k (push_bit k (drop_bit k b)) = drop_bit k b"
    by (rule bit_word_eqI) (auto simp: bit_simps dest: u8_bit)
  ultimately show "drop_bit k b = c" using that by simp
qed (simp add: and_high)

lemma byte_tests:
  "(ucast (b :: u8) :: u32) \<ge> 224 \<or> (ucast b :: u32) \<ge> 240 \<longleftrightarrow> drop_bit 5 b = 7"
  "(ucast b :: u32) \<ge> 16 \<and> (ucast b :: u32) \<le> 31 \<longleftrightarrow> drop_bit 4 b = 1"
  "(ucast b :: u32) \<ge> 18 \<and> (ucast b :: u32) \<le> 19 \<longleftrightarrow> drop_bit 1 b = 9"
  "(ucast b :: u32) \<ge> 64 \<and> (ucast b :: u32) \<le> 127 \<longleftrightarrow> drop_bit 6 b = 1"
  using u8_less [of b] unfolding word_le_nat_alt unat_byte_up unat_drop8 by (auto simp: div_nat_eqI intro!: div_nat_eqI) 

lemma byte_masks:
  "(b :: u8) AND 254 = 252 \<longleftrightarrow> drop_bit 1 b = 126"
  "b AND 254 = 254 \<longleftrightarrow> drop_bit 1 b = 127"
  "b AND 192 = 128 \<longleftrightarrow> drop_bit 6 b = 2"
proof -
  have m: "NOT (mask 1) = (254 :: u8)" "NOT (mask 6) = (192 :: u8)" by (simp_all add: mask_eq_exp_minus_1)
  have p: "push_bit 1 126 = (252 :: u8)" "push_bit 1 127 = (254 :: u8)" "push_bit 6 2 = (128 :: u8)" by simp_all
  have d: "drop_bit 1 (252 :: u8) = 126" "drop_bit 1 (254 :: u8) = 127" "drop_bit 6 (128 :: u8) = 2" by simp_all
  show "b AND 254 = 252 \<longleftrightarrow> drop_bit 1 b = 126" by (rule high_eq [of 1 126 b, unfolded m p, OF d(1)])
  show "b AND 254 = 254 \<longleftrightarrow> drop_bit 1 b = 127" by (rule high_eq [of 1 127 b, unfolded m p, OF d(2)])
  show "b AND 192 = 128 \<longleftrightarrow> drop_bit 6 b = 2" by (rule high_eq [of 6 2 b, unfolded m p, OF d(3)])
qed

lemma byte_up_eq: "(ucast (b :: u8) :: u32) = ucast c \<longleftrightarrow> b = c"
  by (simp add: word_unat_eq_iff unat_byte_up)

lemma is_safe4_public: "is_safe4 [b0, b1, b2, b3] allow = public4 allow [b0, b1, b2, b3]"
proof -
  have e: "(ucast (b :: u8) :: u32) = numeral n \<longleftrightarrow> b = numeral n" if "unat (numeral n :: u8) = unat (numeral n :: u32)" for b n
    using that by (simp only: word_unat_eq_iff unat_byte_up)
  have z: "(ucast (b :: u8) :: u32) = 0 \<longleftrightarrow> b = 0" for b
    by (simp only: word_unat_eq_iff unat_byte_up unat_0)
  have top: "ntohl [b0, b1, b2, b3] \<noteq> 4294967295" if "drop_bit 5 b0 \<noteq> 7"
  proof
    assume "ntohl [b0, b1, b2, b3] = 4294967295"
    then have "ucast b0 = (255 :: u32)" using ntohl_fields(1) [of b0 b1 b2 b3] by simp
    then have "b0 = 255" by (simp add: e)
    with that show False by simp
  qed
  have n: "in_net [b0, b1, b2, b3] ([0], 8) \<longleftrightarrow> b0 = 0" "in_net [b0, b1, b2, b3] ([10], 8) \<longleftrightarrow> b0 = 10"
    "in_net [b0, b1, b2, b3] ([127], 8) \<longleftrightarrow> b0 = 127" "in_net [b0, b1, b2, b3] ([224], 3) \<longleftrightarrow> drop_bit 5 b0 = 7"
    "in_net [b0, b1, b2, b3] ([100, 64], 10) \<longleftrightarrow> b0 = 100 \<and> drop_bit 6 b1 = 1"
    "in_net [b0, b1, b2, b3] ([169, 254], 16) \<longleftrightarrow> b0 = 169 \<and> b1 = 254"
    "in_net [b0, b1, b2, b3] ([172, 16], 12) \<longleftrightarrow> b0 = 172 \<and> drop_bit 4 b1 = 1"
    "in_net [b0, b1, b2, b3] ([192, 0], 16) \<longleftrightarrow> b0 = 192 \<and> b1 = 0" "in_net [b0, b1, b2, b3] ([192, 2], 16) \<longleftrightarrow> b0 = 192 \<and> b1 = 2"
    "in_net [b0, b1, b2, b3] ([192, 88, 99], 24) \<longleftrightarrow> b0 = 192 \<and> b1 = 88 \<and> b2 = 99"
    "in_net [b0, b1, b2, b3] ([192, 168], 16) \<longleftrightarrow> b0 = 192 \<and> b1 = 168"
    "in_net [b0, b1, b2, b3] ([198, 18], 15) \<longleftrightarrow> b0 = 198 \<and> drop_bit 1 b1 = 9"
    "in_net [b0, b1, b2, b3] ([198, 51, 100], 24) \<longleftrightarrow> b0 = 198 \<and> b1 = 51 \<and> b2 = 100"
    "in_net [b0, b1, b2, b3] ([203, 0, 113], 24) \<longleftrightarrow> b0 = 203 \<and> b1 = 0 \<and> b2 = 113"
    by (simp_all add: in_net_def)
  show ?thesis
    unfolding is_safe4_def public4_def refused4_def Let_def ntohl_fields byte_tests
    by (simp add: n e z) (use top in blast)
qed

lemma list4: "length b = 4 \<Longrightarrow> \<exists>b0 b1 b2 b3. b = [b0, b1, b2, b3]"
  by (auto simp: numeral_eq_Suc length_Suc_conv)

lemma is_safe_in:
  assumes "zan_io_sockaddr_family (Some a) len = AF_INET" "length (sin_addr a) = 4"
  shows "zan_io_sockaddr_is_safe (Some a) len allow = public4 allow (sin_addr a)"
  using assms list4 [OF assms(2)] by (auto simp: zan_io_sockaddr_is_safe.simps [of "Some a"] is_safe4_public)

lemma is_safe_embedded:
  assumes "4 \<le> length x"
  shows "zan_io_sockaddr_is_safe (Some (sockaddr_in_of x)) SOCKADDR_IN allow = public4 allow (take 4 x)"
proof -
  have "sin_addr (sockaddr_in_of x) = take 4 x" using assms by (simp add: sin_addr_def sockaddr_in_of_def)
  moreover have "zan_io_sockaddr_family (Some (sockaddr_in_of x)) SOCKADDR_IN = AF_INET"
    by (simp add: zan_io_sockaddr_family_def sockaddr_in_of_def SOCKADDR_IN_def)
  ultimately show ?thesis using is_safe_in [of "sockaddr_in_of x" SOCKADDR_IN allow] assms by simp
qed

lemma take_two: "2 \<le> length b \<Longrightarrow> take 2 b = [b ! 0, b ! 1]"
  by (cases b; cases "tl b") (auto simp: numeral_eq_Suc)

lemma take_four: "4 \<le> length b \<Longrightarrow> take 4 b = [b ! 0, b ! 1, b ! 2, b ! 3]"
  by (cases b; cases "tl b"; cases "tl (tl b)"; cases "tl (tl (tl b))") (auto simp: numeral_eq_Suc)

lemma take_one: "1 \<le> length b \<Longrightarrow> take 1 b = [b ! 0]"
  by (cases b) auto

lemma nets6:
  assumes "length b = 16"
  shows "in_net b ([252], 7) \<longleftrightarrow> b ! 0 AND 254 = 252"
    "in_net b ([254, 128], 10) \<longleftrightarrow> b ! 0 = 254 \<and> b ! 1 AND 192 = 128"
    "in_net b ([255], 8) \<longleftrightarrow> b ! 0 = 255"
    "in_net b ([32, 1, 13, 184], 32) \<longleftrightarrow> b ! 0 = 32 \<and> b ! 1 = 1 \<and> b ! 2 = 13 \<and> b ! 3 = 184"
    "in_net b ([32, 1, 0, 0], 32) \<longleftrightarrow> b ! 0 = 32 \<and> b ! 1 = 1 \<and> b ! 2 = 0 \<and> b ! 3 = 0"
    "in_net b ([32, 2], 16) \<longleftrightarrow> b ! 0 = 32 \<and> b ! 1 = 2"
    "in_net b ([0, 100, 255, 155], 32) \<longleftrightarrow> b ! 0 = 0 \<and> b ! 1 = 100 \<and> b ! 2 = 255 \<and> b ! 3 = 155"
    "in_net b (zeros8 10, 80) \<longleftrightarrow> (\<forall>i<10. b ! i = 0)"
    "b = zeros8 16 \<longleftrightarrow> (\<forall>i<16. b ! i = 0)"
    "b = zeros8 15 @ [1] \<longleftrightarrow> (\<forall>i<15. b ! i = 0) \<and> b ! 15 = 1"
proof -
  have l: "4 \<le> length b" "2 \<le> length b" "1 \<le> length b" using assms by simp_all
  note t = take_four [OF l(1)] take_two [OF l(2)] take_one [OF l(3)]
  show "in_net b ([252], 7) \<longleftrightarrow> b ! 0 AND 254 = 252" by (simp add: in_net_def byte_masks)
  show "in_net b ([254, 128], 10) \<longleftrightarrow> b ! 0 = 254 \<and> b ! 1 AND 192 = 128"
    using t(3) by (simp add: in_net_def byte_masks)
  show "in_net b ([255], 8) \<longleftrightarrow> b ! 0 = 255" using t(3) by (simp add: in_net_def)
  show "in_net b ([32, 1, 13, 184], 32) \<longleftrightarrow> b ! 0 = 32 \<and> b ! 1 = 1 \<and> b ! 2 = 13 \<and> b ! 3 = 184"
    "in_net b ([32, 1, 0, 0], 32) \<longleftrightarrow> b ! 0 = 32 \<and> b ! 1 = 1 \<and> b ! 2 = 0 \<and> b ! 3 = 0"
    "in_net b ([32, 2], 16) \<longleftrightarrow> b ! 0 = 32 \<and> b ! 1 = 2"
    "in_net b ([0, 100, 255, 155], 32) \<longleftrightarrow> b ! 0 = 0 \<and> b ! 1 = 100 \<and> b ! 2 = 255 \<and> b ! 3 = 155"
    by (simp_all add: in_net_def t)
  show "in_net b (zeros8 10, 80) \<longleftrightarrow> (\<forall>i<10. b ! i = 0)" "b = zeros8 16 \<longleftrightarrow> (\<forall>i<16. b ! i = 0)"
    using assms by (auto simp: in_net_def zeros8_def list_eq_iff_nth_eq)
  show "b = zeros8 15 @ [1] \<longleftrightarrow> (\<forall>i<15. b ! i = 0) \<and> b ! 15 = 1"
  proof -
    have "(\<forall>i<16. P i) \<longleftrightarrow> (\<forall>i<15. P i) \<and> P (15 :: nat)" for P using All_less_Suc [of 15 P] by auto
    then show ?thesis using assms by (simp add: zeros8_def list_eq_iff_nth_eq nth_append)
  qed
qed

lemma byte_not: "x XOR 255 = NOT (x :: u8)"
proof -
  have "x XOR mask 8 = NOT x" by (rule bit_word_eqI) (simp add: bit_simps)
  then show ?thesis by (simp add: mask_eq_exp_minus_1)
qed

lemma byte_top: "(x :: u8) AND 254 = 254 \<longleftrightarrow> x = 254 \<or> x = 255"
proof -
  have "unat x div 2 = 127 \<longleftrightarrow> unat x = 254 \<or> unat x = 255" by presburger
  then show ?thesis unfolding byte_masks unat_drop8 by (simp add: word_unat_eq_iff)
qed

lemma is_safe_in6:
  assumes "zan_io_sockaddr_family (Some a) len = AF_INET6" "length (sin6_addr a) = 16"
  shows "zan_io_sockaddr_is_safe (Some a) len allow = public6 allow (sin6_addr a)"
proof -
  define b where "b = sin6_addr a"
  have len: "length b = 16" using assms(2) by (simp add: b_def)
  define mp where "mp \<longleftrightarrow> (\<forall>i<10. b ! i = 0)"
  have mp0: "b ! 0 = 0" "b ! 1 = 0" if mp using that by (simp_all add: mp_def)
  have cl: "map (\<lambda>i. b ! (12 + i) XOR 255) [0..<4] = map NOT (drop 12 b)"
    using len by (auto simp: list_eq_iff_nth_eq byte_not)
  have fe: "b ! 0 AND 254 = 254 \<longleftrightarrow> b ! 0 = 254 \<or> b ! 0 = 255" by (rule byte_top)
  define z15 z16 where "z15 \<longleftrightarrow> (\<forall>i<15. b ! i = 0)" and "z16 \<longleftrightarrow> (\<forall>i<16. b ! i = 0)"
  have "zan_io_sockaddr_is_safe (Some a) len allow =
    (if z16 then False
     else if z15 \<and> b ! 15 = 1 then allow
     else if b ! 0 AND 254 = 252 \<or> (b ! 0 = 254 \<and> b ! 1 AND 192 = 128) \<or> b ! 0 = 255 then False
     else if b ! 0 = 32 \<and> b ! 1 = 1 \<and> b ! 2 = 13 \<and> b ! 3 = 184 then False
     else if mp \<and> b ! 10 = 255 \<and> b ! 11 = 255 then public4 allow (drop 12 b)
     else if b ! 0 = 32 \<and> b ! 1 = 1 \<and> b ! 2 = 0 \<and> b ! 3 = 0 then
       public4 allow (take 4 (drop 4 b)) \<and> public4 allow (map NOT (drop 12 b))
     else if b ! 0 = 32 \<and> b ! 1 = 2 then public4 allow (take 4 (drop 2 b))
     else if (b ! 0 = 0 \<and> b ! 1 = 100 \<and> b ! 2 = 255 \<and> b ! 3 = 155) \<or> mp then public4 allow (drop 12 b) else True)"
    unfolding zan_io_sockaddr_is_safe.simps [of "Some a"] assms(1) prod.case af.case option.case b_def [symmetric] Let_def
      mp_def [symmetric] z15_def [symmetric] z16_def [symmetric]
    using len fe cl by (auto simp: is_safe_embedded v4_off_def)
  also have "\<dots> = public6 allow b"
    unfolding public6_def refused6_def nets6 [OF len] z15_def [symmetric] z16_def [symmetric] mp_def [symmetric]
    using mp0 by (cases mp) (simp_all add: nets6 [OF len])
  finally show ?thesis by (simp add: b_def)
qed

section \<open>The resolver\<close>

text \<open>
  \<open>getaddrinfo\<close> with a name, a service and the family of the hints: \<^const>\<open>None\<close> is an error, and the
  list of addresses may be empty.
\<close>

record addrinfo =
  ai_family :: af
  ai_addr :: "sockaddr option"
  ai_addrlen :: int

type_synonym resolver = "cstr \<Rightarrow> cstr option \<Rightarrow> af \<Rightarrow> addrinfo list option"

definition sockaddr_len :: "af \<Rightarrow> int" where
  "sockaddr_len f = (case f of AF_INET6 \<Rightarrow> SOCKADDR_IN6 | AF_INET \<Rightarrow> SOCKADDR_IN | _ \<Rightarrow> 0)"

text \<open>The bytes of an address that \<open>memcpy\<close> of \<open>len\<close> bytes moves, and \<open>memcmp\<close> on \<open>len\<close> bytes.\<close>

definition sa_copy :: "sockaddr \<Rightarrow> int \<Rightarrow> sockaddr" where
  "sa_copy a len = a\<lparr> sa_data := take (nat len - 2) (sa_data a) \<rparr>"

definition sa_same :: "sockaddr \<Rightarrow> sockaddr \<Rightarrow> int \<Rightarrow> bool" where
  "sa_same a b len \<longleftrightarrow> sa_family a = sa_family b \<and> take (nat len - 2) (sa_data a) = take (nat len - 2) (sa_data b)"

definition ZAN_IO_SA_STRIDE :: int where "ZAN_IO_SA_STRIDE = 32"

text \<open>The loop: the slots filled so far; \<^const>\<open>None\<close> when there is no slot left.\<close>

fun resolve_loop :: "int \<Rightarrow> addrinfo list \<Rightarrow> sockaddr list \<Rightarrow> sockaddr list option" where
  "resolve_loop capacity [] out = Some out"
| "resolve_loop capacity (p # ps) out =
     (let family = zan_io_sockaddr_family (ai_addr p) (ai_addrlen p); len = sockaddr_len family
      in case ai_addr p of
           None \<Rightarrow> resolve_loop capacity ps out
         | Some a \<Rightarrow>
             if len = 0 \<or> ai_addrlen p < len then resolve_loop capacity ps out
             else if list_ex (\<lambda>old. zan_io_sockaddr_family (Some old) len = family \<and> sa_same old a len) out then
               resolve_loop capacity ps out
             else if int (length out) \<ge> capacity then None
             else resolve_loop capacity ps (out @ [sa_copy a len]))"

text \<open>The caller's buffer afterwards: untouched, cleared, or with these slots from its start.\<close>

datatype slots = Kept | Cleared | Slots "sockaddr list"

definition zan_io_resolve_all :: "resolver \<Rightarrow> cstr option \<Rightarrow> int \<Rightarrow> bool \<Rightarrow> int \<Rightarrow> int \<times> slots" where
  "zan_io_resolve_all gai name port buf cap =
     (if \<not> buf \<or> cap \<le> 0 then (0, Kept)
      else case name of
        None \<Rightarrow> (0, Cleared)
      | Some n \<Rightarrow>
          if n = [] \<or> cap < ZAN_IO_SA_STRIDE then (0, Cleared)
          else (case gai n (Some (dec_int port)) AF_UNSPEC of
              None \<Rightarrow> (0, Cleared)
            | Some [] \<Rightarrow> (0, Cleared)
            | Some res \<Rightarrow>
                (case resolve_loop (cap div ZAN_IO_SA_STRIDE) res [] of
                   None \<Rightarrow> (0, Cleared)
                 | Some out \<Rightarrow> (int (length out), Slots out))))"

text \<open>\<open>zan_io_resolve_sa\<close>: the first address, for IPv4 unless the name holds a colon, else for any family.\<close>

definition resolve_first :: "resolver \<Rightarrow> cstr \<Rightarrow> cstr \<Rightarrow> addrinfo list option" where
  "resolve_first gai name port =
     (let found = (\<lambda>f. case gai name (Some port) f of Some (p # ps) \<Rightarrow> Some (p # ps) | _ \<Rightarrow> None)
      in if 58 \<in> set name then found AF_UNSPEC
         else (case found AF_INET of Some r \<Rightarrow> Some r | None \<Rightarrow> found AF_UNSPEC))"

definition zan_io_resolve_sa :: "resolver \<Rightarrow> cstr option \<Rightarrow> int \<Rightarrow> int \<Rightarrow> int \<times> sockaddr option" where
  "zan_io_resolve_sa gai name port cap =
     (case name of
        None \<Rightarrow> (0, None)
      | Some n \<Rightarrow>
          if n = [] then (0, None)
          else (case resolve_first gai n (dec_int port) of
              None \<Rightarrow> (0, None)
            | Some res \<Rightarrow>
                let len = sockaddr_len (ai_family (hd res))
                in (case ai_addr (hd res) of
                     Some a \<Rightarrow> if len \<noteq> 0 \<and> len \<le> cap \<and> ai_addrlen (hd res) = len then (len, Some (sa_copy a len)) else (0, None)
                   | None \<Rightarrow> (0, None))))"

text \<open>\<open>s_addr\<close> of an address as an \<open>int32_t\<close>: the four bytes as a little-endian machine reads them.\<close>

definition s_addr :: "u8 list \<Rightarrow> int" where "s_addr b = sint (ntohl (rev b))"

definition zan_io_resolve_ipv4 :: "resolver \<Rightarrow> cstr option \<Rightarrow> int" where
  "zan_io_resolve_ipv4 gai name =
     (case name of
        None \<Rightarrow> 0
      | Some n \<Rightarrow>
          if n = [] then 0
          else (case gai n None AF_INET of
              Some (p # ps) \<Rightarrow>
                (case ai_addr p of
                   Some a \<Rightarrow> if ai_family p = AF_INET \<and> sa_family a = AF_INET then s_addr (sin_addr a) else 0
                 | None \<Rightarrow> 0)
            | _ \<Rightarrow> 0))"

text \<open>\<open>zan_io_ip_copy_out\<close>: the length of the text, or -1 when it does not fit with its terminator.\<close>

definition zan_io_ip_copy_out :: "cstr \<Rightarrow> bool \<Rightarrow> int \<Rightarrow> int \<times> u8 list option" where
  "zan_io_ip_copy_out txt buf cap =
     (if \<not> buf \<or> cap \<le> 0 then (-1, None)
      else if nat cap \<le> length txt then (-1, None)
      else (int (length txt), Some (txt @ [0])))"

text \<open>The text of an address; \<open>ntop\<close> is \<open>inet_ntop\<close>.\<close>

definition zan_io_sockaddr_ip_str :: "(af \<Rightarrow> u8 list \<Rightarrow> cstr option) \<Rightarrow> sockaddr \<Rightarrow> cstr" where
  "zan_io_sockaddr_ip_str ntop a =
     (let s = (case sa_family a of AF_INET \<Rightarrow> ntop AF_INET (sin_addr a) | AF_INET6 \<Rightarrow> ntop AF_INET6 (sin6_addr a) | _ \<Rightarrow> None)
      in case s of Some t \<Rightarrow> t | None \<Rightarrow> [])"

definition zan_io_sockaddr_ip_str_into :: "(af \<Rightarrow> u8 list \<Rightarrow> cstr option) \<Rightarrow> sockaddr \<Rightarrow> bool \<Rightarrow> int \<Rightarrow> int \<times> u8 list option" where
  "zan_io_sockaddr_ip_str_into ntop a buf cap = zan_io_ip_copy_out (zan_io_sockaddr_ip_str ntop a) buf cap"

text \<open>The peer of a socket; \<open>peer\<close> is what \<open>getpeername\<close> stores.\<close>

definition zan_io_socket_peer_ip :: "(af \<Rightarrow> u8 list \<Rightarrow> cstr option) \<Rightarrow> sockaddr option \<Rightarrow> cstr" where
  "zan_io_socket_peer_ip ntop peer = (case peer of None \<Rightarrow> [] | Some a \<Rightarrow> zan_io_sockaddr_ip_str ntop a)"

definition zan_io_socket_peer_ip_into ::
    "(af \<Rightarrow> u8 list \<Rightarrow> cstr option) \<Rightarrow> sockaddr option \<Rightarrow> bool \<Rightarrow> int \<Rightarrow> int \<times> u8 list option" where
  "zan_io_socket_peer_ip_into ntop peer buf cap =
     (case peer of None \<Rightarrow> (-1, None) | Some a \<Rightarrow> zan_io_ip_copy_out (zan_io_sockaddr_ip_str ntop a) buf cap)"

section \<open>The slots are the distinct addresses in the order of the resolver\<close>

text \<open>The first occurrence of every element.\<close>

definition uniq :: "'a list \<Rightarrow> 'a list" where
  "uniq xs = rev (remdups (rev xs))"

lemma remdups_seen: "x \<in> set ys \<Longrightarrow> remdups (zs @ x # ys) = remdups (zs @ ys)"
  by (induction zs) auto

lemma uniq_seen: "x \<in> set xs \<Longrightarrow> uniq (xs @ x # ys) = uniq (xs @ ys)"
  by (simp add: uniq_def remdups_seen)

lemma set_uniq: "set (uniq xs) = set xs"
  by (simp add: uniq_def)

lemma distinct_uniq: "distinct (uniq xs)"
  by (simp add: uniq_def)

lemma uniq_distinct: "distinct xs \<Longrightarrow> uniq xs = xs"
  by (simp add: uniq_def distinct_remdups_id)

text \<open>The address of an entry that the code can use.\<close>

definition usable :: "addrinfo \<Rightarrow> sockaddr option" where
  "usable p =
     (let len = sockaddr_len (zan_io_sockaddr_family (ai_addr p) (ai_addrlen p))
      in case ai_addr p of Some a \<Rightarrow> if len = 0 then None else Some (sa_copy a len) | None \<Rightarrow> None)"

lemma family_cases:
  "zan_io_sockaddr_family (Some a) len = f \<Longrightarrow> f = AF_INET \<and> sa_family a = AF_INET \<and> len \<ge> SOCKADDR_IN \<or>
    f = AF_INET6 \<and> sa_family a = AF_INET6 \<and> len \<ge> SOCKADDR_IN6 \<or> f = AF_UNSPEC"
  by (auto simp: zan_io_sockaddr_family_def split: if_splits)

text \<open>A slot holds the address \<open>a\<close> exactly when the code's comparison says so.\<close>

definition slot_ok :: "sockaddr \<Rightarrow> bool" where
  "slot_ok x \<longleftrightarrow> (\<exists>a f. (f = AF_INET \<or> f = AF_INET6) \<and> sa_family a = f \<and> x = sa_copy a (sockaddr_len f))"

lemma same_slot:
  assumes "slot_ok x" "zan_io_sockaddr_family (Some a) n = f" "sockaddr_len f \<noteq> 0"
  shows "zan_io_sockaddr_family (Some x) (sockaddr_len f) = f \<and> sa_same x a (sockaddr_len f) \<longleftrightarrow> x = sa_copy a (sockaddr_len f)"
proof -
  have f: "f = AF_INET \<and> sa_family a = AF_INET \<or> f = AF_INET6 \<and> sa_family a = AF_INET6"
    using family_cases [OF assms(2)] assms(3) by (auto simp: sockaddr_len_def)
  obtain b g where x: "g = AF_INET \<or> g = AF_INET6" "sa_family b = g" "x = sa_copy b (sockaddr_len g)"
    using assms(1) unfolding slot_ok_def by blast
  show ?thesis
    using f x by (cases a; cases b) (auto simp: sa_copy_def sa_same_def sockaddr_len_def zan_io_sockaddr_family_def SOCKADDR_IN_def SOCKADDR_IN6_def)
qed

lemma resolve_loop_val:
  assumes "\<forall>x \<in> set out. slot_ok x" "distinct out" "int (length out) \<le> capacity"
  shows "resolve_loop capacity ps out =
    (let us = uniq (out @ List.map_filter usable ps) in if int (length us) \<le> capacity then Some us else None)"
  using assms
proof (induction ps arbitrary: out)
  case Nil
  then show ?case by (simp add: uniq_distinct map_filter_simps)
next
  case (Cons p ps)
  define f where "f = zan_io_sockaddr_family (ai_addr p) (ai_addrlen p)"
  show ?case
  proof (cases "usable p")
    case None
    then have "ai_addr p = None \<or> sockaddr_len f = 0" by (auto simp: usable_def f_def Let_def split: option.splits if_splits)
    then show ?thesis using Cons None by (auto simp: Let_def f_def [symmetric] map_filter_simps split: option.splits)
  next
    case (Some x)
    then obtain a where a: "ai_addr p = Some a" "sockaddr_len f \<noteq> 0" "x = sa_copy a (sockaddr_len f)"
      by (auto simp: usable_def f_def Let_def split: option.splits if_splits)
    have f: "f = AF_INET \<and> sa_family a = AF_INET \<and> ai_addrlen p \<ge> SOCKADDR_IN \<or> f = AF_INET6 \<and> sa_family a = AF_INET6 \<and> ai_addrlen p \<ge> SOCKADDR_IN6"
      using family_cases [of a "ai_addrlen p" f] a(1,2) by (auto simp: f_def sockaddr_len_def)
    then have enough: "\<not> ai_addrlen p < sockaddr_len f" by (auto simp: sockaddr_len_def)
    have seen: "list_ex (\<lambda>old. zan_io_sockaddr_family (Some old) (sockaddr_len f) = f \<and> sa_same old a (sockaddr_len f)) out \<longleftrightarrow> x \<in> set out"
      using same_slot [of _ a "ai_addrlen p" f] Cons.prems(1) a by (auto simp: list_ex_iff f_def)
    have step: "resolve_loop capacity (p # ps) out =
      (if x \<in> set out then resolve_loop capacity ps out
       else if int (length out) \<ge> capacity then None else resolve_loop capacity ps (out @ [x]))"
    proof -
      have "zan_io_sockaddr_family (Some a) (ai_addrlen p) = f" by (simp add: f_def a(1))
      then show ?thesis using a enough seen by (simp add: Let_def)
    qed
    have us: "List.map_filter usable (p # ps) = x # List.map_filter usable ps" using Some by (simp add: map_filter_simps)
    show ?thesis
    proof (cases "x \<in> set out")
      case True
      then show ?thesis unfolding step us using Cons by (simp add: uniq_seen)
    next
      case False
      have ok: "\<forall>y \<in> set (out @ [x]). slot_ok y" using Cons.prems(1) f a(3) by (auto simp: slot_ok_def)
      have d: "distinct (out @ [x])" using Cons.prems(2) False by simp
      show ?thesis
      proof (cases "int (length out) \<ge> capacity")
        case full: True
        have "card (set (out @ [x])) \<le> card (set (uniq (out @ x # List.map_filter usable ps)))"
          unfolding set_uniq by (intro card_mono) auto
        also have "\<dots> = length (uniq (out @ x # List.map_filter usable ps))" by (rule distinct_card [OF distinct_uniq])
        finally have "length out < length (uniq (out @ x # List.map_filter usable ps))"
          unfolding distinct_card [OF d] by simp
        then show ?thesis unfolding step us using False full by simp
      next
        case room: False
        then have "int (length (out @ [x])) \<le> capacity" by simp
        from Cons.IH [OF ok d this] show ?thesis unfolding step us using False room by simp
      qed
    qed
  qed
qed

section \<open>Properties\<close>

text \<open>The bytes that an address of its family has.\<close>

definition sockaddr_ok :: "sockaddr \<Rightarrow> bool" where
  "sockaddr_ok a \<longleftrightarrow> nat (sockaddr_len (sa_family a)) \<le> 2 + length (sa_data a)"

text \<open>
  C21. \<open>zan_io_sockaddr_is_safe\<close> decides membership in networks: an IPv4 address is safe when it lies
  in none of the refused networks, a loopback address when the caller allows it; an IPv6 address when
  it is neither unspecified nor in a refused network and every IPv4 address embedded in it is safe.
  Null, short and foreign addresses are never safe.
\<close>

theorem zan_io_sockaddr_is_safe_networks:
  assumes "case sa of None \<Rightarrow> True | Some a \<Rightarrow> sockaddr_ok a"
  shows "zan_io_sockaddr_is_safe sa len allow =
    (case (zan_io_sockaddr_family sa len, sa) of
       (AF_INET, Some a) \<Rightarrow> public4 allow (sin_addr a)
     | (AF_INET6, Some a) \<Rightarrow> public6 allow (sin6_addr a)
     | _ \<Rightarrow> False)"
proof (cases sa)
  case None
  then show ?thesis by (simp add: zan_io_sockaddr_is_safe.simps [of None] zan_io_sockaddr_family_def)
next
  case (Some a)
  consider "zan_io_sockaddr_family sa len = AF_INET" "sa_family a = AF_INET"
    | "zan_io_sockaddr_family sa len = AF_INET6" "sa_family a = AF_INET6" | "zan_io_sockaddr_family sa len = AF_UNSPEC"
    using family_cases [of a len "zan_io_sockaddr_family sa len"] Some by auto
  then show ?thesis
  proof cases
    case 1
    then have "length (sin_addr a) = 4"
      using assms Some by (simp add: sockaddr_ok_def sockaddr_len_def SOCKADDR_IN_def sin_addr_def)
    with is_safe_in [of a len allow] 1 show ?thesis by (simp add: Some)
  next
    case 2
    then have "length (sin6_addr a) = 16"
      using assms Some by (simp add: sockaddr_ok_def sockaddr_len_def SOCKADDR_IN6_def sin6_addr_def)
    with is_safe_in6 [of a len allow] 2 show ?thesis by (simp add: Some)
  next
    case 3
    then show ?thesis by (simp add: zan_io_sockaddr_is_safe.simps [of sa])
  qed
qed

text \<open>The address \<open>::ffff:10.0.0.1\<close>, a private IPv4 address in IPv6.\<close>

definition mapped_private :: sockaddr where
  "mapped_private = \<lparr> sa_family = AF_INET6, sa_data = replicate 16 0 @ [255, 255, 10, 0, 0, 1] @ replicate 4 0 \<rparr>"

theorem zan_io_sockaddr_is_safe_networks_witness:
  "\<not> zan_io_sockaddr_is_safe (Some mapped_private) 28 True"
proof -
  have "sockaddr_ok mapped_private" by (simp add: sockaddr_ok_def mapped_private_def sockaddr_len_def SOCKADDR_IN6_def)
  moreover have "zan_io_sockaddr_family (Some mapped_private) 28 = AF_INET6"
    by (simp add: zan_io_sockaddr_family_def mapped_private_def SOCKADDR_IN6_def)
  moreover have "\<not> public6 True (sin6_addr mapped_private)" by code_simp
  ultimately show ?thesis using zan_io_sockaddr_is_safe_networks [of "Some mapped_private" 28 True] by simp
qed

text \<open>
  \<open>zan_io_resolve_all\<close> returns every usable address of the resolver once, in its order, or
  nothing at all: if there are more than the buffer has slots, the buffer is cleared.
\<close>

theorem zan_io_resolve_all_distinct:
  assumes "gai n (Some (dec_int port)) AF_UNSPEC = Some ps" "ps \<noteq> []" "n \<noteq> []" "ZAN_IO_SA_STRIDE \<le> cap"
  shows "zan_io_resolve_all gai (Some n) port True cap =
    (let us = uniq (List.map_filter usable ps)
     in if int (length us) \<le> cap div ZAN_IO_SA_STRIDE then (int (length us), Slots us) else (0, Cleared))"
proof -
  have "0 \<le> cap div ZAN_IO_SA_STRIDE" using assms(4) by (simp add: ZAN_IO_SA_STRIDE_def)
  then have "resolve_loop (cap div ZAN_IO_SA_STRIDE) ps [] = (let us = uniq (List.map_filter usable ps)
     in if int (length us) \<le> cap div ZAN_IO_SA_STRIDE then Some us else None)"
    using resolve_loop_val [of "[]" "cap div ZAN_IO_SA_STRIDE" ps] by simp
  then show ?thesis
    using assms by (auto simp: zan_io_resolve_all_def ZAN_IO_SA_STRIDE_def Let_def neq_Nil_conv)
qed

text \<open>A resolver that answers with the same address twice.\<close>

definition twice :: resolver where
  "twice n s f = Some (replicate 2 \<lparr> ai_family = AF_INET, ai_addr = Some (sockaddr_in_of [8, 8, 8, 8]), ai_addrlen = 16 \<rparr>)"

theorem zan_io_resolve_all_distinct_witness:
  "zan_io_resolve_all twice (Some [97]) 80 True 64 = (1, Slots [sockaddr_in_of [8, 8, 8, 8]])"
proof -
  have "uniq (List.map_filter usable (replicate 2 \<lparr> ai_family = AF_INET, ai_addr = Some (sockaddr_in_of [8, 8, 8, 8]), ai_addrlen = 16 \<rparr>)) =
      [sockaddr_in_of [8, 8, 8, 8]]"
    by code_simp
  with zan_io_resolve_all_distinct [of twice "[97]" 80 _ 64] show ?thesis
    by (simp add: twice_def ZAN_IO_SA_STRIDE_def)
qed

text \<open>
  What the lists of networks leave out and hold too much: site-local addresses (\<open>fec0::/10\<close>) and the
  discard network (\<open>100::/64\<close>) are accepted, and the public networks \<open>192.2.0.0/16\<close> and
  \<open>192.0.64.0/18\<close> are refused.
\<close>

lemma networks_off:
  "public6 False ([254, 192] @ replicate 13 0 @ [1])" "public6 False ([1] @ replicate 14 0 @ [1])"
  "\<not> public4 False [192, 2, 1, 1]" "\<not> public4 False [192, 0, 78, 24]"
  by code_simp+

end
