(* ===== verification/Io_Reactor.thy ===== *)
theory Io_Reactor
  imports Net_Address "HOL-Library.Multiset"
begin

text \<open>
  The io reactor of \<open>zanstubs.c\<close>: coroutines that wait for a descriptor park in a table of watches,
  \<open>zan_io_poll\<close> and \<open>zan_io_close_notify\<close> retire watches and resume their coroutines, and name lookups
  run on workers that hand their results over through a list and a pipe.

  The kernel is a record of functions on a state of its own. A call that does not return, because the
  process runs out of memory and aborts or because a system call is interrupted for ever, is \<^const>\<open>None\<close>.
\<close>

section \<open>The kernel\<close>

datatype io_errno = EINTR | EAGAIN | EOTHER

text \<open>
  \<open>k_alive\<close> is \<open>fcntl(fd, F_GETFD) != -1\<close>, \<open>k_ready\<close> a \<open>poll\<close> of one descriptor without a wait, \<open>k_poll\<close>
  the \<open>poll\<close> of pairs of a descriptor and whether it is to be written, with a time-out in milliseconds;
  it yields the events of every entry. \<open>k_mem\<close> is a successful allocation, \<open>k_pipe\<close> the creation of the
  self-pipe, \<open>k_drain\<close> reads the pipe empty, \<open>k_spawn\<close> is a successful \<open>pthread_create\<close>.
\<close>

record 'w kernel =
  k_alive :: "int \<Rightarrow> 'w \<Rightarrow> bool \<times> 'w"
  k_ready :: "int \<Rightarrow> 'w \<Rightarrow> bool \<times> 'w"
  k_recv :: "int \<Rightarrow> int \<Rightarrow> 'w \<Rightarrow> (io_errno + u8 list) \<times> 'w"
  k_accept :: "int \<Rightarrow> 'w \<Rightarrow> (io_errno + int) \<times> 'w"
  k_poll :: "(int \<times> bool) list \<Rightarrow> int \<Rightarrow> 'w \<Rightarrow> (io_errno + u16 list) \<times> 'w"
  k_now :: "'w \<Rightarrow> int \<times> 'w"
  k_mem :: "'w \<Rightarrow> bool \<times> 'w"
  k_pipe :: "'w \<Rightarrow> bool \<times> 'w"
  k_drain :: "'w \<Rightarrow> 'w"
  k_spawn :: "'w \<Rightarrow> bool \<times> 'w"

definition POLLNVAL :: u16 where "POLLNVAL = 32"
definition POLLANY :: u16 where "POLLANY = 1 OR 4 OR 8 OR 16"

section \<open>The state\<close>

datatype io_kind = IoIn | IoOut | IoRecv | IoRecvTo | IoAccept | IoDns

record io_watch =
  w_fd :: int
  w_kind :: io_kind
  w_active :: bool
  w_buf :: nat
  w_len :: int
  w_deadline :: int
  w_frame :: int
  w_step :: int
  w_out :: "nat option"

record dns_job =
  j_name :: cstr
  j_port :: int
  j_buf :: nat
  j_cap :: int
  j_out :: nat
  j_frame :: int
  j_step :: int
  j_result :: int
  j_v4 :: bool

text \<open>
  What the reactor does to the memory of the coroutines, in order: a result in a slot, received bytes
  or an address in a buffer, and the call of the ready hook, which queues the coroutine.
\<close>

datatype io_event = Stored nat int | Received nat "u8 list" | Resolved nat sockaddr | Resumed int int

text \<open>
  \<open>io_cap\<close> is the size of the table \<open>zt_io_ws\<close>, whose first \<open>zt_io_n\<close> entries are \<open>io_ws\<close>; \<open>io_hook\<close> is
  whether a ready hook is set; the jobs of the workers are those that still run and those handed over.
\<close>

record reactor =
  io_ws :: "io_watch list"
  io_cap :: nat
  io_hook :: bool
  io_pipe :: "int option"
  io_running :: "dns_job list"
  io_done :: "dns_job list"
  io_log :: "io_event list"

definition io_boot :: reactor where
  "io_boot = \<lparr> io_ws = [], io_cap = 0, io_hook = False, io_pipe = None, io_running = [], io_done = [], io_log = [] \<rparr>"

definition zan_set_ready_hook :: "bool \<Rightarrow> reactor \<Rightarrow> reactor" where
  "zan_set_ready_hook fn r = r\<lparr> io_hook := fn \<rparr>"

text \<open>The call \<open>zan_co_ready_hook(frame, step)\<close>, if a hook is set.\<close>

definition co_ready :: "int \<Rightarrow> int \<Rightarrow> reactor \<Rightarrow> reactor" where
  "co_ready frame step r = (if io_hook r then r\<lparr> io_log := io_log r @ [Resumed frame step] \<rparr> else r)"

definition io_store :: "nat \<Rightarrow> int \<Rightarrow> reactor \<Rightarrow> reactor" where
  "io_store a n r = r\<lparr> io_log := io_log r @ [Stored a n] \<rparr>"

definition io_receive :: "nat \<Rightarrow> u8 list \<Rightarrow> reactor \<Rightarrow> reactor" where
  "io_receive b bs r = (if bs = [] then r else r\<lparr> io_log := io_log r @ [Received b bs] \<rparr>)"

section \<open>Watches\<close>

definition zt_io_push :: "'w kernel \<Rightarrow> io_watch \<Rightarrow> reactor \<Rightarrow> 'w \<Rightarrow> (reactor \<times> 'w) option" where
  "zt_io_push K x r w =
     (if length (io_ws r) = io_cap r then
        (case k_mem K w of (ok, w1) \<Rightarrow>
           if ok then Some (r\<lparr> io_cap := (if io_cap r \<noteq> 0 then io_cap r * 2 else 8), io_ws := io_ws r @ [x] \<rparr>, w1)
           else None)
      else Some (r\<lparr> io_ws := io_ws r @ [x] \<rparr>, w))"

definition zt_io_deliver :: "nat \<Rightarrow> int \<Rightarrow> reactor \<Rightarrow> reactor" where
  "zt_io_deliver i n r =
     (let x = io_ws r ! i;
          r1 = r\<lparr> io_ws := (io_ws r)[i := x\<lparr> w_active := False \<rparr>] \<rparr>;
          r2 = (case w_out x of Some a \<Rightarrow> io_store a n r1 | None \<Rightarrow> r1)
      in co_ready (w_frame x) (w_step x) r2)"

text \<open>One receive: its result and the bytes, -2 when it would block.\<close>

partial_function (option) zt_recv_try :: "'w kernel \<Rightarrow> int \<Rightarrow> int \<Rightarrow> 'w \<Rightarrow> ((int \<times> u8 list) \<times> 'w) option" where
  "zt_recv_try K fd len w =
     (if len \<le> 0 then Some ((0, []), w)
      else case k_recv K fd len w of (res, w1) \<Rightarrow>
        (case res of
           Inr bs \<Rightarrow> Some ((int (length bs), bs), w1)
         | Inl e \<Rightarrow> if e = EINTR then zt_recv_try K fd len w1
                   else Some ((if e = EAGAIN then -2 else -1, []), w1)))"

text \<open>One accept, with -2 when it would block and -1 for any other error.\<close>

partial_function (option) accept_try :: "'w kernel \<Rightarrow> int \<Rightarrow> 'w \<Rightarrow> (int \<times> 'w) option" where
  "accept_try K fd w =
     (case k_accept K fd w of (res, w1) \<Rightarrow>
        (case res of
           Inr c \<Rightarrow> Some (c, w1)
         | Inl e \<Rightarrow> if e = EINTR then accept_try K fd w1 else Some (if e = EAGAIN then -2 else -1, w1)))"

section \<open>Parking\<close>

definition watch_of :: "int \<Rightarrow> io_kind \<Rightarrow> nat \<Rightarrow> int \<Rightarrow> int \<Rightarrow> int \<Rightarrow> int \<Rightarrow> nat option \<Rightarrow> io_watch" where
  "watch_of fd kind buf len deadline frame step out =
     \<lparr> w_fd = fd, w_kind = kind, w_active = True, w_buf = buf, w_len = len, w_deadline = deadline,
       w_frame = frame, w_step = step, w_out = out \<rparr>"

definition zan_io_wait_co :: "'w kernel \<Rightarrow> int \<Rightarrow> int \<Rightarrow> int \<Rightarrow> int \<Rightarrow> reactor \<Rightarrow> 'w \<Rightarrow> (reactor \<times> 'w) option" where
  "zan_io_wait_co K fd interest frame step r w =
     (case k_alive K fd w of (alive, w1) \<Rightarrow>
        if \<not> alive then Some (co_ready frame step r, w1)
        else zt_io_push K (watch_of fd (if interest = 2 then IoOut else IoIn) 0 0 0 frame step None) r w1)"

text \<open>The attempt before parking: 0 for a dead descriptor, -2 when there is nothing to read.\<close>

definition recv_now :: "'w kernel \<Rightarrow> int \<Rightarrow> int \<Rightarrow> 'w \<Rightarrow> ((int \<times> u8 list) \<times> 'w) option" where
  "recv_now K fd len w =
     (case k_alive K fd w of (alive, w1) \<Rightarrow>
        if \<not> alive then Some ((0, []), w1)
        else (case k_ready K fd w1 of (ready, w2) \<Rightarrow>
          if ready then zt_recv_try K fd len w2 else Some ((-2, []), w2)))"

definition zan_io_recv_co ::
    "'w kernel \<Rightarrow> int \<Rightarrow> nat \<Rightarrow> int \<Rightarrow> int \<Rightarrow> int \<Rightarrow> nat \<Rightarrow> reactor \<Rightarrow> 'w \<Rightarrow> (reactor \<times> 'w) option" where
  "zan_io_recv_co K fd buf len frame step outn r w =
     (case recv_now K fd len w of
        None \<Rightarrow> None
      | Some ((n, bs), w1) \<Rightarrow>
          if n = -2 then zt_io_push K (watch_of fd IoRecv buf len 0 frame step (Some outn)) r w1
          else Some (co_ready frame step (io_store outn n (io_receive buf bs r)), w1))"

definition zan_io_recv_to_co ::
    "'w kernel \<Rightarrow> int \<Rightarrow> nat \<Rightarrow> int \<Rightarrow> int \<Rightarrow> int \<Rightarrow> int \<Rightarrow> nat \<Rightarrow> reactor \<Rightarrow> 'w \<Rightarrow> (reactor \<times> 'w) option" where
  "zan_io_recv_to_co K fd buf len tmo frame step outn r w =
     (case recv_now K fd len w of
        None \<Rightarrow> None
      | Some ((n, bs), w1) \<Rightarrow>
          if n = -2 then
            (case (if tmo > 0 then (case k_now K w1 of (t, w2) \<Rightarrow> (t + tmo * 1000000, w2)) else (0, w1)) of
               (dl, w2) \<Rightarrow> zt_io_push K (watch_of fd IoRecvTo buf len dl frame step (Some outn)) r w2)
          else Some (co_ready frame step (io_store outn n (io_receive buf bs r)), w1))"

definition zan_io_accept_co :: "'w kernel \<Rightarrow> int \<Rightarrow> int \<Rightarrow> int \<Rightarrow> nat \<Rightarrow> reactor \<Rightarrow> 'w \<Rightarrow> (reactor \<times> 'w) option" where
  "zan_io_accept_co K fd frame step outfd r w =
     (case (case k_alive K fd w of (alive, w1) \<Rightarrow>
          if \<not> alive then Some (-1, w1)
          else (case k_ready K fd w1 of (ready, w2) \<Rightarrow> if ready then accept_try K fd w2 else Some (-2, w2))) of
        None \<Rightarrow> None
      | Some (c, w1) \<Rightarrow>
          if c = -2 then zt_io_push K (watch_of fd IoAccept 0 0 0 frame step (Some outfd)) r w1
          else Some (co_ready frame step (io_store outfd c r), w1))"

section \<open>Name lookups\<close>

text \<open>The pipe is made once; its read end is descriptor \<open>fd\<close>.\<close>

definition zt_dns_pipe_ensure :: "'w kernel \<Rightarrow> int \<Rightarrow> reactor \<Rightarrow> 'w \<Rightarrow> (bool \<times> reactor) \<times> 'w" where
  "zt_dns_pipe_ensure K fd r w =
     (if io_pipe r \<noteq> None then ((True, r), w)
      else (case k_pipe K w of (ok, w1) \<Rightarrow> if ok then ((True, r\<lparr> io_pipe := Some fd \<rparr>), w1) else ((False, r), w1)))"

text \<open>The result of a job, and the address that a lookup stores in the caller's buffer.\<close>

definition dns_lookup :: "resolver \<Rightarrow> dns_job \<Rightarrow> int \<times> sockaddr option" where
  "dns_lookup gai j =
     (if j_v4 j then (zan_io_resolve_ipv4 gai (Some (j_name j)), None)
      else zan_io_resolve_sa gai (Some (j_name j)) (j_port j) (j_cap j))"

definition io_fill :: "nat \<Rightarrow> sockaddr option \<Rightarrow> reactor \<Rightarrow> reactor" where
  "io_fill b a r = (case a of None \<Rightarrow> r | Some x \<Rightarrow> r\<lparr> io_log := io_log r @ [Resolved b x] \<rparr>)"

text \<open>
  A worker: it looks the name up, which fills the buffer, and puts the job in front of the list of
  finished jobs. The byte that it then writes to the pipe is part of the kernel's state.
\<close>

definition zt_dns_worker :: "resolver \<Rightarrow> nat \<Rightarrow> reactor \<Rightarrow> reactor" where
  "zt_dns_worker gai i r =
     (if i < length (io_running r) then
        let j = io_running r ! i; res = dns_lookup gai j; r1 = io_fill (j_buf j) (snd res) r
        in r1\<lparr> io_running := take i (io_running r) @ drop (i + 1) (io_running r),
               io_done := j\<lparr> j_result := fst res \<rparr> # io_done r \<rparr>
      else r)"

text \<open>The part that both lookups share: the watch on the pipe, and a worker or the lookup in place.\<close>

definition dns_start :: "'w kernel \<Rightarrow> resolver \<Rightarrow> int \<Rightarrow> dns_job \<Rightarrow> reactor \<Rightarrow> 'w \<Rightarrow> (reactor \<times> 'w) option" where
  "dns_start K gai fd j r w =
     (case zt_dns_pipe_ensure K fd r w of ((ok, r1), w1) \<Rightarrow>
        if \<not> ok then Some (co_ready (j_frame j) (j_step j) (io_store (j_out j) 0 r1), w1)
        else (case k_mem K w1 of (mem, w2) \<Rightarrow>
          if \<not> mem then Some (co_ready (j_frame j) (j_step j) (io_store (j_out j) 0 r1), w2)
          else (case (if list_ex (\<lambda>x. w_active x \<and> w_kind x = IoDns) (io_ws r1) then Some (r1, w2)
                      else zt_io_push K (watch_of (case io_pipe r1 of Some p \<Rightarrow> p | None \<Rightarrow> -1) IoDns 0 0 0 0 0 None) r1 w2) of
              None \<Rightarrow> None
            | Some (r2, w3) \<Rightarrow>
                (case k_spawn K w3 of (spawned, w4) \<Rightarrow>
                   if spawned then Some (r2\<lparr> io_running := io_running r2 @ [j] \<rparr>, w4)
                   else (case dns_lookup gai j of (n, a) \<Rightarrow>
                     Some (co_ready (j_frame j) (j_step j) (io_store (j_out j) n (io_fill (j_buf j) a r2)), w4))))))"

text \<open>The low 32 bits as an \<open>int32_t\<close>.\<close>

definition int32_of :: "int \<Rightarrow> int" where
  "int32_of n = sint (word_of_int n :: u32)"

text \<open>\<open>literal\<close> says whether a name is an address in digits, which \<open>inet_pton\<close> decides.\<close>

definition zan_resolve_sa_co ::
    "'w kernel \<Rightarrow> resolver \<Rightarrow> (cstr \<Rightarrow> bool) \<Rightarrow> int \<Rightarrow> cstr option \<Rightarrow> int \<Rightarrow> nat \<Rightarrow> int \<Rightarrow> int \<Rightarrow> int \<Rightarrow> nat \<Rightarrow>
      reactor \<Rightarrow> 'w \<Rightarrow> (reactor \<times> 'w) option" where
  "zan_resolve_sa_co K gai literal fd name port buf cap frame step outn r w =
     (case name of
        None \<Rightarrow> Some (co_ready frame step (io_store outn 0 r), w)
      | Some n \<Rightarrow>
          if n = [] then Some (co_ready frame step (io_store outn 0 r), w)
          else
            let j = \<lparr> j_name = n, j_port = int32_of port, j_buf = buf, j_cap = int32_of cap, j_out = outn,
                      j_frame = frame, j_step = step, j_result = 0, j_v4 = False \<rparr>
            in if literal n then
                 (case dns_lookup gai j of (res, a) \<Rightarrow> Some (co_ready frame step (io_store outn res (io_fill buf a r)), w))
               else dns_start K gai fd j r w)"

definition zan_resolve_ipv4_co ::
    "'w kernel \<Rightarrow> resolver \<Rightarrow> int \<Rightarrow> cstr option \<Rightarrow> int \<Rightarrow> int \<Rightarrow> nat \<Rightarrow> reactor \<Rightarrow> 'w \<Rightarrow> (reactor \<times> 'w) option" where
  "zan_resolve_ipv4_co K gai fd name frame step outn r w =
     (case name of
        None \<Rightarrow> Some (co_ready frame step (io_store outn 0 r), w)
      | Some n \<Rightarrow>
          if n = [] then Some (co_ready frame step (io_store outn 0 r), w)
          else dns_start K gai fd \<lparr> j_name = n, j_port = 0, j_buf = 0, j_cap = 0, j_out = outn, j_frame = frame,
                 j_step = step, j_result = 0, j_v4 = True \<rparr> r w)"

section \<open>Polling\<close>

text \<open>The time-out in milliseconds; -1 waits for ever.\<close>

definition poll_timeout :: "int \<Rightarrow> int" where
  "poll_timeout timer_wait_ns =
     (if timer_wait_ns \<ge> 0 then min ((timer_wait_ns + 999999) div 1000000) 2147483647 else -1)"

partial_function (option) poll_try :: "'w kernel \<Rightarrow> (int \<times> bool) list \<Rightarrow> int \<Rightarrow> 'w \<Rightarrow> (u16 list \<times> 'w) option" where
  "poll_try K fds timeout w =
     (case k_poll K fds timeout w of (res, w1) \<Rightarrow>
        (case res of
           Inr evs \<Rightarrow> Some (evs, w1)
         | Inl e \<Rightarrow> if e = EINTR then poll_try K fds timeout w1 else Some (replicate (length fds) 0, w1)))"

text \<open>A finished lookup is delivered: its result, and its coroutine resumed.\<close>

definition dns_deliver :: "dns_job \<Rightarrow> reactor \<Rightarrow> reactor" where
  "dns_deliver j r = co_ready (j_frame j) (j_step j) (io_store (j_out j) (j_result j) r)"

text \<open>
  The pipe is read empty and the finished jobs are taken and delivered. A worker that hands its job
  over between the two acts as if it had done so before; its byte then wakes the reactor once more.
\<close>

definition dns_drain :: "'w kernel \<Rightarrow> reactor \<Rightarrow> 'w \<Rightarrow> reactor \<times> 'w" where
  "dns_drain K r w = (fold dns_deliver (io_done r) (r\<lparr> io_done := [] \<rparr>), k_drain K w)"

text \<open>A parked receive with events, at a time \<open>now\<close>.\<close>

definition poll_recv :: "'w kernel \<Rightarrow> int \<Rightarrow> nat \<Rightarrow> reactor \<Rightarrow> 'w \<Rightarrow> (reactor \<times> 'w) option" where
  "poll_recv K now i r w =
     (let x = io_ws r ! i
      in case zt_recv_try K (w_fd x) (w_len x) w of
           None \<Rightarrow> None
         | Some ((n, bs), w1) \<Rightarrow>
             if n \<noteq> -2 then Some (zt_io_deliver i n (io_receive (w_buf x) bs r), w1)
             else if w_kind x = IoRecvTo \<and> w_deadline x \<noteq> 0 \<and> now \<ge> w_deadline x then Some (zt_io_deliver i (-1) r, w1)
             else Some (r, w1))"

definition poll_accept :: "'w kernel \<Rightarrow> nat \<Rightarrow> reactor \<Rightarrow> 'w \<Rightarrow> (reactor \<times> 'w) option" where
  "poll_accept K i r w =
     (case accept_try K (w_fd (io_ws r ! i)) w of
        None \<Rightarrow> None
      | Some (c, w1) \<Rightarrow> Some (if c = -2 then r else zt_io_deliver i c r, w1))"

definition poll_watch :: "'w kernel \<Rightarrow> int \<Rightarrow> u16 list \<Rightarrow> nat \<Rightarrow> reactor \<Rightarrow> 'w \<Rightarrow> (reactor \<times> 'w) option" where
  "poll_watch K now revs i r w =
     (let x = io_ws r ! i; ev = revs ! i
      in if \<not> w_active x then Some (r, w)
         else if ev AND POLLNVAL \<noteq> 0 then Some (zt_io_deliver i (if w_kind x = IoAccept then -1 else 0) r, w)
         else if ev AND POLLANY \<noteq> 0 then
           (case w_kind x of
              IoIn \<Rightarrow> Some (zt_io_deliver i 0 r, w)
            | IoOut \<Rightarrow> Some (zt_io_deliver i 0 r, w)
            | IoRecv \<Rightarrow> poll_recv K now i r w
            | IoRecvTo \<Rightarrow> poll_recv K now i r w
            | IoAccept \<Rightarrow> poll_accept K i r w
            | IoDns \<Rightarrow> Some (dns_drain K r w))
         else if w_kind x = IoRecvTo \<and> w_deadline x \<noteq> 0 \<and> now \<ge> w_deadline x then Some (zt_io_deliver i (-1) r, w)
         else Some (r, w))"

fun poll_all :: "'w kernel \<Rightarrow> int \<Rightarrow> u16 list \<Rightarrow> nat list \<Rightarrow> reactor \<Rightarrow> 'w \<Rightarrow> (reactor \<times> 'w) option" where
  "poll_all K now revs [] r w = Some (r, w)"
| "poll_all K now revs (i # is) r w =
     (case poll_watch K now revs i r w of
        None \<Rightarrow> None
      | Some (r1, w1) \<Rightarrow> poll_all K now revs is r1 w1)"

definition poll_fds :: "io_watch list \<Rightarrow> (int \<times> bool) list" where
  "poll_fds ws = map (\<lambda>x. (w_fd x, w_kind x = IoOut)) ws"

definition zan_io_poll :: "'w kernel \<Rightarrow> int \<Rightarrow> reactor \<Rightarrow> 'w \<Rightarrow> ((int \<times> reactor) \<times> 'w) option" where
  "zan_io_poll K timer_wait_ns r w =
     (let r1 = r\<lparr> io_ws := filter w_active (io_ws r) \<rparr>
      in if io_ws r1 = [] then Some ((0, r1), w)
         else (case k_mem K w of (mem, w1) \<Rightarrow>
           if \<not> mem then None
           else (case poll_try K (poll_fds (io_ws r1)) (poll_timeout timer_wait_ns) w1 of
               None \<Rightarrow> None
             | Some (revs, w2) \<Rightarrow>
                 (case k_now K w2 of (now, w3) \<Rightarrow>
                   (case poll_all K now revs [0..<length (io_ws r1)] r1 w3 of
                      None \<Rightarrow> None
                    | Some (r2, w4) \<Rightarrow> Some ((1, r2), w4))))))"

text \<open>Before a descriptor is closed, its watches are retired.\<close>

definition close_watch :: "int \<Rightarrow> nat \<Rightarrow> reactor \<Rightarrow> reactor" where
  "close_watch fd i r =
     (let x = io_ws r ! i
      in if w_active x \<and> w_fd x = fd then zt_io_deliver i (if w_kind x = IoAccept then -1 else 0) r else r)"

definition zan_io_close_notify :: "int \<Rightarrow> reactor \<Rightarrow> reactor" where
  "zan_io_close_notify fd r = fold (close_watch fd) [0..<length (io_ws r)] r"

end
