(* ===== verification/Io_Waiting.thy ===== *)
theory Io_Waiting
  imports Io_Reactor
begin

text \<open>
  What the reactor promises: no coroutine that was handed to it is lost or resumed twice, a closed
  descriptor keeps nobody waiting, and a poll ends once the kernel stops interrupting it.
\<close>

section \<open>Sequences of calls\<close>

datatype io_op =
    OpWait int int int int
  | OpRecv int nat int int int nat
  | OpRecvTo int nat int int int int nat
  | OpAccept int int int nat
  | OpResolve "cstr option" int nat int int int nat
  | OpResolve4 "cstr option" int int nat
  | OpWorker nat
  | OpPoll int
  | OpClose int

fun io_step :: "'w kernel \<Rightarrow> resolver \<Rightarrow> (cstr \<Rightarrow> bool) \<Rightarrow> int \<Rightarrow> io_op \<Rightarrow> reactor \<Rightarrow> 'w \<Rightarrow> (reactor \<times> 'w) option" where
  "io_step K gai lit pfd (OpWait fd i f s) r w = zan_io_wait_co K fd i f s r w"
| "io_step K gai lit pfd (OpRecv fd b l f s a) r w = zan_io_recv_co K fd b l f s a r w"
| "io_step K gai lit pfd (OpRecvTo fd b l t f s a) r w = zan_io_recv_to_co K fd b l t f s a r w"
| "io_step K gai lit pfd (OpAccept fd f s a) r w = zan_io_accept_co K fd f s a r w"
| "io_step K gai lit pfd (OpResolve n p b c f s a) r w = zan_resolve_sa_co K gai lit pfd n p b c f s a r w"
| "io_step K gai lit pfd (OpResolve4 n f s a) r w = zan_resolve_ipv4_co K gai pfd n f s a r w"
| "io_step K gai lit pfd (OpWorker i) r w = Some (zt_dns_worker gai i r, w)"
| "io_step K gai lit pfd (OpPoll t) r w = map_option (\<lambda>((n, r1), w1). (r1, w1)) (zan_io_poll K t r w)"
| "io_step K gai lit pfd (OpClose fd) r w = Some (zan_io_close_notify fd r, w)"

fun io_run :: "'w kernel \<Rightarrow> resolver \<Rightarrow> (cstr \<Rightarrow> bool) \<Rightarrow> int \<Rightarrow> io_op list \<Rightarrow> reactor \<Rightarrow> 'w \<Rightarrow> (reactor \<times> 'w) option" where
  "io_run K gai lit pfd [] r w = Some (r, w)"
| "io_run K gai lit pfd (op # ops) r w =
     (case io_step K gai lit pfd op r w of None \<Rightarrow> None | Some (r1, w1) \<Rightarrow> io_run K gai lit pfd ops r1 w1)"

section \<open>Where the coroutines are\<close>

text \<open>A coroutine is its frame and its step; a step of 0 is none.\<close>

definition co :: "int \<Rightarrow> int \<Rightarrow> (int \<times> int) multiset" where
  "co frame step = (if step = 0 then {#} else {#(frame, step)#})"

lemma co_none [simp]: "co f 0 = {#}"
  by (simp add: co_def)

fun submitted :: "io_op \<Rightarrow> (int \<times> int) multiset" where
  "submitted (OpWait fd i f s) = co f s"
| "submitted (OpRecv fd b l f s a) = co f s"
| "submitted (OpRecvTo fd b l t f s a) = co f s"
| "submitted (OpAccept fd f s a) = co f s"
| "submitted (OpResolve n p b c f s a) = co f s"
| "submitted (OpResolve4 n f s a) = co f s"
| "submitted (OpWorker i) = {#}"
| "submitted (OpPoll t) = {#}"
| "submitted (OpClose fd) = {#}"

definition watch_co :: "io_watch \<Rightarrow> (int \<times> int) multiset" where
  "watch_co x = (if w_active x then co (w_frame x) (w_step x) else {#})"

definition job_co :: "dns_job \<Rightarrow> (int \<times> int) multiset" where
  "job_co j = co (j_frame j) (j_step j)"

fun event_co :: "io_event \<Rightarrow> (int \<times> int) multiset" where
  "event_co (Resumed f s) = co f s"
| "event_co _ = {#}"

definition waiting :: "reactor \<Rightarrow> (int \<times> int) multiset" where
  "waiting r = sum_list (map watch_co (io_ws r)) + sum_list (map job_co (io_running r)) + sum_list (map job_co (io_done r))"

definition resumed :: "reactor \<Rightarrow> (int \<times> int) multiset" where
  "resumed r = sum_list (map event_co (io_log r))"

text \<open>Both together, which every operation only adds to.\<close>

definition held :: "reactor \<Rightarrow> (int \<times> int) multiset" where
  "held r = waiting r + resumed r"

section \<open>Every step\<close>

named_theorems io_co "how the parts of the reactor change what it holds"

lemma sum_list_update_add:
  "k < length xs \<Longrightarrow> sum_list (map f (xs[k := y])) + f (xs ! k) = sum_list (map f xs) + (f y :: 'a :: comm_monoid_add)"
  by (induction xs arbitrary: k) (auto simp: ac_simps split: nat.split)

lemma co_ready_hook [simp]: "io_hook (co_ready f s r) = io_hook r" "io_ws (co_ready f s r) = io_ws r"
    "io_running (co_ready f s r) = io_running r" "io_done (co_ready f s r) = io_done r"
  by (simp_all add: co_ready_def)

lemma io_store_fields [simp]: "io_hook (io_store a n r) = io_hook r" "io_ws (io_store a n r) = io_ws r"
    "io_running (io_store a n r) = io_running r" "io_done (io_store a n r) = io_done r"
  by (simp_all add: io_store_def)

lemma io_receive_fields [simp]: "io_hook (io_receive b bs r) = io_hook r" "io_ws (io_receive b bs r) = io_ws r"
  by (simp_all add: io_receive_def)

lemma io_fill_fields [simp]: "io_hook (io_fill b a r) = io_hook r" "io_ws (io_fill b a r) = io_ws r"
    "io_running (io_fill b a r) = io_running r" "io_done (io_fill b a r) = io_done r"
  by (simp_all add: io_fill_def split: option.splits)

lemma held_ready [io_co]: "io_hook r \<Longrightarrow> held (co_ready f s r) = held r + co f s"
  by (simp add: held_def waiting_def resumed_def co_ready_def)

lemma held_store [io_co]: "held (io_store a n r) = held r"
  by (simp add: held_def waiting_def resumed_def io_store_def)

lemma held_receive [io_co]: "held (io_receive b bs r) = held r"
  by (simp add: held_def waiting_def resumed_def io_receive_def)

lemma held_fill [io_co]: "held (io_fill b a r) = held r"
  by (simp add: held_def waiting_def resumed_def io_fill_def split: option.splits)

lemma held_push [io_co]:
  assumes "zt_io_push K x r w = Some (r', w')"
  shows "held r' = held r + watch_co x" "io_hook r' = io_hook r"
  using assms by (auto simp: zt_io_push_def held_def waiting_def resumed_def split: prod.splits if_splits)

lemma watch_of_co [io_co]: "watch_co (watch_of fd k b l d f s a) = co f s"
  by (simp add: watch_co_def watch_of_def)

lemma held_deliver:
  assumes "i < length (io_ws r)" "w_active (io_ws r ! i)" "io_hook r"
  shows "held (zt_io_deliver i n r) = held r" "io_hook (zt_io_deliver i n r)"
    "length (io_ws (zt_io_deliver i n r)) = length (io_ws r)"
proof -
  define x where "x = io_ws r ! i"
  define r1 where "r1 = r\<lparr> io_ws := (io_ws r)[i := x\<lparr> w_active := False \<rparr>] \<rparr>"
  have d: "zt_io_deliver i n r = co_ready (w_frame x) (w_step x) (case w_out x of Some a \<Rightarrow> io_store a n r1 | None \<Rightarrow> r1)"
    by (simp only: zt_io_deliver_def Let_def x_def r1_def)
  have "sum_list (map watch_co (io_ws r1)) + co (w_frame x) (w_step x) = sum_list (map watch_co (io_ws r))"
    using sum_list_update_add [OF assms(1), of watch_co "x\<lparr> w_active := False \<rparr>"] assms(2)
    by (simp add: r1_def watch_co_def x_def)
  then have "held r1 + co (w_frame x) (w_step x) = held r"
    by (simp add: held_def waiting_def resumed_def r1_def ac_simps)
  moreover have "io_hook r1" using assms(3) by (simp add: r1_def)
  ultimately show "held (zt_io_deliver i n r) = held r" "io_hook (zt_io_deliver i n r)"
      "length (io_ws (zt_io_deliver i n r)) = length (io_ws r)"
    unfolding d by (auto simp: io_co r1_def split: option.splits)
qed

lemma dns_deliver_fields [simp]: "io_hook (dns_deliver j r) = io_hook r" "io_ws (dns_deliver j r) = io_ws r"
    "io_done (dns_deliver j r) = io_done r"
  by (simp_all add: dns_deliver_def)

lemma held_fold_deliver:
  "io_hook r \<Longrightarrow> held (fold dns_deliver js r) = held r + sum_list (map job_co js) \<and> io_hook (fold dns_deliver js r) \<and>
    io_ws (fold dns_deliver js r) = io_ws r"
  by (induction js arbitrary: r) (auto simp: dns_deliver_def io_co job_co_def ac_simps)

lemma held_drain:
  assumes "io_hook r" "dns_drain K r w = (r', w')"
  shows "held r' = held r" "io_hook r'" "io_ws r' = io_ws r"
proof -
  have r': "r' = fold dns_deliver (io_done r) (r\<lparr> io_done := [] \<rparr>)" using assms(2) by (simp add: dns_drain_def)
  have "held (r\<lparr> io_done := [] \<rparr>) + sum_list (map job_co (io_done r)) = held r"
    by (simp add: held_def waiting_def resumed_def ac_simps)
  with held_fold_deliver [of "r\<lparr> io_done := [] \<rparr>" "io_done r"] assms(1)
  show "held r' = held r" "io_hook r'" "io_ws r' = io_ws r" by (simp_all add: r')
qed

text \<open>What every operation keeps.\<close>

definition keeps :: "reactor \<Rightarrow> reactor \<Rightarrow> bool" where
  "keeps r r' \<longleftrightarrow> held r' = held r \<and> io_hook r' \<and> length (io_ws r') = length (io_ws r)"

lemma keeps_refl: "io_hook r \<Longrightarrow> keeps r r"
  by (simp add: keeps_def)

lemma keeps_trans: "keeps r r1 \<Longrightarrow> keeps r1 r2 \<Longrightarrow> keeps r r2"
  by (simp add: keeps_def)

lemma keeps_deliver: "i < length (io_ws r) \<Longrightarrow> w_active (io_ws r ! i) \<Longrightarrow> io_hook r \<Longrightarrow> keeps r (zt_io_deliver i n r)"
  using held_deliver [of i r n] by (simp add: keeps_def)

lemma keeps_receive:
  "i < length (io_ws r) \<Longrightarrow> w_active (io_ws r ! i) \<Longrightarrow> io_hook r \<Longrightarrow> keeps r (zt_io_deliver i n (io_receive b bs r))"
  using held_deliver [of i "io_receive b bs r" n] by (simp add: keeps_def io_co)

lemma keeps_poll_recv:
  "poll_recv K now i r w = Some (r', w') \<Longrightarrow> i < length (io_ws r) \<Longrightarrow> w_active (io_ws r ! i) \<Longrightarrow> io_hook r \<Longrightarrow> keeps r r'"
  by (auto simp: poll_recv_def Let_def split: option.splits if_splits intro: keeps_deliver keeps_receive keeps_refl)

lemma keeps_poll_watch:
  assumes "poll_watch K now revs i r w = Some (r', w')" "i < length (io_ws r)" "io_hook r"
  shows "keeps r r'"
proof (cases "w_active (io_ws r ! i)")
  case True
  have "dns_drain K r w = (r', w') \<Longrightarrow> keeps r r'"
    unfolding keeps_def by (metis held_drain [OF assms(3)])
  with True assms show ?thesis
    by (auto simp: poll_watch_def Let_def poll_accept_def keeps_deliver keeps_refl keeps_poll_recv
      split: if_splits io_kind.splits option.splits)
next
  case False
  with assms show ?thesis by (auto simp: poll_watch_def Let_def keeps_refl)
qed

lemma keeps_poll_all:
  "poll_all K now revs is r w = Some (r', w') \<Longrightarrow> \<forall>i \<in> set is. i < length (io_ws r) \<Longrightarrow> io_hook r \<Longrightarrow> keeps r r'"
proof (induction "is" arbitrary: r w)
  case (Cons i "is")
  obtain r1 w1 where s: "poll_watch K now revs i r w = Some (r1, w1)" "poll_all K now revs is r1 w1 = Some (r', w')"
    using Cons.prems(1) by (auto split: option.splits)
  have k: "keeps r r1" using keeps_poll_watch [OF s(1)] Cons.prems(2,3) by simp
  then have "keeps r1 r'" using Cons.IH [OF s(2)] Cons.prems(2) by (simp add: keeps_def)
  with k show ?case by (rule keeps_trans)
qed (simp add: keeps_refl)

lemma sum_active: "sum_list (map watch_co (filter w_active ws)) = sum_list (map watch_co ws)"
  by (induction ws) (auto simp: watch_co_def)

lemma held_poll:
  assumes "zan_io_poll K t r w = Some ((n, r'), w')" "io_hook r"
  shows "held r' = held r" "io_hook r'"
proof -
  define r1 where "r1 = r\<lparr> io_ws := filter w_active (io_ws r) \<rparr>"
  have "held r1 = held r" "io_hook r1"
    using assms(2) by (simp_all add: r1_def held_def waiting_def resumed_def sum_active)
  moreover have "r' = r1 \<or> (\<exists>now revs w3 w4. poll_all K now revs [0..<length (io_ws r1)] r1 w3 = Some (r', w4))"
    using assms(1) by (fastforce simp: zan_io_poll_def Let_def r1_def split: if_splits option.splits prod.splits)
  ultimately show "held r' = held r" "io_hook r'"
    using keeps_poll_all [of K _ _ "[0..<length (io_ws r1)]" r1 _ r'] by (auto simp: keeps_def)
qed

lemma keeps_close: "\<forall>i \<in> set is. i < length (io_ws r) \<Longrightarrow> io_hook r \<Longrightarrow> keeps r (fold (close_watch fd) is r)"
proof (induction "is" arbitrary: r)
  case (Cons i "is")
  have k: "keeps r (close_watch fd i r)"
    using Cons.prems by (auto simp: close_watch_def Let_def keeps_deliver keeps_refl)
  then have "keeps (close_watch fd i r) (fold (close_watch fd) is (close_watch fd i r))"
    using Cons.IH [of "close_watch fd i r"] Cons.prems(1) by (simp add: keeps_def)
  with k show ?case by (simp add: keeps_trans)
qed (simp add: keeps_refl)

lemma held_worker: "held (zt_dns_worker gai i r) = held r" "io_hook (zt_dns_worker gai i r) = io_hook r"
proof -
  show "io_hook (zt_dns_worker gai i r) = io_hook r" by (simp add: zt_dns_worker_def Let_def)
  have jc: "job_co (j\<lparr> j_result := n \<rparr>) = job_co j" for j n by (simp add: job_co_def)
  show "held (zt_dns_worker gai i r) = held r"
  proof (cases "i < length (io_running r)")
    case True
    define j where "j = io_running r ! i"
    define a where "a = snd (dns_lookup gai j)"
    have "io_running r = take i (io_running r) @ j # drop (i + 1) (io_running r)"
      using id_take_nth_drop [OF True] by (simp add: j_def)
    then have "sum_list (map job_co (io_running r)) =
        sum_list (map job_co (take i (io_running r) @ j # drop (i + 1) (io_running r)))" by simp
    then have "held (io_fill (j_buf j) a r\<lparr> io_running := take i (io_running r) @ drop (i + 1) (io_running r),
        io_done := j\<lparr> j_result := fst (dns_lookup gai j) \<rparr> # io_done r \<rparr>) = held (io_fill (j_buf j) a r)"
      by (simp add: held_def waiting_def resumed_def jc ac_simps)
    then show ?thesis using True by (simp add: zt_dns_worker_def Let_def j_def [symmetric] a_def [symmetric] io_co)
  qed (simp add: zt_dns_worker_def)
qed

lemma held_ensure:
  "zt_dns_pipe_ensure K fd r w = ((ok, r'), w') \<Longrightarrow> held r' = held r \<and> io_hook r' = io_hook r"
  by (auto simp: zt_dns_pipe_ensure_def held_def waiting_def resumed_def split: if_splits prod.splits)

lemma held_start:
  assumes "dns_start K gai fd j r w = Some (r', w')" "io_hook r"
  shows "held r' = held r + job_co j \<and> io_hook r'"
proof -
  obtain ok r1 w1 where e: "zt_dns_pipe_ensure K fd r w = ((ok, r1), w1)" by (metis prod.collapse)
  have r1: "held r1 = held r" "io_hook r1" using held_ensure [OF e] assms(2) by simp_all
  have run: "held (r2\<lparr> io_running := io_running r2 @ [j] \<rparr>) = held r2 + job_co j" for r2
    by (simp add: held_def waiting_def resumed_def ac_simps)
  have step: "\<exists>w2. (if list_ex (\<lambda>x. w_active x \<and> w_kind x = IoDns) (io_ws r1) then Some (r1, w2)
      else zt_io_push K (watch_of (case io_pipe r1 of Some p \<Rightarrow> p | None \<Rightarrow> -1) IoDns 0 0 0 0 0 None) r1 w2) = Some (r2, w3) \<Longrightarrow>
      held r2 = held r1 \<and> io_hook r2" for r2 w3
    using r1(2) held_push [of K _ r1 _ r2 w3] by (auto simp: io_co co_def split: if_splits)
  show ?thesis
    using assms(1) r1 step unfolding dns_start_def e
    by (auto simp: io_co job_co_def run split: if_splits prod.splits option.splits) 
qed

lemma io_step_held:
  assumes "io_step K gai lit pfd op r w = Some (r', w')" "io_hook r"
  shows "held r' = held r + submitted op \<and> io_hook r'"
proof (cases op)
  case (OpWait fd i f s)
  with assms show ?thesis by (auto simp: zan_io_wait_co_def io_co split: prod.splits if_splits)
next
  case (OpRecv fd b l f s a)
  with assms show ?thesis by (auto simp: zan_io_recv_co_def io_co split: prod.splits if_splits option.splits)
next
  case (OpRecvTo fd b l t f s a)
  with assms show ?thesis by (auto simp: zan_io_recv_to_co_def io_co split: prod.splits if_splits option.splits)
next
  case (OpAccept fd f s a)
  with assms show ?thesis by (auto simp: zan_io_accept_co_def io_co split: prod.splits if_splits option.splits)
next
  case (OpResolve n p b c f s a)
  with assms show ?thesis
    by (auto simp: zan_resolve_sa_co_def io_co job_co_def Let_def dest: held_start split: prod.splits if_splits option.splits)
next
  case (OpResolve4 n f s a)
  with assms show ?thesis
    by (auto simp: zan_resolve_ipv4_co_def io_co job_co_def dest: held_start split: prod.splits if_splits option.splits)
next
  case (OpWorker i)
  with assms show ?thesis by (simp add: held_worker) (metis held_worker)
next
  case (OpPoll t)
  with assms show ?thesis using held_poll [of K t r w] by auto
next
  case (OpClose fd)
  with assms show ?thesis using keeps_close [of "[0..<length (io_ws r)]" r fd] by (auto simp: zan_io_close_notify_def keeps_def)
qed

lemma io_run_held:
  assumes "io_run K gai lit pfd ops r w = Some (r', w')" "io_hook r"
  shows "held r' = held r + sum_list (map submitted ops)"
  using assms
proof (induction ops arbitrary: r w)
  case (Cons op ops)
  obtain r1 w1 where s: "io_step K gai lit pfd op r w = Some (r1, w1)" "io_run K gai lit pfd ops r1 w1 = Some (r', w')"
    using Cons.prems(1) by (auto split: option.splits)
  have k: "held r1 = held r + submitted op" "io_hook r1" using io_step_held [OF s(1) Cons.prems(2)] by simp_all
  show ?case using Cons.IH [OF s(2) k(2)] by (simp add: k(1) ac_simps)
qed simp

section \<open>Closing a descriptor\<close>

definition closed :: "int \<Rightarrow> io_watch \<Rightarrow> io_watch" where
  "closed fd x = (if w_active x \<and> w_fd x = fd then x\<lparr> w_active := False \<rparr> else x)"

definition close_events :: "bool \<Rightarrow> int \<Rightarrow> io_watch \<Rightarrow> io_event list" where
  "close_events hook fd x =
     (if w_active x \<and> w_fd x = fd then
        (case w_out x of Some a \<Rightarrow> [Stored a (if w_kind x = IoAccept then -1 else 0)] | None \<Rightarrow> []) @
        (if hook then [Resumed (w_frame x) (w_step x)] else [])
      else [])"

lemma close_watch_val:
  assumes "i < length (io_ws r)"
  shows "close_watch fd i r = r\<lparr> io_ws := (io_ws r)[i := closed fd (io_ws r ! i)],
    io_log := io_log r @ close_events (io_hook r) fd (io_ws r ! i) \<rparr>"
  by (auto simp: close_watch_def zt_io_deliver_def Let_def closed_def close_events_def co_ready_def io_store_def
    split: option.splits)

lemma close_prefix:
  "n \<le> length (io_ws r) \<Longrightarrow> fold (close_watch fd) [0..<n] r =
    r\<lparr> io_ws := map (closed fd) (take n (io_ws r)) @ drop n (io_ws r),
       io_log := io_log r @ concat (map (close_events (io_hook r) fd) (take n (io_ws r))) \<rparr>"
proof (induction n)
  case (Suc n)
  then have n: "n < length (io_ws r)" by simp
  define r1 where "r1 = fold (close_watch fd) [0..<n] r"
  have r1: "r1 = r\<lparr> io_ws := map (closed fd) (take n (io_ws r)) @ drop n (io_ws r),
      io_log := io_log r @ concat (map (close_events (io_hook r) fd) (take n (io_ws r))) \<rparr>"
    using Suc by (simp add: r1_def)
  have at: "io_ws r1 ! n = io_ws r ! n" "n < length (io_ws r1)" using n by (simp_all add: r1 nth_append)
  have ws: "(io_ws r1)[n := closed fd (io_ws r ! n)] = map (closed fd) (take (Suc n) (io_ws r)) @ drop (Suc n) (io_ws r)"
    using n by (simp add: r1 list_update_append take_Suc_conv_app_nth flip: Cons_nth_drop_Suc)
  have "fold (close_watch fd) [0..<Suc n] r = close_watch fd n r1" by (simp add: r1_def)
  also have "\<dots> = r1\<lparr> io_ws := (io_ws r1)[n := closed fd (io_ws r ! n)],
      io_log := io_log r1 @ close_events (io_hook r) fd (io_ws r ! n) \<rparr>"
    using close_watch_val [OF at(2)] at(1) by (simp add: r1)
  also have "\<dots> = r\<lparr> io_ws := map (closed fd) (take (Suc n) (io_ws r)) @ drop (Suc n) (io_ws r),
      io_log := io_log r @ concat (map (close_events (io_hook r) fd) (take (Suc n) (io_ws r))) \<rparr>"
    unfolding ws using n by (simp add: r1 take_Suc_conv_app_nth)
  finally show ?case .
qed simp

section \<open>Returning\<close>

text \<open>A kernel that interrupts only finitely often in a row, and has memory.\<close>

definition patient :: "'w kernel \<Rightarrow> ('w \<Rightarrow> nat) \<Rightarrow> bool" where
  "patient K left \<longleftrightarrow> (\<forall>w. fst (k_mem K w)) \<and>
     (\<forall>fd n w w1. k_recv K fd n w = (Inl EINTR, w1) \<longrightarrow> left w1 < left w) \<and>
     (\<forall>fd w w1. k_accept K fd w = (Inl EINTR, w1) \<longrightarrow> left w1 < left w) \<and>
     (\<forall>fds t w w1. k_poll K fds t w = (Inl EINTR, w1) \<longrightarrow> left w1 < left w)"

lemma recv_returns: "patient K left \<Longrightarrow> zt_recv_try K fd len w \<noteq> None"
proof (induction w rule: measure_induct_rule [of left])
  case (less w)
  obtain res w1 where k: "k_recv K fd len w = (res, w1)" by fastforce
  have "res = Inl EINTR \<Longrightarrow> zt_recv_try K fd len w1 \<noteq> None" using less k by (auto simp: patient_def)
  then show ?case by (auto simp: zt_recv_try.simps [of K fd len w] k split: sum.splits)
qed

lemma accept_returns: "patient K left \<Longrightarrow> accept_try K fd w \<noteq> None"
proof (induction w rule: measure_induct_rule [of left])
  case (less w)
  obtain res w1 where k: "k_accept K fd w = (res, w1)" by fastforce
  have "res = Inl EINTR \<Longrightarrow> accept_try K fd w1 \<noteq> None" using less k by (auto simp: patient_def)
  then show ?case by (auto simp: accept_try.simps [of K fd w] k split: sum.splits)
qed

lemma poll_try_returns: "patient K left \<Longrightarrow> poll_try K fds t w \<noteq> None"
proof (induction w rule: measure_induct_rule [of left])
  case (less w)
  obtain res w1 where k: "k_poll K fds t w = (res, w1)" by fastforce
  have "res = Inl EINTR \<Longrightarrow> poll_try K fds t w1 \<noteq> None" using less k by (auto simp: patient_def)
  then show ?case by (auto simp: poll_try.simps [of K fds t w] k split: sum.splits)
qed

lemma patient_mem: "patient K left \<Longrightarrow> \<exists>w1. k_mem K w = (True, w1)"
  by (cases "k_mem K w") (auto simp: patient_def dest: spec [of _ w])

lemma push_returns: "patient K left \<Longrightarrow> zt_io_push K x r w \<noteq> None"
  using patient_mem [of K left w] by (auto simp: zt_io_push_def)

lemma recv_now_returns:
  assumes "patient K left"
  shows "recv_now K fd len w \<noteq> None"
  using recv_returns [OF assms] by (simp add: recv_now_def split: prod.split)

lemma poll_watch_returns:
  assumes "patient K left"
  shows "poll_watch K now revs i r w \<noteq> None"
proof -
  have "poll_recv K now i r w \<noteq> None"
    using recv_returns [OF assms, of "w_fd (io_ws r ! i)" "w_len (io_ws r ! i)" w]
    by (auto simp: poll_recv_def Let_def split: option.splits)
  moreover have "poll_accept K i r w \<noteq> None"
    using accept_returns [OF assms, of "w_fd (io_ws r ! i)" w] by (auto simp: poll_accept_def)
  ultimately show ?thesis by (simp add: poll_watch_def Let_def split: io_kind.split)
qed

lemma poll_all_returns: "patient K left \<Longrightarrow> poll_all K now revs is r w \<noteq> None"
proof (induction "is" arbitrary: r w)
  case (Cons i "is")
  obtain r1 w1 where "poll_watch K now revs i r w = Some (r1, w1)"
    using poll_watch_returns [OF Cons.prems, of now revs i r w] by auto
  then show ?case using Cons.IH [OF Cons.prems, of r1 w1] by simp
qed simp

lemma zan_io_poll_some:
  assumes "patient K left"
  shows "zan_io_poll K t r w \<noteq> None"
proof -
  define r1 where "r1 = r\<lparr> io_ws := filter w_active (io_ws r) \<rparr>"
  obtain w1 where m: "k_mem K w = (True, w1)" using patient_mem [OF assms, of w] by blast
  obtain revs w2 where p: "poll_try K (poll_fds (io_ws r1)) (poll_timeout t) w1 = Some (revs, w2)"
    using poll_try_returns [OF assms, of "poll_fds (io_ws r1)" "poll_timeout t" w1] by auto
  obtain now w3 where n: "k_now K w2 = (now, w3)" by fastforce
  obtain r2 w4 where "poll_all K now revs [0..<length (io_ws r1)] r1 w3 = Some (r2, w4)"
    using poll_all_returns [OF assms, of now revs "[0..<length (io_ws r1)]" r1 w3] by auto
  with m p n show ?thesis by (simp add: zan_io_poll_def Let_def r1_def)
qed

lemma dns_start_returns:
  assumes "patient K left"
  shows "dns_start K gai fd j r w \<noteq> None"
proof -
  obtain ok r1 w1 where e: "zt_dns_pipe_ensure K fd r w = ((ok, r1), w1)" by (metis prod.collapse)
  obtain w2 where m: "k_mem K w1 = (True, w2)" using patient_mem [OF assms] by blast
  define x where "x = watch_of (case io_pipe r1 of Some p \<Rightarrow> p | None \<Rightarrow> -1) IoDns 0 0 0 0 0 None"
  obtain r2 w3 where p: "(if list_ex (\<lambda>x. w_active x \<and> w_kind x = IoDns) (io_ws r1) then Some (r1, w2)
      else zt_io_push K x r1 w2) = Some (r2, w3)"
    using push_returns [OF assms, of x r1 w2] by (cases "list_ex (\<lambda>x. w_active x \<and> w_kind x = IoDns) (io_ws r1)") auto
  show ?thesis
    unfolding dns_start_def e prod.case m x_def [symmetric] p option.case by (simp split: prod.split)
qed

lemma io_step_returns:
  assumes "patient K left"
  shows "io_step K gai lit pfd op r w \<noteq> None"
proof (cases op)
  case (OpWait fd i f s)
  then show ?thesis using push_returns [OF assms] by (simp add: zan_io_wait_co_def split: prod.split)
next
  case (OpRecv fd b l f s a)
  obtain n bs w1 where "recv_now K fd l w = Some ((n, bs), w1)" using recv_now_returns [OF assms, of fd l w] by auto
  then show ?thesis using OpRecv push_returns [OF assms] by (simp add: zan_io_recv_co_def)
next
  case (OpRecvTo fd b l t f s a)
  obtain n bs w1 where "recv_now K fd l w = Some ((n, bs), w1)" using recv_now_returns [OF assms, of fd l w] by auto
  then show ?thesis using OpRecvTo push_returns [OF assms] by (simp add: zan_io_recv_to_co_def split: prod.split)
next
  case (OpAccept fd f s a)
  have "\<exists>c w1. (case k_alive K fd w of (alive, w1) \<Rightarrow>
          if \<not> alive then Some (-1, w1)
          else (case k_ready K fd w1 of (ready, w2) \<Rightarrow> if ready then accept_try K fd w2 else Some (-2, w2))) = Some (c, w1)"
    using accept_returns [OF assms] by (auto split: prod.split)
  then obtain c w1 where "(case k_alive K fd w of (alive, w1) \<Rightarrow>
          if \<not> alive then Some (-1, w1)
          else (case k_ready K fd w1 of (ready, w2) \<Rightarrow> if ready then accept_try K fd w2 else Some (-2, w2))) = Some (c, w1)"
    by blast
  then show ?thesis using OpAccept push_returns [OF assms] by (simp add: zan_io_accept_co_def)
next
  case (OpResolve n p b c f s a)
  then show ?thesis using dns_start_returns [OF assms] by (simp add: zan_resolve_sa_co_def Let_def split: option.split prod.split)
next
  case (OpResolve4 n f s a)
  then show ?thesis using dns_start_returns [OF assms] by (simp add: zan_resolve_ipv4_co_def split: option.split)
next
  case (OpPoll t)
  then show ?thesis using zan_io_poll_some [OF assms, of t r w] by simp
qed simp_all

lemma io_run_returns:
  assumes "patient K left"
  shows "\<exists>r' w'. io_run K gai lit pfd ops r w = Some (r', w')"
proof (induction ops arbitrary: r w)
  case (Cons op ops)
  obtain r1 w1 where "io_step K gai lit pfd op r w = Some (r1, w1)"
    using io_step_returns [OF assms, of gai lit pfd op r w] by auto
  then show ?case using Cons.IH [of r1 w1] by simp
qed simp

section \<open>Properties\<close>

text \<open>
  C22. No coroutine is lost and none is resumed twice. After any sequence of waits, receives, accepts,
  lookups, finished lookups, polls and closes, and whatever the kernel answers, the coroutines that
  still wait together with those that were resumed are those that were there before and those that
  the calls handed over, each as often.
\<close>

theorem io_run_conserves:
  assumes "io_run K gai lit pfd ops r w = Some (r', w')" "io_hook r"
  shows "waiting r' + resumed r' = waiting r + resumed r + sum_list (map submitted ops)"
  using io_run_held [OF assms] by (simp add: held_def)

text \<open>
  A kernel for the witnesses: every descriptor is open and nothing ever arrives. A poll without a
  time-out is interrupted, again and again; one with a time-out ends after it, which the clock shows.
\<close>

definition silent :: "int kernel" where
  "silent = \<lparr> k_alive = (\<lambda>fd w. (True, w)), k_ready = (\<lambda>fd w. (False, w)), k_recv = (\<lambda>fd n w. (Inl EAGAIN, w)),
     k_accept = (\<lambda>fd w. (Inl EAGAIN, w)),
     k_poll = (\<lambda>fds t w. if t < 0 then (Inl EINTR, w) else (Inr (replicate (length fds) 0), w + t * 1000000)),
     k_now = (\<lambda>w. (w, w)), k_mem = (\<lambda>w. (True, w)), k_pipe = (\<lambda>w. (True, w)), k_drain = (\<lambda>w. w),
     k_spawn = (\<lambda>w. (True, w)) \<rparr>"

text \<open>Two coroutines park on descriptor 3, which is then closed.\<close>

definition demo_ops :: "io_op list" where
  "demo_ops = [OpWait 3 1 100 7, OpAccept 3 200 8 24, OpClose 3]"

definition demo_end :: reactor where
  "demo_end = io_boot\<lparr> io_hook := True, io_cap := 8,
     io_ws := [(watch_of 3 IoIn 0 0 0 100 7 None)\<lparr> w_active := False \<rparr>,
               (watch_of 3 IoAccept 0 0 0 200 8 (Some 24))\<lparr> w_active := False \<rparr>],
     io_log := [Resumed 100 7, Stored 24 (-1), Resumed 200 8] \<rparr>"

lemma demo_run: "io_run silent (\<lambda>n s f. None) (\<lambda>n. False) 9 demo_ops (io_boot\<lparr> io_hook := True \<rparr>) 0 = Some (demo_end, 0)"
  by (simp add: demo_ops_def demo_end_def io_boot_def silent_def zan_io_wait_co_def zan_io_accept_co_def zt_io_push_def
    zan_io_close_notify_def close_watch_def zt_io_deliver_def watch_of_def co_ready_def io_store_def Let_def upt_rec)

theorem io_run_conserves_witness:
  "waiting demo_end + resumed demo_end = {#(100, 7), (200, 8)#}"
  using io_run_conserves [OF demo_run] by (simp add: io_boot_def waiting_def resumed_def demo_ops_def co_def)

text \<open>
  C23. \<open>zan_io_close_notify\<close> leaves nobody waiting for the descriptor: its watches are retired, a parked
  accept gets -1 and a parked receive gets 0, which is the end of the data, and every one of their
  coroutines is resumed, in the order of the table. Nothing else changes.
\<close>

theorem zan_io_close_notify_wakes:
  "zan_io_close_notify fd r = r\<lparr> io_ws := map (closed fd) (io_ws r),
     io_log := io_log r @ concat (map (close_events (io_hook r) fd) (io_ws r)) \<rparr>"
  using close_prefix [of "length (io_ws r)" r fd] by (simp add: zan_io_close_notify_def)


text \<open>A kernel whose polls are interrupted as often as the state says.\<close>

definition restless :: "nat kernel" where
  "restless = \<lparr> k_alive = (\<lambda>fd w. (True, w)), k_ready = (\<lambda>fd w. (False, w)), k_recv = (\<lambda>fd n w. (Inl EAGAIN, w)),
     k_accept = (\<lambda>fd w. (Inl EAGAIN, w)),
     k_poll = (\<lambda>fds t w. if w > 0 then (Inl EINTR, w - 1) else (Inr (replicate (length fds) 1), w)),
     k_now = (\<lambda>w. (0, w)), k_mem = (\<lambda>w. (True, w)), k_pipe = (\<lambda>w. (True, w)), k_drain = (\<lambda>w. w),
     k_spawn = (\<lambda>w. (True, w)) \<rparr>"


text \<open>
  The deadline of a receive does not bound the wait of a poll. A coroutine that receives from a
  silent peer with a time-out of five milliseconds parks, and if no timer is set, the poll that
  should expire it never returns.
\<close>

lemma silent_poll:
  assumes "poll_try K fds t w = Some y"
  shows "K = silent \<longrightarrow> 0 \<le> t"
  by (rule poll_try.raw_induct [where P = "\<lambda>K fds t w y. K = silent \<longrightarrow> 0 \<le> t", OF _ assms])
    (auto simp: silent_def split: if_splits)

theorem zan_io_poll_ignores_deadline:
  "\<exists>r. zan_io_recv_to_co silent 3 500 64 5 100 7 24 (io_boot\<lparr> io_hook := True \<rparr>) 0 = Some (r, 0) \<and>
     w_deadline (io_ws r ! 0) = 5000000 \<and> (\<forall>w. zan_io_poll silent (-1) r w = None)"
proof -
  define r where "r = io_boot\<lparr> io_hook := True, io_cap := 8, io_ws := [watch_of 3 IoRecvTo 500 64 5000000 100 7 (Some 24)] \<rparr>"
  have park: "zan_io_recv_to_co silent 3 500 64 5 100 7 24 (io_boot\<lparr> io_hook := True \<rparr>) 0 = Some (r, 0)"
    by (simp add: zan_io_recv_to_co_def recv_now_def silent_def zt_io_push_def io_boot_def r_def)
  have "poll_try silent fds (-1) w = None" for fds w
    using silent_poll [of silent fds "-1" w] by (cases "poll_try silent fds (-1) w") auto
  moreover have "k_mem silent w = (True, w)" for w by (simp add: silent_def)
  moreover have "poll_timeout (-1) = -1" by (simp add: poll_timeout_def)
  ultimately have "zan_io_poll silent (-1) r w = None" for w
    by (simp add: zan_io_poll_def r_def Let_def watch_of_def)
  with park show ?thesis by (intro exI [of _ r]) (simp add: r_def watch_of_def)
qed

end
