(* ===== verification/Dns_Handoff.thy ===== *)
theory Dns_Handoff
  imports Main "HOL-Library.Multiset"
begin

text \<open>
  How the workers of \<open>zanstubs.c\<close> hand finished lookups to the reactor, with the steps of the threads
  interleaved: a worker puts its job in front of the list under the mutex and then writes a byte to
  the pipe; the reactor reads the pipe empty and then takes the list under the mutex. \<open>Io_Reactor\<close>
  treats the two halves of each as one; here they are apart.
\<close>

section \<open>The threads\<close>

text \<open>
  The jobs whose lookup runs, the finished list \<open>zt_dns_done\<close>, the workers between the list and the
  pipe, the bytes in the pipe, whether the reactor is between the pipe and the list, and the jobs that
  it delivered.
\<close>

record 'j handoff =
  ho_running :: "'j multiset"
  ho_done :: "'j list"
  ho_owing :: nat
  ho_pipe :: nat
  ho_draining :: bool
  ho_delivered :: "'j list"

definition ho_boot :: "'j handoff" where
  "ho_boot = \<lparr> ho_running = {#}, ho_done = [], ho_owing = 0, ho_pipe = 0, ho_draining = False, ho_delivered = [] \<rparr>"

inductive ho_step :: "'j handoff \<Rightarrow> 'j handoff \<Rightarrow> bool" where
  start: "ho_step s (s\<lparr> ho_running := add_mset j (ho_running s) \<rparr>)"
| push: "j \<in># ho_running s \<Longrightarrow>
    ho_step s (s\<lparr> ho_running := ho_running s - {#j#}, ho_done := j # ho_done s, ho_owing := ho_owing s + 1 \<rparr>)"
| signal: "0 < ho_owing s \<Longrightarrow> ho_step s (s\<lparr> ho_owing := ho_owing s - 1, ho_pipe := ho_pipe s + 1 \<rparr>)"
| drain: "0 < ho_pipe s \<Longrightarrow> \<not> ho_draining s \<Longrightarrow> ho_step s (s\<lparr> ho_pipe := 0, ho_draining := True \<rparr>)"
| take: "ho_draining s \<Longrightarrow>
    ho_step s (s\<lparr> ho_draining := False, ho_delivered := ho_delivered s @ ho_done s, ho_done := [] \<rparr>)"

inductive_cases ho_stepE: "ho_step s t"

text \<open>The steps that the threads owe: all but the start of a new lookup.\<close>

definition ho_next :: "'j handoff \<Rightarrow> 'j handoff \<Rightarrow> bool" where
  "ho_next s t \<longleftrightarrow> ho_step s t \<and> size (ho_running t) \<le> size (ho_running s)"

text \<open>Histories of steps, with the jobs that were started.\<close>

inductive ho_reach :: "'j multiset \<Rightarrow> 'j handoff \<Rightarrow> bool" where
  boot: "ho_reach {#} ho_boot"
| began: "ho_reach J s \<Longrightarrow> ho_reach (add_mset j J) (s\<lparr> ho_running := add_mset j (ho_running s) \<rparr>)"
| moved: "ho_reach J s \<Longrightarrow> ho_next s t \<Longrightarrow> ho_reach J t"

section \<open>The invariant\<close>

text \<open>
  Every job is in exactly one place; and a finished job is never forgotten: there is a byte in the
  pipe, or a worker that owes one, or the reactor is about to take the list.
\<close>

definition ho_inv :: "'j multiset \<Rightarrow> 'j handoff \<Rightarrow> bool" where
  "ho_inv J s \<longleftrightarrow> J = ho_running s + mset (ho_done s) + mset (ho_delivered s) \<and>
     (ho_done s \<noteq> [] \<longrightarrow> 0 < ho_pipe s \<or> 0 < ho_owing s \<or> ho_draining s)"

lemma ho_next_inv: "ho_next s t \<Longrightarrow> ho_inv J s \<Longrightarrow> ho_inv J t"
  unfolding ho_next_def by (elim conjE ho_stepE) (auto simp: ho_inv_def)

lemma ho_reach_inv: "ho_reach J s \<Longrightarrow> ho_inv J s"
proof (induction rule: ho_reach.induct)
  case boot
  then show ?case by (simp add: ho_inv_def ho_boot_def)
next
  case (began J s j)
  then show ?case by (simp add: ho_inv_def)
next
  case (moved J s t)
  then show ?case using ho_next_inv by blast
qed

lemma ho_next_rtranclp: "ho_next\<^sup>*\<^sup>* s t \<Longrightarrow> ho_reach J s \<Longrightarrow> ho_reach J t"
  by (induction rule: rtranclp_induct) (auto intro: ho_reach.moved)

text \<open>A step brings the threads closer to rest, and one is possible until they rest.\<close>

definition ho_quiet :: "'j handoff \<Rightarrow> bool" where
  "ho_quiet s \<longleftrightarrow> ho_running s = {#} \<and> ho_owing s = 0 \<and> ho_pipe s = 0 \<and> \<not> ho_draining s"

definition ho_work :: "'j handoff \<Rightarrow> nat" where
  "ho_work s = 4 * size (ho_running s) + 3 * ho_owing s + 2 * (if 0 < ho_pipe s then 1 else 0) + (if ho_draining s then 1 else 0)"

lemma size_pos: "j \<in># M \<Longrightarrow> 0 < size M"
  by (auto simp flip: nonempty_has_size)

lemma ho_next_work: "ho_next s t \<Longrightarrow> ho_work t < ho_work s"
  unfolding ho_next_def by (elim conjE ho_stepE) (auto simp: ho_work_def size_Diff_singleton dest: size_pos)

lemma ho_not_quiet: "\<not> ho_quiet s \<Longrightarrow> \<exists>t. ho_next s t"
proof -
  assume "\<not> ho_quiet s"
  then consider j where "j \<in># ho_running s" | "0 < ho_owing s" | "ho_draining s" | "0 < ho_pipe s" "\<not> ho_draining s"
    by (auto simp: ho_quiet_def multiset_nonemptyE)
  then show ?thesis
  proof cases
    case (1 j)
    have "size (ho_running s - {#j#}) \<le> size (ho_running s)" by (rule size_mset_mono) simp
    with ho_step.push [OF 1] show ?thesis unfolding ho_next_def by fastforce
  next
    case 2
    from ho_step.signal [OF 2] show ?thesis unfolding ho_next_def by fastforce
  next
    case 3
    from ho_step.take [OF 3] show ?thesis unfolding ho_next_def by fastforce
  next
    case 4
    from ho_step.drain [OF 4] show ?thesis unfolding ho_next_def by fastforce
  qed
qed

section \<open>Properties\<close>

text \<open>
  The hand-over ends: whatever the order in which the threads run, they cannot go on for ever
  without a new lookup.
\<close>

theorem dns_handoff_ends: "wfp (\<lambda>t s. ho_next s t)"
  by (rule wfp_if_convertible_to_nat [of _ ho_work]) (rule ho_next_work)

text \<open>
  C25. Every lookup is delivered. However the steps of the workers and of the reactor interleave, when
  none of them can go on, every lookup that was started has been delivered, exactly once.
\<close>

theorem dns_lookups_delivered:
  assumes "ho_reach J s" "ho_next\<^sup>*\<^sup>* s t" "\<nexists>u. ho_next t u"
  shows "mset (ho_delivered t) = J"
proof -
  have "ho_quiet t" using ho_not_quiet assms(3) by blast
  then show ?thesis
    using ho_reach_inv [OF ho_next_rtranclp [OF assms(2,1)]] by (auto simp: ho_inv_def ho_quiet_def)
qed

text \<open>One lookup, whose worker hands it over before the reactor drains the pipe.\<close>

definition ho_demo :: "nat handoff" where
  "ho_demo = \<lparr> ho_running = {#}, ho_done = [], ho_owing = 0, ho_pipe = 0, ho_draining = False, ho_delivered = [7] \<rparr>"

theorem dns_lookups_delivered_witness: "mset (ho_delivered ho_demo) = {#7#}"
proof (rule dns_lookups_delivered [OF ho_reach.began [OF ho_reach.boot, of 7]])
  define s1 s2 s3 s4 :: "nat handoff" where
    "s1 = ho_boot\<lparr> ho_running := {#7#} \<rparr>" and "s2 = ho_boot\<lparr> ho_done := [7], ho_owing := 1 \<rparr>" and
    "s3 = ho_boot\<lparr> ho_done := [7], ho_pipe := 1 \<rparr>" and "s4 = ho_boot\<lparr> ho_done := [7], ho_draining := True \<rparr>"
  have "ho_next s1 s2" using ho_step.push [of 7 s1] by (simp add: ho_next_def s1_def s2_def ho_boot_def)
  then have "ho_next\<^sup>*\<^sup>* s1 s2" by (rule r_into_rtranclp)
  moreover have "ho_next s2 s3" using ho_step.signal [of s2] by (simp add: ho_next_def s2_def s3_def ho_boot_def)
  ultimately have "ho_next\<^sup>*\<^sup>* s1 s3" by (rule rtranclp.rtrancl_into_rtrancl)
  moreover have "ho_next s3 s4" using ho_step.drain [of s3] by (simp add: ho_next_def s3_def s4_def ho_boot_def)
  ultimately have "ho_next\<^sup>*\<^sup>* s1 s4" by (rule rtranclp.rtrancl_into_rtrancl)
  moreover have "ho_next s4 ho_demo" using ho_step.take [of s4] by (simp add: ho_next_def s4_def ho_demo_def ho_boot_def)
  ultimately have "ho_next\<^sup>*\<^sup>* s1 ho_demo" by (rule rtranclp.rtrancl_into_rtrancl)
  then show "ho_next\<^sup>*\<^sup>* (ho_boot\<lparr> ho_running := add_mset 7 (ho_running ho_boot) \<rparr>) ho_demo"
    by (simp add: s1_def ho_boot_def)
  show "\<nexists>u. ho_next ho_demo u"
    unfolding ho_next_def by (auto simp: ho_demo_def elim!: ho_stepE)
qed

end
