(* ===== verification/Co_Scheduler.thy ===== *)
theory Co_Scheduler
  imports Main
begin

text \<open>
  The single-threaded coroutine driver of \<open>zanstubs.c\<close>: the ready queue, the loop that runs it, and the
  gates on which coroutines wait for signals. The coroutines themselves and the timers (\<open>rt_timer.c\<close>,
  which is not part of the repository) are parameters.
\<close>

section \<open>The ready queue\<close>

text \<open>
  A coroutine is a frame and a step, a step of 0 is none. \<open>rq\<close> is the list from \<open>g_rq_head\<close> to
  \<open>g_rq_tail\<close>; \<open>readied\<close> and \<open>ran\<close> record which coroutines were queued and which the loop started.
\<close>

type_synonym coroutine = "int \<times> int"

record 'w sched =
  rq :: "coroutine list"
  readied :: "coroutine list"
  ran :: "coroutine list"
  world :: 'w

text \<open>The program: what a step does, which may not return; and the timers.\<close>

record 'w prog =
  p_step :: "coroutine \<Rightarrow> 'w sched \<Rightarrow> 'w sched option"
  p_done :: "'w \<Rightarrow> bool"
  p_timeout :: "'w sched \<Rightarrow> int \<times> 'w sched"
  p_dispatch :: "'w sched \<Rightarrow> 'w sched option"

definition zan_co_sched_init :: "('w \<Rightarrow> 'w) \<Rightarrow> 'w sched \<Rightarrow> 'w sched" where
  "zan_co_sched_init timer_reset s = s\<lparr> rq := [], world := timer_reset (world s) \<rparr>"

text \<open>Without memory for the node, the step runs at once.\<close>

definition zan_co_ready :: "'w prog \<Rightarrow> bool \<Rightarrow> coroutine \<Rightarrow> 'w sched \<Rightarrow> 'w sched option" where
  "zan_co_ready pg mem c s =
     (if snd c = 0 then Some s
      else if \<not> mem then p_step pg c s
      else Some (s\<lparr> rq := rq s @ [c], readied := readied s @ [c] \<rparr>))"

definition zan_co_pending :: "'w sched \<Rightarrow> nat" where
  "zan_co_pending s = length (rq s)"

text \<open>On this lane the io pumps do nothing.\<close>

definition zan_io_pump :: int where "zan_io_pump = 0"
definition zan_io_pump_timeout :: "int \<Rightarrow> int" where "zan_io_pump_timeout ms = 0"

text \<open>
  The loop: run the queue, then the timers, until there is neither or \<open>done\<close> is set. A null
  \<open>done\<close> is a predicate that is never true.
\<close>

partial_function (option) zan_co_sched_run_until :: "'w prog \<Rightarrow> 'w sched \<Rightarrow> 'w sched option" where
  "zan_co_sched_run_until pg s =
     (if p_done pg (world s) then Some s
      else case rq s of
        c # q \<Rightarrow>
          (case p_step pg c (s\<lparr> rq := q, ran := ran s @ [c] \<rparr>) of
             None \<Rightarrow> None
           | Some s1 \<Rightarrow> zan_co_sched_run_until pg s1)
      | [] \<Rightarrow>
          (case p_timeout pg s of (timeout, s1) \<Rightarrow>
             if timeout > 0 then (case zan_io_pump_timeout timeout of _ \<Rightarrow> zan_co_sched_run_until pg s1)
             else if timeout = 0 then
               (case p_dispatch pg s1 of None \<Rightarrow> None | Some s2 \<Rightarrow> zan_co_sched_run_until pg s2)
             else if zan_io_pump > 0 then zan_co_sched_run_until pg s1
             else Some s1))"

definition zan_co_sched_run :: "'w prog \<Rightarrow> 'w sched \<Rightarrow> 'w sched option" where
  "zan_co_sched_run pg s = zan_co_sched_run_until (pg\<lparr> p_done := \<lambda>w. False \<rparr>) s"

section \<open>Gates\<close>

record gate =
  g_waiters :: "coroutine list"
  g_surplus :: int

definition zan_gate_new :: "bool \<Rightarrow> gate option" where
  "zan_gate_new mem = (if mem then Some \<lparr> g_waiters = [], g_surplus = 0 \<rparr> else None)"

text \<open>
  An operation yields the gate and the coroutines to be made ready, in order. \<open>mem\<close> is whether the
  node of a waiter can be allocated. A null gate readies the coroutine at once.
\<close>

definition zan_gate_park :: "bool \<Rightarrow> coroutine \<Rightarrow> gate option \<Rightarrow> gate option \<times> coroutine list" where
  "zan_gate_park mem c g =
     (case g of
        None \<Rightarrow> (None, if snd c \<noteq> 0 then [c] else [])
      | Some x \<Rightarrow>
          if snd c = 0 then (g, [])
          else if g_surplus x > 0 then (Some (x\<lparr> g_surplus := g_surplus x - 1 \<rparr>), [c])
          else if \<not> mem then (g, [c])
          else (Some (x\<lparr> g_waiters := g_waiters x @ [c] \<rparr>), []))"

definition zan_gate_signal :: "gate option \<Rightarrow> gate option \<times> coroutine list" where
  "zan_gate_signal g =
     (case g of
        None \<Rightarrow> (None, [])
      | Some x \<Rightarrow>
          (case g_waiters x of
             c # cs \<Rightarrow> (Some (x\<lparr> g_waiters := cs \<rparr>), [c])
           | [] \<Rightarrow> (Some (x\<lparr> g_surplus := g_surplus x + 1 \<rparr>), [])))"

text \<open>Freeing a gate readies all that wait.\<close>

definition zan_gate_free :: "gate option \<Rightarrow> coroutine list" where
  "zan_gate_free g = (case g of None \<Rightarrow> [] | Some x \<Rightarrow> g_waiters x)"

section \<open>Runs\<close>

text \<open>
  A step, and a dispatch of the timers, uses the scheduler only through \<open>zan_co_ready\<close>: it may queue
  coroutines and change the rest of the world.
\<close>

definition queues :: "'w sched \<Rightarrow> 'w sched \<Rightarrow> bool" where
  "queues s t \<longleftrightarrow> (\<exists>cs. rq t = rq s @ cs \<and> readied t = readied s @ cs \<and> ran t = ran s)"

definition same_queue :: "'w sched \<Rightarrow> 'w sched \<Rightarrow> bool" where
  "same_queue s t \<longleftrightarrow> rq t = rq s \<and> readied t = readied s \<and> ran t = ran s"

definition well_behaved :: "'w prog \<Rightarrow> bool" where
  "well_behaved pg \<longleftrightarrow> (\<forall>c s t. p_step pg c s = Some t \<longrightarrow> queues s t) \<and> (\<forall>s t. p_dispatch pg s = Some t \<longrightarrow> queues s t) \<and>
     (\<forall>s. same_queue s (snd (p_timeout pg s)))"

text \<open>The queue holds what was readied and not yet run, in that order.\<close>

definition sched_inv :: "'w sched \<Rightarrow> bool" where
  "sched_inv s \<longleftrightarrow> readied s = ran s @ rq s"

lemma queues_inv: "queues s t \<Longrightarrow> sched_inv s \<Longrightarrow> sched_inv t"
  by (auto simp: queues_def sched_inv_def)

lemma zan_co_ready_queues: "zan_co_ready pg mem c s = Some t \<Longrightarrow> well_behaved pg \<Longrightarrow> queues s t"
proof -
  assume r: "zan_co_ready pg mem c s = Some t" and wb: "well_behaved pg"
  have "queues s t" if "p_step pg c s = Some t" using wb that unfolding well_behaved_def by blast
  with r show ?thesis by (auto simp: zan_co_ready_def queues_def split: if_splits)
qed

lemma run_until_inv:
  assumes "zan_co_sched_run_until pg s = Some t"
  shows "well_behaved pg \<longrightarrow> sched_inv s \<longrightarrow> sched_inv t \<and> (p_done pg (world t) \<or> rq t = [])"
proof (rule zan_co_sched_run_until.raw_induct
    [where P = "\<lambda>pg s t. well_behaved pg \<longrightarrow> sched_inv s \<longrightarrow> sched_inv t \<and> (p_done pg (world t) \<or> rq t = [])", OF _ assms], intro impI)
  fix run :: "'a prog \<Rightarrow> 'a sched \<Rightarrow> 'a sched option" and pg :: "'a prog" and s t :: "'a sched"
  assume IH: "\<And>pg s t. run pg s = Some t \<Longrightarrow> well_behaved pg \<longrightarrow> sched_inv s \<longrightarrow> sched_inv t \<and> (p_done pg (world t) \<or> rq t = [])"
    and ret: "(if p_done pg (world s) then Some s
      else case rq s of
        [] \<Rightarrow>
          (case p_timeout pg s of (timeout, s1) \<Rightarrow>
             if timeout > 0 then run pg s1
             else if timeout = 0 then (case p_dispatch pg s1 of None \<Rightarrow> None | Some s2 \<Rightarrow> run pg s2)
             else if zan_io_pump > 0 then run pg s1 else Some s1)
      | c # q \<Rightarrow> (case p_step pg c (s\<lparr> rq := q, ran := ran s @ [c] \<rparr>) of None \<Rightarrow> None | Some s1 \<Rightarrow> run pg s1)) = Some t"
    and wb: "well_behaved pg" and inv: "sched_inv s"
  show "sched_inv t \<and> (p_done pg (world t) \<or> rq t = [])"
  proof (cases "p_done pg (world s)")
    case True
    then show ?thesis using ret inv by simp
  next
    case go: False
    show ?thesis
    proof (cases "rq s")
      case (Cons c q)
      obtain s1 where s1: "p_step pg c (s\<lparr> rq := q, ran := ran s @ [c] \<rparr>) = Some s1" "run pg s1 = Some t"
        using ret go Cons by (auto split: option.splits)
      have "sched_inv (s\<lparr> rq := q, ran := ran s @ [c] \<rparr>)" using inv Cons by (simp add: sched_inv_def)
      moreover have "queues (s\<lparr> rq := q, ran := ran s @ [c] \<rparr>) s1" using wb s1(1) unfolding well_behaved_def by blast
      ultimately show ?thesis using IH [OF s1(2)] wb queues_inv by blast
    next
      case Nil
      obtain d s1 where d: "p_timeout pg s = (d, s1)" by fastforce
      then have "same_queue s s1" using wb unfolding well_behaved_def by (metis snd_conv)
      then have s1: "sched_inv s1" "rq s1 = []" using inv Nil by (simp_all add: same_queue_def sched_inv_def)
      have ret': "(if d > 0 then run pg s1
          else if d = 0 then (case p_dispatch pg s1 of None \<Rightarrow> None | Some s2 \<Rightarrow> run pg s2) else Some s1) = Some t"
        using ret go Nil d by (simp add: zan_io_pump_def cong: if_cong)
      consider "d > 0" | "d = 0" | "d < 0" by linarith
      then show ?thesis
      proof cases
        case 1
        with ret' have "run pg s1 = Some t" by simp
        from IH [OF this] wb s1 show ?thesis by blast
      next
        case 2
        with ret' obtain s2 where s2: "p_dispatch pg s1 = Some s2" "run pg s2 = Some t" by (auto split: option.splits)
        have "queues s1 s2" using wb s2(1) unfolding well_behaved_def by blast
        then show ?thesis using IH [OF s2(2)] wb s1(1) queues_inv by blast
      next
        case 3
        with ret' have "t = s1" by simp
        with s1 show ?thesis by simp
      qed
    qed
  qed
qed

text \<open>
  A bound on the work that is left: every step and every dispatch of timers lowers it, and so does
  waiting for a timer, and all of them return.
\<close>

definition works_off :: "'w prog \<Rightarrow> ('w sched \<Rightarrow> nat) \<Rightarrow> bool" where
  "works_off pg left \<longleftrightarrow>
     (\<forall>s c q. rq s = c # q \<longrightarrow> (\<exists>t. p_step pg c (s\<lparr> rq := q, ran := ran s @ [c] \<rparr>) = Some t \<and> left t < left s)) \<and>
     (\<forall>s. \<exists>t. p_dispatch pg (snd (p_timeout pg s)) = Some t \<and> (fst (p_timeout pg s) = 0 \<longrightarrow> left t < left s)) \<and>
     (\<forall>s. fst (p_timeout pg s) > 0 \<longrightarrow> left (snd (p_timeout pg s)) < left s)"

lemma run_until_returns: "works_off pg left \<Longrightarrow> zan_co_sched_run_until pg s \<noteq> None"
proof (induction s rule: measure_induct_rule [of left])
  case (less s)
  show ?case
  proof (cases "rq s")
    case (Cons c q)
    then obtain t where t: "p_step pg c (s\<lparr> rq := q, ran := ran s @ [c] \<rparr>) = Some t" "left t < left s"
      using less.prems unfolding works_off_def by blast
    with less.IH [OF t(2) less.prems] Cons show ?thesis by (simp add: zan_co_sched_run_until.simps [of pg s])
  next
    case Nil
    obtain d s1 where d: "p_timeout pg s = (d, s1)" by fastforce
    obtain t where t: "p_dispatch pg s1 = Some t" "d = 0 \<longrightarrow> left t < left s"
      using less.prems d unfolding works_off_def by (metis fst_conv snd_conv)
    have w: "0 < d \<longrightarrow> left s1 < left s" using less.prems d unfolding works_off_def by (metis fst_conv snd_conv)
    show ?thesis
      using less.IH [OF _ less.prems] Nil d t w
      by (auto simp: zan_co_sched_run_until.simps [of pg s] zan_io_pump_timeout_def zan_io_pump_def)
  qed
qed

section \<open>Gates count\<close>

datatype gate_op = Park coroutine | Signal

fun gate_step :: "gate_op \<Rightarrow> gate option \<Rightarrow> gate option \<times> coroutine list" where
  "gate_step (Park c) g = zan_gate_park True c g"
| "gate_step Signal g = zan_gate_signal g"

fun gate_run :: "gate_op list \<Rightarrow> gate option \<Rightarrow> gate option \<times> coroutine list" where
  "gate_run [] g = (g, [])"
| "gate_run (op # ops) g =
     (case gate_step op g of (g1, cs) \<Rightarrow> case gate_run ops g1 of (g2, ds) \<Rightarrow> (g2, cs @ ds))"

fun parked :: "gate_op list \<Rightarrow> coroutine list" where
  "parked [] = []"
| "parked (Park c # ops) = (if snd c = 0 then parked ops else c # parked ops)"
| "parked (Signal # ops) = parked ops"

definition signals :: "gate_op list \<Rightarrow> nat" where
  "signals ops = length (filter (\<lambda>op. op = Signal) ops)"

text \<open>A gate has waiters or a surplus, but not both.\<close>

lemma gate_run_val:
  assumes "ws = [] \<or> k = 0"
  shows "gate_run ops (Some \<lparr> g_waiters = ws, g_surplus = int k \<rparr>) =
    (Some \<lparr> g_waiters = drop (k + signals ops) (ws @ parked ops),
            g_surplus = int (k + signals ops - length (ws @ parked ops)) \<rparr>,
     take (k + signals ops) (ws @ parked ops))"
  using assms
proof (induction ops arbitrary: ws k)
  case Nil
  then show ?case by (auto simp: signals_def)
next
  case (Cons op ops)
  show ?case
  proof (cases op)
    case Signal
    show ?thesis
    proof (cases ws)
      case Nil
      then show ?thesis using Cons.IH [of "[]" "k + 1"] Signal by (simp add: zan_gate_signal_def signals_def ac_simps)
    next
      case (Cons c cs)
      then show ?thesis
        using Cons.IH [of cs 0] Cons.prems Signal by (simp add: zan_gate_signal_def signals_def)
    qed
  next
    case (Park c)
    consider "snd c = 0" | "snd c \<noteq> 0" "0 < k" | "snd c \<noteq> 0" "k = 0" by blast
    then show ?thesis
    proof cases
      case 1
      then show ?thesis using Cons.IH [OF Cons.prems] Park by (simp add: zan_gate_park_def signals_def)
    next
      case 2
      then have ws: "ws = []" using Cons.prems by simp
      obtain k' where k: "k = Suc k'" using 2 by (cases k) auto
      show ?thesis using Cons.IH [of "[]" k'] 2(1) Park by (simp add: zan_gate_park_def signals_def ws k)
    next
      case 3
      then show ?thesis using Cons.IH [of "ws @ [c]" 0] Park by (simp add: zan_gate_park_def signals_def)
    qed
  qed
qed

section \<open>Properties\<close>


text \<open>A program whose coroutines count down: the step of frame \<open>n\<close> readies frame \<open>n - 1\<close>, down to 0.\<close>

definition countdown :: "unit prog" where
  "countdown = \<lparr> p_step = (\<lambda>c s. Some (if fst c > 0 then s\<lparr> rq := rq s @ [(fst c - 1, snd c)], readied := readied s @ [(fst c - 1, snd c)] \<rparr> else s)),
     p_done = (\<lambda>w. False), p_timeout = (\<lambda>s. (-1, s)), p_dispatch = (\<lambda>s. Some s) \<rparr>"

definition count_two :: "unit sched" where
  "count_two = \<lparr> rq = [(1, 5), (0, 6)], readied = [(1, 5), (0, 6)], ran = [], world = () \<rparr>"

definition count_end :: "unit sched" where
  "count_end = \<lparr> rq = [], readied = [(1, 5), (0, 6), (0, 5)], ran = [(1, 5), (0, 6), (0, 5)], world = () \<rparr>"

lemma countdown_behaves: "well_behaved countdown"
  by (simp add: well_behaved_def countdown_def queues_def same_queue_def)

lemma count_run: "zan_co_sched_run countdown count_two = Some count_end"
proof -
  define pg where "pg = countdown\<lparr> p_done := \<lambda>w. False \<rparr>"
  have go: "zan_co_sched_run_until pg s = zan_co_sched_run_until pg (the (p_step countdown c (s\<lparr> rq := q, ran := ran s @ [c] \<rparr>)))"
    if "rq s = c # q" for s c q
    by (subst zan_co_sched_run_until.simps) (simp add: pg_def countdown_def that)
  have stop: "zan_co_sched_run_until pg s = Some s" if "rq s = []" for s
    by (subst zan_co_sched_run_until.simps) (simp add: pg_def countdown_def that zan_io_pump_def)
  show ?thesis
    unfolding zan_co_sched_run_def pg_def [symmetric] count_two_def
    by (simp add: go stop countdown_def count_end_def)
qed


text \<open>
  The loop ends: it returns for every program in which each step, each dispatch of timers and
  each wait for a timer lowers some bound on the work that is left.
\<close>

theorem zan_co_sched_run_returns:
  assumes "works_off (pg\<lparr> p_done := \<lambda>w. False \<rparr>) left"
  shows "\<exists>t. zan_co_sched_run pg s = Some t"
  using run_until_returns [OF assms, of s] by (simp add: zan_co_sched_run_def)

text \<open>The work of the countdown: each coroutine has as many steps left as its frame says, and one.\<close>

definition count_left :: "unit sched \<Rightarrow> nat" where
  "count_left s = sum_list (map (\<lambda>c. nat (fst c) + 1) (rq s))"

theorem zan_co_sched_run_returns_witness: "\<exists>t. zan_co_sched_run (countdown\<lparr> p_timeout := \<lambda>s. (-1, s) \<rparr>) count_two = Some t"
  by (rule zan_co_sched_run_returns [of _ count_left])
    (simp add: works_off_def countdown_def count_left_def)


end
