(* ===== verification/Sync_Locks.thy ===== *)
theory Sync_Locks
  imports Zan_Prelude
begin

text \<open>
  Atomic counters, the monitor stripes, the spin lock behind \<open>os_unfair_lock\<close> and the semaphores:
  \<open>zan_atomic_int_*\<close> and \<open>zt_monitor_stripe\<close> of \<open>zanstubs.c\<close>, and the locks of \<open>zanlinuxshims.c\<close>. The
  spin lock is a step relation of any number of threads; the semaphores of the C library and its
  clocks are parameters.
\<close>

section \<open>Atomic counters\<close>

text \<open>The counters are the cells that \<open>malloc\<close> handed out; a handle of 0 is null.\<close>

type_synonym cells = "u64 \<Rightarrow> i64 option"

definition zan_atomic_int_create :: "u64 option \<Rightarrow> i64 \<Rightarrow> cells \<Rightarrow> u64 \<times> cells" where
  "zan_atomic_int_create p v m = (case p of None \<Rightarrow> (0, m) | Some a \<Rightarrow> (a, m(a \<mapsto> v)))"

definition zan_atomic_int_destroy :: "u64 \<Rightarrow> cells \<Rightarrow> cells" where
  "zan_atomic_int_destroy h m = m(h := None)"

text \<open>An access to a cell that is not there is \<^const>\<open>None\<close>.\<close>

definition atomic_update :: "u64 \<Rightarrow> (i64 \<Rightarrow> i64 \<times> i64) \<Rightarrow> cells \<Rightarrow> (i64 \<times> cells) option" where
  "atomic_update h f m =
     (if h = 0 then Some (0, m)
      else case m h of None \<Rightarrow> None | Some v \<Rightarrow> (case f v of (r, v') \<Rightarrow> Some (r, m(h \<mapsto> v'))))"

definition zan_atomic_int_load :: "u64 \<Rightarrow> cells \<Rightarrow> (i64 \<times> cells) option" where
  "zan_atomic_int_load h m = atomic_update h (\<lambda>v. (v, v)) m"

definition zan_atomic_int_store :: "u64 \<Rightarrow> i64 \<Rightarrow> cells \<Rightarrow> (i64 \<times> cells) option" where
  "zan_atomic_int_store h n m = atomic_update h (\<lambda>v. (0, n)) m"

definition zan_atomic_int_add :: "u64 \<Rightarrow> i64 \<Rightarrow> cells \<Rightarrow> (i64 \<times> cells) option" where
  "zan_atomic_int_add h d m = atomic_update h (\<lambda>v. (v + d, v + d)) m"

definition zan_atomic_int_exchange :: "u64 \<Rightarrow> i64 \<Rightarrow> cells \<Rightarrow> (i64 \<times> cells) option" where
  "zan_atomic_int_exchange h n m = atomic_update h (\<lambda>v. (v, n)) m"

definition zan_atomic_int_compare_exchange :: "u64 \<Rightarrow> i64 \<Rightarrow> i64 \<Rightarrow> cells \<Rightarrow> (i64 \<times> cells) option" where
  "zan_atomic_int_compare_exchange h expected desired m = atomic_update h (\<lambda>v. (v, if v = expected then desired else v)) m"

text \<open>The spellings of the shims.\<close>

definition OSAtomicAdd64Barrier :: "i64 \<Rightarrow> i64 \<Rightarrow> i64 \<times> i64" where
  "OSAtomicAdd64Barrier v p = (p + v, p + v)"

definition OSAtomicCompareAndSwap64Barrier :: "i64 \<Rightarrow> i64 \<Rightarrow> i64 \<Rightarrow> int \<times> i64" where
  "OSAtomicCompareAndSwap64Barrier old new p = (if p = old then (1, new) else (0, p))"

section \<open>Monitor stripes\<close>

definition ZT_MONITOR_STRIPES :: u64 where "ZT_MONITOR_STRIPES = 64"

definition zt_monitor_stripe :: "u64 \<Rightarrow> u64" where
  "zt_monitor_stripe obj =
     (let b1 = obj XOR drop_bit 20 obj; b2 = b1 XOR drop_bit 8 b1
      in drop_bit 4 b2 AND (ZT_MONITOR_STRIPES - 1))"

text \<open>
  The recursive locks of the stripes: the thread that holds one, and how often. A thread that finds
  another one inside waits, which is \<^const>\<open>None\<close>.
\<close>

type_synonym monitors = "u64 \<Rightarrow> (nat \<times> nat) option"

definition zan_monitor_enter :: "nat \<Rightarrow> u64 \<Rightarrow> monitors \<Rightarrow> monitors option" where
  "zan_monitor_enter t obj m =
     (let i = zt_monitor_stripe obj
      in case m i of None \<Rightarrow> Some (m(i \<mapsto> (t, 1)))
         | Some (u, n) \<Rightarrow> if u = t then Some (m(i \<mapsto> (t, n + 1))) else None)"

definition zan_monitor_exit :: "nat \<Rightarrow> u64 \<Rightarrow> monitors \<Rightarrow> monitors" where
  "zan_monitor_exit t obj m =
     (let i = zt_monitor_stripe obj
      in case m i of None \<Rightarrow> m
         | Some (u, n) \<Rightarrow> if u \<noteq> t then m else if n \<le> 1 then m(i := None) else m(i \<mapsto> (t, n - 1)))"

lemma zt_monitor_stripe_range: "unat (zt_monitor_stripe obj) < 64"
proof -
  have "zt_monitor_stripe obj = take_bit 6 (drop_bit 4 (let b1 = obj XOR drop_bit 20 obj in b1 XOR drop_bit 8 b1))"
    by (simp add: zt_monitor_stripe_def ZT_MONITOR_STRIPES_def take_bit_eq_mask mask_eq_exp_minus_1 Let_def)
  then show ?thesis by (simp only: unsigned_take_bit_eq) (simp add: take_bit_eq_mod)
qed

section \<open>The spin lock\<close>

text \<open>
  Where a thread is: outside, before the test-and-set, in the inner loop that waits for the byte to be
  cleared, or inside.
\<close>

datatype phase = Outside | Trying | Spinning | Inside

record 't spin =
  lock_byte :: u8
  phase :: "'t \<Rightarrow> phase"

definition spin_boot :: "'t spin" where
  "spin_boot = \<lparr> lock_byte = 0, phase = (\<lambda>t. Outside) \<rparr>"

definition move :: "'t \<Rightarrow> phase \<Rightarrow> u8 \<Rightarrow> 't spin \<Rightarrow> 't spin" where
  "move t p b s = s\<lparr> lock_byte := b, phase := (phase s)(t := p) \<rparr>"

inductive spin_step :: "'t spin \<Rightarrow> 't spin \<Rightarrow> bool" where
  call: "phase s t = Outside \<Longrightarrow> spin_step s (move t Trying (lock_byte s) s)"
| taken: "phase s t = Trying \<Longrightarrow> lock_byte s \<noteq> 0 \<Longrightarrow> spin_step s (move t Spinning 1 s)"
| got: "phase s t = Trying \<Longrightarrow> lock_byte s = 0 \<Longrightarrow> spin_step s (move t Inside 1 s)"
| spin: "phase s t = Spinning \<Longrightarrow> lock_byte s \<noteq> 0 \<Longrightarrow> spin_step s s"
| again: "phase s t = Spinning \<Longrightarrow> lock_byte s = 0 \<Longrightarrow> spin_step s (move t Trying 0 s)"
| unlock: "phase s t = Inside \<Longrightarrow> spin_step s (move t Outside 0 s)"

text \<open>The byte is set exactly while one thread is inside, and there is never a second.\<close>

definition spin_inv :: "'t spin \<Rightarrow> bool" where
  "spin_inv s \<longleftrightarrow> (lock_byte s \<noteq> 0 \<longleftrightarrow> (\<exists>t. phase s t = Inside)) \<and>
     (\<forall>t u. phase s t = Inside \<longrightarrow> phase s u = Inside \<longrightarrow> t = u)"

lemma spin_invI:
  "(\<And>t. phase s t = Inside \<longleftrightarrow> lock_byte s \<noteq> 0 \<and> t = u) \<Longrightarrow> (lock_byte s = 0 \<or> phase s u = Inside) \<Longrightarrow> spin_inv s"
  by (auto simp: spin_inv_def)

lemma spin_inv_free: "spin_inv s \<Longrightarrow> lock_byte s = 0 \<Longrightarrow> phase s t \<noteq> Inside"
  by (auto simp: spin_inv_def)

lemma spin_inv_owner: "spin_inv s \<Longrightarrow> lock_byte s \<noteq> 0 \<Longrightarrow> \<exists>u. \<forall>t. phase s t = Inside \<longleftrightarrow> t = u"
  unfolding spin_inv_def by blast

text \<open>A thread that does not enter leaves a taken lock with its owner.\<close>

lemma spin_inv_move:
  assumes "spin_inv s" "phase s t \<noteq> Inside" "p \<noteq> Inside" "b = 0 \<longleftrightarrow> lock_byte s = 0"
  shows "spin_inv (move t p b s)"
proof (cases "lock_byte s = 0")
  case True
  then show ?thesis using assms spin_inv_free [OF assms(1)] by (auto simp: spin_inv_def move_def)
next
  case False
  with spin_inv_owner [OF assms(1)] obtain u where u: "\<And>t. phase s t = Inside \<longleftrightarrow> t = u" by blast
  then show ?thesis using assms(2-4) False by (intro spin_invI [of _ u]) (auto simp: move_def)
qed

lemma spin_step_inv: "spin_step s s' \<Longrightarrow> spin_inv s \<Longrightarrow> spin_inv s'"
proof (induction rule: spin_step.induct)
  case (got s t)
  then show ?case using spin_inv_free [OF got(3)] by (intro spin_invI [of _ t]) (auto simp: move_def)
next
  case (unlock s t)
  then show ?case by (auto simp: spin_inv_def move_def)
qed (auto intro!: spin_inv_move)

lemma spin_reach_inv: "spin_step\<^sup>*\<^sup>* spin_boot s \<Longrightarrow> spin_inv s"
proof (induction rule: rtranclp_induct)
  case base
  show ?case by (simp add: spin_inv_def spin_boot_def)
next
  case (step s s')
  then show ?case using spin_step_inv by blast
qed

section \<open>Semaphores\<close>

text \<open>
  \<open>k_mono\<close> and \<open>k_real\<close> read the clocks, in nanoseconds and as a \<open>timespec\<close>; the calls of the C library
  yield 0 or an error number.
\<close>

record 'w sem_kernel =
  k_mono :: "'w \<Rightarrow> int \<times> 'w"
  k_real :: "'w \<Rightarrow> (int \<times> int) \<times> 'w"
  k_wait :: "'w \<Rightarrow> int \<times> 'w"
  k_trywait :: "'w \<Rightarrow> int \<times> 'w"
  k_timedwait :: "int \<times> int \<Rightarrow> 'w \<Rightarrow> int \<times> 'w"

abbreviation (input) E_INTR :: int where "E_INTR \<equiv> 4"
abbreviation (input) E_TIMEDOUT :: int where "E_TIMEDOUT \<equiv> 110"

definition sem_initial :: "int \<Rightarrow> nat" where
  "sem_initial value = (if value < 0 then 0 else nat value mod 2 ^ 32)"

definition dispatch_time :: "'w sem_kernel \<Rightarrow> int \<Rightarrow> int \<Rightarrow> 'w \<Rightarrow> int \<times> 'w" where
  "dispatch_time K base deltaNs w =
     (if base = -1 then (-1, w) else (case k_mono K w of (t, w1) \<Rightarrow> (t + deltaNs, w1)))"

text \<open>The deadline on the wall clock: seconds and nanoseconds.\<close>

definition wall_deadline :: "int \<times> int \<Rightarrow> int \<Rightarrow> int \<times> int" where
  "wall_deadline ts delta =
     (case ts of (sec, nsec) \<Rightarrow>
        let s = sec + delta div 1000000000; n = nsec + delta mod 1000000000
        in if n \<ge> 1000000000 then (s + 1, n - 1000000000) else (s, n))"

partial_function (option) sem_wait_loop :: "('w \<Rightarrow> int \<times> 'w) \<Rightarrow> 'w \<Rightarrow> (int \<times> 'w) option" where
  "sem_wait_loop f w = (case f w of (e, w1) \<Rightarrow> if e = E_INTR then sem_wait_loop f w1 else Some (e, w1))"

definition dispatch_semaphore_wait :: "'w sem_kernel \<Rightarrow> int \<Rightarrow> 'w \<Rightarrow> (int \<times> 'w) option" where
  "dispatch_semaphore_wait K timeout w =
     (if timeout = -1 then sem_wait_loop (k_wait K) w
      else (case k_mono K w of (now, w1) \<Rightarrow>
        let delta = timeout - now
        in if delta \<le> 0 then (case k_trywait K w1 of (e, w2) \<Rightarrow> Some (if e = 0 then 0 else 49, w2))
           else (case k_real K w1 of (ts, w2) \<Rightarrow>
             (case sem_wait_loop (k_timedwait K (wall_deadline ts delta)) w2 of
                None \<Rightarrow> None
              | Some (e, w3) \<Rightarrow> Some (if e = E_TIMEDOUT then 49 else e, w3)))))"

text \<open>The deadline is a valid time, exactly \<open>delta\<close> nanoseconds after the clock.\<close>

lemma wall_deadline_exact:
  assumes "wall_deadline (sec, nsec) delta = (s, n)" "0 \<le> nsec" "nsec < 1000000000" "0 \<le> delta"
  shows "0 \<le> n" "n < 1000000000" "s * 1000000000 + n = sec * 1000000000 + nsec + delta"
proof -
  have d: "delta div 1000000000 * 1000000000 + delta mod 1000000000 = delta" by (rule div_mult_mod_eq)
  have m: "0 \<le> delta mod 1000000000" "delta mod 1000000000 < 1000000000" by simp_all
  show "0 \<le> n" "n < 1000000000" "s * 1000000000 + n = sec * 1000000000 + nsec + delta"
    using assms d m by (auto simp: wall_deadline_def Let_def distrib_right split: if_splits)
qed

text \<open>
  The type constants of recursive locks: the Darwin value 2 is stored as the value 1 of musl, in the
  low four bits of the first word of the attribute.
\<close>

definition pthread_mutexattr_settype :: "u32 \<Rightarrow> u32 \<Rightarrow> int \<times> u32" where
  "pthread_mutexattr_settype attr type =
     (if type > 2 then (22, attr)
      else (0, (attr AND NOT 15) OR (if type = 2 then 1 else type)))"

section \<open>Properties\<close>

text \<open>
  C28. The spin lock excludes. However the steps of any number of threads interleave, two different
  threads are never inside the lock at the same time.
\<close>

theorem spin_lock_excludes:
  assumes "spin_step\<^sup>*\<^sup>* spin_boot s" "phase s t = Inside" "phase s u = Inside"
  shows "t = u"
  using spin_reach_inv [OF assms(1)] assms(2,3) by (auto simp: spin_inv_def)

text \<open>Thread 0 enters while thread 1 spins.\<close>

definition spin_demo :: "nat spin" where
  "spin_demo = \<lparr> lock_byte = 1, phase = (\<lambda>t. Outside)(0 := Inside, 1 := Spinning) \<rparr>"

lemma spin_demo_reached: "spin_step\<^sup>*\<^sup>* spin_boot spin_demo"
proof -
  define s1 :: "nat spin" where "s1 = \<lparr> lock_byte = 0, phase = (\<lambda>t. Outside)(0 := Trying) \<rparr>"
  define s2 :: "nat spin" where "s2 = \<lparr> lock_byte = 1, phase = (\<lambda>t. Outside)(0 := Inside) \<rparr>"
  define s3 :: "nat spin" where "s3 = \<lparr> lock_byte = 1, phase = (\<lambda>t. Outside)(0 := Inside, 1 := Trying) \<rparr>"
  have "spin_step spin_boot s1" using spin_step.call [of spin_boot 0] by (simp add: spin_boot_def move_def s1_def)
  moreover have "spin_step s1 s2" using spin_step.got [of s1 0] by (simp add: move_def s1_def s2_def)
  moreover have "spin_step s2 s3" using spin_step.call [of s2 1] by (simp add: move_def s2_def s3_def)
  moreover have "spin_step s3 spin_demo" using spin_step.taken [of s3 1] by (simp add: move_def s3_def spin_demo_def)
  ultimately show ?thesis
    by (rule_tac converse_rtranclp_into_rtranclp [OF _ converse_rtranclp_into_rtranclp [OF _
      converse_rtranclp_into_rtranclp [OF _ r_into_rtranclp]]])
qed

theorem spin_lock_excludes_witness: "{t. phase spin_demo t = Inside} = {0}"
proof -
  have "t = 0" if "phase spin_demo t = Inside" for t
    by (rule spin_lock_excludes [OF spin_demo_reached that]) (simp add: spin_demo_def)
  moreover have "phase spin_demo 0 = Inside" by (simp add: spin_demo_def)
  ultimately show ?thesis by blast
qed

end
