(* ===== verification/Host_Locks.thy ===== *)
theory Host_Locks
  imports Zan_Prelude
begin

text \<open>
  File locks of \<open>zanhost.c\<close>: the table of 32 slots behind \<open>zan_file_try_lock\<close> and
  \<open>zan_file_unlock\<close>, whose handles carry a slot and a generation. The calls of the operating system
  are a parameter.
\<close>

section \<open>The table\<close>

text \<open>\<open>used\<close> is 0 for a free slot, 1 for a taken and 2 for a retired one.\<close>

record lk_slot =
  lk_fd :: int
  lk_used :: int
  lk_gen :: u32

definition ZAN_LK_CAP :: nat where "ZAN_LK_CAP = 32"

definition lk_boot :: "lk_slot list" where
  "lk_boot = replicate ZAN_LK_CAP \<lparr> lk_fd = 0, lk_used = 0, lk_gen = 0 \<rparr>"

text \<open>\<open>open\<close> yields a descriptor or a negative number, \<open>flock\<close> whether the lock was granted.\<close>

record 'w lock_os =
  os_open :: "cstr \<Rightarrow> 'w \<Rightarrow> int \<times> 'w"
  os_flock :: "int \<Rightarrow> 'w \<Rightarrow> bool \<times> 'w"
  os_close :: "int \<Rightarrow> 'w \<Rightarrow> 'w"

definition lk_handle :: "u32 \<Rightarrow> nat \<Rightarrow> i64" where
  "lk_handle g i = push_bit 32 (ucast g) OR of_nat i"

definition zan_lk_index :: "i64 \<Rightarrow> lk_slot list \<Rightarrow> nat option" where
  "zan_lk_index h t =
     (if sint h \<le> 0 then None
      else let gen = ucast (drop_bit 32 h) :: u32; slot = unat (h AND 0xFFFFFFFF)
           in if slot \<ge> ZAN_LK_CAP then None
              else if lk_used (t ! slot) = 0 \<or> lk_gen (t ! slot) \<noteq> gen then None
              else Some slot)"

definition zan_file_try_lock :: "'w lock_os \<Rightarrow> cstr option \<Rightarrow> lk_slot list \<Rightarrow> 'w \<Rightarrow> i64 \<times> lk_slot list \<times> 'w" where
  "zan_file_try_lock K path t w =
     (if path = None \<or> path = Some [] then (0, t, w)
      else case first_index (\<lambda>s. lk_used s = 0) t of
        None \<Rightarrow> (0, t, w)
      | Some i \<Rightarrow>
          let free = t ! i; t1 = t[i := free\<lparr> lk_used := 1 \<rparr>] in
          case os_open K (the path) w of (fd, w1) \<Rightarrow>
            if fd < 0 then (0, t1[i := (t1 ! i)\<lparr> lk_used := 0 \<rparr>], w1)
            else case os_flock K fd w1 of (ok, w2) \<Rightarrow>
              if \<not> ok then (0, t1[i := (t1 ! i)\<lparr> lk_used := 0 \<rparr>], os_close K fd w2)
              else let next = lk_gen (t1 ! i) + 1
                in if next = 0 then (0, t1[i := (t1 ! i)\<lparr> lk_used := 2 \<rparr>], os_close K fd w2)
                   else (lk_handle next i, t1[i := (t1 ! i)\<lparr> lk_gen := next, lk_fd := fd \<rparr>], w2))"

definition zan_file_unlock :: "'w lock_os \<Rightarrow> i64 \<Rightarrow> lk_slot list \<Rightarrow> 'w \<Rightarrow> int \<times> lk_slot list \<times> 'w" where
  "zan_file_unlock K h t w =
     (case zan_lk_index h t of
        None \<Rightarrow> (0, t, w)
      | Some i \<Rightarrow>
          let ng = lk_gen (t ! i) + 1; ng1 = (if ng = 0 then 1 else ng)
          in (1, t[i := (t ! i)\<lparr> lk_fd := -1, lk_used := 0, lk_gen := ng1 \<rparr>], os_close K (lk_fd (t ! i)) w))"

section \<open>Histories\<close>

datatype lk_op = TryLock "cstr option" | Unlock i64

text \<open>A step, and the handle that it granted or took back.\<close>

fun lk_step :: "'w lock_os \<Rightarrow> lk_op \<Rightarrow> lk_slot list \<Rightarrow> 'w \<Rightarrow> i64 \<times> lk_slot list \<times> 'w" where
  "lk_step K (TryLock p) t w = zan_file_try_lock K p t w"
| "lk_step K (Unlock h) t w = (case zan_file_unlock K h t w of (r, t1, w1) \<Rightarrow> (h, t1, w1))"

text \<open>The handles that are out: granted and not given back since.\<close>

fun lk_track :: "lk_op \<Rightarrow> i64 \<Rightarrow> i64 set \<Rightarrow> i64 set" where
  "lk_track (TryLock p) h out = (if h = 0 then out else insert h out)"
| "lk_track (Unlock h) _ out = out - {h}"

fun lk_run :: "'w lock_os \<Rightarrow> lk_op list \<Rightarrow> i64 set \<Rightarrow> lk_slot list \<Rightarrow> 'w \<Rightarrow> i64 set \<times> lk_slot list \<times> 'w" where
  "lk_run K [] out t w = (out, t, w)"
| "lk_run K (x # xs) out t w = (case lk_step K x t w of (h, t1, w1) \<Rightarrow> lk_run K xs (lk_track x h out) t1 w1)"

section \<open>Handles\<close>

lemma lk_handle_val: "i < 32 \<Longrightarrow> unat (lk_handle g i) = unat g * 2 ^ 32 + i"
proof -
  assume i: "i < 32"
  have g: "unat g < 2 ^ 32" using unsigned_less [of g] by simp
  have u: "unat (ucast g :: u64) = unat g" using g by (simp add: unsigned_ucast_eq take_bit_nat_eq_self)
  have "unat (lk_handle g i) = unat (push_bit 32 (ucast g :: u64)) OR unat (of_nat i :: u64)"
    by (simp add: lk_handle_def unsigned_or_eq)
  also have "unat (of_nat i :: u64) = i" using i by (simp add: unat_of_nat)
  also have "unat (push_bit 32 (ucast g :: u64)) = take_bit 64 (push_bit 32 (unat g))"
    by (subst unsigned_push_bit_eq) (simp only: u, simp)
  also have "\<dots> = push_bit 32 (unat g)" using g by (intro take_bit_nat_eq_self) (simp add: push_bit_eq_mult)
  also have "push_bit 32 (unat g) OR i = unat g * 2 ^ 32 + i" using i by (intro or_add) simp
  finally show ?thesis .
qed

lemma lk_handle_sint:
  assumes "i < 32" "unat g < 2 ^ 31"
  shows "sint (lk_handle g i) = int (unat g) * 2 ^ 32 + int i"
proof -
  have v: "uint (lk_handle g i) = int (unat g) * 2 ^ 32 + int i"
    unfolding uint_nat using lk_handle_val [OF assms(1), of g] by simp
  have "unat g * 2 ^ 32 + i < 2 ^ 63" using assms by simp
  then have "int (unat g * 2 ^ 32 + i) < int (2 ^ 63)" by (simp only: of_nat_less_iff)
  then have "int (unat g) * 2 ^ 32 + int i < 2 ^ 63" by (simp only: of_nat_add of_nat_mult of_nat_power of_nat_numeral)
  then have "signed_take_bit 63 (int (unat g) * 2 ^ 32 + int i) = int (unat g) * 2 ^ 32 + int i"
    by (rule signed_take_bit_int_eq_self [rotated]) (rule order_trans [of _ 0], simp_all only: neg_le_0_iff_le, simp_all)
  then show ?thesis by (simp only: sint_uint v) simp
qed

lemma lk_handle_pos:
  assumes "i < 32" "unat g < 2 ^ 31" "g \<noteq> 0"
  shows "0 < sint (lk_handle g i)"
proof -
  have "unat g \<noteq> 0" using assms(3) by (simp add: unat_eq_0)
  then have "(0::int) < int (unat g)" by linarith
  then show ?thesis unfolding lk_handle_sint [OF assms(1,2)] by (intro add_pos_nonneg mult_pos_pos) auto
qed

lemma lk_handle_slot: "i < 32 \<Longrightarrow> unat (lk_handle g i AND 0xFFFFFFFF) = i"
proof -
  assume i: "i < 32"
  have "lk_handle g i AND 0xFFFFFFFF = take_bit 32 (lk_handle g i)"
    by (simp add: take_bit_eq_mask mask_eq_exp_minus_1)
  then have "unat (lk_handle g i AND 0xFFFFFFFF) = take_bit 32 (unat (lk_handle g i))"
    by (simp only: unsigned_take_bit_eq)
  then show ?thesis unfolding lk_handle_val [OF i] take_bit_eq_mod using i by simp
qed

lemma lk_handle_gen: "i < 32 \<Longrightarrow> ucast (drop_bit 32 (lk_handle g i)) = g"
proof -
  assume i: "i < 32"
  have "unat g * 2 ^ 32 + i < 2 ^ 64" using i u32_less [of g] by simp
  then have "take_bit 64 (unat g * 2 ^ 32 + i) = unat g * 2 ^ 32 + i" by (rule take_bit_nat_eq_self)
  then have "unat (drop_bit 32 (lk_handle g i)) = unat g"
    unfolding unsigned_drop_bit_eq unsigned_take_bit_eq lk_handle_val [OF i]
    using i by (simp add: drop_bit_eq_div)
  then have "unat (ucast (drop_bit 32 (lk_handle g i)) :: u32) = unat g"
    using u32_less [of g] by (simp add: unsigned_ucast_eq take_bit_nat_eq_self)
  then show ?thesis by (simp add: word_unat_eq_iff)
qed

lemma lk_handle_parts: "lk_handle (ucast (drop_bit 32 h)) (unat (h AND 0xFFFFFFFF)) = h"
proof -
  have "(of_nat (unat (h AND 0xFFFFFFFF)) :: u64) = take_bit 32 h"
    by (simp add: take_bit_eq_mask mask_eq_exp_minus_1)
  then have "lk_handle (ucast (drop_bit 32 h)) (unat (h AND 0xFFFFFFFF)) = push_bit 32 (ucast (ucast (drop_bit 32 h) :: u32)) OR take_bit 32 h"
    by (simp only: lk_handle_def)
  also have "\<dots> = h" by (rule bit_word_eqI) (auto simp: bit_simps)
  finally show ?thesis .
qed

section \<open>The invariant\<close>

text \<open>The handles of the taken slots.\<close>

definition lk_live :: "lk_slot list \<Rightarrow> i64 set" where
  "lk_live t = {lk_handle (lk_gen (t ! i)) i | i. i < 32 \<and> lk_used (t ! i) = 1}"

text \<open>After \<open>n\<close> operations no generation exceeds \<open>n\<close>.\<close>

definition lk_inv :: "nat \<Rightarrow> lk_slot list \<Rightarrow> bool" where
  "lk_inv n t \<longleftrightarrow> length t = 32 \<and>
     (\<forall>i<32. lk_used (t ! i) \<in> {0, 1} \<and> unat (lk_gen (t ! i)) \<le> n \<and> (lk_used (t ! i) = 1 \<longrightarrow> lk_gen (t ! i) \<noteq> 0))"

lemma lk_boot_inv: "lk_inv 0 lk_boot"
  by (simp add: lk_inv_def lk_boot_def ZAN_LK_CAP_def)

lemma lk_boot_live: "lk_live lk_boot = {}"
  by (simp add: lk_live_def lk_boot_def ZAN_LK_CAP_def)

lemma lk_live_update:
  assumes "i < 32" "length t = 32"
  shows "lk_live (t[i := s]) =
    {h \<in> lk_live t. unat (h AND 0xFFFFFFFF) \<noteq> i} \<union> (if lk_used s = 1 then {lk_handle (lk_gen s) i} else {})"
  using assms by (auto simp: lk_live_def lk_handle_slot nth_list_update split: if_splits)

lemma zan_lk_index_live:
  assumes "lk_inv n t" "n < 2 ^ 31"
  shows "zan_lk_index h t = Some i \<longleftrightarrow> i < 32 \<and> lk_used (t ! i) = 1 \<and> h = lk_handle (lk_gen (t ! i)) i"
proof
  assume "zan_lk_index h t = Some i"
  then have i: "i < 32" "lk_used (t ! i) \<noteq> 0" "lk_gen (t ! i) = ucast (drop_bit 32 h)" "i = unat (h AND 0xFFFFFFFF)"
    by (auto simp: zan_lk_index_def ZAN_LK_CAP_def Let_def split: if_splits)
  have "h = lk_handle (lk_gen (t ! i)) i" unfolding i(3) by (simp only: i(4) lk_handle_parts)
  moreover have "lk_used (t ! i) = 1" using assms(1) i(1,2) by (auto simp: lk_inv_def)
  ultimately show "i < 32 \<and> lk_used (t ! i) = 1 \<and> h = lk_handle (lk_gen (t ! i)) i" using i(1) by blast
next
  assume i: "i < 32 \<and> lk_used (t ! i) = 1 \<and> h = lk_handle (lk_gen (t ! i)) i"
  then have g: "unat (lk_gen (t ! i)) \<le> n" "lk_gen (t ! i) \<noteq> 0" using assms(1) by (auto simp: lk_inv_def)
  then have "\<not> sint h \<le> 0" using lk_handle_pos [of i "lk_gen (t ! i)"] i assms(2) by auto
  moreover have "unat (h AND 0xFFFFFFFF) = i" using i lk_handle_slot by blast
  moreover have "ucast (drop_bit 32 h) = lk_gen (t ! i)" using i lk_handle_gen by blast
  ultimately show "zan_lk_index h t = Some i"
    using i unfolding zan_lk_index_def ZAN_LK_CAP_def Let_def by (simp only: if_False not_le simp_thms) simp
qed

lemma lk_index_none: "lk_inv n t \<Longrightarrow> n < 2 ^ 31 \<Longrightarrow> zan_lk_index h t = None \<longleftrightarrow> h \<notin> lk_live t"
  using zan_lk_index_live [of n t h] by (cases "zan_lk_index h t") (auto simp: lk_live_def)

lemma lk_inv_update:
  assumes "lk_inv n t" "i < 32" "lk_used s \<in> {0, 1}" "unat (lk_gen s) \<le> m" "lk_used s = 1 \<Longrightarrow> lk_gen s \<noteq> 0" "n \<le> m"
  shows "lk_inv m (t[i := s])"
  using assms by (fastforce simp: lk_inv_def nth_list_update)

lemma lk_inv_later: "lk_inv n t \<Longrightarrow> n \<le> m \<Longrightarrow> lk_inv m t"
  by (fastforce simp: lk_inv_def)

lemma unat_gen_suc: "unat (g :: u32) \<le> n \<Longrightarrow> n < 2 ^ 31 \<Longrightarrow> unat (g + 1) = Suc (unat g) \<and> g + 1 \<noteq> 0"
  using unat_word_ariths(1) [of g 1] by (auto simp: unat_eq_0 [symmetric])

lemma zan_file_try_lock_found:
  assumes "q \<noteq> []" "first_index (\<lambda>s. lk_used s = 0) t = Some i"
  shows "zan_file_try_lock K (Some q) t w =
    (case os_open K q w of (fd, w1) \<Rightarrow>
       if fd < 0 then (0, t, w1)
       else case os_flock K fd w1 of (ok, w2) \<Rightarrow>
         if \<not> ok then (0, t, os_close K fd w2)
         else if lk_gen (t ! i) + 1 = 0 then (0, t[i := (t ! i)\<lparr> lk_used := 2 \<rparr>], os_close K fd w2)
         else (lk_handle (lk_gen (t ! i) + 1) i, t[i := (t ! i)\<lparr> lk_used := 1, lk_gen := lk_gen (t ! i) + 1, lk_fd := fd \<rparr>], w2))"
proof -
  have l: "i < length t" and u: "lk_used (t ! i) = 0" using assms(2) by (auto simp: first_index_Some)
  have "(t ! i)\<lparr> lk_used := 0 \<rparr> = t ! i" using u by simp
  then have "t[i := (t ! i)\<lparr> lk_used := 0 \<rparr>] = t" by simp
  then show ?thesis by (simp add: zan_file_try_lock_def assms Let_def l cong: if_cong split: prod.split)
qed

lemma zan_file_try_lock_none:
  "p = None \<or> p = Some [] \<or> first_index (\<lambda>s. lk_used s = 0) t = None \<Longrightarrow> zan_file_try_lock K p t w = (0, t, w)"
  by (auto simp: zan_file_try_lock_def)

lemma try_lock_live:
  assumes "zan_file_try_lock K p t w = (h, t1, w1)" "lk_inv n t" "n < 2 ^ 31 - 1"
  shows "lk_inv (Suc n) t1 \<and> lk_live t1 = lk_track (TryLock p) h (lk_live t)"
proof (cases "p = None \<or> p = Some [] \<or> first_index (\<lambda>s. lk_used s = 0) t = None")
  case True
  then have "h = 0" "t1 = t" using assms(1) zan_file_try_lock_none [OF True, of K w] by auto
  then show ?thesis using assms(2) by (auto intro: lk_inv_later)
next
  case False
  then obtain i q where i: "first_index (\<lambda>s. lk_used s = 0) t = Some i" and q: "p = Some q" "q \<noteq> []" by auto
  have len: "length t = 32" using assms(2) by (simp add: lk_inv_def)
  then have l: "i < 32" and u: "lk_used (t ! i) = 0" using i by (auto simp: first_index_Some)
  define g where "g = lk_gen (t ! i)"
  have g: "unat g \<le> n" using assms(2) l by (auto simp: lk_inv_def g_def)
  from unat_gen_suc [OF g] assms(3) have g1: "unat (g + 1) = Suc (unat g)" "g + 1 \<noteq> 0" by auto
  have other: "unat (h AND 0xFFFFFFFF) \<noteq> i" if "h \<in> lk_live t" for h
    using that u by (auto simp: lk_live_def lk_handle_slot)
  have hnz: "lk_handle (g + 1) i \<noteq> 0" using lk_handle_val [OF l, of "g + 1"] g1 by auto
  define x where "x = (\<lambda>fd. (t ! i)\<lparr> lk_used := 1, lk_gen := g + 1, lk_fd := fd \<rparr>)"
  have inv1: "lk_inv (Suc n) (t[i := x fd])" for fd
    by (rule lk_inv_update [OF assms(2) l]) (use g g1 in \<open>auto simp: x_def\<close>)
  have live1: "lk_live (t[i := x fd]) = insert (lk_handle (g + 1) i) (lk_live t)" for fd
    using other by (auto simp: lk_live_update [OF l len] x_def)
  show ?thesis
    using assms(1) g1 hnz inv1 live1 lk_inv_later [OF assms(2), of "Suc n"]
    by (auto simp: zan_file_try_lock_found [OF q(2) i] q(1) g_def x_def split: prod.splits if_splits)
qed

lemma unlock_live:
  assumes "zan_file_unlock K h t w = (r, t1, w1)" "lk_inv n t" "n < 2 ^ 31 - 1"
  shows "lk_inv (Suc n) t1 \<and> lk_live t1 = lk_live t - {h}"
proof (cases "zan_lk_index h t")
  case None
  then show ?thesis
    using assms lk_index_none [OF assms(2), of h] by (auto simp: zan_file_unlock_def intro: lk_inv_later)
next
  case (Some i)
  then have i: "i < 32" "lk_used (t ! i) = 1" "h = lk_handle (lk_gen (t ! i)) i"
    using zan_lk_index_live [OF assms(2)] assms(3) by auto
  have len: "length t = 32" using assms(2) by (simp add: lk_inv_def)
  have g: "unat (lk_gen (t ! i)) \<le> n" using assms(2) i(1) by (auto simp: lk_inv_def)
  from unat_gen_suc [OF g] assms(3) have g1: "unat (lk_gen (t ! i) + 1) = Suc (unat (lk_gen (t ! i)))" "lk_gen (t ! i) + 1 \<noteq> 0" by auto
  have "{x \<in> lk_live t. unat (x AND 0xFFFFFFFF) \<noteq> i} = lk_live t - {h}"
    using i by (auto simp: lk_live_def lk_handle_slot)
  moreover have t1: "t1 = t[i := (t ! i)\<lparr> lk_fd := -1, lk_used := 0, lk_gen := lk_gen (t ! i) + 1 \<rparr>]"
    using assms(1) g1 by (auto simp: zan_file_unlock_def Some Let_def)
  ultimately have "lk_live t1 = lk_live t - {h}" by (simp add: lk_live_update [OF i(1) len])
  moreover have "lk_inv (Suc n) t1"
    unfolding t1 by (rule lk_inv_update [OF assms(2) i(1)]) (use g g1 in auto)
  ultimately show ?thesis by blast
qed

lemma lk_step_live:
  "lk_step K x t w = (h, t1, w1) \<Longrightarrow> lk_inv n t \<Longrightarrow> n < 2 ^ 31 - 1 \<Longrightarrow>
    lk_inv (Suc n) t1 \<and> lk_live t1 = lk_track x h (lk_live t)"
  by (cases x) (auto simp: try_lock_live split: prod.splits dest: unlock_live)

lemma lk_run_live:
  "lk_run K xs (lk_live t) t w = (out, t1, w1) \<Longrightarrow> lk_inv n t \<Longrightarrow> n + length xs < 2 ^ 31 \<Longrightarrow>
    lk_inv (n + length xs) t1 \<and> out = lk_live t1"
proof (induction xs arbitrary: t w n)
  case Nil
  then show ?case by auto
next
  case (Cons x xs)
  obtain h t2 w2 where s: "lk_step K x t w = (h, t2, w2)" by (metis prod_cases3)
  with Cons.prems lk_step_live [OF s, of n] have "lk_inv (Suc n) t2" "lk_live t2 = lk_track x h (lk_live t)" by auto
  then show ?case using Cons.IH [of t2 w2 "Suc n"] Cons.prems s by auto
qed

section \<open>Exclusion\<close>

text \<open>
  What \<open>flock\<close> documents of exclusive locks that do not wait: \<open>fds\<close> are the open descriptors, \<open>locks\<close>
  those that hold a lock, and \<open>file\<close> is the file behind one. An open yields a fresh descriptor; a lock
  is granted only if no other descriptor holds one of the same file; a close gives the lock back.
\<close>

definition open_law :: "'w lock_os \<Rightarrow> ('w \<Rightarrow> int set) \<Rightarrow> ('w \<Rightarrow> int set) \<Rightarrow> ('w \<Rightarrow> int \<Rightarrow> 'f) \<Rightarrow> bool" where
  "open_law K fds locks file \<longleftrightarrow> (\<forall>p w fd w1. os_open K p w = (fd, w1) \<longrightarrow>
     locks w1 = locks w \<and> (\<forall>x\<in>fds w. file w1 x = file w x) \<and>
     (if fd < 0 then fds w1 = fds w else fd \<notin> fds w \<and> fds w1 = insert fd (fds w)))"

definition flock_law :: "'w lock_os \<Rightarrow> ('w \<Rightarrow> int set) \<Rightarrow> ('w \<Rightarrow> int set) \<Rightarrow> ('w \<Rightarrow> int \<Rightarrow> 'f) \<Rightarrow> bool" where
  "flock_law K fds locks file \<longleftrightarrow> (\<forall>fd w ok w1. fd \<in> fds w \<longrightarrow> os_flock K fd w = (ok, w1) \<longrightarrow>
     fds w1 = fds w \<and> (\<forall>x\<in>fds w. file w1 x = file w x) \<and>
     (if ok then locks w1 = insert fd (locks w) \<and> (\<forall>x\<in>locks w - {fd}. file w x \<noteq> file w fd) else locks w1 = locks w))"

definition close_law :: "'w lock_os \<Rightarrow> ('w \<Rightarrow> int set) \<Rightarrow> ('w \<Rightarrow> int set) \<Rightarrow> ('w \<Rightarrow> int \<Rightarrow> 'f) \<Rightarrow> bool" where
  "close_law K fds locks file \<longleftrightarrow> (\<forall>fd w. fd \<in> fds w \<longrightarrow>
     fds (os_close K fd w) = fds w - {fd} \<and> locks (os_close K fd w) = locks w - {fd} \<and>
     (\<forall>x\<in>fds w - {fd}. file (os_close K fd w) x = file w x))"

definition flock_laws :: "'w lock_os \<Rightarrow> ('w \<Rightarrow> int set) \<Rightarrow> ('w \<Rightarrow> int set) \<Rightarrow> ('w \<Rightarrow> int \<Rightarrow> 'f) \<Rightarrow> bool" where
  "flock_laws K fds locks file \<longleftrightarrow> open_law K fds locks file \<and> flock_law K fds locks file \<and> close_law K fds locks file"

definition lk_excl :: "('w \<Rightarrow> int set) \<Rightarrow> ('w \<Rightarrow> int set) \<Rightarrow> ('w \<Rightarrow> int \<Rightarrow> 'f) \<Rightarrow> lk_slot list \<Rightarrow> 'w \<Rightarrow> bool" where
  "lk_excl fds locks file t w \<longleftrightarrow> locks w \<subseteq> fds w \<and>
     (\<forall>i<32. lk_used (t ! i) = 1 \<longrightarrow> lk_fd (t ! i) \<in> locks w) \<and>
     (\<forall>i<32. \<forall>j<32. i \<noteq> j \<longrightarrow> lk_used (t ! i) = 1 \<longrightarrow> lk_used (t ! j) = 1 \<longrightarrow>
        lk_fd (t ! i) \<noteq> lk_fd (t ! j) \<and> file w (lk_fd (t ! i)) \<noteq> file w (lk_fd (t ! j)))"

lemma excl_free:
  assumes "lk_excl fds locks file t w" "length t = 32" "i < 32" "lk_used s = 0"
    "locks w1 \<subseteq> fds w1" "\<And>j. j < 32 \<Longrightarrow> j \<noteq> i \<Longrightarrow> lk_used (t ! j) = 1 \<Longrightarrow> lk_fd (t ! j) \<in> locks w1"
    "\<And>x. x \<in> locks w1 \<Longrightarrow> file w1 x = file w x"
  shows "lk_excl fds locks file (t[i := s]) w1"
  using assms(1-5) assms(6,7) by (simp add: lk_excl_def nth_list_update)

lemma laws_open:
  "flock_laws K fds locks file \<Longrightarrow> os_open K p w = (fd, w1) \<Longrightarrow> locks w1 = locks w \<and> (\<forall>x\<in>fds w. file w1 x = file w x) \<and>
    (if fd < 0 then fds w1 = fds w else fd \<notin> fds w \<and> fds w1 = insert fd (fds w))"
  unfolding flock_laws_def open_law_def by simp

lemma laws_flock:
  "flock_laws K fds locks file \<Longrightarrow> fd \<in> fds w \<Longrightarrow> os_flock K fd w = (ok, w1) \<Longrightarrow>
    fds w1 = fds w \<and> (\<forall>x\<in>fds w. file w1 x = file w x) \<and>
    (if ok then locks w1 = insert fd (locks w) \<and> (\<forall>x\<in>locks w - {fd}. file w x \<noteq> file w fd) else locks w1 = locks w)"
  unfolding flock_laws_def flock_law_def by simp

lemma laws_close:
  "flock_laws K fds locks file \<Longrightarrow> fd \<in> fds w \<Longrightarrow> fds (os_close K fd w) = fds w - {fd} \<and> locks (os_close K fd w) = locks w - {fd} \<and>
    (\<forall>x\<in>fds w - {fd}. file (os_close K fd w) x = file w x)"
  unfolding flock_laws_def close_law_def by simp

lemma excl_keep:
  assumes "lk_excl fds locks file t w" "locks w1 = locks w" "locks w \<subseteq> fds w1" "\<And>x. x \<in> locks w \<Longrightarrow> file w1 x = file w x"
  shows "lk_excl fds locks file t w1"
  using assms by (simp add: lk_excl_def)

lemma excl_take:
  assumes "lk_excl fds locks file t w" "length t = 32" "i < 32" "lk_used s = 1" "lk_fd s = fd" "fd \<notin> locks w"
    "locks w1 = insert fd (locks w)" "locks w1 \<subseteq> fds w1" "\<And>x. x \<in> locks w \<Longrightarrow> file w1 x = file w x"
    "\<And>x. x \<in> locks w \<Longrightarrow> file w x \<noteq> file w1 fd"
  shows "lk_excl fds locks file (t[i := s]) w1"
proof -
  have f: "lk_fd (t ! j) \<in> locks w" if "j < 32" "lk_used (t ! j) = 1" for j
    using assms(1) that by (auto simp: lk_excl_def)
  have d: "lk_fd (t ! j) \<noteq> fd" "file w1 (lk_fd (t ! j)) \<noteq> file w1 fd" if "j < 32" "lk_used (t ! j) = 1" for j
    using f [OF that] assms(6,9,10) by auto
  have old: "lk_fd (t ! j) \<noteq> lk_fd (t ! k) \<and> file w1 (lk_fd (t ! j)) \<noteq> file w1 (lk_fd (t ! k))"
    if "j < 32" "k < 32" "j \<noteq> k" "lk_used (t ! j) = 1" "lk_used (t ! k) = 1" for j k
    using assms(1,9) f that by (simp add: lk_excl_def)
  have "locks w1 \<subseteq> fds w1" by (rule assms(8))
  moreover have "lk_fd (t[i := s] ! j) \<in> locks w1" if "j < 32" "lk_used (t[i := s] ! j) = 1" for j
    using f that assms(2,3,5,7) by (cases "j = i") auto
  moreover have "lk_fd (t[i := s] ! j) \<noteq> lk_fd (t[i := s] ! k) \<and> file w1 (lk_fd (t[i := s] ! j)) \<noteq> file w1 (lk_fd (t[i := s] ! k))"
    if "j < 32" "k < 32" "j \<noteq> k" "lk_used (t[i := s] ! j) = 1" "lk_used (t[i := s] ! k) = 1" for j k
    using old [of j k] d [of j] d [of k] that assms(2,3,5) by (cases "j = i"; cases "k = i") auto
  ultimately show ?thesis unfolding lk_excl_def by blast
qed

lemma try_lock_excl:
  assumes laws: "flock_laws K fds locks file" and run: "zan_file_try_lock K p t w = (h, t1, w1)"
    and inv: "lk_inv n t" "n < 2 ^ 31 - 1" and ex: "lk_excl fds locks file t w"
  shows "lk_excl fds locks file t1 w1"
proof (cases "p = None \<or> p = Some [] \<or> first_index (\<lambda>s. lk_used s = 0) t = None")
  case True
  then have "t1 = t" "w1 = w" using run zan_file_try_lock_none [OF True, of K w] by auto
  then show ?thesis using ex by simp
next
  case False
  then obtain i q where i: "first_index (\<lambda>s. lk_used s = 0) t = Some i" and q: "p = Some q" "q \<noteq> []" by auto
  note run = run [unfolded q(1) zan_file_try_lock_found [OF q(2) i]]
  have len: "length t = 32" using inv(1) by (simp add: lk_inv_def)
  then have l: "i < 32" and u: "lk_used (t ! i) = 0" using i by (auto simp: first_index_Some)
  have g: "lk_gen (t ! i) + 1 \<noteq> 0"
    using unat_gen_suc [of "lk_gen (t ! i)" n] inv l by (auto simp: lk_inv_def)
  obtain fd w2 where o: "os_open K q w = (fd, w2)" by fastforce
  obtain ok w3 where fl: "os_flock K fd w2 = (ok, w3)" by fastforce
  note open_law = laws_open [OF laws o]
  have sub: "locks w \<subseteq> fds w" using ex by (simp add: lk_excl_def)
  show ?thesis
  proof (cases "fd < 0")
    case True
    then have "t1 = t" "w1 = w2" using run by (simp_all add: o)
    then show ?thesis using excl_keep [OF ex, of w2] open_law True sub by auto
  next
    case pos: False
    with open_law have mem: "fd \<in> fds w2" and new: "fd \<notin> locks w" using sub by auto
    note flock_law = laws_flock [OF laws mem fl]
    show ?thesis
    proof (cases ok)
      case True
      then have t1: "t1 = t[i := (t ! i)\<lparr> lk_used := 1, lk_gen := lk_gen (t ! i) + 1, lk_fd := fd \<rparr>]" and w1: "w1 = w3"
        using run g pos by (simp_all add: o fl)
      show ?thesis
        unfolding t1 w1
      proof (rule excl_take [OF ex len l _ _ new])
        show "locks w3 = insert fd (locks w)" "locks w3 \<subseteq> fds w3" using flock_law open_law True pos sub by auto
        show "file w3 x = file w x" if "x \<in> locks w" for x using that flock_law open_law pos sub by auto
        show "file w x \<noteq> file w3 fd" if "x \<in> locks w" for x
          using that flock_law open_law True pos sub new mem by (metis DiffI singletonD subsetD)
      qed simp_all
    next
      case no: False
      then have t1: "t1 = t" and w1: "w1 = os_close K fd w3"
        using run pos no by (simp_all add: o fl)
      have "fd \<in> fds w3" using mem flock_law by simp
      from laws_close [OF laws this] show ?thesis
        unfolding t1 w1 by (intro excl_keep [OF ex]) (use flock_law open_law no pos sub new in auto)
    qed
  qed
qed

lemma unlock_excl:
  assumes laws: "flock_laws K fds locks file" and run: "zan_file_unlock K h t w = (r, t1, w1)"
    and inv: "lk_inv n t" "n < 2 ^ 31 - 1" and ex: "lk_excl fds locks file t w"
  shows "lk_excl fds locks file t1 w1"
proof (cases "zan_lk_index h t")
  case None
  then show ?thesis using run ex by (simp add: zan_file_unlock_def)
next
  case (Some i)
  then have i: "i < 32" "lk_used (t ! i) = 1" using zan_lk_index_live [OF inv(1)] inv(2) by auto
  have len: "length t = 32" using inv(1) by (simp add: lk_inv_def)
  have mem: "lk_fd (t ! i) \<in> fds w" and sub: "locks w \<subseteq> fds w" using ex i by (auto simp: lk_excl_def)
  have w1: "w1 = os_close K (lk_fd (t ! i)) w" using run by (simp add: zan_file_unlock_def Some Let_def)
  obtain s where t1: "t1 = t[i := s]" "lk_used s = 0" using run by (auto simp: zan_file_unlock_def Some Let_def)
  show ?thesis
    unfolding t1(1) w1
    by (rule excl_free [OF ex len i(1) t1(2)]) (use laws_close [OF laws mem] sub ex i in \<open>auto simp: lk_excl_def\<close>)
qed

lemma lk_run_excl:
  assumes laws: "flock_laws K fds locks file"
  shows "lk_run K xs (lk_live t) t w = (out, t1, w1) \<Longrightarrow> lk_inv n t \<Longrightarrow> n + length xs < 2 ^ 31 \<Longrightarrow>
    lk_excl fds locks file t w \<Longrightarrow> lk_excl fds locks file t1 w1"
proof (induction xs arbitrary: t w n)
  case Nil
  then show ?case by auto
next
  case (Cons x xs)
  obtain h t2 w2 where s: "lk_step K x t w = (h, t2, w2)" by (metis prod_cases3)
  with Cons.prems lk_step_live [OF s, of n] have l: "lk_inv (Suc n) t2" "lk_live t2 = lk_track x h (lk_live t)" by auto
  have "lk_excl fds locks file t2 w2"
    using s Cons.prems try_lock_excl [OF laws, of _ t w h t2 w2 n] unlock_excl [OF laws, of _ t w _ t2 w2 n]
    by (cases x) (auto split: prod.splits)
  then show ?case using Cons.IH [of t2 w2 "Suc n"] Cons.prems s l by auto
qed

section \<open>A kernel\<close>

text \<open>
  Descriptors are numbered from 0 and never used again: the path of each, and 0 for closed, 1 for
  open, 2 for locked.
\<close>

type_synonym disk = "(cstr \<times> nat) list"

definition disk_fds :: "disk \<Rightarrow> int set" where
  "disk_fds w = {x. 0 \<le> x \<and> nat x < length w \<and> snd (w ! nat x) \<noteq> 0}"

definition disk_locks :: "disk \<Rightarrow> int set" where
  "disk_locks w = {x. 0 \<le> x \<and> nat x < length w \<and> snd (w ! nat x) = 2}"

definition disk_file :: "disk \<Rightarrow> int \<Rightarrow> cstr" where
  "disk_file w fd = fst (w ! nat fd)"

text \<open>Whether another descriptor holds a lock of the file.\<close>

definition disk_busy :: "disk \<Rightarrow> int \<Rightarrow> bool" where
  "disk_busy w fd = list_ex (\<lambda>i. i \<noteq> nat fd \<and> snd (w ! i) = 2 \<and> fst (w ! i) = disk_file w fd) [0..<length w]"

definition disk_os :: "disk lock_os" where
  "disk_os = \<lparr> os_open = (\<lambda>p w. (int (length w), w @ [(p, 1)])),
     os_flock = (\<lambda>fd w. if disk_busy w fd then (False, w) else (True, w[nat fd := (disk_file w fd, 2)])),
     os_close = (\<lambda>fd w. w[nat fd := (disk_file w fd, 0)]) \<rparr>"

lemma disk_fds_update:
  "0 \<le> fd \<Longrightarrow> nat fd < length w \<Longrightarrow> disk_fds (w[nat fd := (p, n)]) = (if n = 0 then disk_fds w - {fd} else insert fd (disk_fds w))"
  by (auto simp: disk_fds_def nth_list_update eq_nat_nat_iff split: if_splits)

lemma disk_locks_update:
  "0 \<le> fd \<Longrightarrow> nat fd < length w \<Longrightarrow> disk_locks (w[nat fd := (p, n)]) = (if n = 2 then insert fd (disk_locks w) else disk_locks w - {fd})"
  by (auto simp: disk_locks_def nth_list_update eq_nat_nat_iff split: if_splits)

lemma disk_file_update: "disk_file (w[nat fd := (disk_file w fd, n)]) x = disk_file w x"
  by (cases "nat fd < length w"; cases "nat x = nat fd") (simp_all add: disk_file_def list_update_beyond)

lemma disk_fds_snoc: "x \<in> disk_fds (w @ [(p, 1)]) \<longleftrightarrow> x = int (length w) \<or> x \<in> disk_fds w"
  by (cases "nat x < length w"; cases "nat x = length w") (auto simp: disk_fds_def nth_append)

lemma disk_locks_snoc: "x \<in> disk_locks (w @ [(p, 1)]) \<longleftrightarrow> x \<in> disk_locks w"
  by (cases "nat x < length w"; cases "nat x = length w") (auto simp: disk_locks_def nth_append)

lemma disk_open: "open_law disk_os disk_fds disk_locks disk_file"
  unfolding open_law_def
proof (intro allI impI)
  fix p w fd w1
  assume "os_open disk_os p w = (fd, w1)"
  then have e: "fd = int (length w)" "w1 = w @ [(p, 1)]" by (auto simp: disk_os_def)
  have "disk_fds w1 = insert fd (disk_fds w)" "disk_locks w1 = disk_locks w"
    unfolding e by (rule set_eqI, simp only: disk_fds_snoc insert_iff, rule set_eqI, simp only: disk_locks_snoc)
  then show "disk_locks w1 = disk_locks w \<and> (\<forall>x\<in>disk_fds w. disk_file w1 x = disk_file w x) \<and>
      (if fd < 0 then disk_fds w1 = disk_fds w else fd \<notin> disk_fds w \<and> disk_fds w1 = insert fd (disk_fds w))"
    by (auto simp: e disk_file_def disk_fds_def nth_append)
qed

lemma disk_close: "close_law disk_os disk_fds disk_locks disk_file"
  unfolding close_law_def
proof (intro allI impI)
  fix fd w
  assume "fd \<in> disk_fds w"
  then have "0 \<le> fd" "nat fd < length w" by (auto simp: disk_fds_def)
  then show "disk_fds (os_close disk_os fd w) = disk_fds w - {fd} \<and> disk_locks (os_close disk_os fd w) = disk_locks w - {fd} \<and>
      (\<forall>x\<in>disk_fds w - {fd}. disk_file (os_close disk_os fd w) x = disk_file w x)"
    by (simp add: disk_os_def disk_fds_update disk_locks_update disk_file_update)
qed

lemma disk_free:
  assumes "\<not> disk_busy w fd" "0 \<le> fd" "x \<in> disk_locks w - {fd}"
  shows "disk_file w x \<noteq> disk_file w fd"
proof -
  have "nat x \<noteq> nat fd" "nat x < length w" "snd (w ! nat x) = 2" using assms(2,3) by (auto simp: disk_locks_def)
  then show ?thesis using assms(1) by (auto simp: disk_busy_def list_ex_iff disk_file_def)
qed

lemma disk_flock: "flock_law disk_os disk_fds disk_locks disk_file"
  unfolding flock_law_def
proof (intro allI impI)
  fix fd w ok w1
  assume m: "fd \<in> disk_fds w" and f: "os_flock disk_os fd w = (ok, w1)"
  then have fd: "0 \<le> fd" "nat fd < length w" by (auto simp: disk_fds_def)
  show "disk_fds w1 = disk_fds w \<and> (\<forall>x\<in>disk_fds w. disk_file w1 x = disk_file w x) \<and>
      (if ok then disk_locks w1 = insert fd (disk_locks w) \<and> (\<forall>x\<in>disk_locks w - {fd}. disk_file w x \<noteq> disk_file w fd)
       else disk_locks w1 = disk_locks w)"
  proof (cases "disk_busy w fd")
    case True
    then show ?thesis using f by (auto simp: disk_os_def)
  next
    case False
    then have "ok" "w1 = w[nat fd := (disk_file w fd, 2)]" using f by (auto simp: disk_os_def)
    then show ?thesis
      using disk_free [OF False fd(1)] m by (auto simp: disk_fds_update [OF fd] disk_locks_update [OF fd] disk_file_update)
  qed
qed

lemma disk_laws: "flock_laws disk_os disk_fds disk_locks disk_file"
  by (simp add: flock_laws_def disk_open disk_flock disk_close)

text \<open>A file that is locked and unlocked \<open>n\<close> times.\<close>

fun cycles :: "nat \<Rightarrow> lk_op list" where
  "cycles 0 = []"
| "cycles (Suc n) = cycles n @ [TryLock (Some [120]), Unlock (lk_handle (of_nat (2 * n + 1)) 0)]"

lemma lk_run_append:
  "lk_run K (xs @ ys) out t w = (case lk_run K xs out t w of (out1, t1, w1) \<Rightarrow> lk_run K ys out1 t1 w1)"
  by (induction xs arbitrary: out t w) (auto split: prod.split)

definition after :: "nat \<Rightarrow> lk_slot list" where
  "after n = lk_boot[0 := \<lparr> lk_fd = (if n = 0 then 0 else -1), lk_used = 0, lk_gen = of_nat (2 * n) \<rparr>]"

lemma after_first: "first_index (\<lambda>s. lk_used s = 0) (after n) = Some 0" "length (after n) = 32"
  by (simp_all add: after_def lk_boot_def ZAN_LK_CAP_def first_index_Some)

lemma lock_once:
  assumes "(of_nat (2 * n + 1) :: u32) \<noteq> 0"
  shows "zan_file_try_lock disk_os (Some [120]) (after n) (replicate n ([120], 0)) =
      (lk_handle (of_nat (2 * n + 1)) 0, (after n)[0 := \<lparr> lk_fd = int n, lk_used = 1, lk_gen = of_nat (2 * n + 1) \<rparr>],
       replicate n ([120], 0) @ [([120], 2)])"
proof -
  define w1 :: disk where "w1 = replicate n ([120], 0) @ [([120], 1)]"
  have "\<not> disk_busy w1 (int n)"
    by (auto simp: disk_busy_def list_ex_iff nth_append w1_def)
  moreover have "w1[n := (disk_file w1 (int n), 2)] = replicate n ([120], 0) @ [([120], 2)]"
    by (simp add: w1_def list_update_append disk_file_def nth_append)
  ultimately have "os_flock disk_os (int n) w1 = (True, replicate n ([120], 0) @ [([120], 2)])"
    by (simp add: disk_os_def)
  moreover have "os_open disk_os [120] (replicate n ([120], 0)) = (int n, w1)"
    by (simp add: disk_os_def w1_def)
  moreover have "after n ! 0 = \<lparr> lk_fd = (if n = 0 then 0 else -1), lk_used = 0, lk_gen = of_nat (2 * n) \<rparr>"
    by (simp add: after_def lk_boot_def ZAN_LK_CAP_def)
  ultimately show ?thesis
    using assms by (simp add: zan_file_try_lock_found [OF _ after_first(1)] add.commute)
qed

lemma after_0: "after 0 = lk_boot"
  by (rule nth_equalityI) (auto simp: after_def lk_boot_def ZAN_LK_CAP_def nth_list_update)

lemma unlock_once:
  assumes "t = (after n)[0 := \<lparr> lk_fd = int n, lk_used = 1, lk_gen = g \<rparr>]" "zan_lk_index h t = Some 0" "g + 1 \<noteq> 0"
  shows "zan_file_unlock disk_os h t (replicate n ([120], 0) @ [([120], 2)]) =
    (1, (after n)[0 := \<lparr> lk_fd = -1, lk_used = 0, lk_gen = g + 1 \<rparr>], replicate (Suc n) ([120], 0))"
proof -
  have "(replicate n ([120], 0) @ [([120], 2)])[n := ([120], 0)] = replicate (Suc n) ([120] :: cstr, 0 :: nat)"
    by (simp add: list_update_append replicate_append_same)
  then show ?thesis
    using assms by (simp add: zan_file_unlock_def Let_def disk_os_def disk_file_def nth_append after_first)
qed

lemma cycles_run: "n \<le> 2 ^ 30 \<Longrightarrow> lk_run disk_os (cycles n) {} lk_boot [] = ({}, after n, replicate n ([120], 0))"
proof (induction n)
  case 0
  then show ?case by (simp add: after_0)
next
  case (Suc n)
  define g :: u32 where "g = of_nat (2 * n + 1)"
  define t where "t = (after n)[0 := \<lparr> lk_fd = int n, lk_used = 1, lk_gen = g \<rparr>]"
  have g: "unat g = 2 * n + 1" unfolding g_def unsigned_of_nat using Suc.prems by (subst take_bit_nat_eq_self) simp_all
  then have nz: "g \<noteq> 0" by (metis add_is_0 one_neq_zero unat_0)
  have g1: "g + 1 \<noteq> 0" using unat_gen_suc [of g "2 * n + 1"] g Suc.prems by simp
  have "lk_inv (2 * n + 1) t"
    using g nz by (auto simp: t_def lk_inv_def after_def lk_boot_def ZAN_LK_CAP_def nth_list_update)
  then have idx: "zan_lk_index (lk_handle g 0) t = Some 0"
    using zan_lk_index_live [of "2 * n + 1" t _ 0] Suc.prems by (simp add: t_def after_first)
  have h: "lk_handle g 0 \<noteq> 0" using lk_handle_val [of 0 g] g by auto
  have "after (Suc n) = (after n)[0 := \<lparr> lk_fd = -1, lk_used = 0, lk_gen = g + 1 \<rparr>]"
    by (simp add: after_def g_def algebra_simps)
  then have un: "lk_step disk_os (Unlock (lk_handle g 0)) t (replicate n ([120], 0) @ [([120], 2)]) =
      (lk_handle g 0, after (Suc n), replicate (Suc n) ([120], 0))"
    using unlock_once [OF t_def idx g1] by simp
  have tk: "lk_step disk_os (TryLock (Some [120])) (after n) (replicate n ([120], 0)) =
      (lk_handle g 0, t, replicate n ([120], 0) @ [([120], 2)])"
    unfolding lk_step.simps t_def g_def by (rule lock_once [OF nz [unfolded g_def]])
  have run: "lk_run disk_os (cycles n) {} lk_boot [] = ({}, after n, replicate n ([120], 0))"
    using Suc by simp
  show ?case
    unfolding cycles.simps lk_run_append run g_def [symmetric] by (simp add: tk un h del: lk_step.simps replicate.simps)
qed

section \<open>Properties\<close>


text \<open>
  File locks exclude each other. On an operating system that keeps the documented rules of
  \<open>flock\<close>, any two handles that are out at the same time, of fewer than $2^{31} - 1$ calls, hold locks
  of different files.
\<close>

theorem file_locks_exclude:
  assumes "flock_laws K fds locks file" "lk_run K xs {} lk_boot w = (out, t, w1)" "length xs < 2 ^ 31 - 1" "locks w \<subseteq> fds w"
    "h1 \<in> out" "h2 \<in> out" "h1 \<noteq> h2"
  shows "file w1 (lk_fd (t ! unat (h1 AND 0xFFFFFFFF))) \<noteq> file w1 (lk_fd (t ! unat (h2 AND 0xFFFFFFFF)))"
proof -
  have "lk_run K xs (lk_live lk_boot) lk_boot w = (out, t, w1)" using assms(2) by (simp add: lk_boot_live)
  moreover have "lk_excl fds locks file lk_boot w"
    using assms(4) by (simp add: lk_excl_def lk_boot_def ZAN_LK_CAP_def)
  ultimately have "lk_excl fds locks file t w1" "out = lk_live t"
    using lk_run_excl [OF assms(1), of xs lk_boot w out t w1 0] lk_run_live [of K xs lk_boot w out t w1 0] assms(3)
    by (auto simp: lk_boot_inv)
  moreover obtain i j where "i < 32" "lk_used (t ! i) = 1" "h1 = lk_handle (lk_gen (t ! i)) i"
    "j < 32" "lk_used (t ! j) = 1" "h2 = lk_handle (lk_gen (t ! j)) j"
    using calculation assms(5,6) by (auto simp: lk_live_def)
  moreover have "i \<noteq> j" using calculation assms(7) by auto
  ultimately show ?thesis by (simp add: lk_excl_def lk_handle_slot)
qed

text \<open>Two files locked, and the first of them a second time, which fails.\<close>

definition two_files :: "i64 set \<times> lk_slot list \<times> disk" where
  "two_files = lk_run disk_os [TryLock (Some [97]), TryLock (Some [98]), TryLock (Some [97])] {} lk_boot []"

definition two_slots :: "lk_slot list" where
  "two_slots = lk_boot[0 := \<lparr> lk_fd = 0, lk_used = 1, lk_gen = 1 \<rparr>, 1 := \<lparr> lk_fd = 1, lk_used = 1, lk_gen = 1 \<rparr>]"

lemma two_files_val: "two_files = ({lk_handle 1 1, lk_handle 1 0}, two_slots, [([97], 2), ([98], 2), ([97], 0)])"
  by code_simp


theorem file_locks_exclude_witness:
  "disk_file [([97], 2), ([98], 2), ([97], 0)] (lk_fd (two_slots ! unat (lk_handle 1 0 AND 0xFFFFFFFF))) \<noteq>
   disk_file [([97], 2), ([98], 2), ([97], 0)] (lk_fd (two_slots ! unat (lk_handle 1 1 AND 0xFFFFFFFF)))"
proof (rule file_locks_exclude [OF disk_laws two_files_val [unfolded two_files_def]])
  show "lk_handle 1 0 \<noteq> lk_handle 1 1" by code_simp
qed (simp_all add: disk_locks_def disk_fds_def)

text \<open>
  A lock can become impossible to give back. There is a history, of one file locked and unlocked
  in turn, after which \<open>zan_file_try_lock\<close> grants a handle that \<open>zan_file_unlock\<close> refuses: once the
  generation of a slot has its highest bit set, its handles are negative, and the lock stays held.
\<close>

theorem file_lock_stuck:
  "\<exists>xs t w h. lk_run disk_os xs {} lk_boot [] = ({h}, t, w) \<and> zan_file_unlock disk_os h t w = (0, t, w)"
proof -
  define g :: u32 where "g = of_nat (2 * 2 ^ 30 + 1)"
  have g: "g = 2147483649" by (simp add: g_def)
  have h: "lk_handle g 0 \<noteq> 0" "sint (lk_handle g 0) \<le> 0" unfolding g by (code_simp, code_simp)
  define t where "t = (after (2 ^ 30))[0 := \<lparr> lk_fd = int (2 ^ 30), lk_used = 1, lk_gen = g \<rparr>]"
  define w :: disk where "w = replicate (2 ^ 30) ([120], 0) @ [([120], 2)]"
  have "zan_file_try_lock disk_os (Some [120]) (after (2 ^ 30)) (replicate (2 ^ 30) ([120], 0)) = (lk_handle g 0, t, w)"
    unfolding t_def w_def g_def by (rule lock_once) (use g in \<open>simp add: g_def\<close>)
  then have "lk_run disk_os (cycles (2 ^ 30) @ [TryLock (Some [120])]) {} lk_boot [] = ({lk_handle g 0}, t, w)"
    unfolding lk_run_append cycles_run [OF order_refl] by (simp add: h(1))
  moreover have "zan_file_unlock disk_os (lk_handle g 0) t w = (0, t, w)"
    using h(2) by (simp add: zan_file_unlock_def zan_lk_index_def)
  ultimately show ?thesis by blast
qed

end
