(* ===== verification/Host_Files.thy ===== *)
theory Host_Files
  imports Zan_Prelude
begin

text \<open>
  Files and paths of the runtime: the file handles, attributes and read paths of \<open>zanhost.c\<close>, and the
  program directory, the application directory and the directory listing of \<open>zanstubs.c\<close>. What the
  operating system answers is a parameter.
\<close>

section \<open>Paths\<close>

abbreviation (input) ch_slash :: u8 where "ch_slash \<equiv> 47"
abbreviation (input) ch_back :: u8 where "ch_back \<equiv> 92"
abbreviation (input) ch_drive :: u8 where "ch_drive \<equiv> 58"
abbreviation (input) ch_dot :: u8 where "ch_dot \<equiv> 46"

text \<open>\<open>strrchr\<close>, as the position that it finds.\<close>

definition last_pos :: "u8 \<Rightarrow> cstr \<Rightarrow> nat option" where
  "last_pos c s = (if c \<in> set s then Some (length s - 1 - length (takeWhile (\<lambda>x. x \<noteq> c) (rev s))) else None)"

definition base_name :: "cstr \<Rightarrow> cstr" where
  "base_name p = (case last_pos ch_slash p of None \<Rightarrow> p | Some i \<Rightarrow> drop (i + 1) p)"

lemma after_last: "c \<notin> set b \<Longrightarrow> takeWhile (\<lambda>x. x \<noteq> c) (rev (a @ c # b)) = rev b"
proof -
  assume "c \<notin> set b"
  then have "takeWhile (\<lambda>x. x \<noteq> c) (rev b @ c # rev a) = rev b @ takeWhile (\<lambda>x. x \<noteq> c) (c # rev a)"
    by (intro takeWhile_append2) auto
  then show ?thesis by simp
qed

lemma last_pos_Some:
  "last_pos c s = Some i \<longleftrightarrow> (\<exists>a b. s = a @ c # b \<and> c \<notin> set b \<and> length a = i)"
proof
  assume "last_pos c s = Some i"
  then have c: "c \<in> set s" and i: "i = length s - 1 - length (takeWhile (\<lambda>x. x \<noteq> c) (rev s))"
    by (auto simp: last_pos_def split: if_splits)
  obtain a b where s: "s = a @ c # b" "c \<notin> set b" using split_list_last [OF c] by blast
  have "length a = i" unfolding i s(1) after_last [OF s(2)] by simp
  then show "\<exists>a b. s = a @ c # b \<and> c \<notin> set b \<and> length a = i" using s by blast
next
  assume "\<exists>a b. s = a @ c # b \<and> c \<notin> set b \<and> length a = i"
  then obtain a b where s: "s = a @ c # b" "c \<notin> set b" "length a = i" by blast
  show "last_pos c s = Some i" unfolding last_pos_def s(1) after_last [OF s(2)] using s(3) by simp
qed

lemma last_pos_None: "last_pos c s = None \<longleftrightarrow> c \<notin> set s"
  by (simp add: last_pos_def)

lemma last_pos_less: "last_pos c s = Some i \<Longrightarrow> i < length s"
  by (auto simp: last_pos_Some)

section \<open>Read paths\<close>

definition zanh_exists :: "(cstr \<Rightarrow> bool) \<Rightarrow> cstr option \<Rightarrow> int" where
  "zanh_exists st p = (case p of None \<Rightarrow> -1 | Some q \<Rightarrow> if q \<noteq> [] \<and> st q then 0 else -1)"

text \<open>
  \<open>env\<close> is \<open>ZAN_APP_DIR\<close>, \<open>exe\<close> the path of the executable or \<^const>\<open>None\<close> where the system does not
  say; it fits a buffer of 4096 bytes.
\<close>

definition zanh_app_dir :: "cstr option \<Rightarrow> cstr option \<Rightarrow> cstr" where
  "zanh_app_dir env exe =
     (case env of
        Some e \<Rightarrow> if e \<noteq> [] \<and> length e < 4096 then e
          else (case exe of None \<Rightarrow> [] | Some x \<Rightarrow>
            (case last_pos ch_slash x of None \<Rightarrow> [] | Some i \<Rightarrow> if i \<noteq> 0 \<and> i < 4096 then take i x else []))
      | None \<Rightarrow> (case exe of None \<Rightarrow> [] | Some x \<Rightarrow>
            (case last_pos ch_slash x of None \<Rightarrow> [] | Some i \<Rightarrow> if i \<noteq> 0 \<and> i < 4096 then take i x else [])))"

text \<open>One of the two directories: the packaged copy, if it fits the buffer and exists.\<close>

definition packaged :: "(cstr \<Rightarrow> bool) \<Rightarrow> cstr \<Rightarrow> cstr option \<Rightarrow> cstr option" where
  "packaged st path base =
     (case base of
        None \<Rightarrow> None
      | Some b \<Rightarrow>
          if b = [] then None
          else if length b + length path + 2 > 4096 then None
          else let alt = b @ ch_slash # path in if zanh_exists st (Some alt) \<ge> 0 then Some alt else None)"

text \<open>The second byte of the empty path lies outside of it: that read is \<^const>\<open>None\<close>.\<close>

definition zan_file_read_path :: "(cstr \<Rightarrow> bool) \<Rightarrow> cstr option \<Rightarrow> cstr option \<Rightarrow> cstr option \<Rightarrow> cstr \<Rightarrow> cstr option" where
  "zan_file_read_path st pkg env exe path =
     (if zanh_exists st (Some path) \<ge> 0 then Some []
      else if path = [] then None
      else if path ! 0 \<noteq> ch_slash \<and> path ! 0 \<noteq> ch_back \<and> (path @ [0]) ! 1 \<noteq> ch_drive then
        (case packaged st path pkg of
           Some alt \<Rightarrow> Some alt
         | None \<Rightarrow> (case packaged st path (Some (zanh_app_dir env exe)) of Some alt \<Rightarrow> Some alt | None \<Rightarrow> Some []))
      else Some [])"

section \<open>Program and application directory\<close>

text \<open>\<open>link\<close> is what \<open>readlink\<close> yields, at most 1023 bytes, or \<^const>\<open>None\<close>; the null buffer is left out.\<close>

fun cut_back :: "cstr \<Rightarrow> nat \<Rightarrow> nat" where
  "cut_back buf 0 = 0"
| "cut_back buf (Suc n) = (if buf ! n \<noteq> ch_slash then cut_back buf n else Suc n)"

definition zan_exe_dir_into :: "cstr option \<Rightarrow> int \<Rightarrow> cstr option \<times> int" where
  "zan_exe_dir_into link cap =
     (if cap \<le> 0 then (None, 0)
      else let buf = (case link of None \<Rightarrow> [] | Some l \<Rightarrow> l);
               n0 = cut_back buf (length buf);
               n1 = (if n0 > 0 then n0 - 1 else n0);
               n = (if int n1 \<ge> cap then nat (cap - 1) else n1)
           in (Some (take n buf), int n))"

text \<open>
  The application directory is computed once and kept: the state is the kept text. Both kinds of
  separators count, the later one is taken.
\<close>

definition later_pos :: "nat option \<Rightarrow> nat option \<Rightarrow> nat option" where
  "later_pos f b = (case f of None \<Rightarrow> b | Some i \<Rightarrow> (case b of None \<Rightarrow> f | Some j \<Rightarrow> if i > j then f else b))"

definition app_dir_of :: "cstr option \<Rightarrow> cstr \<Rightarrow> cstr" where
  "app_dir_of env exe =
     (if env \<noteq> None \<and> the env \<noteq> [] \<and> length (the env) < 4096 then the env
      else if exe = [] then []
      else case later_pos (last_pos ch_slash exe) (last_pos ch_back exe) of
        None \<Rightarrow> []
      | Some i \<Rightarrow> if i \<noteq> 0 \<and> i < 4096 then take i exe else [])"

definition zan_file_app_dir :: "cstr option \<Rightarrow> cstr \<Rightarrow> cstr option \<Rightarrow> cstr \<times> cstr option" where
  "zan_file_app_dir env exe kept =
     (case kept of Some d \<Rightarrow> (d, kept) | None \<Rightarrow> (let d = app_dir_of env exe in (d, Some d)))"

section \<open>Directory listing\<close>

text \<open>\<open>names\<close> are the sorted paths that \<open>glob\<close> finds.\<close>

fun list_loop :: "int \<Rightarrow> cstr \<Rightarrow> cstr list \<Rightarrow> cstr" where
  "list_loop cap out [] = out"
| "list_loop cap out (p # ps) =
     (let base = base_name p
      in if int (length out) + int (length base) + 2 > cap then out
         else list_loop cap (out @ base @ [10]) ps)"

definition zan_dir_list_into :: "(cstr \<Rightarrow> cstr list option) \<Rightarrow> cstr option \<Rightarrow> int \<Rightarrow> cstr option \<times> int" where
  "zan_dir_list_into glob pattern cap =
     (if cap \<le> 0 then (None, 0)
      else case pattern of
        None \<Rightarrow> (Some [], 0)
      | Some p \<Rightarrow> (case glob p of
            None \<Rightarrow> (Some [], 0)
          | Some names \<Rightarrow> let out = list_loop cap [] names in (Some out, int (length out))))"

section \<open>Handles\<close>

text \<open>The C library behind a handle; a handle of 0 is closed.\<close>

record 'w stdio =
  s_open :: "cstr \<Rightarrow> cstr \<Rightarrow> 'w \<Rightarrow> int \<times> 'w"
  s_read :: "int \<Rightarrow> int \<Rightarrow> 'w \<Rightarrow> u8 list \<times> 'w"
  s_write :: "int \<Rightarrow> u8 list \<Rightarrow> 'w \<Rightarrow> int \<times> 'w"
  s_seek :: "int \<Rightarrow> int \<Rightarrow> int \<Rightarrow> 'w \<Rightarrow> int \<times> 'w"
  s_tell :: "int \<Rightarrow> 'w \<Rightarrow> int"
  s_flush :: "int \<Rightarrow> 'w \<Rightarrow> int \<times> 'w"
  s_close :: "int \<Rightarrow> 'w \<Rightarrow> int \<times> 'w"
  s_eof :: "int \<Rightarrow> 'w \<Rightarrow> bool"

definition zan_file_open :: "'w stdio \<Rightarrow> cstr \<Rightarrow> cstr \<Rightarrow> 'w \<Rightarrow> int \<times> 'w" where
  "zan_file_open L path mode w = s_open L path mode w"

definition zan_file_read :: "'w stdio \<Rightarrow> int \<Rightarrow> int \<Rightarrow> 'w \<Rightarrow> (int \<times> u8 list) \<times> 'w" where
  "zan_file_read L h count w =
     (if h = 0 then ((-1, []), w) else case s_read L h count w of (bs, w1) \<Rightarrow> ((int (length bs), bs), w1))"

definition zan_file_write :: "'w stdio \<Rightarrow> int \<Rightarrow> u8 list \<Rightarrow> 'w \<Rightarrow> int \<times> 'w" where
  "zan_file_write L h bs w = (if h = 0 then (-1, w) else s_write L h bs w)"

definition zan_file_seek :: "'w stdio \<Rightarrow> int \<Rightarrow> int \<Rightarrow> int \<Rightarrow> 'w \<Rightarrow> int \<times> 'w" where
  "zan_file_seek L h off origin w =
     (if h = 0 then (-1, w)
      else case s_seek L h off origin w of (r, w1) \<Rightarrow> if r \<noteq> 0 then (-1, w1) else (s_tell L h w1, w1))"

definition zan_file_tell :: "'w stdio \<Rightarrow> int \<Rightarrow> 'w \<Rightarrow> int" where
  "zan_file_tell L h w = (if h \<noteq> 0 then s_tell L h w else -1)"

definition zan_file_flush :: "'w stdio \<Rightarrow> int \<Rightarrow> 'w \<Rightarrow> int \<times> 'w" where
  "zan_file_flush L h w = (if h \<noteq> 0 then s_flush L h w else (-1, w))"

definition zan_file_close :: "'w stdio \<Rightarrow> int \<Rightarrow> 'w \<Rightarrow> int \<times> 'w" where
  "zan_file_close L h w = (if h = 0 then (0, w) else s_close L h w)"

definition zan_file_eof :: "'w stdio \<Rightarrow> int \<Rightarrow> 'w \<Rightarrow> int" where
  "zan_file_eof L h w = (if h \<noteq> 0 then (if s_eof L h w then 1 else 0) else 1)"

section \<open>Attributes\<close>

text \<open>What \<open>stat\<close> tells of a file: its mode and size and its three times, with nanoseconds for two.\<close>

record file_stat =
  st_mode :: u32
  st_size :: int
  st_mtime :: "int \<times> int"
  st_ctime :: int
  st_atime :: "int \<times> int"

abbreviation (input) S_IFMT :: u32 where "S_IFMT \<equiv> 0xF000"
abbreviation (input) S_IFDIR :: u32 where "S_IFDIR \<equiv> 0x4000"
abbreviation (input) WRITE_BITS :: u32 where "WRITE_BITS \<equiv> 0x92"

definition zan_file_length :: "(cstr \<Rightarrow> file_stat option) \<Rightarrow> cstr \<Rightarrow> int" where
  "zan_file_length st path = (case st path of None \<Rightarrow> -1 | Some s \<Rightarrow> st_size s)"

definition zan_file_attributes :: "(cstr \<Rightarrow> file_stat option) \<Rightarrow> (cstr \<Rightarrow> bool) \<Rightarrow> cstr \<Rightarrow> int" where
  "zan_file_attributes st writable path =
     (case st path of
        None \<Rightarrow> -1
      | Some s \<Rightarrow>
          (let a = (if \<not> writable path then 1 else 0);
               base = base_name path;
               a1 = (if (base @ [0]) ! 0 = ch_dot then a OR 2 else a)
           in if st_mode s AND S_IFMT = S_IFDIR then a1 OR 4 else a1))"

definition zan_file_time :: "(cstr \<Rightarrow> file_stat option) \<Rightarrow> cstr option \<Rightarrow> int \<Rightarrow> int" where
  "zan_file_time st path which =
     (case path of
        None \<Rightarrow> 0
      | Some p \<Rightarrow>
          if p = [] then 0
          else (case st p of
            None \<Rightarrow> 0
          | Some s \<Rightarrow> if which = 1 then st_ctime s else if which = 2 then fst (st_atime s) else fst (st_mtime s)))"

text \<open>\<open>chmod\<close> and \<open>utimensat\<close> yield whether they succeed and the state after them.\<close>

definition zan_file_set_readonly ::
  "('w \<Rightarrow> cstr \<Rightarrow> file_stat option) \<Rightarrow> (cstr \<Rightarrow> u32 \<Rightarrow> 'w \<Rightarrow> bool \<times> 'w) \<Rightarrow> cstr \<Rightarrow> bool \<Rightarrow> 'w \<Rightarrow> int \<times> 'w" where
  "zan_file_set_readonly st chmod path on w =
     (case st w path of
        None \<Rightarrow> (0, w)
      | Some s \<Rightarrow>
          let m = (if on then st_mode s AND NOT WRITE_BITS else st_mode s OR WRITE_BITS)
          in case chmod path m w of (ok, w1) \<Rightarrow> (if ok then 1 else 0, w1))"

definition zan_file_set_time ::
  "('w \<Rightarrow> cstr \<Rightarrow> file_stat option) \<Rightarrow> (cstr \<Rightarrow> (int \<times> int) \<times> (int \<times> int) \<Rightarrow> 'w \<Rightarrow> bool \<times> 'w) \<Rightarrow> cstr \<Rightarrow> int \<Rightarrow> int \<Rightarrow> 'w \<Rightarrow> int \<times> 'w" where
  "zan_file_set_time st utimens path which unixSec w =
     (case st w path of
        None \<Rightarrow> (0, w)
      | Some s \<Rightarrow>
          if which = 1 then (0, w)
          else let ts = (if which = 0 then (st_atime s, (unixSec, 0)) else ((unixSec, 0), st_mtime s))
               in case utimens path ts w of (ok, w1) \<Rightarrow> (if ok then 1 else 0, w1))"

section \<open>Lemmas\<close>

definition line_of :: "cstr \<Rightarrow> cstr" where
  "line_of p = base_name p @ [10]"

lemma list_loop_prefix:
  "int (length out) < cap \<Longrightarrow> \<exists>k\<le>length ps. list_loop cap out ps = out @ concat (map line_of (take k ps)) \<and>
     int (length (list_loop cap out ps)) < cap \<and>
     (k = length ps \<or> int (length (list_loop cap out ps)) + int (length (line_of (ps ! k))) \<ge> cap)"
proof (induction ps arbitrary: out)
  case Nil
  then show ?case by simp
next
  case (Cons p ps)
  show ?case
  proof (cases "int (length out) + int (length (base_name p)) + 2 > cap")
    case True
    then show ?thesis using Cons.prems by (intro exI [of _ 0]) (simp add: Let_def line_of_def)
  next
    case False
    then have "int (length (out @ base_name p @ [10])) < cap" by simp
    from Cons.IH [OF this] obtain k where k: "k \<le> length ps"
      "list_loop cap (out @ base_name p @ [10]) ps = (out @ base_name p @ [10]) @ concat (map line_of (take k ps))"
      "int (length (list_loop cap (out @ base_name p @ [10]) ps)) < cap"
      "k = length ps \<or> int (length (list_loop cap (out @ base_name p @ [10]) ps)) + int (length (line_of (ps ! k))) \<ge> cap"
      by blast
    have step: "list_loop cap out (p # ps) = list_loop cap (out @ base_name p @ [10]) ps" using False by (simp add: Let_def)
    have "line_of p = base_name p @ [10]" by (simp add: line_of_def)
    then show ?thesis
      unfolding step using k by (intro exI [of _ "Suc k"]) (auto simp del: list_loop.simps)
  qed
qed

lemma cut_back_le: "cut_back buf n \<le> n"
  by (induction n) auto

lemma packaged_Some:
  "packaged st path base = Some r \<longleftrightarrow>
    (\<exists>b. base = Some b \<and> b \<noteq> [] \<and> r = b @ ch_slash # path \<and> length r < 4096 \<and> st r)"
  by (auto simp: packaged_def zanh_exists_def Let_def split: option.splits)

text \<open>The program directory and the application directory fit their buffers.\<close>

lemma zan_exe_dir_into_fits: "zan_exe_dir_into link cap = (Some d, n) \<Longrightarrow> n = int (length d) \<and> n < cap"
  using cut_back_le [of "case link of None \<Rightarrow> [] | Some l \<Rightarrow> l" "length (case link of None \<Rightarrow> [] | Some l \<Rightarrow> l)"]
  by (auto simp: zan_exe_dir_into_def Let_def split: if_splits)

lemma app_dir_of_fits: "length (app_dir_of env exe) < 4096"
  by (auto simp: app_dir_of_def split: option.splits)

lemma zan_file_app_dir_kept:
  "zan_file_app_dir env exe kept = (d, kept1) \<Longrightarrow> zan_file_app_dir env2 exe2 kept1 = (d, kept1)"
  by (auto simp: zan_file_app_dir_def Let_def split: option.splits)

section \<open>Properties\<close>

text \<open>
  A directory listing is cut at a line. The text is the base names of the first files that \<open>glob\<close>
  found, a line each; with its terminator it fits the buffer, and where a file is left out its line
  would not have fitted.
\<close>

theorem zan_dir_list_into_lines:
  assumes "zan_dir_list_into glob (Some p) cap = (Some out, n)" "glob p = Some names"
  shows "\<exists>k\<le>length names. out = concat (map line_of (take k names)) \<and> n = int (length out) \<and> n < cap \<and>
     (k = length names \<or> n + int (length (line_of (names ! k))) \<ge> cap)"
proof -
  have "0 < cap" "out = list_loop cap [] names" "n = int (length out)"
    using assms by (auto simp: zan_dir_list_into_def Let_def split: if_splits)
  then show ?thesis using list_loop_prefix [of "[]" cap names] by simp
qed

definition demo_names :: "cstr list" where "demo_names = [[97, 47, 98], [97, 47, 99]]"

theorem zan_dir_list_into_lines_witness:
  "\<exists>k\<le>length demo_names. [98, 10] = concat (map line_of (take k demo_names)) \<and>
     (2 :: int) = int (length [98 :: u8, 10]) \<and> (2 :: int) < 4 \<and>
     (k = length demo_names \<or> 2 + int (length (line_of (demo_names ! k))) \<ge> 4)"
proof (rule zan_dir_list_into_lines)
  show "zan_dir_list_into (\<lambda>p. Some demo_names) (Some [42]) 4 = (Some [98, 10], 2)" by code_simp
qed simp

text \<open>
  What \<open>zan_file_read_path\<close> yields. A path that is not empty is answered with the empty text, or
  with the copy of a relative path in one of the two package directories; that copy exists, while the
  path itself does not, and it fits the buffer.
\<close>

theorem zan_file_read_path_packaged:
  assumes "path \<noteq> []"
  shows "\<exists>r. zan_file_read_path st pkg env exe path = Some r \<and>
    (r = [] \<or> \<not> st path \<and> path ! 0 \<noteq> ch_slash \<and> st r \<and> length r < 4096 \<and>
      (\<exists>b. (pkg = Some b \<or> b = zanh_app_dir env exe) \<and> r = b @ ch_slash # path))"
  using assms
  by (auto simp: zan_file_read_path_def zanh_exists_def packaged_Some split: option.splits)

theorem zan_file_read_path_packaged_witness:
  "\<exists>r. zan_file_read_path (\<lambda>p. p = [112, 47, 97]) (Some [112]) None None [97] = Some r \<and>
    (r = [] \<or> \<not> [97] = [112 :: u8, 47, 97] \<and> [97 :: u8] ! 0 \<noteq> ch_slash \<and> r = [112, 47, 97] \<and> length r < 4096 \<and>
      (\<exists>b. (Some [112 :: u8] = Some b \<or> b = zanh_app_dir None None) \<and> r = b @ ch_slash # [97]))"
  by (rule zan_file_read_path_packaged) simp

text \<open>A \<open>chmod\<close> that succeeds, on a file system with one file.\<close>

definition chmod_all :: "file_stat \<Rightarrow> cstr \<Rightarrow> u32 \<Rightarrow> file_stat option \<Rightarrow> bool \<times> file_stat option" where
  "chmod_all s p m w = (True, Some (s\<lparr> st_mode := m \<rparr>))"

text \<open>
  Making a file read-only and writable again does not restore it: afterwards everybody may write
  it, whoever could before.
\<close>

theorem zan_file_set_readonly_widens:
  "st_mode (the (snd (zan_file_set_readonly (\<lambda>w p. w) (chmod_all s) path False
    (snd (zan_file_set_readonly (\<lambda>w p. w) (chmod_all s) path True (Some s)))))) = st_mode s OR WRITE_BITS"
proof -
  have "(x AND NOT (WRITE_BITS :: u32)) OR WRITE_BITS = x OR WRITE_BITS" for x
    by (rule bit_word_eqI) (auto simp: bit_simps)
  then show ?thesis by (simp add: chmod_all_def zan_file_set_readonly_def)
qed

end
