(* ===== verification/Host_Network.thy ===== *)
theory Host_Network
  imports C_Text "HOL-Library.Signed_Division"
begin

text \<open>
  The network part of \<open>zanhost.c\<close>: the checksum of ICMP, one echo request with its wait for an answer,
  and the snapshot of the network adapters. The system calls are a parameter.
\<close>

section \<open>The checksum\<close>

fun ck_sum :: "u8 list \<Rightarrow> u32 \<Rightarrow> u32" where
  "ck_sum (a # b # bs) acc = ck_sum bs (acc + (push_bit 8 (ucast a) OR ucast b))"
| "ck_sum [a] acc = acc + push_bit 8 (ucast a)"
| "ck_sum [] acc = acc"

lemma ck_high: "unat (drop_bit 16 (s :: u32)) = unat s div 65536"
  unfolding unsigned_drop_bit_eq using u32_less [of s] by (simp add: drop_bit_eq_div take_bit_nat_eq_self)

lemma ck_low: "unat ((s :: u32) AND 0xFFFF) = unat s mod 65536"
proof -
  have "s AND 0xFFFF = take_bit 16 s" by (simp add: take_bit_eq_mask mask_eq_exp_minus_1)
  then show ?thesis by (simp only: unsigned_take_bit_eq) (simp add: take_bit_eq_mod)
qed

lemma ck_less: "drop_bit 16 (s :: u32) \<noteq> 0 \<Longrightarrow> unat ((s AND 0xFFFF) + drop_bit 16 s) < unat s"
proof -
  assume d: "drop_bit 16 s \<noteq> 0"
  have q: "unat (drop_bit 16 s) = unat s div 65536" by (rule ck_high)
  have r: "unat (s AND 0xFFFF) = unat s mod 65536" by (rule ck_low)
  have "unat s div 65536 \<noteq> 0" using d q by (metis unat_eq_0)
  moreover have "unat s div 65536 * 65536 + unat s mod 65536 = unat s" by (rule div_mult_mod_eq)
  ultimately have "unat s mod 65536 + unat s div 65536 < unat s" by linarith
  then show ?thesis using unat_word_ariths(1) [of "s AND 0xFFFF" "drop_bit 16 s"] q r
    by (simp add: order_le_less_trans [OF mod_less_eq_dividend])
qed

function ck_fold :: "u32 \<Rightarrow> u32" where
  "ck_fold s = (if drop_bit 16 s \<noteq> 0 then ck_fold ((s AND 0xFFFF) + drop_bit 16 s) else s)"
  by auto
termination by (relation "measure unat") (auto simp: ck_less)

declare ck_fold.simps [simp del]

definition zan_icmp_checksum :: "u8 list \<Rightarrow> u16" where
  "zan_icmp_checksum bs = ucast (NOT (ck_fold (ck_sum bs 0)))"

section \<open>One echo request\<close>

text \<open>What \<open>poll\<close> and \<open>recvfrom\<close> answer; \<open>sendto\<close> answers with an error or none.\<close>

datatype poll_answer = PollTimeout | PollIntr | PollFail | PollReady
datatype recv_answer = RecvIntr | RecvFail | RecvData "u8 list"
datatype send_answer = SendOk | SendUnreach | SendFail

record 'w icmp_os =
  i_pton :: "cstr \<Rightarrow> bool"
  i_dgram :: "'w \<Rightarrow> int \<times> 'w"
  i_raw :: "'w \<Rightarrow> int \<times> 'w"
  i_pid :: int
  i_now :: "'w \<Rightarrow> int \<times> 'w"
  i_send :: "int \<Rightarrow> u8 list \<Rightarrow> 'w \<Rightarrow> send_answer \<times> 'w"
  i_poll :: "int \<Rightarrow> int \<Rightarrow> 'w \<Rightarrow> poll_answer \<times> 'w"
  i_recv :: "int \<Rightarrow> 'w \<Rightarrow> recv_answer \<times> 'w"
  i_close :: "int \<Rightarrow> 'w \<Rightarrow> 'w"

text \<open>The request: type 8, the process as identifier, sequence 1, the text \<open>zan-ping\<close>, and the checksum.\<close>

definition echo_bare :: "int \<Rightarrow> u8 list" where
  "echo_bare pid =
     (let ident = (word_of_int pid :: u16)
      in [8, 0, 0, 0, ucast (drop_bit 8 ident), ucast ident, 0, 1, 122, 97, 110, 45, 112, 105, 110, 103])"

definition put_sum :: "u16 \<Rightarrow> u8 list \<Rightarrow> u8 list" where
  "put_sum c bs = bs[2 := ucast (drop_bit 8 c), 3 := ucast c]"

definition echo_packet :: "int \<Rightarrow> u8 list" where
  "echo_packet pid = put_sum (zan_icmp_checksum (echo_bare pid)) (echo_bare pid)"

text \<open>
  What a received packet says: an answer, an error, or nothing. A raw socket delivers the IP header
  first.
\<close>

definition reply_type :: "bool \<Rightarrow> u8 list \<Rightarrow> u8 option" where
  "reply_type datagram reply =
     (let got = length reply in
      if \<not> datagram then
        (if got < 20 then None
         else let offset = unat ((reply ! 0 AND 15) * 4) in if got < offset + 8 then None else Some (reply ! offset))
      else if got < 8 then None else Some (reply ! 0))"

definition rtt_of :: "int \<Rightarrow> int" where
  "rtt_of rtt_us = (let ms = rtt_us sdiv 1000 in if ms > 0x7FFFFFFF then 0x7FFFFFFF else ms)"

partial_function (option) ping_loop :: "'w icmp_os \<Rightarrow> bool \<Rightarrow> int \<Rightarrow> int \<Rightarrow> int \<Rightarrow> 'w \<Rightarrow> (int \<times> 'w) option" where
  "ping_loop K datagram fd timeout start w =
     (case i_now K w of (t, w1) \<Rightarrow>
        let remain = sint (word_of_int (timeout - (t - start) sdiv 1000) :: u32) in
        if remain \<le> 0 then Some (-1, i_close K fd w1)
        else case i_poll K fd remain w1 of (p, w2) \<Rightarrow>
          if p = PollTimeout then Some (-1, i_close K fd w2)
          else if p = PollIntr then ping_loop K datagram fd timeout start w2
          else if p = PollFail then Some (-3, i_close K fd w2)
          else case i_recv K fd w2 of (r, w3) \<Rightarrow>
            (case r of
               RecvIntr \<Rightarrow> ping_loop K datagram fd timeout start w3
             | RecvFail \<Rightarrow> Some (-3, i_close K fd w3)
             | RecvData reply \<Rightarrow>
                 (case reply_type datagram reply of
                    None \<Rightarrow> ping_loop K datagram fd timeout start w3
                  | Some type \<Rightarrow>
                      if type = 0 then (case i_now K w3 of (t1, w4) \<Rightarrow> Some (rtt_of (t1 - start), i_close K fd w4))
                      else if type = 3 \<or> type = 11 then Some (-2, i_close K fd w3)
                      else ping_loop K datagram fd timeout start w3)))"

definition ping_socket :: "'w icmp_os \<Rightarrow> 'w \<Rightarrow> (int \<times> bool) \<times> 'w" where
  "ping_socket K w =
     (case i_dgram K w of (fd, w1) \<Rightarrow>
        if fd \<ge> 0 then ((fd, True), w1) else (case i_raw K w1 of (fd2, w2) \<Rightarrow> ((fd2, False), w2)))"

definition zan_plat_icmp_ping :: "'w icmp_os \<Rightarrow> cstr option \<Rightarrow> int \<Rightarrow> 'w \<Rightarrow> (int \<times> 'w) option" where
  "zan_plat_icmp_ping K address timeout_ms w =
     (if address = None \<or> address = Some [] then Some (-4, w)
      else if \<not> i_pton K (the address) then Some (-4, w)
      else let timeout = (if timeout_ms < 0 then 0 else timeout_ms) in
        case ping_socket K w of ((fd, datagram), w1) \<Rightarrow>
          if fd < 0 then Some (-3, w1)
          else case i_now K w1 of (start, w2) \<Rightarrow>
            (case i_send K fd (echo_packet (i_pid K)) w2 of (a, w3) \<Rightarrow>
               if a = SendUnreach then Some (-2, i_close K fd w3)
               else if a = SendFail then Some (-3, i_close K fd w3)
               else ping_loop K datagram fd timeout start w3))"

section \<open>The adapters\<close>

datatype if_address = Link "u8 list" | Inet4 "u8 list" | Inet6 "u8 list" | OtherFamily

text \<open>One node of \<open>getifaddrs\<close>; \<open>if_up\<close> is up and running.\<close>

record ifaddr =
  if_name :: "cstr option"
  if_up :: bool
  if_addr :: "if_address option"

definition hex_digit :: "u8 \<Rightarrow> u8" where
  "hex_digit d = (if d < 10 then 48 + d else 55 + d)"

definition hex_byte :: "u8 \<Rightarrow> cstr" where
  "hex_byte b = [hex_digit (drop_bit 4 b), hex_digit (b AND 15)]"

fun mac_loop :: "nat \<Rightarrow> cstr \<Rightarrow> u8 list \<Rightarrow> cstr" where
  "mac_loop cap out [] = out"
| "mac_loop cap out (b # bs) =
     (if length out + 3 < cap then mac_loop cap (out @ (if out \<noteq> [] then [58] else []) @ hex_byte b) bs else out)"

definition zan_mac_from_sockaddr :: "if_address option \<Rightarrow> nat \<Rightarrow> cstr" where
  "zan_mac_from_sockaddr sa cap =
     (case sa of Some (Link bytes) \<Rightarrow> if bytes = [] \<or> length bytes > 8 then [] else mac_loop cap [] bytes | _ \<Rightarrow> [])"

text \<open>\<open>ntop\<close> is \<open>inet_ntop\<close>, whose text fits its buffer and is empty on failure.\<close>

definition addr_text :: "(if_address \<Rightarrow> cstr) \<Rightarrow> if_address \<Rightarrow> cstr" where
  "addr_text ntop a = (case a of Inet4 _ \<Rightarrow> ntop a | Inet6 _ \<Rightarrow> ntop a | _ \<Rightarrow> [])"

text \<open>The addresses of one adapter, and its MAC text.\<close>

fun addr_loop :: "(if_address \<Rightarrow> cstr) \<Rightarrow> cstr \<Rightarrow> cstr \<times> cstr \<Rightarrow> ifaddr list \<Rightarrow> cstr \<times> cstr" where
  "addr_loop ntop name (mac, addrs) [] = (mac, addrs)"
| "addr_loop ntop name (mac, addrs) (p # ps) =
     (if if_name p \<noteq> Some name then addr_loop ntop name (mac, addrs) ps
      else case if_addr p of
        None \<Rightarrow> addr_loop ntop name (mac, addrs) ps
      | Some a \<Rightarrow>
          let mac1 = (if mac = [] then zan_mac_from_sockaddr (Some a) 32 else mac);
              text = addr_text ntop a
          in if text = [] then addr_loop ntop name (mac1, addrs) ps
             else if length addrs + length text + 2 \<ge> 2048 then addr_loop ntop name (mac1, addrs) ps
             else addr_loop ntop name (mac1, addrs @ (if addrs \<noteq> [] then [44] else []) @ text) ps)"

definition if_line :: "(if_address \<Rightarrow> cstr) \<Rightarrow> (cstr \<Rightarrow> nat) \<Rightarrow> ifaddr list \<Rightarrow> bool \<Rightarrow> cstr \<Rightarrow> cstr" where
  "if_line ntop index list up name =
     (case addr_loop ntop name ([], []) list of (mac, addrs) \<Rightarrow>
        name @ [9] @ dec_nat (index name) @ [9] @ [if up then 49 else 48] @ [9] @ mac @ [9] @ addrs @ [10])"

definition ZAN_PLAT_TEXT_MAX :: nat where "ZAN_PLAT_TEXT_MAX = 65536"

text \<open>
  The outer loop: \<open>text\<close> is the buffer up to its terminator. A line that does not fit is stored as
  far as it does, and ends the loop.
\<close>

fun if_loop :: "(if_address \<Rightarrow> cstr) \<Rightarrow> (cstr \<Rightarrow> nat) \<Rightarrow> ifaddr list \<Rightarrow> cstr set \<Rightarrow> cstr \<Rightarrow> ifaddr list \<Rightarrow> cstr" where
  "if_loop ntop index list seen text [] = text"
| "if_loop ntop index list seen text (it # rest) =
     (case if_name it of
        None \<Rightarrow> if_loop ntop index list seen text rest
      | Some name \<Rightarrow>
          if name \<in> seen then if_loop ntop index list seen text rest
          else let line = if_line ntop index list (if_up it) name; room = ZAN_PLAT_TEXT_MAX - length text
               in if length line \<ge> room then text @ take (room - 1) line
                  else if_loop ntop index list (insert name seen) (text @ line) rest)"

definition zan_plat_net_interfaces :: "(if_address \<Rightarrow> cstr) \<Rightarrow> (cstr \<Rightarrow> nat) \<Rightarrow> ifaddr list option \<Rightarrow> cstr" where
  "zan_plat_net_interfaces ntop index list =
     (case list of None \<Rightarrow> [] | Some l \<Rightarrow> if_loop ntop index l {} [] l)"

section \<open>The value of the checksum\<close>

text \<open>The sum of the 16-bit groups, the last one filled with zero.\<close>

fun groups :: "u8 list \<Rightarrow> nat" where
  "groups (a # b # bs) = unat a * 256 + unat b + groups bs"
| "groups [a] = unat a * 256"
| "groups [] = 0"

lemma groups_le: "groups bs \<le> 65535 * ((length bs + 1) div 2)"
proof (induction bs rule: groups.induct)
  case (1 a b bs)
  then show ?case using u8_less [of a] u8_less [of b] by simp
next
  case (2 a)
  then show ?case using u8_less [of a] by simp
qed simp

lemma high_byte: "unat (push_bit 8 (ucast (a :: u8)) :: u32) = unat a * 256"
proof -
  have "unat (ucast a :: u32) = unat a" using u8_less [of a] by (simp add: unsigned_ucast_eq take_bit_nat_eq_self)
  then have "unat (push_bit 8 (ucast a :: u32)) = take_bit 32 (push_bit 8 (unat a))"
    by (subst unsigned_push_bit_eq) (simp only: , simp)
  also have "\<dots> = push_bit 8 (unat a)" using u8_less [of a] by (intro take_bit_nat_eq_self) (simp add: push_bit_eq_mult)
  finally show ?thesis by (simp add: push_bit_eq_mult)
qed

lemma pair_word: "unat (push_bit 8 (ucast (a :: u8)) OR ucast (b :: u8) :: u32) = unat a * 256 + unat b"
proof -
  have "unat (ucast b :: u32) = unat b" using u8_less [of b] by (simp add: unsigned_ucast_eq take_bit_nat_eq_self)
  moreover have "push_bit 8 (unat a) OR unat b = unat a * 2 ^ 8 + unat b" using u8_less [of b] by (intro or_add) simp
  ultimately show ?thesis
    by (simp only: unsigned_or_eq high_byte) (simp add: push_bit_eq_mult)
qed

lemma ck_sum_val: "unat acc + groups bs < 2 ^ 32 \<Longrightarrow> unat (ck_sum bs acc) = unat acc + groups bs"
proof (induction bs acc rule: ck_sum.induct)
  case (1 a b bs acc)
  have "unat (acc + (push_bit 8 (ucast a) OR ucast b)) = unat acc + (unat a * 256 + unat b)"
    using 1(2) by (subst unat_word_ariths(1), subst pair_word) simp
  then show ?case using 1 by simp
next
  case (2 a acc)
  then show ?case by (simp only: ck_sum.simps groups.simps, subst unat_word_ariths(1), subst high_byte) simp
qed simp

lemma ck_step: "unat ((s AND 0xFFFF) + drop_bit 16 (s :: u32)) = unat s mod 65536 + unat s div 65536"
proof -
  have "unat s mod 65536 + unat s div 65536 \<le> unat s mod 65536 + unat s div 65536 * 65536" by simp
  also have "\<dots> < 2 ^ 32" using u32_less [of s] by (simp add: mult.commute)
  finally show ?thesis by (subst unat_word_ariths(1), subst ck_high, subst ck_low) simp
qed

lemma ck_fold_val:
  "unat (ck_fold s) < 65536 \<and> unat (ck_fold s) mod 65535 = unat s mod 65535 \<and> (unat (ck_fold s) = 0 \<longleftrightarrow> unat s = 0)"
proof (induction s rule: ck_fold.induct)
  case (1 s)
  show ?case
  proof (cases "drop_bit 16 s = 0")
    case True
    then have "unat s div 65536 = 0" using ck_high [of s] by (metis unat_0)
    then have "unat s < 65536" by (simp add: div_eq_0_iff)
    moreover have "ck_fold s = s" using True by (simp add: ck_fold.simps)
    ultimately show ?thesis by simp
  next
    case False
    let ?t = "(s AND 0xFFFF) + drop_bit 16 s"
    have f: "ck_fold s = ck_fold ?t" using False by (simp add: ck_fold.simps)
    have "unat s = unat s div 65536 * 65536 + unat s mod 65536" by simp
    then have "unat s = unat ?t + unat s div 65536 * 65535" unfolding ck_step by linarith
    then have "unat s mod 65535 = unat ?t mod 65535" by (metis mod_mult_self1)
    moreover have "unat ?t = 0 \<longleftrightarrow> unat s = 0" unfolding ck_step by (metis add_is_0 div_0 div_mult_mod_eq mod_0 mult_is_0)
    ultimately show ?thesis using 1 [OF False] unfolding f by simp
  qed
qed

lemma unat_not16: "unat (NOT (y :: u16)) = 65535 - unat y"
proof -
  have "y + NOT y = - 1" by (simp add: not_eq_complement)
  then have "NOT y = - 1 - y" by (simp add: algebra_simps)
  moreover have "unat (- 1 - y) = unat (- 1 :: u16) - unat y" by (rule unat_sub) simp
  ultimately show ?thesis by (simp add: unsigned_minus_1_eq_mask mask_eq_exp_minus_1)
qed

lemma zan_icmp_checksum_val: "unat (zan_icmp_checksum bs) = 65535 - unat (ck_fold (ck_sum bs 0))"
proof -
  let ?x = "ck_fold (ck_sum bs 0)"
  have "(ucast (NOT ?x) :: u16) = NOT (ucast ?x)" by (rule bit_word_eqI) (auto simp: bit_simps)
  moreover have "unat (ucast ?x :: u16) = unat ?x"
    using ck_fold_val [of "ck_sum bs 0"] by (simp add: unsigned_ucast_eq take_bit_nat_eq_self)
  ultimately show ?thesis unfolding zan_icmp_checksum_def by (simp only: unat_not16)
qed

lemma split16: "unat (ucast (drop_bit 8 c) :: u8) * 256 + unat (ucast (c :: u16) :: u8) = unat c"
proof -
  have c: "unat c < 65536" using unsigned_less [of c, where ?'a = nat] by simp
  have "unat (drop_bit 8 c) = unat c div 256"
    unfolding unsigned_drop_bit_eq using c by (simp add: drop_bit_eq_div take_bit_nat_eq_self)
  then have "unat (ucast (drop_bit 8 c) :: u8) = unat c div 256"
    using c unfolding unsigned_ucast_eq by (simp add: take_bit_eq_mod)
  moreover have "unat (ucast c :: u8) = unat c mod 256"
    unfolding unsigned_ucast_eq by (simp add: take_bit_eq_mod)
  ultimately show ?thesis by simp
qed

lemma groups_put_sum:
  assumes "length bs \<ge> 4" "bs ! 2 = 0" "bs ! 3 = 0"
  shows "groups (put_sum c bs) = groups bs + unat c"
proof -
  obtain a b r where "bs = a # b # 0 # 0 # r"
  proof -
    have "Suc (Suc (Suc (Suc 0))) \<le> length bs" using assms(1) by simp
    then obtain a b c d r where "bs = a # b # c # d # r" by (auto simp: Suc_le_length_iff)
    then show ?thesis using that assms(2,3) by (simp add: eval_nat_numeral)
  qed
  then show ?thesis using split16 [of c] by (simp add: put_sum_def eval_nat_numeral)
qed

section \<open>The lines of the snapshot\<close>

text \<open>The first node of each name.\<close>

fun first_nodes :: "cstr set \<Rightarrow> ifaddr list \<Rightarrow> ifaddr list" where
  "first_nodes seen [] = []"
| "first_nodes seen (p # ps) =
     (if if_name p = None \<or> the (if_name p) \<in> seen then first_nodes seen ps
      else p # first_nodes (insert (the (if_name p)) seen) ps)"

lemma first_nodes_distinct:
  "distinct (map (\<lambda>p. the (if_name p)) (first_nodes seen ps)) \<and>
   (\<forall>p \<in> set (first_nodes seen ps). p \<in> set ps \<and> if_name p \<noteq> None \<and> the (if_name p) \<notin> seen)"
proof (induction ps arbitrary: seen)
  case (Cons p ps)
  show ?case using Cons.IH [of seen] Cons.IH [of "insert (the (if_name p)) seen"] by auto
qed simp

lemma first_nodes_all:
  "p \<in> set ps \<Longrightarrow> if_name p = Some n \<Longrightarrow> n \<in> seen \<or> (\<exists>q \<in> set (first_nodes seen ps). if_name q = Some n)"
proof (induction ps arbitrary: seen)
  case (Cons q qs)
  show ?case
  proof (cases "p = q")
    case True
    then show ?thesis using Cons.prems by auto
  next
    case False
    then show ?thesis using Cons.IH [of seen] Cons.IH [of "insert (the (if_name q)) seen"] Cons.prems by (cases "if_name q") auto
  qed
qed simp

lemma if_loop_val:
  "length out < 65536 \<Longrightarrow> if_loop ntop index list seen out rest =
    take 65535 (out @ concat (map (\<lambda>p. if_line ntop index list (if_up p) (the (if_name p))) (first_nodes seen rest)))"
proof (induction rest arbitrary: seen out)
  case Nil
  then show ?case by simp
next
  case (Cons p ps)
  show ?case
  proof (cases "if_name p = None \<or> the (if_name p) \<in> seen")
    case True
    then show ?thesis using Cons by (auto split: option.split)
  next
    case False
    then obtain n where n: "if_name p = Some n" "n \<notin> seen" by auto
    let ?line = "if_line ntop index list (if_up p) n"
    show ?thesis
    proof (cases "length ?line \<ge> 65536 - length out")
      case True
      then show ?thesis using n Cons.prems by (simp add: ZAN_PLAT_TEXT_MAX_def Let_def)
    next
      case fits: False
      then have "length (out @ ?line) < 65536" by simp
      from Cons.IH [OF this, of "insert n seen"] show ?thesis using n fits by (simp add: ZAN_PLAT_TEXT_MAX_def Let_def)
    qed
  qed
qed

section \<open>What an echo request accepts\<close>

text \<open>A host on which every packet that arrives answers another process: identifier 99, sequence 7.\<close>

definition stranger :: "unit icmp_os" where
  "stranger = \<lparr> i_pton = (\<lambda>a. True), i_dgram = (\<lambda>w. (3, w)), i_raw = (\<lambda>w. (-1, w)), i_pid = 1, i_now = (\<lambda>w. (0, w)),
     i_send = (\<lambda>fd bs w. (SendOk, w)), i_poll = (\<lambda>fd ms w. (PollReady, w)),
     i_recv = (\<lambda>fd w. (RecvData [0, 0, 0, 0, 0, 99, 0, 7], w)), i_close = (\<lambda>fd w. w) \<rparr>"

lemma ping_any_reply: "zan_plat_icmp_ping stranger (Some [49]) 1000 () = Some (0, ())"
  by (simp add: zan_plat_icmp_ping_def stranger_def ping_socket_def ping_loop.simps reply_type_def rtt_of_def)

section \<open>Properties\<close>

text \<open>
  A packet with its checksum verifies. For every packet whose checksum field is zero, storing the
  checksum there, high byte first, gives a packet whose own checksum is zero.
\<close>

theorem zan_icmp_checksum_verifies:
  assumes "length bs \<ge> 4" "bs ! 2 = 0" "bs ! 3 = 0" "length bs \<le> 131000"
  shows "zan_icmp_checksum (put_sum (zan_icmp_checksum bs) bs) = 0"
proof -
  have len: "(length bs + 1) div 2 \<le> 65500" using assms(4) by simp
  have g: "groups bs \<le> 65535 * 65500" using groups_le [of bs] mult_le_mono2 [OF len, of 65535] by linarith
  let ?s = "ck_fold (ck_sum bs 0)" and ?c = "zan_icmp_checksum bs"
  have s: "unat (ck_sum bs 0) = groups bs" using ck_sum_val [of 0 bs] g by simp
  note f = ck_fold_val [of "ck_sum bs 0", unfolded s]
  have c: "unat ?c + unat ?s = 65535" using zan_icmp_checksum_val [of bs] f by linarith
  have p: "groups (put_sum ?c bs) = groups bs + unat ?c" by (rule groups_put_sum [OF assms(1-3)])
  have s1: "unat (ck_sum (put_sum ?c bs) 0) = groups bs + unat ?c" using ck_sum_val [of 0 "put_sum ?c bs"] p g c by simp
  note f1 = ck_fold_val [of "ck_sum (put_sum ?c bs) 0", unfolded s1]
  have "(groups bs + unat ?c) mod 65535 = (unat ?s + unat ?c) mod 65535" using f by (metis mod_add_left_eq)
  then have "(groups bs + unat ?c) mod 65535 = 0" using c by (simp add: add.commute)
  moreover have "groups bs + unat ?c \<noteq> 0" using f c by auto
  ultimately have "unat (ck_fold (ck_sum (put_sum ?c bs) 0)) = 65535" using f1 by auto
  then have "unat (zan_icmp_checksum (put_sum ?c bs)) = 0" by (simp only: zan_icmp_checksum_val)
  then show ?thesis by (simp only: unat_eq_0)
qed

theorem zan_icmp_checksum_verifies_witness: "zan_icmp_checksum (put_sum (zan_icmp_checksum (echo_bare 4660)) (echo_bare 4660)) = 0"
  by (rule zan_icmp_checksum_verifies) (simp_all add: echo_bare_def)

text \<open>
  The adapter snapshot is one line for each adapter, in the order in which the names first appear,
  each with all of the adapter's addresses; the text is cut at 65535 bytes, which may be inside a line.
\<close>

theorem zan_plat_net_interfaces_lines:
  "zan_plat_net_interfaces ntop index (Some l) =
    take 65535 (concat (map (\<lambda>p. if_line ntop index l (if_up p) (the (if_name p))) (first_nodes {} l)))"
  by (simp add: zan_plat_net_interfaces_def if_loop_val)

end
