(* ===== verification/Cef_Text.thy ===== *)
theory Cef_Text
  imports C_Text Host_Files
begin

text \<open>
  The texts that the CEF driver \<open>zan_cef.c\<close> reads and writes: the list of Chromium switches, the
  command line of a process, the clip specifications of both platforms and the messages of the
  DevTools protocol; and the search for the driver in \<open>zan_cef_helper.c\<close>.
\<close>

section \<open>Copies of texts\<close>

text \<open>\<open>snprintf\<close> of a text to a buffer of \<open>cap\<close> bytes, and \<open>zc_str_get\<close> of a converted CEF string.\<close>

definition store_text :: "nat \<Rightarrow> cstr \<Rightarrow> cstr" where
  "store_text cap s = take (cap - 1) s"

definition zc_str_get :: "nat \<Rightarrow> cstr option \<Rightarrow> cstr" where
  "zc_str_get cap u8 = (case u8 of None \<Rightarrow> [] | Some s \<Rightarrow> take (if length s < cap - 1 then length s else cap - 1) s)"

section \<open>Switches\<close>

abbreviation (input) ch_comma :: u8 where "ch_comma \<equiv> 44"
abbreviation (input) ch_eq :: u8 where "ch_eq \<equiv> 61"

text \<open>The key, and the value if there is a sign of equality.\<close>

definition split_eq :: "cstr \<Rightarrow> cstr \<times> cstr option" where
  "split_eq item =
     (if ch_eq \<in> set item then (takeWhile (\<lambda>c. c \<noteq> ch_eq) item, Some (tl (dropWhile (\<lambda>c. c \<noteq> ch_eq) item)))
      else (item, None))"

function switch_loop :: "u8 \<Rightarrow> cstr \<Rightarrow> (cstr \<times> cstr option) list" where
  "switch_loop sep p =
     (if p = [] then []
      else let item = takeWhile (\<lambda>c. c \<noteq> sep) p; rest = dropWhile (\<lambda>c. c \<noteq> sep) p
           in (if 0 < length item \<and> length item < 512 then [split_eq item] else []) @
              (if rest = [] then [] else switch_loop sep (tl rest)))"
  by auto
termination
proof (relation "measure (\<lambda>(sep, p). length p)", goal_cases)
  case (2 sep p x r)
  then have "length (dropWhile (\<lambda>c. c \<noteq> sep) p) \<le> length p" by (simp add: length_dropWhile_le)
  then show ?case using 2 by (cases "dropWhile (\<lambda>c. c \<noteq> sep) p") auto
qed simp

declare switch_loop.simps [simp del]

definition switch_sep :: "cstr \<Rightarrow> u8" where
  "switch_sep s = (if ch_semi \<in> set s then ch_semi else ch_comma)"

text \<open>
  The command line of CEF: whether it has a switch, the value of one, and the two ways to append.
\<close>

record 'c cmdline =
  cl_has :: "'c \<Rightarrow> cstr \<Rightarrow> bool"
  cl_value :: "'c \<Rightarrow> cstr \<Rightarrow> cstr option"
  cl_append :: "cstr \<Rightarrow> 'c \<Rightarrow> 'c"
  cl_append_value :: "cstr \<Rightarrow> cstr \<Rightarrow> 'c \<Rightarrow> 'c"

definition disable_features :: cstr where "disable_features = [100, 105, 115, 97, 98, 108, 101, 45, 102, 101, 97, 116, 117, 114, 101, 115]"
definition enable_features :: cstr where "enable_features = [101, 110, 97, 98, 108, 101, 45, 102, 101, 97, 116, 117, 114, 101, 115]"
definition disable_blink :: cstr where
  "disable_blink = [100, 105, 115, 97, 98, 108, 101, 45, 98, 108, 105, 110, 107, 45, 102, 101, 97, 116, 117, 114, 101, 115]"
definition enable_blink :: cstr where
  "enable_blink = [101, 110, 97, 98, 108, 101, 45, 98, 108, 105, 110, 107, 45, 102, 101, 97, 116, 117, 114, 101, 115]"

definition zc_switch_is_list :: "cstr \<Rightarrow> bool" where
  "zc_switch_is_list k \<longleftrightarrow> k = disable_features \<or> k = enable_features \<or> k = disable_blink \<or> k = enable_blink"

definition zc_append_switch :: "'c cmdline \<Rightarrow> cstr \<Rightarrow> cstr option \<Rightarrow> 'c \<Rightarrow> 'c" where
  "zc_append_switch L key value c =
     (case value of
        None \<Rightarrow> cl_append L key c
      | Some v \<Rightarrow>
          let old = (if zc_switch_is_list key \<and> cl_has L c key then zc_str_get 768 (cl_value L c key) else []);
              out = (if old \<noteq> [] then store_text 1024 (old @ [ch_comma] @ v) else v)
          in cl_append_value L key out c)"

definition autoplay :: cstr where "autoplay = [97, 117, 116, 111, 112, 108, 97, 121, 45, 112, 111, 108, 105, 99, 121]"
definition no_gesture :: cstr where
  "no_gesture = [110, 111, 45, 117, 115, 101, 114, 45, 103, 101, 115, 116, 117, 114, 101, 45, 114, 101, 113, 117, 105, 114, 101, 100]"

text \<open>A null command line is \<^const>\<open>None\<close>; the report of the log is left out.\<close>

definition zc_on_before_command_line_processing :: "'c cmdline \<Rightarrow> cstr \<Rightarrow> 'c option \<Rightarrow> 'c option" where
  "zc_on_before_command_line_processing L extra cl =
     (case cl of
        None \<Rightarrow> None
      | Some c \<Rightarrow> Some (fold (\<lambda>(k, v). zc_append_switch L k v) (switch_loop (switch_sep extra) extra)
                         (zc_append_switch L autoplay (Some no_gesture) c)))"

section \<open>Command line of the process\<close>

text \<open>The arguments in the bytes of \<open>/proc/self/cmdline\<close>, 63 at most; \<open>zan\<close> alone if there are none.\<close>

function argv_loop :: "nat \<Rightarrow> u8 list \<Rightarrow> cstr list" where
  "argv_loop n bs =
     (if bs = [] \<or> n \<ge> 63 then []
      else takeWhile (\<lambda>c. c \<noteq> 0) bs # argv_loop (n + 1) (tl (dropWhile (\<lambda>c. c \<noteq> 0) bs)))"
  by auto
termination
proof (relation "measure (\<lambda>(n, bs). length bs)", goal_cases)
  case (2 n bs)
  have "length (dropWhile (\<lambda>c. c \<noteq> 0) bs) \<le> length bs" by (simp add: length_dropWhile_le)
  then show ?case using 2 by (cases bs; cases "dropWhile (\<lambda>c. c \<noteq> 0) bs") auto
qed simp

declare argv_loop.simps [simp del]

definition zc_argv_fallback :: "cstr list" where "zc_argv_fallback = [[122, 97, 110]]"

definition zc_read_cmdline :: "u8 list option \<Rightarrow> cstr list \<Rightarrow> cstr list" where
  "zc_read_cmdline file argv =
     (if argv \<noteq> [] then argv
      else case file of
        None \<Rightarrow> zc_argv_fallback
      | Some bytes \<Rightarrow> let bs = take 65535 bytes in if bs = [] then zc_argv_fallback else argv_loop 0 bs)"

section \<open>DevTools messages\<close>

definition id_part :: cstr where "id_part = [123, 34, 105, 100, 34, 58]"
definition method_part :: cstr where "method_part = [44, 34, 109, 101, 116, 104, 111, 100, 34, 58, 34]"
definition params_part :: cstr where "params_part = [34, 44, 34, 112, 97, 114, 97, 109, 115, 34, 58]"

definition cdp_text :: "int \<Rightarrow> cstr \<Rightarrow> cstr option \<Rightarrow> cstr" where
  "cdp_text n method params =
     (case params of
        Some p \<Rightarrow> if p \<noteq> [] then id_part @ dec_int n @ method_part @ method @ params_part @ p @ [125]
                    else id_part @ dec_int n @ method_part @ method @ [34, 125]
      | None \<Rightarrow> id_part @ dec_int n @ method_part @ method @ [34, 125])"

definition cdp_need :: "cstr \<Rightarrow> cstr option \<Rightarrow> nat" where
  "cdp_need method params = length method + (case params of Some p \<Rightarrow> length p | None \<Rightarrow> 0) + 64"

definition cdp_message :: "int \<Rightarrow> cstr \<Rightarrow> cstr option \<Rightarrow> cstr" where
  "cdp_message n method params = store_text (cdp_need method params) (cdp_text n method params)"

section \<open>Clip specifications\<close>

type_synonym rect = "int \<times> int \<times> int \<times> int"

text \<open>Windows: up to four numbers, each with a sign, and the text behind them.\<close>

fun clip_nums :: "nat \<Rightarrow> cstr \<Rightarrow> int list \<times> cstr" where
  "clip_nums 0 p = ([], p)"
| "clip_nums (Suc n) p =
     (if p = [] then ([], p)
      else let neg = (hd p = ch_minus); p1 = (if neg then tl p else p);
               ds = takeWhile is_digit p1; p2 = dropWhile is_digit p1;
               v = (if neg then - int (digits_val ds) else int (digits_val ds))
           in if ds = [] then ([], p1)
              else if p2 \<noteq> [] \<and> (hd p2 = ch_comma \<or> hd p2 = ch_semi)
                then (case clip_nums n (tl p2) of (vs, q) \<Rightarrow> (v # vs, q))
              else ([v], p2))"

definition clip_skip :: "cstr \<Rightarrow> cstr" where
  "clip_skip p = dropWhile (\<lambda>c. c \<noteq> ch_semi \<and> \<not> is_digit c \<and> c \<noteq> ch_minus) p"

definition clip_rect :: "int \<Rightarrow> int \<Rightarrow> int list \<Rightarrow> rect list" where
  "clip_rect bx by vs =
     (if length vs = 4 \<and> vs ! 2 > 0 \<and> vs ! 3 > 0
      then [(vs ! 0 - bx, vs ! 1 - by, vs ! 0 - bx + vs ! 2, vs ! 1 - by + vs ! 3)] else [])"

text \<open>The loop need not end: that is \<^const>\<open>None\<close>.\<close>

partial_function (option) clip_win :: "int \<Rightarrow> int \<Rightarrow> rect list \<Rightarrow> cstr \<Rightarrow> rect list option" where
  "clip_win bx by acc p =
     (if p = [] then Some acc
      else case clip_nums 4 p of (vs, q) \<Rightarrow> clip_win bx by (acc @ clip_rect bx by vs) (clip_skip q))"

text \<open>macOS: \<open>strtol\<close> for each number, and then on to the next semicolon.\<close>

definition strtol10 :: "cstr \<Rightarrow> (int \<times> cstr) option" where
  "strtol10 s =
     (case strtoul_sign (dropWhile is_cspace s) of (neg, q) \<Rightarrow>
        let ds = takeWhile is_digit q; n = (if neg then - int (digits_val ds) else int (digits_val ds))
        in if ds = [] then None else Some (max (- (2 ^ 63)) (min (2 ^ 63 - 1) n), dropWhile is_digit q))"

fun mac_nums :: "nat \<Rightarrow> cstr \<Rightarrow> int list \<times> cstr" where
  "mac_nums 0 p = ([], p)"
| "mac_nums (Suc n) p =
     (case strtol10 p of
        None \<Rightarrow> ([], p)
      | Some (v, q) \<Rightarrow>
          if q \<noteq> [] \<and> hd q = ch_comma then (case mac_nums n (tl q) of (vs, r) \<Rightarrow> (v # vs, r)) else ([v], q))"

definition mac_next :: "cstr \<Rightarrow> cstr" where
  "mac_next p = tl (dropWhile (\<lambda>c. c \<noteq> ch_semi) p)"

definition mac_rect :: "int list \<Rightarrow> rect list" where
  "mac_rect vs = (if length vs = 4 \<and> vs ! 2 > 0 \<and> vs ! 3 > 0 then [(vs ! 0, vs ! 1, vs ! 2, vs ! 3)] else [])"

lemma strtol10_shorter: "strtol10 p = Some (v, q) \<Longrightarrow> length q < length p"
proof -
  assume a: "strtol10 p = Some (v, q)"
  obtain neg r where r: "strtoul_sign (dropWhile is_cspace p) = (neg, r)" by fastforce
  have "length r \<le> length p"
    using strtoul_sign_shorter [of "dropWhile is_cspace p"] r length_dropWhile_le [of is_cspace p] by simp
  moreover from a r have "takeWhile is_digit r \<noteq> []" "q = dropWhile is_digit r"
    by (auto simp: strtol10_def Let_def split: if_splits)
  then have "length q < length r" by (cases r) (auto simp: less_Suc_eq_le length_dropWhile_le split: if_splits)
  ultimately show ?thesis by simp
qed

lemma mac_nums_shorter: "length (snd (mac_nums n p)) \<le> length p"
proof (induction n p rule: mac_nums.induct)
  case (2 n p)
  show ?case
  proof (cases "strtol10 p")
    case (Some x)
    obtain v q where x: "x = (v, q)" by fastforce
    then have "length q < length p" using strtol10_shorter Some by blast
    then show ?thesis using 2 [OF Some, of v q] Some x by (auto split: prod.split)
  qed simp
qed simp

lemma mac_next_shorter: "p \<noteq> [] \<Longrightarrow> length q \<le> length p \<Longrightarrow> length (mac_next q) < length p"
  using length_dropWhile_le [of "\<lambda>c. c \<noteq> ch_semi" q] unfolding mac_next_def length_tl length_greater_0_conv [symmetric]
  by linarith

function clip_mac :: "cstr \<Rightarrow> rect list" where
  "clip_mac p = (if p = [] then [] else mac_rect (fst (mac_nums 4 p)) @ clip_mac (mac_next (snd (mac_nums 4 p))))"
  by auto
termination by (relation "measure length") (auto simp: mac_next_shorter mac_nums_shorter)

declare clip_mac.simps [simp del]

section \<open>The helper process\<close>

text \<open>Drops trailing components of a path.\<close>

fun zch_up :: "cstr \<Rightarrow> nat \<Rightarrow> cstr" where
  "zch_up p 0 = p"
| "zch_up p (Suc n) = (case last_pos ch_slash p of None \<Rightarrow> [] | Some i \<Rightarrow> zch_up (take i p) n)"

definition driver_name :: cstr where
  "driver_name = [47, 108, 105, 98, 122, 97, 110, 95, 99, 101, 102, 46, 100, 121, 108, 105, 98]"

definition mac_os :: cstr where "mac_os = [47, 77, 97, 99, 79, 83]"

text \<open>\<open>exists\<close> holds of regular files; \<open>exe\<close> is the path of the process if the system tells it.\<close>

definition zch_exists :: "(cstr \<Rightarrow> bool) \<Rightarrow> cstr option \<Rightarrow> bool" where
  "zch_exists exists path \<longleftrightarrow> (case path of None \<Rightarrow> False | Some p \<Rightarrow> p \<noteq> [] \<and> exists p)"

definition zch_driver_path :: "(cstr \<Rightarrow> bool) \<Rightarrow> cstr option \<Rightarrow> cstr option \<Rightarrow> nat \<Rightarrow> cstr option" where
  "zch_driver_path exists env exe cap =
     (if zch_exists exists env then Some (store_text cap (the env))
      else case exe of
        None \<Rightarrow> None
      | Some x \<Rightarrow>
          let out = store_text cap (zch_up (store_text 1024 x) 5 @ mac_os @ driver_name) in
          if zch_exists exists (Some out) then Some out
          else let out2 = store_text cap (zch_up (store_text 1024 x) 1 @ driver_name)
               in if zch_exists exists (Some out2) then Some out2 else None)"

definition type_prefix :: cstr where "type_prefix = [45, 45, 116, 121, 112, 101, 61]"
definition browser_name :: cstr where "browser_name = [98, 114, 111, 119, 115, 101, 114]"

definition zch_type :: "cstr option list \<Rightarrow> cstr" where
  "zch_type argv =
     (case find (\<lambda>a. case a of None \<Rightarrow> False | Some s \<Rightarrow> take 7 s = type_prefix) (tl argv) of
        Some (Some s) \<Rightarrow> drop 7 s
      | _ \<Rightarrow> browser_name)"

text \<open>
  The main function without its reports: the library loads, or it does not, and exports the function,
  whose result is \<open>rc\<close>.
\<close>

definition helper_main ::
  "(cstr \<Rightarrow> bool) \<Rightarrow> cstr option \<Rightarrow> cstr option \<Rightarrow> (cstr \<Rightarrow> (cstr \<Rightarrow> cstr \<Rightarrow> int) option option) \<Rightarrow> cstr option \<Rightarrow> cstr option \<Rightarrow> int" where
  "helper_main exists env exe load runtime switches =
     (case zch_driver_path exists env exe 1024 of
        None \<Rightarrow> 1
      | Some driver \<Rightarrow>
          (case load driver of
             None \<Rightarrow> 1
           | Some None \<Rightarrow> 1
           | Some (Some execute) \<Rightarrow>
               (case runtime of
                  None \<Rightarrow> 1
                | Some r \<Rightarrow>
                    if r = [] then 1
                    else let rc = execute r (case switches of None \<Rightarrow> [] | Some s \<Rightarrow> s) in if rc < 0 then 1 else rc)))"

section \<open>Switch lists\<close>

fun join :: "u8 \<Rightarrow> cstr list \<Rightarrow> cstr" where
  "join sep [] = []"
| "join sep [x] = x"
| "join sep (x # y # xs) = x @ sep # join sep (y # xs)"

lemma split_sep:
  assumes "sep \<notin> set x"
  shows "takeWhile (\<lambda>c. c \<noteq> sep) (x @ sep # r) = x \<and> dropWhile (\<lambda>c. c \<noteq> sep) (x @ sep # r) = sep # r"
  using assms by (induction x) auto

lemma split_end:
  assumes "sep \<notin> set x"
  shows "takeWhile (\<lambda>c. c \<noteq> sep) x = x \<and> dropWhile (\<lambda>c. c \<noteq> sep) x = []"
  using assms by (induction x) auto

definition clean_item :: "u8 \<Rightarrow> cstr \<Rightarrow> bool" where
  "clean_item sep x \<longleftrightarrow> x \<noteq> [] \<and> length x < 512 \<and> sep \<notin> set x"

lemma switch_loop_join: "list_all (clean_item sep) xs \<Longrightarrow> switch_loop sep (join sep xs) = map split_eq xs"
proof (induction sep xs rule: join.induct)
  case (1 sep)
  then show ?case by (simp add: switch_loop.simps)
next
  case (2 sep x)
  then have "sep \<notin> set x" by (simp add: clean_item_def)
  note e = split_end [OF this, THEN conjunct1] split_end [OF this, THEN conjunct2]
  show ?case using 2 by (simp add: switch_loop.simps [of sep x] clean_item_def Let_def e)
next
  case (3 sep x y xs)
  then have x: "x \<noteq> []" "length x < 512" "sep \<notin> set x" by (auto simp: clean_item_def)
  have "switch_loop sep (x @ sep # join sep (y # xs)) = split_eq x # switch_loop sep (join sep (y # xs))"
    using split_sep [OF x(3), of "join sep (y # xs)"] x(1,2)
    by (simp add: switch_loop.simps [of sep "x @ sep # join sep (y # xs)"] Let_def)
  then show ?case using 3 by simp
qed

section \<open>Clip lists\<close>

definition rect_text :: "rect \<Rightarrow> cstr" where
  "rect_text r = (case r of (x, y, w, h) \<Rightarrow> dec_int x @ [ch_comma] @ dec_int y @ [ch_comma] @ dec_int w @ [ch_comma] @ dec_int h)"

lemma digits_hd: "hd (dec_nat n @ r) \<noteq> ch_minus \<and> is_digit (hd (dec_nat n @ r))"
proof -
  obtain d ds where d: "dec_nat n = d # ds" by (cases "dec_nat n") auto
  then have "is_digit d" using dec_nat_digits [of n] by simp
  then show ?thesis using d digit_class [of d] by simp
qed

lemma take_digits_end: "takeWhile is_digit (dec_nat n) = dec_nat n \<and> dropWhile is_digit (dec_nat n) = []"
  using dec_nat_digits [of n] by (auto simp: takeWhile_eq_all_conv dropWhile_eq_Nil_conv list_all_iff)

lemma clip_nums_int:
  assumes "r = [] \<or> \<not> is_digit (hd r)"
  shows "clip_nums (Suc n) (dec_int i @ r) =
    (if r \<noteq> [] \<and> (hd r = ch_comma \<or> hd r = ch_semi) then (case clip_nums n (tl r) of (vs, q) \<Rightarrow> (i # vs, q)) else ([i], r))"
proof -
  have d: "takeWhile is_digit (dec_nat m @ r) = dec_nat m \<and> dropWhile is_digit (dec_nat m @ r) = r" for m
    using assms take_digits_end [of m] takeWhile_digits [OF dec_nat_digits [of m], of "hd r" "tl r"] by (cases r) auto
  note d1 = d [THEN conjunct1] take_digits_end [THEN conjunct1] and d2 = d [THEN conjunct2] take_digits_end [THEN conjunct2]
  show ?thesis
  proof (cases "i < 0")
    case True
    then show ?thesis by (simp add: dec_int_def Let_def d1 d2)
  next
    case False
    then show ?thesis using digits_hd [of "nat i" r] by (simp add: dec_int_def Let_def d1 d2)
  qed
qed

lemma four: "(4 :: nat) = Suc (Suc (Suc (Suc 0)))"
  by simp

lemma clip_nums_last: "clip_nums (Suc n) (dec_int i) = ([i], [])"
  using clip_nums_int [of "[]" n i] by simp

lemma clip_nums_rect:
  assumes "rest = [] \<or> hd rest = ch_semi"
  shows "clip_nums 4 (rect_text (x, y, w, h) @ rest) = ([x, y, w, h], tl rest)"
proof -
  have "\<not> is_digit ch_comma" "\<not> is_digit ch_semi" by code_simp+
  then show ?thesis
    unfolding four using assms by (cases rest) (auto simp: rect_text_def clip_nums_int clip_nums_last simp del: clip_nums.simps(2))
qed

lemma strtol10_int:
  assumes "r = [] \<or> \<not> is_digit (hd r)" "- (2 ^ 63) \<le> i" "i < 2 ^ 63"
  shows "strtol10 (dec_int i @ r) = Some (i, r)"
proof -
  have d: "takeWhile is_digit (dec_nat m @ r) = dec_nat m \<and> dropWhile is_digit (dec_nat m @ r) = r" for m
    using assms take_digits_end [of m] takeWhile_digits [OF dec_nat_digits [of m], of "hd r" "tl r"] by (cases r) auto
  note d1 = d [THEN conjunct1] take_digits_end [THEN conjunct1] and d2 = d [THEN conjunct2] take_digits_end [THEN conjunct2]
  show ?thesis
  proof (cases "i < 0")
    case True
    then have "strtoul_sign (dropWhile is_cspace (dec_int i @ r)) = (True, dec_nat (nat (- i)) @ r)"
      by (simp add: dec_int_def strtoul_sign_def is_cspace_def word_le_nat_alt)
    then show ?thesis using True assms(2,3) by (simp add: strtol10_def Let_def d1 d2)
  next
    case False
    obtain c cs where c: "dec_nat (nat i) @ r = c # cs" using dec_nat_nonempty [of "nat i"] by (cases "dec_nat (nat i) @ r") auto
    then have "is_digit c" using digits_hd [of "nat i" r] by simp
    then have "strtoul_sign (dropWhile is_cspace (dec_int i @ r)) = (False, dec_nat (nat i) @ r)"
      using False digit_class [of c] by (simp add: dec_int_def c strtoul_sign_def)
    then show ?thesis using False assms(2,3) by (simp add: strtol10_def Let_def d1 d2)
  qed
qed

lemma strtol10_last: "- (2 ^ 63) \<le> i \<Longrightarrow> i < 2 ^ 63 \<Longrightarrow> strtol10 (dec_int i) = Some (i, [])"
  using strtol10_int [of "[]" i] by simp

definition small :: "rect \<Rightarrow> bool" where
  "small r \<longleftrightarrow> (case r of (x, y, w, h) \<Rightarrow> \<bar>x\<bar> < 2 ^ 63 \<and> \<bar>y\<bar> < 2 ^ 63 \<and> \<bar>w\<bar> < 2 ^ 63 \<and> \<bar>h\<bar> < 2 ^ 63)"

lemma mac_nums_rect:
  assumes "rest = [] \<or> hd rest = ch_semi" "small (x, y, w, h)"
  shows "mac_nums 4 (rect_text (x, y, w, h) @ rest) = ([x, y, w, h], rest)"
proof -
  have "\<not> is_digit ch_comma" "\<not> is_digit ch_semi" by code_simp+
  then show ?thesis
    unfolding four using assms by (cases rest) (auto simp: rect_text_def strtol10_int strtol10_last small_def)
qed

lemma rect_text_nonempty [simp]: "rect_text r \<noteq> []"
  by (auto simp: rect_text_def split: prod.split)

text \<open>The rectangles of positive size, relative to the browser on Windows.\<close>

definition solid :: "rect \<Rightarrow> bool" where
  "solid r \<longleftrightarrow> (case r of (x, y, w, h) \<Rightarrow> w > 0 \<and> h > 0)"

definition shift_rect :: "int \<Rightarrow> int \<Rightarrow> rect \<Rightarrow> rect" where
  "shift_rect bx by r = (case r of (x, y, w, h) \<Rightarrow> (x - bx, y - by, x - bx + w, y - by + h))"

lemma clip_skip_id: "q = [] \<or> is_digit (hd q) \<or> hd q = ch_minus \<Longrightarrow> clip_skip q = q"
  by (cases q) (auto simp: clip_skip_def)

lemma rect_text_hd: "is_digit (hd (rect_text r @ q)) \<or> hd (rect_text r @ q) = ch_minus"
proof -
  obtain x y w h where r: "r = (x, y, w, h)" by (cases r)
  show ?thesis using digits_hd [of "nat x"] by (cases "x < 0") (simp_all add: r rect_text_def dec_int_def)
qed

lemma join_hd: "join ch_semi (map rect_text (r # rs)) = rect_text r @ (if rs = [] then [] else ch_semi # join ch_semi (map rect_text rs))"
  by (cases rs) simp_all

lemma join_skip: "clip_skip (join ch_semi (map rect_text rs)) = join ch_semi (map rect_text rs)"
proof (cases rs)
  case (Cons r q)
  then show ?thesis unfolding Cons join_hd using rect_text_hd [of r] by (intro clip_skip_id) auto
qed (simp add: clip_skip_def)

lemma clip_rect_solid: "clip_rect bx by [x, y, w, h] = map (shift_rect bx by) (filter solid [(x, y, w, h)])"
  by (simp add: clip_rect_def solid_def shift_rect_def)

lemma mac_rect_solid: "mac_rect [x, y, w, h] = filter solid [(x, y, w, h)]"
  by (simp add: mac_rect_def solid_def)

lemma clip_win_join:
  "clip_win bx by acc (join ch_semi (map rect_text rs)) = Some (acc @ map (shift_rect bx by) (filter solid rs))"
proof (induction rs arbitrary: acc)
  case Nil
  then show ?case by (simp add: clip_win.simps)
next
  case (Cons r rs)
  obtain x y w h where r: "r = (x, y, w, h)" by (cases r)
  define rest where "rest = (if rs = [] then [] else ch_semi # join ch_semi (map rect_text rs))"
  have n: "clip_nums 4 (rect_text (x, y, w, h) @ rest) = ([x, y, w, h], tl rest)"
    by (rule clip_nums_rect) (simp add: rest_def)
  have t: "tl rest = join ch_semi (map rect_text rs)" by (cases rs) (simp_all add: rest_def)
  have "clip_win bx by acc (rect_text r @ rest) =
      clip_win bx by (acc @ clip_rect bx by [x, y, w, h]) (join ch_semi (map rect_text rs))"
    by (subst clip_win.simps) (simp add: r n t join_skip)
  then show ?case
    unfolding join_hd rest_def [symmetric] Cons.IH
    by (simp add: r clip_rect_solid)
qed

lemma clip_mac_join: "list_all small rs \<Longrightarrow> clip_mac (join ch_semi (map rect_text rs)) = filter solid rs"
proof (induction rs)
  case Nil
  then show ?case by (simp add: clip_mac.simps)
next
  case (Cons r rs)
  obtain x y w h where r: "r = (x, y, w, h)" by (cases r)
  define rest where "rest = (if rs = [] then [] else ch_semi # join ch_semi (map rect_text rs))"
  have n: "mac_nums 4 (rect_text (x, y, w, h) @ rest) = ([x, y, w, h], rest)"
    by (rule mac_nums_rect) (use Cons.prems r in \<open>simp_all add: rest_def\<close>)
  have t: "mac_next rest = join ch_semi (map rect_text rs)" by (cases rs) (simp_all add: rest_def mac_next_def)
  have "clip_mac (rect_text r @ rest) = mac_rect [x, y, w, h] @ clip_mac (join ch_semi (map rect_text rs))"
    by (subst clip_mac.simps) (simp add: r n t)
  then show ?case
    unfolding join_hd rest_def [symmetric] using Cons by (simp add: r mac_rect_solid)
qed

text \<open>On a semicolon where a rectangle should begin, the Windows loop makes no progress.\<close>

lemma clip_win_stuck: "clip_win bx by acc (ch_semi # q) = None"
proof (rule ccontr)
  assume "clip_win bx by acc (ch_semi # q) \<noteq> None"
  then obtain rs where run: "clip_win bx by acc (ch_semi # q) = Some rs" by auto
  have "p \<noteq> ch_semi # q" if "clip_win a b acc p = Some rs" for a b acc p rs
  proof (rule clip_win.raw_induct [where P = "\<lambda>bx by acc p rs. p \<noteq> ch_semi # q", OF _ that], goal_cases)
    case (1 f a b acc p rs)
    show ?case
    proof
      assume p: "p = ch_semi # q"
      have "clip_nums 4 p = ([], p)" "clip_skip p = p"
        unfolding p four by (simp_all add: is_digit_def clip_skip_def word_le_nat_alt)
      then have "f a b (acc @ clip_rect a b []) p = Some rs" using 1(2) p by simp
      from 1(1) [OF this] p show False by simp
    qed
  qed
  from this [OF run] show False by simp
qed

section \<open>The other texts\<close>

lemma argv_loop_args:
  "list_all (\<lambda>a. 0 \<notin> set a) as \<Longrightarrow> argv_loop n (concat (map (\<lambda>a. a @ [0]) as)) = take (63 - n) as"
proof (induction as arbitrary: n)
  case Nil
  then show ?case by (simp add: argv_loop.simps)
next
  case (Cons a as)
  have s: "takeWhile (\<lambda>c. c \<noteq> 0) (a @ 0 # r) = a" "dropWhile (\<lambda>c. c \<noteq> 0) (a @ 0 # r) = 0 # r" for r
    using split_sep [of 0 a r] Cons.prems by auto
  show ?case
  proof (cases "n \<ge> 63")
    case True
    then show ?thesis by (simp add: argv_loop.simps)
  next
    case False
    have "argv_loop n (a @ 0 # concat (map (\<lambda>a. a @ [0]) as)) = a # take (63 - Suc n) as"
      using Cons False by (subst argv_loop.simps) (simp add: s)
    moreover have "63 - n = Suc (63 - Suc n)" using False by simp
    ultimately show ?thesis by simp
  qed
qed

lemma length_dec10: "n < 10 ^ k \<Longrightarrow> 0 < k \<Longrightarrow> length (dec_nat n) \<le> k"
proof (induction n arbitrary: k rule: dec_nat.induct)
  case (1 n)
  show ?case
  proof (cases "n < 10")
    case True
    then show ?thesis using 1(3) by (simp add: dec_nat.simps [of n])
  next
    case False
    then obtain j where j: "k = Suc j" "0 < j" using 1(2,3) by (cases k; cases "k - 1") auto
    then have "n div 10 < 10 ^ j" using 1(2) by (simp add: less_mult_imp_div_less)
    then show ?thesis using 1(1) [OF False, of j] False j by (simp add: dec_nat.simps [of n])
  qed
qed

lemma length_dec_int32:
  assumes "\<bar>i\<bar> < 10 ^ 10"
  shows "length (dec_int i) \<le> 11"
proof -
  have "nat (- i) < 10 ^ 10" "nat i < 10 ^ 10" using assms by (auto simp: nat_less_iff)
  from length_dec10 [OF this(1)] length_dec10 [OF this(2)] show ?thesis by (auto simp: dec_int_def)
qed

text \<open>The message of a DevTools call is never cut: its buffer is large enough.\<close>

lemma cdp_message_whole: "\<bar>n\<bar> < 2 ^ 31 \<Longrightarrow> cdp_message n method params = cdp_text n method params"
  using length_dec_int32 [of n]
  by (cases params)
    (auto simp: cdp_message_def store_text_def cdp_need_def cdp_text_def id_part_def method_part_def params_part_def)

lemma last_pos_snoc: "c \<notin> set b \<Longrightarrow> last_pos c (a @ c # b) = Some (length a)"
  using last_pos_Some by blast

lemma join_semi: "2 \<le> length xs \<Longrightarrow> sep \<in> set (join sep xs)"
  by (auto simp: numeral_2_eq_2 Suc_le_length_iff)

section \<open>Properties\<close>


text \<open>The command line as the list of what was appended to it.\<close>

definition log_line :: "(cstr \<times> cstr option) list cmdline" where
  "log_line = \<lparr> cl_has = (\<lambda>c k. k \<in> fst ` set c), cl_value = (\<lambda>c k. case map_of c k of Some v \<Rightarrow> v | None \<Rightarrow> None),
     cl_append = (\<lambda>k c. (k, None) # c), cl_append_value = (\<lambda>k v c. (k, Some v) # c) \<rparr>"




text \<open>
  The Windows loop hangs on an empty entry: on every text in which a semicolon stands where a
  rectangle should begin it never returns, while the macOS loop skips the entry.
\<close>

theorem clip_win_hangs: "clip_win bx by acc (ch_semi # q) = None"
  by (rule clip_win_stuck)

text \<open>
  The helper of a macOS bundle finds the driver of its application. Started with neither variable
  set, from five levels below the contents of the application, it loads the driver next to the
  program of the application, where that exists.
\<close>

theorem zch_driver_path_bundle:
  assumes "exe = contents @ ch_slash # c1 @ ch_slash # c2 @ ch_slash # c3 @ ch_slash # c4 @ ch_slash # c5"
    "list_all (\<lambda>c. ch_slash \<notin> set c) [c1, c2, c3, c4, c5]" "length exe < 1000"
    "exists (contents @ mac_os @ driver_name)"
  shows "zch_driver_path exists None (Some exe) 1024 = Some (contents @ mac_os @ driver_name)"
proof -
  have up: "zch_up (a @ ch_slash # b) (Suc n) = zch_up a n" if "ch_slash \<notin> set b" for a b n
    using last_pos_snoc [OF that, of a] by simp
  define x4 where "x4 = contents @ ch_slash # c1 @ ch_slash # c2 @ ch_slash # c3 @ ch_slash # c4"
  define x3 where "x3 = contents @ ch_slash # c1 @ ch_slash # c2 @ ch_slash # c3"
  define x2 where "x2 = contents @ ch_slash # c1 @ ch_slash # c2"
  define x1 where "x1 = contents @ ch_slash # c1"
  have e: "exe = x4 @ ch_slash # c5" "x4 = x3 @ ch_slash # c4" "x3 = x2 @ ch_slash # c3" "x2 = x1 @ ch_slash # c2"
    by (simp_all add: assms(1) x4_def x3_def x2_def x1_def)
  have five: "(5 :: nat) = Suc (Suc (Suc (Suc (Suc 0))))" by simp
  have "zch_up exe (Suc n) = zch_up x4 n" "zch_up x4 (Suc n) = zch_up x3 n" "zch_up x3 (Suc n) = zch_up x2 n"
    "zch_up x2 (Suc n) = zch_up x1 n" "zch_up x1 (Suc n) = zch_up contents n" for n
    unfolding e(1) unfolding e(2) unfolding e(3) unfolding e(4) unfolding x1_def by (rule up, use assms(2) in simp)+
  then have "zch_up exe 5 = contents" unfolding five by (simp only: zch_up.simps(1))
  moreover have "length contents < 1000" using assms(1,3) by simp
  ultimately show ?thesis
    using assms(3,4) by (simp add: zch_driver_path_def zch_exists_def store_text_def Let_def mac_os_def driver_name_def)
qed

theorem zch_driver_path_bundle_witness:
  "zch_driver_path (\<lambda>p. p = [65] @ mac_os @ driver_name) None (Some [65, 47, 1, 47, 2, 47, 3, 47, 4, 47, 5]) 1024 =
    Some ([65] @ mac_os @ driver_name)"
  by (rule zch_driver_path_bundle [of _ _ "[1]" "[2]" "[3]" "[4]" "[5]"]) simp_all

end
