(* ===== verification/Cef_Browsers.thy ===== *)
theory Cef_Browsers
  imports Cef_Text
begin

text \<open>
  The browsers of the CEF driver \<open>zan_cef.c\<close>: the record of one browser with the handlers that CEF
  calls, its queue of DevTools messages, and the table of the browsers with its operations. CEF is a
  parameter whose answers may depend on all calls made before; the windows are those of the X11 lane.
\<close>

section \<open>One browser\<close>

definition ZC_MAX_BROWSERS :: nat where "ZC_MAX_BROWSERS = 64"
definition ZC_MAX_CDP_QUEUE :: nat where "ZC_MAX_CDP_QUEUE = 512"

text \<open>Objects of CEF are numbers; a null pointer is \<^const>\<open>None\<close>.\<close>

record zc_browser =
  b_used :: bool
  b_id :: int
  b_browser :: "nat option"
  b_cdp_reg :: "nat option"
  b_bounds :: rect
  b_clip :: "cstr option"
  b_shown :: int
  b_url :: cstr
  b_title :: cstr
  b_loading :: int
  b_can_back :: int
  b_can_forward :: int
  b_nav_seq :: int
  b_last_status :: int
  b_last_error :: int
  b_closing :: bool
  b_gone :: bool
  b_cdp_id :: int
  b_cdp_attached :: bool
  b_host_focus :: bool
  b_popup_policy :: int
  b_popup_url :: cstr
  b_popup_dropped :: int
  b_taken_popup :: "cstr option"
  b_queue :: "cstr option list"
  b_head :: nat
  b_count :: nat
  b_dropped :: int
  b_taken :: "cstr option"

definition zc_zero :: zc_browser where
  "zc_zero = \<lparr> b_used = False, b_id = 0, b_browser = None, b_cdp_reg = None, b_bounds = (0, 0, 0, 0), b_clip = None,
     b_shown = 0, b_url = [], b_title = [], b_loading = 0, b_can_back = 0, b_can_forward = 0, b_nav_seq = 0,
     b_last_status = 0, b_last_error = 0, b_closing = False, b_gone = False, b_cdp_id = 0, b_cdp_attached = False,
     b_host_focus = False, b_popup_policy = 0, b_popup_url = [], b_popup_dropped = 0, b_taken_popup = None,
     b_queue = replicate ZC_MAX_CDP_QUEUE None, b_head = 0, b_count = 0, b_dropped = 0, b_taken = None \<rparr>"

section \<open>DevTools messages\<close>

definition zc_queue_push :: "cstr option \<Rightarrow> zc_browser \<Rightarrow> zc_browser" where
  "zc_queue_push copy b =
     (case copy of
        None \<Rightarrow> b
      | Some msg \<Rightarrow>
          let b1 = (if b_count b = ZC_MAX_CDP_QUEUE
                    then b\<lparr> b_queue := (b_queue b)[b_head b := None], b_head := (b_head b + 1) mod ZC_MAX_CDP_QUEUE,
                            b_count := b_count b - 1, b_dropped := b_dropped b + 1 \<rparr>
                    else b)
          in b1\<lparr> b_queue := (b_queue b1)[(b_head b1 + b_count b1) mod ZC_MAX_CDP_QUEUE := Some msg], b_count := b_count b1 + 1 \<rparr>)"

text \<open>The part of \<open>zan_cef_cdp_take\<close> under the lock.\<close>

definition zc_queue_take :: "zc_browser \<Rightarrow> cstr option \<times> zc_browser" where
  "zc_queue_take b =
     (if b_count b > 0
      then (b_queue b ! b_head b, b\<lparr> b_queue := (b_queue b)[b_head b := None], b_head := (b_head b + 1) mod ZC_MAX_CDP_QUEUE,
                                     b_count := b_count b - 1 \<rparr>)
      else (None, b))"

section \<open>The driver\<close>

datatype host_fn =
  CloseBrowser | SetFocus int | SetZoom u64 | Find cstr int int int | StopFinding int | Print | ShowDevTools | CloseDevTools
| WasResized | WasHidden int | SendMessage cstr | AddObserver | WindowHandle | GetZoom

datatype frame_fn = LoadUrl cstr | ExecuteJs cstr cstr int | GetUrl

datatype nav_fn = GoBack | GoForward | Reload | ReloadIgnoreCache | StopLoad

datatype x_fn = MoveResize rect | MapWindow | UnmapWindow

record cef_settings =
  cs_no_sandbox :: bool
  cs_windowless :: bool
  cs_verbose :: bool
  cs_log_file :: cstr
  cs_subprocess :: cstr
  cs_root_cache :: cstr
  cs_cache :: cstr
  cs_locale :: cstr
  cs_resources :: cstr
  cs_locales :: cstr

text \<open>The calls into CEF, and the results by which references are gained.\<close>

datatype cef_call =
  AddRef nat | Release nat | Created nat | RegRelease nat
| GetHost nat | ReleaseHost nat | HostCall nat host_fn
| GetFrame nat | ReleaseFrame nat | FrameCall nat frame_fn
| NavCall nat nav_fn | XCall x_fn | CreateSync int rect cstr | Work | Shutdown
| Setenv cstr cstr | Initialize "cstr list" cef_settings | ExecuteProcess "cstr list"

datatype cef_event =
  AfterCreated nat nat | BeforePopup nat "cstr option" | DoClose nat | BeforeClose nat nat
| LoadingState nat int int int | LoadStart nat bool | LoadEnd nat bool int | LoadError nat bool int
| AddressChange nat bool "cstr option" | TitleChange nat "cstr option" | TakeFocus nat
| Message nat cstr | AgentAttached nat | AgentDetached nat

text \<open>What the X11 lane finds: no display or no library, a library without the functions, or everything.\<close>

datatype xserver = NoX | NoFuns | XFull

text \<open>The entries that \<open>zc_load\<close> binds.\<close>

datatype zc_export =
  X_initialize | X_execute_process | X_shutdown | X_work | X_quit | X_create | X_to_utf16 | X_to_utf8
| X_utf16_clear | X_utf8_clear | X_userfree | X_api_hash

datatype zc_err =
  NoError | EmptyRuntime | LoadFailed | ExportMissing zc_export | HashMismatch | AlreadyShut | InitFailed
| NotInitialized | TooMany | CreateFailed

type_synonym past = "cef_call list"

record cef_env =
  e_host :: "past \<Rightarrow> nat \<Rightarrow> bool"
  e_frame :: "past \<Rightarrow> nat \<Rightarrow> bool"
  e_window :: "past \<Rightarrow> nat \<Rightarrow> int"
  e_x :: "past \<Rightarrow> xserver"
  e_mem :: "past \<Rightarrow> bool"
  e_send :: "past \<Rightarrow> cstr \<Rightarrow> bool"
  e_zoom :: "past \<Rightarrow> nat \<Rightarrow> u64"
  e_url :: "past \<Rightarrow> nat \<Rightarrow> cstr option"
  e_create :: "past \<Rightarrow> nat option"
  e_reg :: "past \<Rightarrow> nat option"
  e_events :: "past \<Rightarrow> cef_event list"
  e_open :: "cstr \<Rightarrow> bool"
  e_sym :: "zc_export \<Rightarrow> bool"
  e_hash :: "cstr option"
  e_platform_hash :: cstr
  e_readable :: "cstr \<Rightarrow> bool"
  e_cmdline :: "u8 list option"
  e_log_on :: bool
  e_log_file :: "cstr option"
  e_module :: "cstr option"
  e_init :: "past \<Rightarrow> bool"
  e_exec :: "past \<Rightarrow> int"

record zc =
  zc_browsers :: "zc_browser list"
  zc_ready :: bool
  zc_shut :: bool
  zc_lib :: bool
  zc_argv :: "cstr list"
  zc_runtime :: cstr
  zc_extra_switches :: cstr
  zc_error :: zc_err
  zc_calls :: past

definition zc_boot :: zc where
  "zc_boot = \<lparr> zc_browsers = replicate ZC_MAX_BROWSERS zc_zero, zc_ready = False, zc_shut = False, zc_lib = False, zc_argv = [],
     zc_runtime = [], zc_extra_switches = [], zc_error = NoError, zc_calls = [] \<rparr>"

definition call :: "cef_call \<Rightarrow> zc \<Rightarrow> zc" where
  "call c s = s\<lparr> zc_calls := zc_calls s @ [c] \<rparr>"

definition br :: "nat \<Rightarrow> zc \<Rightarrow> zc_browser" where
  "br i s = zc_browsers s ! i"

definition upd :: "nat \<Rightarrow> (zc_browser \<Rightarrow> zc_browser) \<Rightarrow> zc \<Rightarrow> zc" where
  "upd i f s = s\<lparr> zc_browsers := (zc_browsers s)[i := f (zc_browsers s ! i)] \<rparr>"

definition zc_fail :: "zc_err \<Rightarrow> zc \<Rightarrow> zc" where
  "zc_fail e s = s\<lparr> zc_error := e \<rparr>"

definition zc_get :: "int \<Rightarrow> zc \<Rightarrow> nat option" where
  "zc_get h s =
     (if h < 1 \<or> h > int ZC_MAX_BROWSERS then None
      else let i = nat (h - 1)
           in if \<not> b_used (br i s) \<or> b_gone (br i s) then None else Some i)"

text \<open>The browser object behind a handle; most operations do nothing without it.\<close>

definition owned :: "int \<Rightarrow> zc \<Rightarrow> nat option" where
  "owned h s = (case zc_get h s of None \<Rightarrow> None | Some i \<Rightarrow> b_browser (br i s))"

text \<open>What is done with the host, or the main frame, of a browser between getting and releasing it.\<close>

definition with_host :: "cef_env \<Rightarrow> nat \<Rightarrow> (zc \<Rightarrow> zc) \<Rightarrow> zc \<Rightarrow> zc" where
  "with_host E n f s = (if e_host E (zc_calls s) n then call (ReleaseHost n) (f (call (GetHost n) s)) else s)"

definition with_frame :: "cef_env \<Rightarrow> nat \<Rightarrow> (zc \<Rightarrow> zc) \<Rightarrow> zc \<Rightarrow> zc" where
  "with_frame E n f s = (if e_frame E (zc_calls s) n then call (ReleaseFrame n) (f (call (GetFrame n) s)) else s)"

section \<open>Handlers\<close>

definition zc_on_after_created :: "nat \<Rightarrow> nat \<Rightarrow> zc \<Rightarrow> zc" where
  "zc_on_after_created i n s =
     (if b_browser (br i s) = None then upd i (\<lambda>b. b\<lparr> b_browser := Some n \<rparr>) (call (AddRef n) s) else s)"

text \<open>1 cancels the popup.\<close>

definition zc_on_before_popup :: "nat \<Rightarrow> cstr option \<Rightarrow> zc \<Rightarrow> int \<times> zc" where
  "zc_on_before_popup i url s =
     (let b = br i s in
      if b_popup_policy b = 0 then (0, s)
      else if b_popup_policy b = 2 then
        (1, if b_popup_url b \<noteq> [] then upd i (\<lambda>b. b\<lparr> b_popup_dropped := b_popup_dropped b + 1 \<rparr>) s
            else upd i (\<lambda>b. b\<lparr> b_popup_url := zc_str_get 2048 url \<rparr>) s)
      else (1, s))"

definition zc_do_close :: "nat \<Rightarrow> zc \<Rightarrow> int \<times> zc" where
  "zc_do_close i s = (0, upd i (\<lambda>b. b\<lparr> b_closing := True \<rparr>) s)"

text \<open>The browser that closes is an argument, which the handler ignores.\<close>

definition zc_on_before_close :: "nat \<Rightarrow> nat \<Rightarrow> zc \<Rightarrow> zc" where
  "zc_on_before_close i n s =
     (let s1 = upd i (\<lambda>b. b\<lparr> b_gone := True \<rparr>) s;
          s2 = (case b_cdp_reg (br i s1) of None \<Rightarrow> s1 | Some r \<Rightarrow> upd i (\<lambda>b. b\<lparr> b_cdp_reg := None \<rparr>) (call (RegRelease r) s1))
      in case b_browser (br i s2) of None \<Rightarrow> s2 | Some m \<Rightarrow> upd i (\<lambda>b. b\<lparr> b_browser := None \<rparr>) (call (Release m) s2))"

definition zc_on_loading_state_change :: "nat \<Rightarrow> int \<Rightarrow> int \<Rightarrow> int \<Rightarrow> zc \<Rightarrow> zc" where
  "zc_on_loading_state_change i l bk fw s = upd i (\<lambda>b. b\<lparr> b_loading := l, b_can_back := bk, b_can_forward := fw \<rparr>) s"

definition zc_on_load_start :: "nat \<Rightarrow> bool \<Rightarrow> zc \<Rightarrow> zc" where
  "zc_on_load_start i main s =
     (if main then upd i (\<lambda>b. b\<lparr> b_last_error := 0, b_nav_seq := b_nav_seq b + 1 \<rparr>) s else s)"

definition zc_on_load_end :: "nat \<Rightarrow> bool \<Rightarrow> int \<Rightarrow> zc \<Rightarrow> zc" where
  "zc_on_load_end i main status s =
     (if main then upd i (\<lambda>b. b\<lparr> b_last_status := status, b_nav_seq := b_nav_seq b + 1 \<rparr>) s else s)"

definition zc_on_load_error :: "nat \<Rightarrow> bool \<Rightarrow> int \<Rightarrow> zc \<Rightarrow> zc" where
  "zc_on_load_error i main code s =
     (if main then upd i (\<lambda>b. b\<lparr> b_last_error := code, b_nav_seq := b_nav_seq b + 1 \<rparr>) s else s)"

definition zc_on_address_change :: "nat \<Rightarrow> bool \<Rightarrow> cstr option \<Rightarrow> zc \<Rightarrow> zc" where
  "zc_on_address_change i main url s =
     (if main then upd i (\<lambda>b. b\<lparr> b_url := zc_str_get 2048 url, b_nav_seq := b_nav_seq b + 1 \<rparr>) s else s)"

definition zc_on_title_change :: "nat \<Rightarrow> cstr option \<Rightarrow> zc \<Rightarrow> zc" where
  "zc_on_title_change i title s = upd i (\<lambda>b. b\<lparr> b_title := zc_str_get 512 title, b_nav_seq := b_nav_seq b + 1 \<rparr>) s"

definition zc_on_set_focus :: "nat \<Rightarrow> zc \<Rightarrow> int" where
  "zc_on_set_focus i s = (if b_host_focus (br i s) then 1 else 0)"

definition zc_on_take_focus :: "nat \<Rightarrow> zc \<Rightarrow> zc" where
  "zc_on_take_focus i s = upd i (\<lambda>b. b\<lparr> b_host_focus := True \<rparr>) s"

definition zc_on_dev_tools_message :: "cef_env \<Rightarrow> nat \<Rightarrow> cstr \<Rightarrow> zc \<Rightarrow> int \<times> zc" where
  "zc_on_dev_tools_message E i msg s =
     (1, upd i (zc_queue_push (if e_mem E (zc_calls s) then Some msg else None)) s)"

definition zc_on_agent :: "nat \<Rightarrow> bool \<Rightarrow> zc \<Rightarrow> zc" where
  "zc_on_agent i attached s = upd i (\<lambda>b. b\<lparr> b_cdp_attached := attached \<rparr>) s"

text \<open>The table that \<open>zc_browser_init_handlers\<close> fills: which handler answers which call of CEF.\<close>

fun handle :: "cef_env \<Rightarrow> cef_event \<Rightarrow> zc \<Rightarrow> zc" where
  "handle E (AfterCreated i n) s = zc_on_after_created i n s"
| "handle E (BeforePopup i url) s = snd (zc_on_before_popup i url s)"
| "handle E (DoClose i) s = snd (zc_do_close i s)"
| "handle E (BeforeClose i n) s = zc_on_before_close i n s"
| "handle E (LoadingState i l bk fw) s = zc_on_loading_state_change i l bk fw s"
| "handle E (LoadStart i main) s = zc_on_load_start i main s"
| "handle E (LoadEnd i main status) s = zc_on_load_end i main status s"
| "handle E (LoadError i main code) s = zc_on_load_error i main code s"
| "handle E (AddressChange i main url) s = zc_on_address_change i main url s"
| "handle E (TitleChange i title) s = zc_on_title_change i title s"
| "handle E (TakeFocus i) s = zc_on_take_focus i s"
| "handle E (Message i msg) s = snd (zc_on_dev_tools_message E i msg s)"
| "handle E (AgentAttached i) s = zc_on_agent i True s"
| "handle E (AgentDetached i) s = zc_on_agent i False s"

text \<open>
  The handlers run when CEF is given a turn of the message loop, or while it creates a browser or shuts
  down; it then delivers any number of events.
\<close>

definition deliver :: "cef_env \<Rightarrow> zc \<Rightarrow> zc" where
  "deliver E s = fold (handle E) (e_events E (zc_calls s)) s"

definition turn :: "cef_env \<Rightarrow> zc \<Rightarrow> zc" where
  "turn E s = deliver E (call Work s)"

end
