(* ===== verification/Cef_Driver.thy ===== *)
theory Cef_Driver
  imports Cef_Browsers
begin

text \<open>
  The operations of the CEF driver \<open>zan_cef.c\<close>: loading the runtime, start and end, creating and
  closing browsers, and the calls on one browser. Each returns its result with the state after it.
\<close>

section \<open>Start and end\<close>

definition bound_exports :: "zc_export list" where
  "bound_exports = [X_initialize, X_execute_process, X_shutdown, X_work, X_quit, X_create, X_to_utf16, X_to_utf8,
     X_utf16_clear, X_utf8_clear, X_userfree, X_api_hash]"

definition libcef_so :: cstr where
  "libcef_so = [47, 82, 101, 108, 101, 97, 115, 101, 47, 108, 105, 98, 99, 101, 102, 46, 115, 111]"

definition zc_load :: "cef_env \<Rightarrow> cstr \<Rightarrow> zc \<Rightarrow> bool \<times> zc" where
  "zc_load E dir s =
     (if zc_lib s then (True, s)
      else if dir = [] then (False, zc_fail EmptyRuntime s)
      else if \<not> e_open E (store_text 1024 (dir @ libcef_so)) then (False, zc_fail LoadFailed s)
      else case List.find (\<lambda>x. \<not> e_sym E x) bound_exports of
        Some x \<Rightarrow> (False, zc_fail (ExportMissing x) s)
      | None \<Rightarrow>
          if e_hash E \<noteq> Some (e_platform_hash E) then (False, zc_fail HashMismatch s) else (True, s\<lparr> zc_lib := True \<rparr>))"

definition zan_cef_last_error :: "zc \<Rightarrow> zc_err" where
  "zan_cef_last_error s = zc_error s"

definition zan_cef_ready :: "zc \<Rightarrow> bool" where
  "zan_cef_ready s \<longleftrightarrow> zc_ready s \<and> \<not> zc_shut s"

definition zc_main_args :: "cef_env \<Rightarrow> zc \<Rightarrow> zc" where
  "zc_main_args E s = s\<lparr> zc_argv := zc_read_cmdline (e_cmdline E) (zc_argv s) \<rparr>"

definition given :: "cstr option \<Rightarrow> cstr" where
  "given t = (case t of None \<Rightarrow> [] | Some s \<Rightarrow> s)"

definition zan_cef_execute_process :: "cef_env \<Rightarrow> cstr \<Rightarrow> cstr option \<Rightarrow> zc \<Rightarrow> int \<times> zc" where
  "zan_cef_execute_process E dir switches s =
     (let (ok, s1) = zc_load E dir s in
      if \<not> ok then (-1, s1)
      else let s2 = zc_main_args E (s1\<lparr> zc_extra_switches := store_text 1024 (given switches) \<rparr>);
               s3 = call (ExecuteProcess (zc_argv s2)) s2
           in (e_exec E (zc_calls s3), s3))"

definition var_prefix :: cstr where
  "var_prefix = [90, 65, 78, 95, 67, 69, 70, 95, 72, 69, 76, 80, 69, 82, 95]"
definition var_runtime :: cstr where "var_runtime = var_prefix @ [82, 85, 78, 84, 73, 77, 69]"
definition var_switches :: cstr where "var_switches = var_prefix @ [83, 87, 73, 84, 67, 72, 69, 83]"
definition var_driver :: cstr where "var_driver = var_prefix @ [68, 82, 73, 86, 69, 82]"

definition zc_export_helper_env :: "cef_env \<Rightarrow> cstr \<Rightarrow> cstr option \<Rightarrow> zc \<Rightarrow> zc" where
  "zc_export_helper_env E dir switches s =
     (let s1 = (if dir \<noteq> [] then call (Setenv var_runtime dir) s else s);
          s2 = call (Setenv var_switches (given switches)) s1
      in if given (e_module E) \<noteq> [] then call (Setenv var_driver (given (e_module E))) s2 else s2)"

definition debug_log :: cstr where
  "debug_log = [47, 99, 101, 102, 95, 100, 101, 98, 117, 103, 46, 108, 111, 103]"
definition release_dir :: cstr where "release_dir = [47, 82, 101, 108, 101, 97, 115, 101]"
definition resources_dir :: cstr where "resources_dir = [47, 82, 101, 115, 111, 117, 114, 99, 101, 115]"
definition icu_file :: cstr where "icu_file = [47, 105, 99, 117, 100, 116, 108, 46, 100, 97, 116]"
definition locales_dir :: cstr where "locales_dir = [47, 108, 111, 99, 97, 108, 101, 115]"

definition log_path :: "cef_env \<Rightarrow> cstr \<Rightarrow> cstr \<Rightarrow> cstr" where
  "log_path E dir profile =
     store_text 1200 (if given (e_log_file E) \<noteq> [] then given (e_log_file E)
                      else (if profile \<noteq> [] then profile else dir) @ debug_log)"

definition init_settings :: "cef_env \<Rightarrow> cstr \<Rightarrow> cstr option \<Rightarrow> cstr option \<Rightarrow> cstr option \<Rightarrow> bool \<Rightarrow> cef_settings" where
  "init_settings E dir cache helper locale windowless =
     (let profile = store_text 1100 (given cache);
          res = (if e_readable E (store_text 1200 (dir @ release_dir @ icu_file)) then release_dir else resources_dir)
      in \<lparr> cs_no_sandbox = True, cs_windowless = windowless, cs_verbose = e_log_on E,
           cs_log_file = (if e_log_on E then log_path E dir profile else []),
           cs_subprocess = given helper, cs_root_cache = profile, cs_cache = profile, cs_locale = given locale,
           cs_resources = store_text 1200 (dir @ res), cs_locales = store_text 1200 (dir @ res @ locales_dir) \<rparr>)"

definition zan_cef_init ::
  "cef_env \<Rightarrow> cstr \<Rightarrow> cstr option \<Rightarrow> cstr option \<Rightarrow> cstr option \<Rightarrow> cstr option \<Rightarrow> bool \<Rightarrow> zc \<Rightarrow> bool \<times> zc" where
  "zan_cef_init E dir cache helper locale switches windowless s =
     (if zc_ready s then (True, s)
      else if zc_shut s then (False, zc_fail AlreadyShut s)
      else let (ok, s1) = zc_load E dir s in
        if \<not> ok then (False, s1)
        else let s2 = s1\<lparr> zc_runtime := store_text 1024 dir, zc_extra_switches := store_text 1024 (given switches) \<rparr>;
                 s3 = zc_main_args E (zc_export_helper_env E dir switches s2);
                 s4 = call (Initialize (zc_argv s3) (init_settings E dir cache helper locale windowless)) s3
             in if \<not> e_init E (zc_calls s4) then (False, zc_fail InitFailed s4) else (True, s4\<lparr> zc_ready := True \<rparr>))"

definition zan_cef_work :: "cef_env \<Rightarrow> zc \<Rightarrow> zc" where
  "zan_cef_work E s = (if zc_ready s \<and> \<not> zc_shut s then turn E s else s)"

definition close_slot :: "cef_env \<Rightarrow> nat \<Rightarrow> zc \<Rightarrow> zc" where
  "close_slot E i s =
     (let b = br i s in
      case b_browser b of
        None \<Rightarrow> s
      | Some n \<Rightarrow> if b_used b \<and> \<not> b_gone b then with_host E n (call (HostCall n CloseBrowser)) s else s)"

definition zan_cef_shutdown :: "cef_env \<Rightarrow> zc \<Rightarrow> zc" where
  "zan_cef_shutdown E s =
     (if \<not> zc_ready s \<or> zc_shut s then s
      else let s1 = fold (close_slot E) [0..<ZC_MAX_BROWSERS] s;
               s2 = (turn E ^^ 200) s1;
               s3 = deliver E (call Shutdown s2)
           in s3\<lparr> zc_shut := True, zc_ready := False \<rparr>)"

section \<open>Browsers\<close>

definition zc_slot :: "zc_browser list \<Rightarrow> nat option" where
  "zc_slot bs = List.find (\<lambda>i. \<not> b_used (bs ! i) \<or> b_gone (bs ! i)) [0..<ZC_MAX_BROWSERS]"

text \<open>The record of the slot when the browser is asked for; a slot that is used and gone is zeroed before.\<close>

definition fresh_browser :: "nat \<Rightarrow> rect \<Rightarrow> zc_browser \<Rightarrow> zc_browser" where
  "fresh_browser i r b =
     (if b_used b then zc_zero else b)\<lparr> b_id := int i + 1, b_url := [], b_title := [], b_popup_url := [],
        b_popup_policy := 0, b_popup_dropped := 0, b_used := True, b_gone := False, b_bounds := r, b_shown := -1 \<rparr>"

definition about_blank :: cstr where
  "about_blank = [97, 98, 111, 117, 116, 58, 98, 108, 97, 110, 107]"

definition at_least_one :: "int \<Rightarrow> int" where
  "at_least_one w = (if w > 0 then w else 1)"

text \<open>The reference of the result is kept if there is none yet, and released otherwise.\<close>

definition keep_one :: "nat \<Rightarrow> nat \<Rightarrow> zc \<Rightarrow> zc" where
  "keep_one i n s =
     (case b_browser (br i s) of
        None \<Rightarrow> upd i (\<lambda>b. b\<lparr> b_browser := Some n \<rparr>) s
      | Some _ \<Rightarrow> call (Release n) s)"

definition add_observer :: "cef_env \<Rightarrow> nat \<Rightarrow> nat \<Rightarrow> zc \<Rightarrow> zc" where
  "add_observer E i m s =
     (let s1 = call (HostCall m AddObserver) s in upd i (\<lambda>b. b\<lparr> b_cdp_reg := e_reg E (zc_calls s1) \<rparr>) s1)"

text \<open>What \<open>zan_cef_create\<close> makes of the answer of CEF.\<close>

definition adopt :: "cef_env \<Rightarrow> nat \<Rightarrow> nat option \<Rightarrow> zc \<Rightarrow> int \<times> zc" where
  "adopt E i answer s =
     (case answer of
        None \<Rightarrow> (0, zc_fail CreateFailed (upd i (\<lambda>b. b\<lparr> b_used := False \<rparr>) s))
      | Some n \<Rightarrow>
          let s1 = keep_one i n (call (Created n) s);
              s2 = (case b_browser (br i s1) of None \<Rightarrow> s1 | Some m \<Rightarrow> with_host E m (add_observer E i m) s1)
          in (b_id (br i s2), s2))"

definition ask_create :: "nat \<Rightarrow> int \<Rightarrow> rect \<Rightarrow> cstr option \<Rightarrow> zc \<Rightarrow> zc" where
  "ask_create i parent bounds url s =
     call (CreateSync parent bounds (if given url \<noteq> [] then given url else about_blank)) (upd i (fresh_browser i bounds) s)"

definition zan_cef_create :: "cef_env \<Rightarrow> int \<Rightarrow> rect \<Rightarrow> cstr option \<Rightarrow> zc \<Rightarrow> int \<times> zc" where
  "zan_cef_create E parent r url s =
     (if \<not> zan_cef_ready s then (0, zc_fail NotInitialized s)
      else case zc_slot (zc_browsers s) of
        None \<Rightarrow> (0, zc_fail TooMany s)
      | Some i \<Rightarrow>
          let (x, y, w, h) = r; s1 = ask_create i parent (x, y, at_least_one w, at_least_one h) url s
          in adopt E i (e_create E (zc_calls s1)) (deliver E s1))"

definition zan_cef_alive :: "int \<Rightarrow> zc \<Rightarrow> int" where
  "zan_cef_alive h s = (if zc_get h s = None then 0 else 1)"

definition zan_cef_window :: "cef_env \<Rightarrow> int \<Rightarrow> zc \<Rightarrow> int \<times> zc" where
  "zan_cef_window E h s =
     (case owned h s of
        None \<Rightarrow> (0, s)
      | Some n \<Rightarrow> (if e_host E (zc_calls s) n then e_window E (zc_calls s) n else 0, with_host E n (call (HostCall n WindowHandle)) s))"

definition on_host :: "cef_env \<Rightarrow> int \<Rightarrow> host_fn \<Rightarrow> zc \<Rightarrow> zc" where
  "on_host E h f s = (case owned h s of None \<Rightarrow> s | Some n \<Rightarrow> with_host E n (call (HostCall n f)) s)"

definition on_frame :: "cef_env \<Rightarrow> int \<Rightarrow> frame_fn \<Rightarrow> zc \<Rightarrow> zc" where
  "on_frame E h f s = (case owned h s of None \<Rightarrow> s | Some n \<Rightarrow> with_frame E n (call (FrameCall n f)) s)"

definition on_browser :: "int \<Rightarrow> nav_fn \<Rightarrow> zc \<Rightarrow> zc" where
  "on_browser h f s = (case owned h s of None \<Rightarrow> s | Some n \<Rightarrow> call (NavCall n f) s)"

text \<open>The X11 lane moves the window through the display that CEF owns.\<close>

definition resize_x11 :: "cef_env \<Rightarrow> int \<Rightarrow> rect \<Rightarrow> zc \<Rightarrow> zc" where
  "resize_x11 E h r s =
     (case e_x E (zc_calls s) of
        NoX \<Rightarrow> s
      | NoFuns \<Rightarrow> on_host E h WasResized s
      | XFull \<Rightarrow> on_host E h WasResized (call (XCall (MoveResize r)) s))"

definition zan_cef_set_bounds :: "cef_env \<Rightarrow> int \<Rightarrow> rect \<Rightarrow> zc \<Rightarrow> zc" where
  "zan_cef_set_bounds E h r s =
     (let (wnd, s1) = zan_cef_window E h s; (x, y, w, hh) = r in
      if wnd = 0 then s1
      else let r1 = (x, y, max w 1, max hh 1);
               s2 = (case zc_get h s1 of None \<Rightarrow> s1 | Some i \<Rightarrow> upd i (\<lambda>b. b\<lparr> b_bounds := r1, b_clip := None \<rparr>) s1)
           in resize_x11 E h r1 s2)"

definition zan_cef_set_visible :: "cef_env \<Rightarrow> int \<Rightarrow> int \<Rightarrow> zc \<Rightarrow> zc" where
  "zan_cef_set_visible E h visible s =
     (case owned h s of
        None \<Rightarrow> s
      | Some n \<Rightarrow>
          let i = nat (h - 1); state = (if visible \<noteq> 0 then 1 else 0) in
          if b_shown (br i s) = state then s
          else let (wnd, s1) = zan_cef_window E h (upd i (\<lambda>b. b\<lparr> b_shown := state \<rparr>) s);
                   s2 = (if wnd \<noteq> 0 \<and> e_x E (zc_calls s1) = XFull
                         then call (XCall (if visible \<noteq> 0 then MapWindow else UnmapWindow)) s1 else s1)
               in with_host E n (call (HostCall n (WasHidden (if visible \<noteq> 0 then 0 else 1)))) s2)"

definition zan_cef_set_clip :: "cef_env \<Rightarrow> int \<Rightarrow> cstr option \<Rightarrow> zc \<Rightarrow> zc" where
  "zan_cef_set_clip E h spec s =
     (case zc_get h s of
        None \<Rightarrow> s
      | Some _ \<Rightarrow> zan_cef_set_visible E h (if given spec \<noteq> [] then 1 else 0) s)"

definition zan_cef_close :: "cef_env \<Rightarrow> int \<Rightarrow> zc \<Rightarrow> zc" where
  "zan_cef_close E h s =
     (case owned h s of
        None \<Rightarrow> s
      | Some n \<Rightarrow> with_host E n (call (HostCall n CloseBrowser)) (zan_cef_set_visible E h 0 s))"

definition zan_cef_set_focus :: "cef_env \<Rightarrow> int \<Rightarrow> int \<Rightarrow> zc \<Rightarrow> zc" where
  "zan_cef_set_focus E h focus s =
     (case zc_get h s of
        None \<Rightarrow> s
      | Some i \<Rightarrow> on_host E h (SetFocus focus) (upd i (\<lambda>b. b\<lparr> b_host_focus := (focus = 0) \<rparr>) s))"

section \<open>Zoom, find and print\<close>

definition zan_cef_set_zoom :: "cef_env \<Rightarrow> int \<Rightarrow> u64 \<Rightarrow> zc \<Rightarrow> zc" where
  "zan_cef_set_zoom E h level s = on_host E h (SetZoom level) s"

definition zan_cef_get_zoom :: "cef_env \<Rightarrow> int \<Rightarrow> zc \<Rightarrow> u64 \<times> zc" where
  "zan_cef_get_zoom E h s =
     (case owned h s of
        None \<Rightarrow> (0, s)
      | Some n \<Rightarrow> (if e_host E (zc_calls s) n then e_zoom E (zc_calls s) n else 0, with_host E n (call (HostCall n GetZoom)) s))"

definition zan_cef_find :: "cef_env \<Rightarrow> int \<Rightarrow> cstr option \<Rightarrow> int \<Rightarrow> int \<Rightarrow> int \<Rightarrow> zc \<Rightarrow> zc" where
  "zan_cef_find E h what forward match_case find_next s =
     (case what of None \<Rightarrow> s | Some t \<Rightarrow> on_host E h (Find t forward match_case find_next) s)"

definition zan_cef_stop_find :: "cef_env \<Rightarrow> int \<Rightarrow> int \<Rightarrow> zc \<Rightarrow> zc" where
  "zan_cef_stop_find E h clear s = on_host E h (StopFinding clear) s"

definition zan_cef_print :: "cef_env \<Rightarrow> int \<Rightarrow> zc \<Rightarrow> zc" where
  "zan_cef_print E h s = on_host E h Print s"

definition zan_cef_show_devtools :: "cef_env \<Rightarrow> int \<Rightarrow> zc \<Rightarrow> zc" where
  "zan_cef_show_devtools E h s = on_host E h ShowDevTools s"

definition zan_cef_close_devtools :: "cef_env \<Rightarrow> int \<Rightarrow> zc \<Rightarrow> zc" where
  "zan_cef_close_devtools E h s = on_host E h CloseDevTools s"

section \<open>Navigation\<close>

definition zan_cef_navigate :: "cef_env \<Rightarrow> int \<Rightarrow> cstr option \<Rightarrow> zc \<Rightarrow> zc" where
  "zan_cef_navigate E h url s = (case url of None \<Rightarrow> s | Some u \<Rightarrow> on_frame E h (LoadUrl u) s)"

definition zan_cef_back :: "int \<Rightarrow> zc \<Rightarrow> zc" where
  "zan_cef_back h s = on_browser h GoBack s"

definition zan_cef_forward :: "int \<Rightarrow> zc \<Rightarrow> zc" where
  "zan_cef_forward h s = on_browser h GoForward s"

definition zan_cef_reload :: "int \<Rightarrow> int \<Rightarrow> zc \<Rightarrow> zc" where
  "zan_cef_reload h ignore_cache s = on_browser h (if ignore_cache \<noteq> 0 then ReloadIgnoreCache else Reload) s"

definition zan_cef_stop :: "int \<Rightarrow> zc \<Rightarrow> zc" where
  "zan_cef_stop h s = on_browser h StopLoad s"

definition field :: "(zc_browser \<Rightarrow> 'a) \<Rightarrow> 'a \<Rightarrow> int \<Rightarrow> zc \<Rightarrow> 'a" where
  "field f d h s = (case zc_get h s of None \<Rightarrow> d | Some i \<Rightarrow> f (br i s))"

definition zan_cef_can_go_back :: "int \<Rightarrow> zc \<Rightarrow> int" where
  "zan_cef_can_go_back h s = field b_can_back 0 h s"

definition zan_cef_can_go_forward :: "int \<Rightarrow> zc \<Rightarrow> int" where
  "zan_cef_can_go_forward h s = field b_can_forward 0 h s"

definition zan_cef_is_loading :: "int \<Rightarrow> zc \<Rightarrow> int" where
  "zan_cef_is_loading h s = field b_loading 0 h s"

definition zan_cef_nav_seq :: "int \<Rightarrow> zc \<Rightarrow> int" where
  "zan_cef_nav_seq h s = field b_nav_seq 0 h s"

definition zan_cef_last_status :: "int \<Rightarrow> zc \<Rightarrow> int" where
  "zan_cef_last_status h s = field b_last_status 0 h s"

definition zan_cef_last_error_code :: "int \<Rightarrow> zc \<Rightarrow> int" where
  "zan_cef_last_error_code h s = field b_last_error 0 h s"

text \<open>The text that CEF gives is stored in the slot.\<close>

definition fetch_url :: "cef_env \<Rightarrow> nat \<Rightarrow> nat \<Rightarrow> zc \<Rightarrow> zc" where
  "fetch_url E i n s =
     (let s1 = call (FrameCall n GetUrl) s in upd i (\<lambda>b. b\<lparr> b_url := zc_str_get 2048 (e_url E (zc_calls s1) n) \<rparr>) s1)"

definition zan_cef_url :: "cef_env \<Rightarrow> int \<Rightarrow> zc \<Rightarrow> cstr \<times> zc" where
  "zan_cef_url E h s =
     (case zc_get h s of
        None \<Rightarrow> ([], s)
      | Some i \<Rightarrow>
          let s1 = (case b_browser (br i s) of
                      Some n \<Rightarrow> if b_url (br i s) = [] then with_frame E n (fetch_url E i n) s else s
                    | None \<Rightarrow> s)
          in (b_url (br i s1), s1))"

definition zan_cef_title :: "int \<Rightarrow> zc \<Rightarrow> cstr" where
  "zan_cef_title h s = field b_title [] h s"

definition zan_cef_execute_js :: "cef_env \<Rightarrow> int \<Rightarrow> cstr option \<Rightarrow> cstr option \<Rightarrow> int \<Rightarrow> zc \<Rightarrow> zc" where
  "zan_cef_execute_js E h code url line s =
     (case code of None \<Rightarrow> s | Some c \<Rightarrow> on_frame E h (ExecuteJs c (given url) line) s)"

section \<open>DevTools and popups\<close>

text \<open>With the host held: the number of the message, and whether CEF took it.\<close>

definition send_cdp :: "cef_env \<Rightarrow> nat \<Rightarrow> nat \<Rightarrow> cstr \<Rightarrow> cstr option \<Rightarrow> zc \<Rightarrow> int \<times> zc" where
  "send_cdp E i n method params s =
     (let s1 = upd i (\<lambda>b. b\<lparr> b_cdp_id := b_cdp_id b + 1 \<rparr>) s; k = b_cdp_id (br i s1) in
      if \<not> e_mem E (zc_calls s1) then (0, s1)
      else let msg = cdp_message k method params; s2 = call (HostCall n (SendMessage msg)) s1
           in (if e_send E (zc_calls s2) msg then k else 0, s2))"

definition zan_cef_cdp_send :: "cef_env \<Rightarrow> int \<Rightarrow> cstr option \<Rightarrow> cstr option \<Rightarrow> zc \<Rightarrow> int \<times> zc" where
  "zan_cef_cdp_send E h method params s =
     (case owned h s of
        None \<Rightarrow> (0, s)
      | Some n \<Rightarrow>
          if given method = [] \<or> \<not> e_host E (zc_calls s) n then (0, s)
          else let (k, s1) = send_cdp E (nat (h - 1)) n (given method) params (call (GetHost n) s)
               in (k, call (ReleaseHost n) s1))"

definition zan_cef_set_popup_policy :: "int \<Rightarrow> int \<Rightarrow> zc \<Rightarrow> zc" where
  "zan_cef_set_popup_policy h policy s =
     (case zc_get h s of None \<Rightarrow> s | Some i \<Rightarrow> upd i (\<lambda>b. b\<lparr> b_popup_policy := policy \<rparr>) s)"

definition zan_cef_take_popup_url :: "cef_env \<Rightarrow> int \<Rightarrow> zc \<Rightarrow> cstr \<times> zc" where
  "zan_cef_take_popup_url E h s =
     (case zc_get h s of
        None \<Rightarrow> ([], s)
      | Some i \<Rightarrow>
          let url = b_popup_url (br i s) in
          if url = [] then ([], s)
          else let copy = (if e_mem E (zc_calls s) then Some url else None)
               in (given copy, upd i (\<lambda>b. b\<lparr> b_taken_popup := copy, b_popup_url := [] \<rparr>) s))"

definition zan_cef_cdp_pending :: "int \<Rightarrow> zc \<Rightarrow> int" where
  "zan_cef_cdp_pending h s = field (int \<circ> b_count) 0 h s"

definition zan_cef_cdp_dropped :: "int \<Rightarrow> zc \<Rightarrow> int" where
  "zan_cef_cdp_dropped h s = field b_dropped 0 h s"

definition zan_cef_cdp_attached :: "int \<Rightarrow> zc \<Rightarrow> int" where
  "zan_cef_cdp_attached h s = field (\<lambda>b. if b_cdp_attached b then 1 else 0) 0 h s"

definition zan_cef_cdp_take :: "int \<Rightarrow> zc \<Rightarrow> cstr \<times> zc" where
  "zan_cef_cdp_take h s =
     (case zc_get h s of
        None \<Rightarrow> ([], s)
      | Some i \<Rightarrow>
          let (msg, b) = zc_queue_take (br i s); s1 = upd i (\<lambda>_. b) s
          in (case msg of None \<Rightarrow> ([], s1) | Some m \<Rightarrow> (m, upd i (\<lambda>b. b\<lparr> b_taken := Some m \<rparr>) s1)))"

section \<open>Programs\<close>

text \<open>A host program as the sequence of its calls, and what it leaves.\<close>

datatype cef_op =
  ExecuteProcessOp cstr "cstr option" | InitOp cstr "cstr option" "cstr option" "cstr option" "cstr option" bool
| WorkOp | ShutdownOp | CreateOp int rect "cstr option" | CloseOp int | WindowOp int | BoundsOp int rect
| VisibleOp int int | ClipOp int "cstr option" | FocusOp int int | SetZoomOp int u64 | GetZoomOp int
| FindOp int "cstr option" int int int | StopFindOp int int | PrintOp int | ShowDevToolsOp int | CloseDevToolsOp int
| NavigateOp int "cstr option" | BackOp int | ForwardOp int | ReloadOp int int | StopOp int | UrlOp int
| JsOp int "cstr option" "cstr option" int | SendOp int "cstr option" "cstr option" | PolicyOp int int
| TakePopupOp int | TakeMessageOp int

fun cef_step :: "cef_env \<Rightarrow> cef_op \<Rightarrow> zc \<Rightarrow> zc" where
  "cef_step E (ExecuteProcessOp d sw) s = snd (zan_cef_execute_process E d sw s)"
| "cef_step E (InitOp d c h l sw w) s = snd (zan_cef_init E d c h l sw w s)"
| "cef_step E WorkOp s = zan_cef_work E s"
| "cef_step E ShutdownOp s = zan_cef_shutdown E s"
| "cef_step E (CreateOp p r u) s = snd (zan_cef_create E p r u s)"
| "cef_step E (CloseOp h) s = zan_cef_close E h s"
| "cef_step E (WindowOp h) s = snd (zan_cef_window E h s)"
| "cef_step E (BoundsOp h r) s = zan_cef_set_bounds E h r s"
| "cef_step E (VisibleOp h v) s = zan_cef_set_visible E h v s"
| "cef_step E (ClipOp h c) s = zan_cef_set_clip E h c s"
| "cef_step E (FocusOp h f) s = zan_cef_set_focus E h f s"
| "cef_step E (SetZoomOp h z) s = zan_cef_set_zoom E h z s"
| "cef_step E (GetZoomOp h) s = snd (zan_cef_get_zoom E h s)"
| "cef_step E (FindOp h t f m n) s = zan_cef_find E h t f m n s"
| "cef_step E (StopFindOp h c) s = zan_cef_stop_find E h c s"
| "cef_step E (PrintOp h) s = zan_cef_print E h s"
| "cef_step E (ShowDevToolsOp h) s = zan_cef_show_devtools E h s"
| "cef_step E (CloseDevToolsOp h) s = zan_cef_close_devtools E h s"
| "cef_step E (NavigateOp h u) s = zan_cef_navigate E h u s"
| "cef_step E (BackOp h) s = zan_cef_back h s"
| "cef_step E (ForwardOp h) s = zan_cef_forward h s"
| "cef_step E (ReloadOp h c) s = zan_cef_reload h c s"
| "cef_step E (StopOp h) s = zan_cef_stop h s"
| "cef_step E (UrlOp h) s = snd (zan_cef_url E h s)"
| "cef_step E (JsOp h c u l) s = zan_cef_execute_js E h c u l s"
| "cef_step E (SendOp h m p) s = snd (zan_cef_cdp_send E h m p s)"
| "cef_step E (PolicyOp h p) s = zan_cef_set_popup_policy h p s"
| "cef_step E (TakePopupOp h) s = snd (zan_cef_take_popup_url E h s)"
| "cef_step E (TakeMessageOp h) s = snd (zan_cef_cdp_take h s)"

definition cef_run :: "cef_env \<Rightarrow> cef_op list \<Rightarrow> zc" where
  "cef_run E ops = fold (cef_step E) ops zc_boot"

end
