(* ===== verification/Cef_Ownership.thy ===== *)
theory Cef_Ownership
  imports Cef_Driver
begin

text \<open>
  Ownership in the CEF driver. The references to browsers, hosts and frames are counted along the
  calls; a history is sound if each call is made on an object to which a reference is held.
\<close>

section \<open>Counting references\<close>

definition occurs :: "cef_call \<Rightarrow> past \<Rightarrow> int" where
  "occurs c cs = int (count_list cs c)"

definition held :: "past \<Rightarrow> nat \<Rightarrow> int" where
  "held cs n = occurs (AddRef n) cs + occurs (Created n) cs - occurs (Release n) cs"

definition hosts :: "past \<Rightarrow> nat \<Rightarrow> int" where
  "hosts cs n = occurs (GetHost n) cs - occurs (ReleaseHost n) cs"

definition frames :: "past \<Rightarrow> nat \<Rightarrow> int" where
  "frames cs n = occurs (GetFrame n) cs - occurs (ReleaseFrame n) cs"

fun allowed :: "past \<Rightarrow> cef_call \<Rightarrow> bool" where
  "allowed cs (Release n) = (held cs n > 0)"
| "allowed cs (GetHost n) = (held cs n > 0)"
| "allowed cs (GetFrame n) = (held cs n > 0)"
| "allowed cs (NavCall n f) = (held cs n > 0)"
| "allowed cs (HostCall n f) = (hosts cs n > 0)"
| "allowed cs (ReleaseHost n) = (hosts cs n > 0)"
| "allowed cs (FrameCall n f) = (frames cs n > 0)"
| "allowed cs (ReleaseFrame n) = (frames cs n > 0)"
| "allowed cs c = True"

definition sound :: "past \<Rightarrow> bool" where
  "sound cs \<longleftrightarrow> (\<forall>k<length cs. allowed (take k cs) (cs ! k))"

lemma occurs_simps [simp]:
  "occurs c [] = 0"
  "occurs c (cs @ [d]) = occurs c cs + (if d = c then 1 else 0)"
  by (simp_all add: occurs_def)

lemma sound_Nil [simp]: "sound []"
  by (simp add: sound_def)

lemma sound_snoc [simp]: "sound (cs @ [c]) \<longleftrightarrow> sound cs \<and> allowed cs c"
  by (auto simp: sound_def nth_append less_Suc_eq)

lemma held_simps [simp]:
  "held [] n = 0" "hosts [] n = 0" "frames [] n = 0"
  "held (cs @ [c]) n = held cs n + (if c = AddRef n \<or> c = Created n then 1 else 0) - (if c = Release n then 1 else 0)"
  "hosts (cs @ [c]) n = hosts cs n + (if c = GetHost n then 1 else 0) - (if c = ReleaseHost n then 1 else 0)"
  "frames (cs @ [c]) n = frames cs n + (if c = GetFrame n then 1 else 0) - (if c = ReleaseFrame n then 1 else 0)"
  by (auto simp: held_def hosts_def frames_def)

section \<open>The invariant\<close>

text \<open>How many slots hold a browser.\<close>

definition owners :: "zc \<Rightarrow> nat option list" where
  "owners s = map b_browser (zc_browsers s)"

definition stored :: "nat option list \<Rightarrow> nat \<Rightarrow> int" where
  "stored os n = int (count_list os (Some n))"

definition calm :: "past \<Rightarrow> bool" where
  "calm cs \<longleftrightarrow> sound cs \<and> (\<forall>n. hosts cs n = 0 \<and> frames cs n = 0)"

definition backed :: "zc \<Rightarrow> bool" where
  "backed s \<longleftrightarrow> length (zc_browsers s) = ZC_MAX_BROWSERS \<and> calm (zc_calls s) \<and>
     (\<forall>n. stored (owners s) n \<le> held (zc_calls s) n)"

fun event_slot :: "cef_event \<Rightarrow> nat" where
  "event_slot (AfterCreated i n) = i"
| "event_slot (BeforePopup i u) = i"
| "event_slot (DoClose i) = i"
| "event_slot (BeforeClose i n) = i"
| "event_slot (LoadingState i l bk fw) = i"
| "event_slot (LoadStart i m) = i"
| "event_slot (LoadEnd i m st) = i"
| "event_slot (LoadError i m c) = i"
| "event_slot (AddressChange i m u) = i"
| "event_slot (TitleChange i t) = i"
| "event_slot (TakeFocus i) = i"
| "event_slot (Message i m) = i"
| "event_slot (AgentAttached i) = i"
| "event_slot (AgentDetached i) = i"

text \<open>CEF calls the handlers that it was given, those in the table of the browsers.\<close>

definition in_table :: "cef_env \<Rightarrow> bool" where
  "in_table E \<longleftrightarrow> (\<forall>cs. \<forall>e\<in>set (e_events E cs). event_slot e < ZC_MAX_BROWSERS)"

lemma count_list_update:
  "i < length xs \<Longrightarrow> int (count_list (xs[i := y]) x) =
    int (count_list xs x) - (if xs ! i = x then 1 else 0) + (if y = x then 1 else 0)"
proof (induction xs arbitrary: i)
  case (Cons a xs)
  show ?case
  proof (cases i)
    case (Suc k)
    with Cons.IH [of k] Cons.prems show ?thesis by auto
  qed simp
qed simp

lemma stored_update:
  "i < length os \<Longrightarrow> stored (os[i := p]) n = stored os n - (if os ! i = Some n then 1 else 0) + (if p = Some n then 1 else 0)"
  by (simp add: stored_def count_list_update)

lemma stored_pos: "i < length os \<Longrightarrow> os ! i = Some n \<Longrightarrow> 0 < stored os n"
  by (auto simp: stored_def intro!: gr0I) (metis count_list_0_iff nth_mem)

lemma calls_simps [simp]:
  "zc_calls (call c s) = zc_calls s @ [c]" "zc_browsers (call c s) = zc_browsers s"
  "zc_calls (upd i f s) = zc_calls s" "zc_calls (zc_fail e s) = zc_calls s" "zc_browsers (zc_fail e s) = zc_browsers s"
  "zc_browsers (upd i f s) = (zc_browsers s)[i := f (zc_browsers s ! i)]"
  by (simp_all add: call_def upd_def zc_fail_def)

lemma owners_simps [simp]:
  "owners (call c s) = owners s" "owners (zc_fail e s) = owners s"
  "owners (upd i f s) = (owners s)[i := b_browser (f (br i s))]"
  by (simp_all add: owners_def map_update br_def)

lemma owners_nth: "backed s \<Longrightarrow> i < ZC_MAX_BROWSERS \<Longrightarrow> owners s ! i = b_browser (br i s)"
  by (simp add: owners_def br_def backed_def)

lemma length_owners: "backed s \<Longrightarrow> length (owners s) = ZC_MAX_BROWSERS"
  by (simp add: owners_def backed_def)

lemma br_call [simp]: "br i (call c s) = br i s"
  by (simp add: br_def)

lemma br_upd [simp]: "i < length (zc_browsers s) \<Longrightarrow> br i (upd i f s) = f (br i s)"
  by (simp add: br_def)

text \<open>What touches neither the calls nor the owners keeps the invariant.\<close>

lemma backed_cong:
  "backed s \<Longrightarrow> zc_calls t = zc_calls s \<Longrightarrow> owners t = owners s \<Longrightarrow> backed t"
  unfolding backed_def by (metis length_map owners_def)

lemma owners_keep: "b_browser (f (br i s)) = b_browser (br i s) \<Longrightarrow> owners (upd i f s) = owners s"
  by (cases "i < length (zc_browsers s)") (simp_all add: owners_def br_def map_update list_update_same_conv list_update_beyond not_less)

lemma backed_upd: "backed s \<Longrightarrow> b_browser (f (br i s)) = b_browser (br i s) \<Longrightarrow> backed (upd i f s)"
  by (rule backed_cong) (simp_all add: owners_keep del: owners_simps(3))

lemma held_owner: "backed s \<Longrightarrow> i < ZC_MAX_BROWSERS \<Longrightarrow> b_browser (br i s) = Some n \<Longrightarrow> 0 < held (zc_calls s) n"
  using stored_pos [of i "owners s" n] by (auto simp: owners_nth length_owners backed_def intro: less_le_trans)

text \<open>Calls that neither need nor give a reference.\<close>

fun plain :: "cef_call \<Rightarrow> bool" where
  "plain (RegRelease r) = True"
| "plain (XCall f) = True"
| "plain (CreateSync p r u) = True"
| "plain Work = True"
| "plain Shutdown = True"
| "plain (Setenv k v) = True"
| "plain (Initialize a c) = True"
| "plain (ExecuteProcess a) = True"
| "plain c = False"

lemma backed_call: "backed s \<Longrightarrow> plain c \<Longrightarrow> backed (call c s)"
  by (cases c) (auto simp: backed_def calm_def)

section \<open>Calls through the host and the frame\<close>

lemma with_host_backed:
  assumes "backed s" "0 < held (zc_calls s) n"
    "\<And>t. zc_calls (g t) = zc_calls t @ [HostCall n f]" "\<And>t. owners (g t) = owners t"
  shows "backed (with_host E n g s)" "owners (with_host E n g s) = owners s"
proof -
  let ?t = "call (ReleaseHost n) (g (call (GetHost n) s))"
  have c: "zc_calls ?t = ((zc_calls s @ [GetHost n]) @ [HostCall n f]) @ [ReleaseHost n]"
    by (simp add: assms(3))
  have o: "owners ?t = owners s" by (simp add: assms(4))
  then have l: "length (zc_browsers ?t) = length (zc_browsers s)"
    unfolding owners_def by (metis length_map)
  have "calm (zc_calls ?t)" unfolding c calm_def
    using assms(1,2) by (simp add: backed_def calm_def del: append_assoc)
  moreover have "held (zc_calls ?t) m = held (zc_calls s) m" for m
    unfolding c by (simp del: append_assoc)
  ultimately have "backed ?t" using assms(1) o l unfolding backed_def by simp
  then show "backed (with_host E n g s)" "owners (with_host E n g s) = owners s"
    using assms(1) o by (simp_all add: with_host_def)
qed

lemma with_frame_backed:
  assumes "backed s" "0 < held (zc_calls s) n"
    "\<And>t. zc_calls (g t) = zc_calls t @ [FrameCall n f]" "\<And>t. owners (g t) = owners t"
  shows "backed (with_frame E n g s)" "owners (with_frame E n g s) = owners s"
proof -
  let ?t = "call (ReleaseFrame n) (g (call (GetFrame n) s))"
  have c: "zc_calls ?t = ((zc_calls s @ [GetFrame n]) @ [FrameCall n f]) @ [ReleaseFrame n]"
    by (simp add: assms(3))
  have o: "owners ?t = owners s" by (simp add: assms(4))
  then have l: "length (zc_browsers ?t) = length (zc_browsers s)"
    unfolding owners_def by (metis length_map)
  have "calm (zc_calls ?t)" unfolding c calm_def
    using assms(1,2) by (simp add: backed_def calm_def del: append_assoc)
  moreover have "held (zc_calls ?t) m = held (zc_calls s) m" for m
    unfolding c by (simp del: append_assoc)
  ultimately have "backed ?t" using assms(1) o l unfolding backed_def by simp
  then show "backed (with_frame E n g s)" "owners (with_frame E n g s) = owners s"
    using assms(1) o by (simp_all add: with_frame_def)
qed

lemma zc_get_Some: "zc_get h s = Some i \<Longrightarrow> i < ZC_MAX_BROWSERS \<and> i = nat (h - 1)"
  by (auto simp: zc_get_def Let_def split: if_splits)

lemma owned_Some: "owned h s = Some n \<Longrightarrow> nat (h - 1) < ZC_MAX_BROWSERS \<and> b_browser (br (nat (h - 1)) s) = Some n"
  by (auto simp: owned_def dest: zc_get_Some split: option.splits)

lemma owned_held: "backed s \<Longrightarrow> owned h s = Some n \<Longrightarrow> 0 < held (zc_calls s) n"
  using owned_Some held_owner by blast

lemma on_host_backed: "backed s \<Longrightarrow> backed (on_host E h f s)"
  by (auto simp: on_host_def intro!: with_host_backed owned_held split: option.splits)

lemma on_frame_backed: "backed s \<Longrightarrow> backed (on_frame E h f s)"
  by (auto simp: on_frame_def intro!: with_frame_backed owned_held split: option.splits)

lemma on_browser_backed: "backed s \<Longrightarrow> backed (on_browser h f s)"
  using owned_held [of s h] by (auto simp: on_browser_def backed_def calm_def split: option.splits)

section \<open>Handlers\<close>

lemma backed_gain:
  assumes "backed s" "i < ZC_MAX_BROWSERS" "b_browser (br i s) = None" "c = AddRef n \<or> c = Created n"
  shows "backed (upd i (\<lambda>b. b\<lparr> b_browser := Some n \<rparr>) (call c s))"
proof -
  let ?t = "upd i (\<lambda>b. b\<lparr> b_browser := Some n \<rparr>) (call c s)"
  have o: "owners ?t = (owners s)[i := Some n]" by simp
  have "stored (owners ?t) m \<le> held (zc_calls ?t) m" for m
    using assms owners_nth [OF assms(1,2)] length_owners [OF assms(1)]
    unfolding o by (auto simp: stored_update backed_def)
  then show ?thesis using assms(1,4) by (auto simp: backed_def calm_def)
qed

lemma backed_lose:
  assumes "backed s" "i < ZC_MAX_BROWSERS" "b_browser (br i s) = Some n"
  shows "backed (upd i (\<lambda>b. b\<lparr> b_browser := None \<rparr>) (call (Release n) s))"
proof -
  let ?t = "upd i (\<lambda>b. b\<lparr> b_browser := None \<rparr>) (call (Release n) s)"
  have o: "owners ?t = (owners s)[i := None]" by simp
  have "stored (owners ?t) m \<le> held (zc_calls ?t) m" for m
    using assms owners_nth [OF assms(1,2)] length_owners [OF assms(1)]
    unfolding o by (auto simp: stored_update backed_def)
  then show ?thesis using assms(1) held_owner [OF assms] by (auto simp: backed_def calm_def)
qed

lemma queue_push_browser [simp]: "b_browser (zc_queue_push c b) = b_browser b"
  by (simp add: zc_queue_push_def Let_def split: option.splits)

lemma queue_take_browser [simp]: "b_browser (snd (zc_queue_take b)) = b_browser b"
  by (simp add: zc_queue_take_def)

lemma before_close_backed:
  assumes "backed s" "i < ZC_MAX_BROWSERS"
  shows "backed (zc_on_before_close i n s)"
proof -
  define s1 where "s1 = upd i (\<lambda>b. b\<lparr> b_gone := True \<rparr>) s"
  define s2 where "s2 = (case b_cdp_reg (br i s1) of None \<Rightarrow> s1
    | Some r \<Rightarrow> upd i (\<lambda>b. b\<lparr> b_cdp_reg := None \<rparr>) (call (RegRelease r) s1))"
  have "backed s1" unfolding s1_def using assms(1) by (rule backed_upd) simp
  then have "backed s2" unfolding s2_def
    by (auto intro!: backed_upd backed_call split: option.splits)
  then show ?thesis
    using assms(2) backed_lose [of s2 i]
    unfolding zc_on_before_close_def s1_def [symmetric] Let_def s2_def [symmetric] by (auto split: option.splits)
qed

lemma after_created_backed:
  "backed s \<Longrightarrow> i < ZC_MAX_BROWSERS \<Longrightarrow> backed (zc_on_after_created i n s)"
  unfolding zc_on_after_created_def using backed_gain [of s i "AddRef n" n] by simp

lemma handle_backed: "backed s \<Longrightarrow> event_slot e < ZC_MAX_BROWSERS \<Longrightarrow> backed (handle E e s)"
  by (cases e)
    (auto intro!: backed_upd after_created_backed before_close_backed simp: zc_on_before_popup_def Let_def
      zc_do_close_def zc_on_loading_state_change_def zc_on_load_start_def zc_on_load_end_def zc_on_load_error_def
      zc_on_address_change_def zc_on_title_change_def zc_on_take_focus_def zc_on_dev_tools_message_def zc_on_agent_def)

lemma fold_handle_backed:
  "backed s \<Longrightarrow> \<forall>e\<in>set es. event_slot e < ZC_MAX_BROWSERS \<Longrightarrow> backed (fold (handle E) es s)"
  by (induction es arbitrary: s) (simp_all add: handle_backed)

lemma deliver_backed: "in_table E \<Longrightarrow> backed s \<Longrightarrow> backed (deliver E s)"
  by (simp add: deliver_def in_table_def fold_handle_backed)

lemma turn_backed: "in_table E \<Longrightarrow> backed s \<Longrightarrow> backed (turn E s)"
  by (simp add: turn_def deliver_backed backed_call)

section \<open>Operations\<close>

lemma load_backed: "backed s \<Longrightarrow> backed (snd (zc_load E d s))"
  by (auto simp: zc_load_def intro: backed_cong simp: owners_def split: option.splits)

text \<open>The fields outside the table and the calls.\<close>

lemma owners_fields [simp]:
  "owners (s\<lparr> zc_ready := b \<rparr>) = owners s" "owners (s\<lparr> zc_shut := b \<rparr>) = owners s"
  "owners (s\<lparr> zc_argv := v \<rparr>) = owners s" "owners (s\<lparr> zc_runtime := t \<rparr>) = owners s"
  "owners (s\<lparr> zc_extra_switches := t \<rparr>) = owners s" "owners (s\<lparr> zc_lib := b \<rparr>) = owners s"
  by (simp_all add: owners_def)

lemma backed_fields:
  "backed s \<Longrightarrow> backed (s\<lparr> zc_ready := b \<rparr>)" "backed s \<Longrightarrow> backed (s\<lparr> zc_shut := b \<rparr>)"
  "backed s \<Longrightarrow> backed (s\<lparr> zc_argv := v \<rparr>)" "backed s \<Longrightarrow> backed (s\<lparr> zc_runtime := t \<rparr>)"
  "backed s \<Longrightarrow> backed (s\<lparr> zc_extra_switches := t \<rparr>)" "backed s \<Longrightarrow> backed (zc_fail e s)"
  by (auto intro: backed_cong)

lemmas backed_steps = backed_fields backed_call backed_upd deliver_backed turn_backed on_host_backed on_frame_backed
  on_browser_backed

lemma execute_backed: "backed s \<Longrightarrow> backed (snd (zan_cef_execute_process E d sw s))"
  using load_backed [of s E d]
  by (auto simp: zan_cef_execute_process_def zc_main_args_def Let_def intro!: backed_steps split: prod.splits)

lemma export_backed: "backed s \<Longrightarrow> backed (zc_export_helper_env E d sw s)"
  by (auto simp: zc_export_helper_env_def Let_def intro!: backed_steps)

lemma init_backed: "backed s \<Longrightarrow> backed (snd (zan_cef_init E d c h l sw w s))"
  using load_backed [of s E d]
  by (auto simp: zan_cef_init_def zc_main_args_def Let_def intro!: backed_steps export_backed split: prod.splits)

lemma close_slot_backed: "backed s \<Longrightarrow> i < ZC_MAX_BROWSERS \<Longrightarrow> backed (close_slot E i s)"
  by (auto simp: close_slot_def Let_def intro!: with_host_backed held_owner split: option.splits)

lemma close_slots_backed: "backed s \<Longrightarrow> \<forall>i\<in>set is. i < ZC_MAX_BROWSERS \<Longrightarrow> backed (fold (close_slot E) is s)"
  by (induction "is" arbitrary: s) (simp_all add: close_slot_backed)

lemma turns_backed: "in_table E \<Longrightarrow> backed s \<Longrightarrow> backed ((turn E ^^ k) s)"
  by (induction k) (simp_all add: turn_backed)

lemma shutdown_backed: "in_table E \<Longrightarrow> backed s \<Longrightarrow> backed (zan_cef_shutdown E s)"
  by (auto simp: zan_cef_shutdown_def Let_def intro!: backed_steps turns_backed close_slots_backed)

lemma zc_slot_Some: "zc_slot bs = Some i \<Longrightarrow> i < ZC_MAX_BROWSERS \<and> (\<not> b_used (bs ! i) \<or> b_gone (bs ! i))"
  by (auto simp: zc_slot_def find_Some_iff)

text \<open>Zeroing a slot can only forget a browser.\<close>

lemma fresh_backed:
  assumes "backed s" "i < ZC_MAX_BROWSERS"
  shows "backed (upd i (fresh_browser i r) s)"
proof -
  let ?p = "b_browser (fresh_browser i r (br i s))"
  have p: "?p = None \<or> ?p = b_browser (br i s)"
    by (simp add: fresh_browser_def zc_zero_def)
  have "stored (owners (upd i (fresh_browser i r) s)) n \<le> stored (owners s) n" for n
    using p assms by (auto simp: stored_update length_owners owners_nth)
  then show ?thesis using assms(1) by (auto simp: backed_def intro: order_trans)
qed

lemma keep_one_backed:
  assumes "backed s" "i < ZC_MAX_BROWSERS"
  shows "backed (keep_one i n (call (Created n) s))"
proof (cases "b_browser (br i s)")
  case None
  then show ?thesis using backed_gain [OF assms None] by (simp add: keep_one_def)
next
  case (Some m)
  have "0 \<le> held (zc_calls s) n"
    using assms(1) unfolding backed_def stored_def by (meson of_nat_0_le_iff order_trans)
  then have "calm ((zc_calls s @ [Created n]) @ [Release n])"
    using assms(1) by (simp add: backed_def calm_def del: append_assoc)
  moreover have "held ((zc_calls s @ [Created n]) @ [Release n]) k = held (zc_calls s) k" for k
    by (simp del: append_assoc)
  ultimately show ?thesis
    using assms(1) Some by (simp add: keep_one_def backed_def)
qed

lemma observer_backed:
  "backed s \<Longrightarrow> 0 < held (zc_calls s) m \<Longrightarrow> i < ZC_MAX_BROWSERS \<Longrightarrow> backed (with_host E m (add_observer E i m) s)"
  by (rule with_host_backed(1)) (simp_all add: add_observer_def Let_def owners_keep del: owners_simps(3))

lemma adopt_backed:
  assumes "backed s" "i < ZC_MAX_BROWSERS"
  shows "backed (snd (adopt E i a s))"
  using assms keep_one_backed [OF assms]
  by (auto simp: adopt_def Let_def intro!: backed_steps observer_backed held_owner split: option.splits)

lemma create_backed:
  assumes "in_table E" "backed s"
  shows "backed (snd (zan_cef_create E p r u s))"
  using assms
  by (auto simp: zan_cef_create_def ask_create_def Let_def intro!: adopt_backed backed_fields deliver_backed backed_call
      fresh_backed dest: zc_slot_Some split: prod.splits option.splits)

lemma window_backed: "backed s \<Longrightarrow> backed (snd (zan_cef_window E h s))"
  by (auto simp: zan_cef_window_def intro!: with_host_backed owned_held split: option.splits)

lemma held_slot: "backed t \<Longrightarrow> owners t ! i = Some n \<Longrightarrow> i < ZC_MAX_BROWSERS \<Longrightarrow> 0 < held (zc_calls t) n"
  using held_owner owners_nth by metis

lemma owned_slot: "backed s \<Longrightarrow> owned h s = Some n \<Longrightarrow> owners s ! nat (h - 1) = Some n \<and> nat (h - 1) < ZC_MAX_BROWSERS"
  using owned_Some owners_nth by metis

lemma set_visible_backed:
  assumes "backed s"
  shows "backed (zan_cef_set_visible E h v s) \<and> owners (zan_cef_set_visible E h v s) = owners s"
proof (cases "owned h s")
  case (Some n)
  let ?s0 = "upd (nat (h - 1)) (\<lambda>b. b\<lparr> b_shown := if v \<noteq> 0 then 1 else 0 \<rparr>) s"
  obtain wnd s1 where w: "zan_cef_window E h ?s0 = (wnd, s1)" by fastforce
  have s0: "backed ?s0" "owners ?s0 = owners s"
    using assms by (auto intro: backed_upd simp: owners_keep simp del: owners_simps(3))
  have s1: "backed s1 \<and> owners s1 = owners s"
    using window_backed [OF s0(1), of E h] s0(2) w with_host_backed [OF s0(1) owned_held [OF s0(1)]]
    by (auto simp: zan_cef_window_def simp del: owners_simps(3) split: option.splits)
  have c: "backed (with_host E n (call (HostCall n f)) t) \<and> owners (with_host E n (call (HostCall n f)) t) = owners s"
    if "backed t" "owners t = owners s" for f t
    using with_host_backed [OF that(1), of n "call (HostCall n f)" f E] held_slot [OF that(1)] owned_slot [OF assms Some] that(2)
    by auto
  show ?thesis
    using Some assms s1 by (auto simp: zan_cef_set_visible_def w Let_def intro!: c [THEN conjunct1] c [THEN conjunct2] backed_call)
qed (simp add: zan_cef_set_visible_def assms)

lemma close_backed: "backed s \<Longrightarrow> backed (zan_cef_close E h s)"
  using set_visible_backed [of s E h 0] owned_slot [of s h]
  by (auto simp: zan_cef_close_def intro!: with_host_backed held_slot split: option.splits)

lemma set_bounds_backed:
  assumes "backed s"
  shows "backed (zan_cef_set_bounds E h r s)"
proof -
  obtain x y w hh where r: "r = (x, y, w, hh)" using prod_cases4 by blast
  obtain wnd s1 where w: "zan_cef_window E h s = (wnd, s1)" by fastforce
  then have "backed s1" using window_backed [OF assms, of E h] by simp
  then show ?thesis
    unfolding zan_cef_set_bounds_def r w resize_x11_def
    by (auto simp: Let_def intro!: backed_steps split: option.splits xserver.splits)
qed

lemma get_zoom_backed: "backed s \<Longrightarrow> backed (snd (zan_cef_get_zoom E h s))"
  by (auto simp: zan_cef_get_zoom_def intro!: with_host_backed owned_held split: option.splits)

lemma url_backed: "backed s \<Longrightarrow> backed (snd (zan_cef_url E h s))"
  by (auto simp: zan_cef_url_def fetch_url_def Let_def owners_keep simp del: owners_simps(3)
      intro!: with_frame_backed held_owner dest: zc_get_Some split: option.splits)

lemma cdp_send_backed:
  assumes "backed s"
  shows "backed (snd (zan_cef_cdp_send E h m p s))"
proof (cases "owned h s")
  case (Some n)
  define i where "i = nat (h - 1)"
  define t where "t = upd i (\<lambda>b. b\<lparr> b_cdp_id := b_cdp_id b + 1 \<rparr>) (call (GetHost n) s)"
  have o: "owners t = owners s" unfolding t_def by (simp add: owners_keep del: owners_simps(3))
  have "calm ((zc_calls s @ [GetHost n]) @ [ReleaseHost n])" "calm (((zc_calls s @ [GetHost n]) @ [HostCall n f]) @ [ReleaseHost n])" for f
    using assms owned_held [OF assms Some] by (simp_all add: backed_def calm_def del: append_assoc)
  moreover have "held ((zc_calls s @ [GetHost n]) @ [ReleaseHost n]) k = held (zc_calls s) k"
    "held (((zc_calls s @ [GetHost n]) @ [HostCall n f]) @ [ReleaseHost n]) k = held (zc_calls s) k" for f k
    by (simp_all del: append_assoc)
  ultimately have "backed (call (ReleaseHost n) t)" "backed (call (ReleaseHost n) (call (HostCall n f) t))" for f
    using assms o by (simp_all add: backed_def t_def owners_keep del: owners_simps(3))
  then show ?thesis
    using Some assms by (auto simp: zan_cef_cdp_send_def send_cdp_def Let_def i_def t_def split: prod.splits)
qed (simp add: zan_cef_cdp_send_def assms)

lemma take_popup_backed: "backed s \<Longrightarrow> backed (snd (zan_cef_take_popup_url E h s))"
  by (auto simp: zan_cef_take_popup_url_def Let_def intro!: backed_upd split: option.splits)

lemma cdp_take_backed: "backed s \<Longrightarrow> backed (snd (zan_cef_cdp_take h s))"
  by (auto simp: zan_cef_cdp_take_def zc_queue_take_def Let_def intro!: backed_upd split: option.splits)

lemma step_backed: "in_table E \<Longrightarrow> backed s \<Longrightarrow> backed (cef_step E c s)"
  by (cases c)
    (auto simp: zan_cef_work_def zan_cef_set_clip_def zan_cef_set_focus_def zan_cef_set_zoom_def zan_cef_find_def
      zan_cef_stop_find_def zan_cef_print_def zan_cef_show_devtools_def zan_cef_close_devtools_def zan_cef_navigate_def
      zan_cef_back_def zan_cef_forward_def zan_cef_reload_def zan_cef_stop_def zan_cef_execute_js_def
      zan_cef_set_popup_policy_def set_visible_backed execute_backed init_backed shutdown_backed create_backed close_backed
      window_backed set_bounds_backed get_zoom_backed url_backed cdp_send_backed take_popup_backed cdp_take_backed
      intro!: backed_steps split: option.splits)

lemma boot_backed: "backed zc_boot"
  by (simp add: backed_def zc_boot_def calm_def owners_def stored_def zc_zero_def count_list_eq_length_filter)

lemma fold_step_backed: "in_table E \<Longrightarrow> backed s \<Longrightarrow> backed (fold (cef_step E) ops s)"
  by (induction ops arbitrary: s) (simp_all add: step_backed)

lemma run_backed: "in_table E \<Longrightarrow> backed (cef_run E ops)"
  by (simp add: cef_run_def fold_step_backed boot_backed)

section \<open>Property\<close>

text \<open>
  C29. The driver owns what it uses. After every program, with every behaviour of CEF that calls handlers
  of the table only, each call on a browser, a host or a frame was made while a reference to it was held,
  and no reference was released that was not held; hosts and frames are given back, and a browser is
  backed by at least as many references as slots store it.
\<close>

theorem cef_calls_owned:
  assumes "in_table E"
  shows "calm (zc_calls (cef_run E ops)) \<and> (\<forall>n. stored (owners (cef_run E ops)) n \<le> held (zc_calls (cef_run E ops)) n)"
  using run_backed [OF assms, of ops] by (simp add: backed_def)

text \<open>A popup that takes the place of its opener while a browser is created and closed again.\<close>

definition noisy_cef :: cef_env where
  "noisy_cef = \<lparr> e_host = (\<lambda>_ _. True), e_frame = (\<lambda>_ _. True), e_window = (\<lambda>_ _. 5), e_x = (\<lambda>_. XFull), e_mem = (\<lambda>_. True),
     e_send = (\<lambda>_ _. True), e_zoom = (\<lambda>_ _. 0), e_url = (\<lambda>_ _. None), e_create = (\<lambda>_. Some 7), e_reg = (\<lambda>_. Some 1),
     e_events = (\<lambda>_. [AfterCreated 0 7, BeforeClose 0 8, AfterCreated 0 8]), e_open = (\<lambda>_. True), e_sym = (\<lambda>_. True),
     e_hash = Some [], e_platform_hash = [], e_readable = (\<lambda>_. True), e_cmdline = None, e_log_on = False, e_log_file = None,
     e_module = None, e_init = (\<lambda>_. True), e_exec = (\<lambda>_. 0) \<rparr>"

theorem cef_calls_owned_witness:
  "calm (zc_calls (cef_run noisy_cef
    [InitOp [47] None None None None False, CreateOp 0 (0, 0, 1, 1) None, NavigateOp 1 (Some [98]), CloseOp 1, ShutdownOp]))"
  by (rule cef_calls_owned [THEN conjunct1]) (simp add: in_table_def noisy_cef_def ZC_MAX_BROWSERS_def)

end
