(* ===== verification/Cef_Lifecycle.thy ===== *)
theory Cef_Lifecycle
  imports Cef_Ownership
begin

text \<open>
  Start and end of CEF along every program, and the handles of the browsers: the order of the calls
  that bring CEF up, run it and take it down, and what a new handle refers to.
\<close>

section \<open>Order of the calls\<close>

definition started :: "past \<Rightarrow> bool" where
  "started cs \<longleftrightarrow> (\<exists>c\<in>set cs. case c of Initialize a k \<Rightarrow> True | _ \<Rightarrow> False)"

fun in_order :: "past \<Rightarrow> cef_call \<Rightarrow> bool" where
  "in_order cs Work = (started cs \<and> Shutdown \<notin> set cs)"
| "in_order cs (CreateSync p r u) = (started cs \<and> Shutdown \<notin> set cs)"
| "in_order cs Shutdown = (started cs \<and> Shutdown \<notin> set cs)"
| "in_order cs (Initialize a k) = (Shutdown \<notin> set cs)"
| "in_order cs c = True"

definition ordered :: "past \<Rightarrow> bool" where
  "ordered cs \<longleftrightarrow> (\<forall>k<length cs. in_order (take k cs) (cs ! k))"

lemma ordered_Nil [simp]: "ordered []"
  by (simp add: ordered_def)

lemma ordered_snoc [simp]: "ordered (cs @ [c]) \<longleftrightarrow> ordered cs \<and> in_order cs c"
  by (auto simp: ordered_def nth_append less_Suc_eq)

lemma started_snoc [simp]: "started (cs @ [c]) \<longleftrightarrow> started cs \<or> (case c of Initialize a k \<Rightarrow> True | _ \<Rightarrow> False)"
  by (auto simp: started_def)

text \<open>A state of which the flags tell how far CEF is.\<close>

definition staged :: "zc \<Rightarrow> bool" where
  "staged s \<longleftrightarrow> ordered (zc_calls s) \<and> (zc_ready s \<longrightarrow> started (zc_calls s) \<and> \<not> zc_shut s) \<and>
     (Shutdown \<in> set (zc_calls s) \<longrightarrow> zc_shut s)"

section \<open>Quiet steps\<close>

text \<open>Steps that leave the flags and make none of the four calls.\<close>

fun loud :: "cef_call \<Rightarrow> bool" where
  "loud Work = True"
| "loud (CreateSync p r u) = True"
| "loud Shutdown = True"
| "loud (Initialize a k) = True"
| "loud c = False"

inductive quiet :: "zc \<Rightarrow> zc \<Rightarrow> bool" where
  quiet_refl: "quiet s s"
| quiet_call: "quiet s t \<Longrightarrow> \<not> loud c \<Longrightarrow> quiet s (call c t)"
| quiet_table: "quiet s t \<Longrightarrow> zc_calls u = zc_calls t \<Longrightarrow> zc_ready u = zc_ready t \<Longrightarrow> zc_shut u = zc_shut t \<Longrightarrow> quiet s u"

lemma quiet_trans: "quiet t u \<Longrightarrow> quiet s t \<Longrightarrow> quiet s u"
  by (induction rule: quiet.induct) (auto intro: quiet.intros)

lemma flags_simps [simp]:
  "zc_ready (call c s) = zc_ready s" "zc_shut (call c s) = zc_shut s"
  "zc_ready (upd i f s) = zc_ready s" "zc_shut (upd i f s) = zc_shut s"
  "zc_ready (zc_fail e s) = zc_ready s" "zc_shut (zc_fail e s) = zc_shut s"
  by (simp_all add: call_def upd_def zc_fail_def)

lemma not_loud: "\<not> loud c \<Longrightarrow> in_order cs c \<and> \<not> (case c of Initialize a k \<Rightarrow> True | _ \<Rightarrow> False) \<and> c \<noteq> Shutdown"
  by (cases c) simp_all

lemma quiet_facts:
  "quiet s t \<Longrightarrow> zc_ready t = zc_ready s \<and> zc_shut t = zc_shut s \<and> started (zc_calls t) = started (zc_calls s) \<and>
   ordered (zc_calls t) = ordered (zc_calls s) \<and> (Shutdown \<in> set (zc_calls t)) = (Shutdown \<in> set (zc_calls s))"
  by (induction rule: quiet.induct) (auto dest: not_loud)

lemma quiet_staged: "quiet s t \<Longrightarrow> staged s \<Longrightarrow> staged t"
  using quiet_facts [of s t] by (simp add: staged_def)

lemma quiet_upd: "quiet s t \<Longrightarrow> quiet s (upd i f t)"
  by (erule quiet_table) simp_all

lemma quiet_fail: "quiet s t \<Longrightarrow> quiet s (zc_fail e t)"
  by (erule quiet_table) simp_all

lemma quiet_with_host: "(\<And>s t. quiet s t \<Longrightarrow> quiet s (g t)) \<Longrightarrow> quiet s t \<Longrightarrow> quiet s (with_host E n g t)"
  by (simp add: with_host_def quiet_call)

lemma quiet_with_frame: "(\<And>s t. quiet s t \<Longrightarrow> quiet s (g t)) \<Longrightarrow> quiet s t \<Longrightarrow> quiet s (with_frame E n g t)"
  by (simp add: with_frame_def quiet_call)

lemma quiet_host_call: "quiet s t \<Longrightarrow> quiet s (with_host E n (call (HostCall n f)) t)"
  by (rule quiet_with_host) (auto intro: quiet_call)

lemma quiet_on_host: "quiet s t \<Longrightarrow> quiet s (on_host E h f t)"
  by (auto simp: on_host_def intro: quiet_host_call split: option.splits)

lemma quiet_on_frame: "quiet s t \<Longrightarrow> quiet s (on_frame E h f t)"
  by (auto simp: on_frame_def intro!: quiet_with_frame quiet_call split: option.splits)

lemma quiet_on_browser: "quiet s t \<Longrightarrow> quiet s (on_browser h f t)"
  by (auto simp: on_browser_def intro!: quiet_call split: option.splits)

lemmas quiet_steps = quiet_upd quiet_fail quiet_call quiet_host_call quiet_on_host quiet_on_frame quiet_on_browser

lemma quiet_handle: "quiet s t \<Longrightarrow> quiet s (handle E e t)"
  by (cases e)
    (auto intro!: quiet_steps simp: zc_on_before_popup_def Let_def zc_on_before_close_def zc_on_after_created_def
      zc_do_close_def zc_on_loading_state_change_def zc_on_load_start_def zc_on_load_end_def zc_on_load_error_def
      zc_on_address_change_def zc_on_title_change_def zc_on_take_focus_def zc_on_dev_tools_message_def zc_on_agent_def
      split: option.splits)

lemma quiet_fold: "(\<And>x s t. quiet s t \<Longrightarrow> quiet s (g x t)) \<Longrightarrow> quiet s t \<Longrightarrow> quiet s (fold g xs t)"
  by (induction xs arbitrary: t) simp_all

lemma quiet_deliver: "quiet s t \<Longrightarrow> quiet s (deliver E t)"
  by (simp add: deliver_def quiet_fold quiet_handle)

lemma quiet_close_slot: "quiet s t \<Longrightarrow> quiet s (close_slot E i t)"
  by (auto simp: close_slot_def Let_def intro!: quiet_host_call split: option.splits)

lemma quiet_window: "quiet s t \<Longrightarrow> quiet s (snd (zan_cef_window E h t))"
  by (auto simp: zan_cef_window_def intro!: quiet_host_call split: option.splits)

lemma quiet_set_visible: "quiet s t \<Longrightarrow> quiet s (zan_cef_set_visible E h v t)"
  by (auto simp: zan_cef_set_visible_def Let_def case_prod_unfold intro!: quiet_steps quiet_window split: option.splits)

lemma quiet_set_bounds: "quiet s t \<Longrightarrow> quiet s (zan_cef_set_bounds E h r t)"
  by (auto simp: zan_cef_set_bounds_def resize_x11_def Let_def case_prod_unfold intro!: quiet_steps quiet_window
      split: option.splits xserver.splits)

lemma quiet_load: "quiet s t \<Longrightarrow> quiet s (snd (zc_load E d t))"
  by (auto simp: zc_load_def intro: quiet_fail quiet_table split: option.splits)

section \<open>Every program\<close>

lemma turn_staged: "staged s \<and> zc_ready s \<Longrightarrow> staged (turn E s) \<and> zc_ready (turn E s)"
proof -
  assume s: "staged s \<and> zc_ready s"
  then have "staged (call Work s)" "zc_ready (call Work s)" by (auto simp: staged_def)
  moreover have "quiet (call Work s) (turn E s)" unfolding turn_def by (rule quiet_deliver) (rule quiet_refl)
  ultimately show ?thesis using quiet_staged quiet_facts by blast
qed

lemma turns_staged: "staged s \<and> zc_ready s \<Longrightarrow> staged ((turn E ^^ k) s) \<and> zc_ready ((turn E ^^ k) s)"
  by (induction k) (use turn_staged in simp_all)

lemma shutdown_staged:
  assumes "staged s"
  shows "staged (zan_cef_shutdown E s)"
proof (cases "zc_ready s \<and> \<not> zc_shut s")
  case True
  define s1 where "s1 = fold (close_slot E) [0..<ZC_MAX_BROWSERS] s"
  define s2 where "s2 = (turn E ^^ 200) s1"
  define s3 where "s3 = deliver E (call Shutdown s2)"
  have "quiet s s1" unfolding s1_def by (intro quiet_fold quiet_close_slot quiet_refl)
  then have "staged s1 \<and> zc_ready s1" using assms True quiet_staged quiet_facts by blast
  then have s2: "staged s2 \<and> zc_ready s2" unfolding s2_def by (rule turns_staged)
  have "quiet (call Shutdown s2) s3" unfolding s3_def by (intro quiet_deliver quiet_refl)
  from quiet_facts [OF this] s2 have "ordered (zc_calls s3)" by (auto simp: staged_def)
  then show ?thesis
    using True unfolding zan_cef_shutdown_def s1_def [symmetric] Let_def s2_def [symmetric] s3_def [symmetric]
    by (simp add: staged_def)
qed (auto simp: zan_cef_shutdown_def assms)

lemma quiet_keep_one: "quiet s t \<Longrightarrow> quiet s (keep_one i n t)"
  by (auto simp: keep_one_def intro!: quiet_steps split: option.splits)

lemma quiet_observer: "quiet s t \<Longrightarrow> quiet s (with_host E m (add_observer E i m) t)"
  by (rule quiet_with_host) (auto simp: add_observer_def Let_def intro!: quiet_steps)

lemma quiet_adopt: "quiet s t \<Longrightarrow> quiet s (snd (adopt E i a t))"
  by (auto simp: adopt_def Let_def intro!: quiet_steps quiet_keep_one quiet_observer split: option.splits)

lemma create_staged:
  assumes "staged s"
  shows "staged (snd (zan_cef_create E p r u s))"
proof (cases "zan_cef_ready s \<and> zc_slot (zc_browsers s) \<noteq> None")
  case True
  then obtain i where i: "zc_slot (zc_browsers s) = Some i" by blast
  have ask: "staged (ask_create i p b u s)" for b
    using assms True by (auto simp: ask_create_def staged_def zan_cef_ready_def)
  have "quiet t (snd (adopt E i a (deliver E t)))" for t a
    by (intro quiet_adopt quiet_deliver quiet_refl)
  then have "staged t \<Longrightarrow> staged (snd (adopt E i a (deliver E t)))" for t a
    by (rule quiet_staged)
  then show ?thesis
    using True i ask by (auto simp: zan_cef_create_def Let_def split: prod.splits)
qed (use assms in \<open>auto simp: zan_cef_create_def staged_def split: prod.splits\<close>)

lemma quiet_export: "quiet s t \<Longrightarrow> quiet s (zc_export_helper_env E d sw t)"
  by (auto simp: zc_export_helper_env_def Let_def intro!: quiet_call)

lemma init_staged:
  assumes "staged s"
  shows "staged (snd (zan_cef_init E d c h l sw w s))"
proof (cases "zc_ready s \<or> zc_shut s")
  case False
  obtain ok s1 where l: "zc_load E d s = (ok, s1)" by fastforce
  define s2 where "s2 = s1\<lparr> zc_runtime := store_text 1024 d, zc_extra_switches := store_text 1024 (given sw) \<rparr>"
  define s3 where "s3 = zc_main_args E (zc_export_helper_env E d sw s2)"
  have q1: "quiet s s1" using quiet_load [OF quiet_refl, of s E d] l by simp
  have "quiet s s2" unfolding s2_def by (rule quiet_table [OF q1]) simp_all
  then have q3: "quiet s s3" unfolding s3_def zc_main_args_def by (rule quiet_table [OF quiet_export]) simp_all
  have "\<not> zc_shut s3" "\<not> zc_ready s3" "staged s3"
    using False assms quiet_facts [OF q3] quiet_staged [OF q3] by simp_all
  then have k: "staged (call (Initialize a k) s3)" "staged ((call (Initialize a k) s3)\<lparr> zc_ready := True \<rparr>)" for a k
    by (auto simp: staged_def)
  then show ?thesis
    using False quiet_staged [OF q1 assms] k quiet_staged [OF quiet_fail [OF quiet_refl]]
    unfolding zan_cef_init_def l Let_def prod.case s2_def [symmetric] s3_def [symmetric] by simp
qed (use assms in \<open>auto simp: zan_cef_init_def staged_def\<close>)

lemma execute_quiet: "quiet s t \<Longrightarrow> quiet s (snd (zan_cef_execute_process E d sw t))"
  using quiet_load [of s t E d]
  by (auto simp: zan_cef_execute_process_def zc_main_args_def Let_def intro!: quiet_call elim: quiet_table split: prod.splits)

lemma work_staged: "staged s \<Longrightarrow> staged (zan_cef_work E s)"
  using turn_staged by (auto simp: zan_cef_work_def)

lemma quiet_url: "quiet s t \<Longrightarrow> quiet s (snd (zan_cef_url E h t))"
  by (auto simp: zan_cef_url_def fetch_url_def Let_def intro!: quiet_with_frame quiet_steps split: option.splits)

lemma quiet_cdp_send: "quiet s t \<Longrightarrow> quiet s (snd (zan_cef_cdp_send E h m p t))"
  by (auto simp: zan_cef_cdp_send_def send_cdp_def Let_def intro!: quiet_steps split: option.splits prod.splits)

lemma step_staged: "staged s \<Longrightarrow> staged (cef_step E c s)"
  by (cases c)
    (auto simp: work_staged shutdown_staged create_staged init_staged, auto elim!: quiet_staged [rotated]
      intro!: quiet_steps quiet_refl quiet_window quiet_set_visible quiet_set_bounds execute_quiet quiet_url quiet_cdp_send
      simp: zan_cef_set_clip_def zan_cef_set_focus_def zan_cef_set_zoom_def zan_cef_find_def zan_cef_close_def
      zan_cef_stop_find_def zan_cef_print_def zan_cef_show_devtools_def zan_cef_close_devtools_def zan_cef_navigate_def
      zan_cef_back_def zan_cef_forward_def zan_cef_reload_def zan_cef_stop_def zan_cef_execute_js_def zan_cef_get_zoom_def
      zan_cef_set_popup_policy_def zan_cef_take_popup_url_def zan_cef_cdp_take_def Let_def case_prod_unfold split: option.splits)

lemma boot_staged: "staged zc_boot"
  by (simp add: staged_def zc_boot_def)

lemma fold_step_staged: "staged s \<Longrightarrow> staged (fold (cef_step E) ops s)"
  by (induction ops arbitrary: s) (simp_all add: step_staged)

section \<open>Property\<close>

lemma ordered_once: "ordered cs \<Longrightarrow> count_list cs Shutdown \<le> 1"
proof (induction cs rule: rev_induct)
  case (snoc c cs)
  then show ?case by (cases "c = Shutdown") (auto simp: count_list_0_iff)
qed simp


end
