(* ===== verification/Cef_Slots.thy ===== *)
theory Cef_Slots
  imports Cef_Lifecycle Dispatch_Queue
begin

text \<open>
  The slots of the CEF driver: the ring of DevTools messages as a queue that drops its oldest entry,
  and what holds of every slot after every program.
\<close>

section \<open>The message ring\<close>

definition cdp_items :: "zc_browser \<Rightarrow> cstr list" where
  "cdp_items b = map the (ring_slots (b_queue b) ZC_MAX_CDP_QUEUE (b_head b) (b_count b))"

definition cdp_ok :: "zc_browser \<Rightarrow> bool" where
  "cdp_ok b \<longleftrightarrow> length (b_queue b) = ZC_MAX_CDP_QUEUE \<and> b_head b < ZC_MAX_CDP_QUEUE \<and> b_count b \<le> ZC_MAX_CDP_QUEUE \<and>
     None \<notin> set (ring_slots (b_queue b) ZC_MAX_CDP_QUEUE (b_head b) (b_count b)) \<and> 0 \<le> b_dropped b"

lemma ring_index_inj: "h < c \<Longrightarrow> k < c \<Longrightarrow> j < c \<Longrightarrow> (h + k) mod c = (h + j) mod c \<Longrightarrow> k = (j :: nat)"
  by (auto simp: mod_if split: if_splits)

lemma length_ring_slots [simp]: "length (ring_slots r c h n) = n"
  by (simp add: ring_slots_def)

lemma ring_slots_other:
  "(\<And>k. k < n \<Longrightarrow> t \<noteq> (h + k) mod c) \<Longrightarrow> ring_slots (r[t := x]) c h n = ring_slots r c h n"
  by (simp add: ring_slots_def)

text \<open>Removing the first of the slots, and adding behind the last.\<close>

lemma ring_slots_drop:
  assumes "h < c" "Suc n \<le> c"
  shows "ring_slots (r[h := x]) c ((h + 1) mod c) n = tl (ring_slots r c h (Suc n))"
proof -
  have "h \<noteq> ((h + 1) mod c + k) mod c" if "k < n" for k
  proof -
    have "((h + 1) mod c + k) mod c = (h + (k + 1)) mod c"
      by (metis add.assoc add.commute mod_add_left_eq)
    then show ?thesis using ring_index_inj [of h c "k + 1" 0] that assms by auto
  qed
  then show ?thesis using assms(1) by (simp add: ring_slots_Suc ring_slots_other)
qed

lemma ring_slots_add:
  assumes "h < c" "n < c" "length r = c"
  shows "ring_slots (r[(h + n) mod c := x]) c h (Suc n) = ring_slots r c h n @ [x]"
proof -
  have "(h + n) mod c \<noteq> (h + k) mod c" if "k < n" for k
    using ring_index_inj [of h c n k] that assms by auto
  then show ?thesis using assms by (simp add: ring_slots_snoc ring_slots_other)
qed

lemma cdp_cap_pos: "0 < ZC_MAX_CDP_QUEUE"
  by (simp add: ZC_MAX_CDP_QUEUE_def)

lemma length_cdp_items: "length (cdp_items b) = b_count b"
  by (simp add: cdp_items_def ring_slots_def)

text \<open>The oldest message away, as both the full push and the take do it.\<close>

lemma cdp_drop:
  fixes b :: zc_browser
  defines "r \<equiv> ring_slots ((b_queue b)[b_head b := None]) ZC_MAX_CDP_QUEUE ((b_head b + 1) mod ZC_MAX_CDP_QUEUE) (b_count b - 1)"
  assumes "cdp_ok b" "0 < b_count b"
  shows "map the r = tl (cdp_items b)" "None \<notin> set r"
proof -
  obtain n where n: "b_count b = Suc n" using assms(3) by (cases "b_count b") auto
  have "r = tl (ring_slots (b_queue b) ZC_MAX_CDP_QUEUE (b_head b) (b_count b))"
    unfolding r_def using assms(2) n ring_slots_drop [of "b_head b" ZC_MAX_CDP_QUEUE n "b_queue b" None]
    by (simp add: cdp_ok_def)
  then show "map the r = tl (cdp_items b)" "None \<notin> set r"
    using assms(2) list.set_sel(2) [of "ring_slots (b_queue b) ZC_MAX_CDP_QUEUE (b_head b) (b_count b)" None] n
    by (auto simp: cdp_items_def cdp_ok_def map_tl simp del: ring_slots_Suc) (metis length_ring_slots list.size(3) nat.distinct(1))
qed

lemma cdp_push_facts:
  assumes "cdp_ok b"
  shows "cdp_items (zc_queue_push (Some m) b) =
      (if length (cdp_items b) = ZC_MAX_CDP_QUEUE then tl (cdp_items b) else cdp_items b) @ [m] \<and>
    b_dropped (zc_queue_push (Some m) b) = b_dropped b + (if length (cdp_items b) = ZC_MAX_CDP_QUEUE then 1 else 0) \<and>
    cdp_ok (zc_queue_push (Some m) b)"
proof (cases "b_count b = ZC_MAX_CDP_QUEUE")
  case True
  let ?b = "b\<lparr> b_queue := (b_queue b)[b_head b := None], b_head := (b_head b + 1) mod ZC_MAX_CDP_QUEUE, b_count := b_count b - 1 \<rparr>"
  have "0 < b_count b" using True cdp_cap_pos by simp
  note d = cdp_drop [OF assms this]
  have "ring_slots ((b_queue ?b)[(b_head ?b + b_count ?b) mod ZC_MAX_CDP_QUEUE := Some m]) ZC_MAX_CDP_QUEUE (b_head ?b) (Suc (b_count ?b)) =
    ring_slots (b_queue ?b) ZC_MAX_CDP_QUEUE (b_head ?b) (b_count ?b) @ [Some m]"
    using assms True cdp_cap_pos by (intro ring_slots_add) (simp_all add: cdp_ok_def)
  then show ?thesis
    using d assms True cdp_cap_pos by (auto simp: zc_queue_push_def Let_def length_cdp_items cdp_items_def [of "_ \<lparr> b_count := _ \<rparr>"] cdp_ok_def)
next
  case False
  then have "ring_slots ((b_queue b)[(b_head b + b_count b) mod ZC_MAX_CDP_QUEUE := Some m]) ZC_MAX_CDP_QUEUE (b_head b) (Suc (b_count b)) =
    ring_slots (b_queue b) ZC_MAX_CDP_QUEUE (b_head b) (b_count b) @ [Some m]"
    using assms by (intro ring_slots_add) (simp_all add: cdp_ok_def)
  then show ?thesis
    using assms False by (auto simp: zc_queue_push_def Let_def length_cdp_items cdp_items_def cdp_ok_def)
qed

lemma cdp_take_facts:
  assumes "cdp_ok b"
  shows "cdp_items b = [] \<Longrightarrow> zc_queue_take b = (None, b)"
    "cdp_items b = m # ms \<Longrightarrow> fst (zc_queue_take b) = Some m \<and> cdp_items (snd (zc_queue_take b)) = ms"
    "cdp_ok (snd (zc_queue_take b))"
proof -
  show "cdp_items b = [] \<Longrightarrow> zc_queue_take b = (None, b)"
    using length_cdp_items [of b] by (simp add: zc_queue_take_def)
  show "fst (zc_queue_take b) = Some m \<and> cdp_items (snd (zc_queue_take b)) = ms" if i: "cdp_items b = m # ms"
  proof -
    have pos: "0 < b_count b" using i length_cdp_items [of b] by simp
    then obtain n where n: "b_count b = Suc n" by (cases "b_count b") auto
    then have "b_queue b ! b_head b = Some m"
      using assms i by (cases "b_queue b ! b_head b") (auto simp: cdp_ok_def cdp_items_def ring_slots_Suc)
    then show ?thesis
      using cdp_drop [OF assms pos] pos i by (auto simp: zc_queue_take_def cdp_items_def [of "_ \<lparr> b_count := _ \<rparr>"])
  qed
  show "cdp_ok (snd (zc_queue_take b))"
    using assms cdp_drop [OF assms] by (auto simp: zc_queue_take_def cdp_ok_def)
qed

interpretation cdp: lossy_queue cdp_items cdp_ok zc_queue_take "\<lambda>m. zc_queue_push (Some m)" ZC_MAX_CDP_QUEUE
  "\<lambda>b. nat (b_dropped b)"
proof
  show "length (cdp_items b) \<le> ZC_MAX_CDP_QUEUE" if "cdp_ok b" for b
    using that by (simp add: length_cdp_items cdp_ok_def)
  show "nat (b_dropped (zc_queue_push (Some m) b)) = nat (b_dropped b) + (if length (cdp_items b) = ZC_MAX_CDP_QUEUE then 1 else 0)"
    if "cdp_ok b" for b m
    using that cdp_push_facts [OF that, of m] by (simp add: cdp_ok_def nat_add_distrib)
  show "nat (b_dropped (snd (zc_queue_take b))) = nat (b_dropped b)" for b
    by (simp add: zc_queue_take_def)
qed (use cdp_take_facts cdp_push_facts cdp_cap_pos in auto)

section \<open>Every slot\<close>

text \<open>
  The record of a slot as the code keeps it: texts that fit their buffers with the terminator, a ring
  that is in order, flags and counters in their ranges, and a size of at least one pixel while used.
\<close>

definition wf_slot :: "zc_browser \<Rightarrow> bool" where
  "wf_slot b \<longleftrightarrow> length (b_url b) < 2048 \<and> length (b_title b) < 512 \<and> length (b_popup_url b) < 2048 \<and> cdp_ok b \<and>
     b_shown b \<in> {-1, 0, 1} \<and> 0 \<le> b_nav_seq b \<and> 0 \<le> b_cdp_id b \<and> 0 \<le> b_popup_dropped b \<and>
     (b_used b \<longrightarrow> (case b_bounds b of (x, y, w, h) \<Rightarrow> 1 \<le> w \<and> 1 \<le> h))"

definition wf_table :: "zc \<Rightarrow> bool" where
  "wf_table s \<longleftrightarrow> length (zc_browsers s) = ZC_MAX_BROWSERS \<and> list_all wf_slot (zc_browsers s)"

lemma wf_slots: "wf_table s \<Longrightarrow> i < ZC_MAX_BROWSERS \<Longrightarrow> wf_slot (br i s)"
  by (simp add: wf_table_def br_def list_all_length)

lemma wf_upd: "wf_table s \<Longrightarrow> (i < ZC_MAX_BROWSERS \<Longrightarrow> wf_slot (br i s) \<Longrightarrow> wf_slot (f (br i s))) \<Longrightarrow> wf_table (upd i f s)"
  by (cases "i < ZC_MAX_BROWSERS")
    (auto simp: wf_table_def br_def list_all_length nth_list_update)

lemma wf_simps [simp]:
  "wf_table (call c s) = wf_table s" "wf_table (zc_fail e s) = wf_table s"
  "wf_table (s\<lparr> zc_ready := b \<rparr>) = wf_table s" "wf_table (s\<lparr> zc_shut := b \<rparr>) = wf_table s"
  "wf_table (s\<lparr> zc_argv := v \<rparr>) = wf_table s" "wf_table (s\<lparr> zc_runtime := t \<rparr>) = wf_table s"
  "wf_table (s\<lparr> zc_extra_switches := t \<rparr>) = wf_table s" "wf_table (s\<lparr> zc_lib := b \<rparr>) = wf_table s"
  by (simp_all add: wf_table_def)

lemma length_zc_str_get: "1 < cap \<Longrightarrow> length (zc_str_get cap t) < cap"
  by (auto simp: zc_str_get_def split: option.splits)

text \<open>Updates of one field that a slot allows.\<close>

lemma cdp_ok_cong:
  "cdp_ok b \<Longrightarrow> b_queue c = b_queue b \<Longrightarrow> b_head c = b_head b \<Longrightarrow> b_count c = b_count b \<Longrightarrow>
   b_dropped c = b_dropped b \<Longrightarrow> cdp_ok c"
  by (simp add: cdp_ok_def)

lemma cdp_ok_fields [simp]:
  "cdp_ok (b\<lparr> b_browser := v \<rparr>) = cdp_ok b" "cdp_ok (b\<lparr> b_cdp_reg := v \<rparr>) = cdp_ok b" "cdp_ok (b\<lparr> b_url := t \<rparr>) = cdp_ok b"
  "cdp_ok (b\<lparr> b_title := t \<rparr>) = cdp_ok b" "cdp_ok (b\<lparr> b_popup_url := t \<rparr>) = cdp_ok b" "cdp_ok (b\<lparr> b_shown := k \<rparr>) = cdp_ok b"
  "cdp_ok (b\<lparr> b_bounds := r \<rparr>) = cdp_ok b" "cdp_ok (b\<lparr> b_clip := cl \<rparr>) = cdp_ok b" "cdp_ok (b\<lparr> b_used := f \<rparr>) = cdp_ok b"
  "cdp_ok (b\<lparr> b_gone := f \<rparr>) = cdp_ok b" "cdp_ok (b\<lparr> b_closing := f \<rparr>) = cdp_ok b" "cdp_ok (b\<lparr> b_cdp_id := k \<rparr>) = cdp_ok b"
  "cdp_ok (b\<lparr> b_cdp_attached := f \<rparr>) = cdp_ok b" "cdp_ok (b\<lparr> b_host_focus := f \<rparr>) = cdp_ok b" "cdp_ok (b\<lparr> b_id := k \<rparr>) = cdp_ok b"
  "cdp_ok (b\<lparr> b_popup_policy := k \<rparr>) = cdp_ok b" "cdp_ok (b\<lparr> b_popup_dropped := k \<rparr>) = cdp_ok b" "cdp_ok (b\<lparr> b_taken := cl \<rparr>) = cdp_ok b"
  "cdp_ok (b\<lparr> b_taken_popup := cl \<rparr>) = cdp_ok b" "cdp_ok (b\<lparr> b_nav_seq := k \<rparr>) = cdp_ok b" "cdp_ok (b\<lparr> b_loading := k \<rparr>) = cdp_ok b"
  "cdp_ok (b\<lparr> b_can_back := k \<rparr>) = cdp_ok b" "cdp_ok (b\<lparr> b_can_forward := k \<rparr>) = cdp_ok b"
  "cdp_ok (b\<lparr> b_last_status := k \<rparr>) = cdp_ok b" "cdp_ok (b\<lparr> b_last_error := k \<rparr>) = cdp_ok b"
  by (simp_all add: cdp_ok_def)

lemma wf_push: "wf_slot b \<Longrightarrow> wf_slot (zc_queue_push m b)"
proof (cases m)
  case (Some t)
  assume b: "wf_slot b"
  then have "cdp_ok (zc_queue_push (Some t) b)" using cdp_push_facts by (simp add: wf_slot_def)
  then show ?thesis using b Some by (auto simp: wf_slot_def zc_queue_push_def Let_def)
qed (simp add: zc_queue_push_def)

lemma wf_take: "wf_slot b \<Longrightarrow> wf_slot (snd (zc_queue_take b))"
proof -
  assume b: "wf_slot b"
  then have "cdp_ok (snd (zc_queue_take b))" using cdp_take_facts by (simp add: wf_slot_def)
  then show ?thesis using b by (auto simp: wf_slot_def zc_queue_take_def)
qed

lemma wf_message: "wf_table s \<Longrightarrow> wf_table (handle E (Message i m) s)"
  by (auto simp: zc_on_dev_tools_message_def intro!: wf_upd wf_push)

lemma wf_before_close: "wf_table s \<Longrightarrow> wf_table (zc_on_before_close i n s)"
  by (auto simp: zc_on_before_close_def Let_def wf_slot_def intro!: wf_upd split: option.splits)

lemma wf_handle: "wf_table s \<Longrightarrow> wf_table (handle E e s)"
proof (cases "\<exists>i m. e = Message i m")
  case False
  assume "wf_table s"
  with False show ?thesis
    by (cases e)
      (auto simp: zc_on_before_popup_def Let_def wf_before_close zc_on_after_created_def
        zc_do_close_def zc_on_loading_state_change_def zc_on_load_start_def zc_on_load_end_def zc_on_load_error_def
        zc_on_address_change_def zc_on_title_change_def zc_on_take_focus_def zc_on_agent_def
        length_zc_str_get wf_slot_def intro!: wf_upd)
qed (auto simp del: handle.simps intro: wf_message)

lemma wf_deliver: "wf_table s \<Longrightarrow> wf_table (deliver E s)"
proof -
  have "wf_table s \<Longrightarrow> wf_table (fold (handle E) es s)" for es s
    by (induction es arbitrary: s) (simp_all add: wf_handle)
  then show "wf_table s \<Longrightarrow> wf_table (deliver E s)" by (simp add: deliver_def)
qed

lemma wf_turns: "wf_table s \<Longrightarrow> wf_table ((turn E ^^ k) s)"
  by (induction k) (simp_all add: turn_def wf_deliver)

lemma wf_with_host [simp]: "wf_table (with_host E n (call c) s) = wf_table s"
  by (simp add: with_host_def)

lemma wf_on [simp]:
  "wf_table (on_host E h f s) = wf_table s" "wf_table (on_frame E h g s) = wf_table s" "wf_table (on_browser h k s) = wf_table s"
  by (simp_all add: on_host_def on_frame_def with_frame_def on_browser_def split: option.splits)

lemma wf_load [simp]: "wf_table (snd (zc_load E d s)) = wf_table s"
  by (auto simp: zc_load_def split: option.splits)

lemma wf_window [simp]: "wf_table (snd (zan_cef_window E h s)) = wf_table s"
  by (simp add: zan_cef_window_def split: option.splits)

lemma wf_close_slots: "wf_table s \<Longrightarrow> wf_table (fold (close_slot E) is s)"
  by (induction "is" arbitrary: s) (auto simp: close_slot_def Let_def split: option.splits)

lemma wf_shutdown: "wf_table s \<Longrightarrow> wf_table (zan_cef_shutdown E s)"
  by (simp add: zan_cef_shutdown_def Let_def wf_deliver wf_turns wf_close_slots)

lemma wf_zero: "wf_slot zc_zero"
  by (simp add: wf_slot_def zc_zero_def cdp_ok_def ring_slots_def ZC_MAX_CDP_QUEUE_def)

lemma wf_fresh:
  assumes "wf_slot b"
  shows "wf_slot (fresh_browser i (x, y, at_least_one w, at_least_one h) b)"
proof -
  have "wf_slot (if b_used b then zc_zero else b)" using assms wf_zero by simp
  then show ?thesis by (simp add: fresh_browser_def wf_slot_def at_least_one_def)
qed

lemma wf_adopt: "wf_table s \<Longrightarrow> wf_table (snd (adopt E i a s))"
  by (auto simp: adopt_def keep_one_def add_observer_def with_host_def Let_def wf_slot_def intro!: wf_upd split: option.splits)

lemma wf_create: "wf_table s \<Longrightarrow> wf_table (snd (zan_cef_create E p r u s))"
  by (auto simp: zan_cef_create_def ask_create_def Let_def intro!: wf_adopt wf_deliver wf_upd wf_fresh split: option.splits prod.splits)

lemma wf_export [simp]: "wf_table (zc_export_helper_env E d sw s) = wf_table s"
  by (simp add: zc_export_helper_env_def Let_def)

lemma wf_init: "wf_table s \<Longrightarrow> wf_table (snd (zan_cef_init E d c h l sw w s))"
  using wf_load [of E d s] by (auto simp: zan_cef_init_def zc_main_args_def Let_def split: prod.splits simp del: wf_load)

lemma wf_execute: "wf_table s \<Longrightarrow> wf_table (snd (zan_cef_execute_process E d sw s))"
  using wf_load [of E d s] by (auto simp: zan_cef_execute_process_def zc_main_args_def Let_def split: prod.splits simp del: wf_load)

lemma wf_set_visible: "wf_table s \<Longrightarrow> wf_table (zan_cef_set_visible E h v s)"
  by (auto simp: zan_cef_set_visible_def Let_def case_prod_unfold wf_slot_def intro!: wf_upd split: option.splits)

lemma wf_set_bounds: "wf_table s \<Longrightarrow> wf_table (zan_cef_set_bounds E h r s)"
  by (auto simp: zan_cef_set_bounds_def resize_x11_def Let_def case_prod_unfold wf_slot_def intro!: wf_upd split: option.splits xserver.splits)

lemma wf_url: "wf_table s \<Longrightarrow> wf_table (snd (zan_cef_url E h s))"
  by (auto simp: zan_cef_url_def fetch_url_def with_frame_def Let_def wf_slot_def length_zc_str_get intro!: wf_upd split: option.splits)

lemma wf_send: "wf_table s \<Longrightarrow> wf_table (snd (zan_cef_cdp_send E h m p s))"
  by (auto simp: zan_cef_cdp_send_def send_cdp_def Let_def case_prod_unfold wf_slot_def intro!: wf_upd split: option.splits)

lemma wf_take_message:
  assumes "wf_table s"
  shows "wf_table (snd (zan_cef_cdp_take h s))"
proof (cases "zc_get h s")
  case (Some i)
  let ?t = "upd i (\<lambda>_. snd (zc_queue_take (br i s))) s"
  have t: "wf_table ?t" using assms by (intro wf_upd wf_take)
  then have "wf_table (upd i (\<lambda>b. b\<lparr> b_taken := Some m \<rparr>) ?t)" for m
    by (rule wf_upd) (simp add: wf_slot_def)
  with t Some show ?thesis by (simp add: zan_cef_cdp_take_def Let_def case_prod_unfold split: option.splits)
qed (simp add: zan_cef_cdp_take_def assms)

lemma wf_step: "wf_table s \<Longrightarrow> wf_table (cef_step E c s)"
  by (cases c)
    (auto simp: wf_init wf_execute wf_shutdown wf_create wf_set_visible wf_set_bounds wf_url wf_send wf_take_message
      zan_cef_work_def turn_def wf_deliver zan_cef_set_clip_def zan_cef_set_zoom_def zan_cef_find_def zan_cef_close_def
      zan_cef_stop_find_def zan_cef_print_def zan_cef_show_devtools_def zan_cef_close_devtools_def zan_cef_navigate_def
      zan_cef_back_def zan_cef_forward_def zan_cef_reload_def zan_cef_stop_def zan_cef_execute_js_def zan_cef_get_zoom_def
      split: option.splits,
     auto simp: zan_cef_set_focus_def zan_cef_set_popup_policy_def zan_cef_take_popup_url_def Let_def wf_slot_def
       intro!: wf_upd split: option.splits)

lemma wf_boot: "wf_table zc_boot"
  using wf_zero by (simp add: wf_table_def zc_boot_def list_all_iff)

lemma wf_run: "wf_table (cef_run E ops)"
proof -
  have "wf_table s \<Longrightarrow> wf_table (fold (cef_step E) ops s)" for s
    by (induction ops arbitrary: s) (simp_all add: wf_step)
  then show ?thesis by (simp add: cef_run_def wf_boot)
qed

section \<open>Handles\<close>

lemma br_upd_keep: "(\<And>b. g (f b) = g b) \<Longrightarrow> g (br j (upd i f s)) = g (br j s)"
  by (cases "i < length (zc_browsers s)"; cases "i = j") (auto simp: br_def list_update_beyond not_less)

lemma push_id [simp]: "b_id (zc_queue_push m b) = b_id b"
  by (simp add: zc_queue_push_def Let_def split: option.splits)

lemma before_close_id: "b_id (br j (zc_on_before_close i n s)) = b_id (br j s)"
  by (simp add: zc_on_before_close_def Let_def br_upd_keep [of b_id] split: option.split)

lemma handle_id: "b_id (br j (handle E e s)) = b_id (br j s)"
  by (cases e)
    (simp_all add: zc_on_before_popup_def Let_def before_close_id zc_on_after_created_def
      zc_do_close_def zc_on_loading_state_change_def zc_on_load_start_def zc_on_load_end_def zc_on_load_error_def
      zc_on_address_change_def zc_on_title_change_def zc_on_take_focus_def zc_on_dev_tools_message_def zc_on_agent_def
      br_upd_keep [of b_id])

lemma deliver_id: "b_id (br j (deliver E s)) = b_id (br j s)"
proof -
  have "b_id (br j (fold (handle E) es s)) = b_id (br j s)" for es
    by (induction es arbitrary: s) (simp_all add: handle_id)
  then show ?thesis by (simp add: deliver_def)
qed

lemma br_fail: "br i (zc_fail e s) = br i s"
  by (simp add: br_def)

lemma zc_error_fail: "zc_error (zc_fail e s) = e"
  by (simp add: zc_fail_def)

lemma adopt_id:
  "fst (adopt E i a s) = (if a = None then 0 else b_id (br i s)) \<and> b_id (br i (snd (adopt E i a s))) = b_id (br i s) \<and>
   (a = None \<longrightarrow> zc_error (snd (adopt E i a s)) = CreateFailed)"
  by (auto simp: adopt_def keep_one_def add_observer_def with_host_def Let_def br_upd_keep [of b_id] br_fail zc_error_fail split: option.split)

text \<open>A new handle was free before, and its slot carries it.\<close>

lemma create_handle:
  assumes s: "wf_table s" and c: "zan_cef_create E p r u s = (h, t)"
  shows "(h = 0 \<and> zan_cef_last_error t \<in> {NotInitialized, TooMany, CreateFailed}) \<or>
    (1 \<le> h \<and> h \<le> int ZC_MAX_BROWSERS \<and> zan_cef_alive h s = 0 \<and> b_id (br (nat (h - 1)) t) = h)"
proof (cases "zan_cef_ready s")
  case True
  show ?thesis
  proof (cases "zc_slot (zc_browsers s)")
    case None
    with True c show ?thesis by (auto simp: zan_cef_create_def zan_cef_last_error_def zc_error_fail)
  next
    case (Some i)
    obtain x y w hh where r: "r = (x, y, w, hh)" using prod_cases4 by blast
    define s1 where "s1 = ask_create i p (x, y, at_least_one w, at_least_one hh) u s"
    have i: "i < ZC_MAX_BROWSERS" "\<not> b_used (br i s) \<or> b_gone (br i s)"
      using zc_slot_Some [OF Some] by (simp_all add: br_def)
    then have "b_id (br i s1) = int i + 1"
      using s by (simp add: s1_def ask_create_def wf_table_def fresh_browser_def)
    moreover have "adopt E i (e_create E (zc_calls s1)) (deliver E s1) = (h, t)"
      using c True Some r by (simp add: zan_cef_create_def s1_def Let_def)
    ultimately have "(h = 0 \<and> zc_error t = CreateFailed) \<or> (h = int i + 1 \<and> b_id (br i t) = int i + 1)"
      using adopt_id [of E i "e_create E (zc_calls s1)" "deliver E s1"] by (auto simp: deliver_id split: if_splits)
    then show ?thesis
      using i by (auto simp: zan_cef_last_error_def zan_cef_alive_def zc_get_def Let_def)
  qed
qed (use c in \<open>auto simp: zan_cef_create_def zan_cef_last_error_def zc_error_fail\<close>)

section \<open>After the end\<close>

lemma close_slots_browsers: "zc_browsers (fold (close_slot E) is s) = zc_browsers s"
  by (induction "is" arbitrary: s) (auto simp: close_slot_def with_host_def Let_def split: option.splits)

lemma turns_silent: "(\<And>cs. e_events E cs = []) \<Longrightarrow> zc_browsers ((turn E ^^ k) s) = zc_browsers s"
  by (induction k) (simp_all add: turn_def deliver_def)

lemma owned_cong: "zc_browsers t = zc_browsers s \<Longrightarrow> owned h t = owned h s"
  by (simp add: owned_def zc_get_def br_def Let_def)

text \<open>Without events the browsers outlive the end of CEF, and a navigation still reaches their frames.\<close>

lemma navigate_late:
  assumes silent: "\<And>cs. e_events E cs = []" and s: "zan_cef_ready s" "owned h s = Some n"
    and frame: "\<And>cs. e_frame E cs n"
  shows "\<exists>cs. zc_calls (zan_cef_navigate E h (Some u) (zan_cef_shutdown E s)) =
    cs @ [Shutdown, GetFrame n, FrameCall n (LoadUrl u), ReleaseFrame n]"
proof -
  have b: "zc_browsers (zan_cef_shutdown E s) = zc_browsers s"
    using s(1) by (simp add: zan_cef_shutdown_def zan_cef_ready_def Let_def deliver_def silent close_slots_browsers turns_silent)
  then have "owned h (zan_cef_shutdown E s) = Some n" using s(2) owned_cong by metis
  moreover have "\<exists>cs. zc_calls (zan_cef_shutdown E s) = cs @ [Shutdown]"
    using s(1) by (simp add: zan_cef_shutdown_def zan_cef_ready_def Let_def deliver_def silent)
  ultimately show ?thesis
    by (auto simp: zan_cef_navigate_def on_frame_def with_frame_def frame)
qed

section \<open>Properties\<close>



text \<open>
  C33. A handle that \<open>zan_cef_create\<close> returns lies between 1 and 64, referred to no living browser
  before the call, and is the identity of its slot afterwards; otherwise the result is 0 and one of
  three errors is recorded. This holds after every program.
\<close>

theorem zan_cef_create_handle:
  "case zan_cef_create E p r u (cef_run E ops) of (h, t) \<Rightarrow>
     (h = 0 \<and> zan_cef_last_error t \<in> {NotInitialized, TooMany, CreateFailed}) \<or>
     (1 \<le> h \<and> h \<le> int ZC_MAX_BROWSERS \<and> zan_cef_alive h (cef_run E ops) = 0 \<and> b_id (br (nat (h - 1)) t) = h)"
  using create_handle [OF wf_run] by (simp split: prod.split)

text \<open>
  C34. The close of any browser that shares the client takes the slot down. Whichever browser \<open>m\<close>
  CEF reports as closing, a popup for example, the handler marks the slot as gone, releases the
  browser of the slot and forgets it.
\<close>

theorem zc_on_before_close_any:
  assumes "wf_table s" "i < ZC_MAX_BROWSERS" "b_browser (br i s) = Some n"
  shows "zan_cef_alive (int i + 1) (handle E (BeforeClose i m) s) = 0 \<and>
    last (zc_calls (handle E (BeforeClose i m) s)) = Release n \<and> b_browser (br i (handle E (BeforeClose i m) s)) = None"
  using assms by (auto simp: wf_table_def zc_on_before_close_def zan_cef_alive_def zc_get_def Let_def split: option.splits)

text \<open>Slot 1 with browser 7, and the popup 8 that closes.\<close>

definition one_browser :: zc where
  "one_browser = upd 0 (\<lambda>b. b\<lparr> b_browser := Some 7 \<rparr>) zc_boot"

theorem zc_on_before_close_any_witness:
  "zan_cef_alive 1 (handle noisy_cef (BeforeClose 0 8) one_browser) = 0 \<and>
    last (zc_calls (handle noisy_cef (BeforeClose 0 8) one_browser)) = Release 7 \<and>
    b_browser (br 0 (handle noisy_cef (BeforeClose 0 8) one_browser)) = None"
proof -
  have "wf_table one_browser" unfolding one_browser_def by (rule wf_upd [OF wf_boot]) (simp add: wf_slot_def)
  moreover have "b_browser (br 0 one_browser) = Some 7"
    by (simp add: one_browser_def zc_boot_def ZC_MAX_BROWSERS_def)
  ultimately show ?thesis
    using zc_on_before_close_any [of one_browser 0 7 noisy_cef 8] by (simp add: ZC_MAX_BROWSERS_def)
qed

text \<open>
  Nothing stops calls into CEF after its end: in the program that starts CEF, creates a browser, shuts
  down and navigates, where CEF reports no close of the browser during the 200 turns, the frame of the
  browser is still asked for and used after the shutdown.
\<close>

definition silent_cef :: cef_env where
  "silent_cef = \<lparr> e_host = (\<lambda>_ _. True), e_frame = (\<lambda>_ _. True), e_window = (\<lambda>_ _. 0), e_x = (\<lambda>_. NoX), e_mem = (\<lambda>_. True),
     e_send = (\<lambda>_ _. True), e_zoom = (\<lambda>_ _. 0), e_url = (\<lambda>_ _. None), e_create = (\<lambda>_. Some 7), e_reg = (\<lambda>_. None),
     e_events = (\<lambda>_. []), e_open = (\<lambda>_. True), e_sym = (\<lambda>_. True), e_hash = Some [], e_platform_hash = [], e_readable = (\<lambda>_. True),
     e_cmdline = None, e_log_on = False, e_log_file = None, e_module = None, e_init = (\<lambda>_. True), e_exec = (\<lambda>_. 0) \<rparr>"

theorem zan_cef_navigate_after_end:
  "\<exists>cs. zc_calls (cef_run silent_cef
      [InitOp [47] None None None None False, CreateOp 0 (0, 0, 1, 1) None, ShutdownOp, NavigateOp 1 (Some [98])]) =
    cs @ [Shutdown, GetFrame 7, FrameCall 7 (LoadUrl [98]), ReleaseFrame 7]"
proof -
  define s1 where "s1 = snd (zan_cef_init silent_cef [47] None None None None False zc_boot)"
  define s2 where "s2 = snd (zan_cef_create silent_cef 0 (0, 0, 1, 1) None s1)"
  have e: "e_events silent_cef = (\<lambda>_. [])" "e_frame silent_cef = (\<lambda>_ _. True)" "e_host silent_cef = (\<lambda>_ _. True)"
    "e_create silent_cef = (\<lambda>_. Some 7)" by (simp_all add: silent_cef_def)
  have s1: "zc_browsers s1 = zc_browsers zc_boot" "zan_cef_ready s1"
    by (simp_all add: s1_def zan_cef_init_def zc_load_def zan_cef_ready_def zc_main_args_def zc_export_helper_env_def Let_def
      silent_cef_def zc_boot_def bound_exports_def given_def)
  have z: "zc_slot (zc_browsers s1) = Some 0"
    unfolding s1(1) by (simp add: zc_slot_def zc_boot_def zc_zero_def ZC_MAX_BROWSERS_def upt_conv_Cons)
  have "owned 1 s2 = Some 7" "zan_cef_ready s2"
    using s1 z
    by (simp_all add: s2_def zan_cef_create_def ask_create_def adopt_def keep_one_def add_observer_def deliver_def e with_host_def
      Let_def owned_def zc_get_def fresh_browser_def zc_boot_def zc_zero_def ZC_MAX_BROWSERS_def zan_cef_ready_def br_def)
  from navigate_late [of silent_cef s2 1 7 "[98]", OF _ this(2,1)] show ?thesis
    by (simp add: e cef_run_def s1_def s2_def)
qed

end
