(* ===== verification/Boot_Format.thy ===== *)
theory Boot_Format
  imports Boot_Decimal
begin

text \<open>
  Formatted output of the freestanding libc (\<open>scripts/crossboot/stub.c\<close>): the buffer in front of
  the semihosting console, the walker of \<open>printf\<close> and the walker of \<open>sprintf\<close> and \<open>snprintf\<close>.
  A text is the list of its bytes; the console is the list of the strings handed to it.
\<close>

section \<open>The output buffer\<close>

record console =
  obuf :: cstr
  sent :: "cstr list"

definition OBUF :: nat where "OBUF = 4096"

definition oflush :: "console \<Rightarrow> console" where
  "oflush o1 = (if obuf o1 \<noteq> [] then o1\<lparr> obuf := [], sent := sent o1 @ [cstr_at (obuf o1)] \<rparr> else o1)"

definition oputc :: "u8 \<Rightarrow> console \<Rightarrow> console" where
  "oputc c o1 = (let o2 = (if length (obuf o1) \<ge> OBUF - 1 then oflush o1 else o1) in o2\<lparr> obuf := obuf o2 @ [c] \<rparr>)"

fun oputs :: "cstr \<Rightarrow> console \<Rightarrow> console" where
  "oputs [] o1 = o1"
| "oputs (c # s) o1 = (if c = 10 then oputs s (oflush (oputc 10 o1)) else oputs s (oputc c o1))"

definition puts :: "cstr \<Rightarrow> console \<Rightarrow> console" where
  "puts s o1 = oflush (oputc 10 (oputs s o1))"

definition exit_with :: "nat \<Rightarrow> console \<Rightarrow> console \<times> nat" where
  "exit_with code o1 = (oflush o1, code)"

section \<open>Arguments\<close>

text \<open>
  A variadic argument as the caller passed it; \<open>va_arg\<close> of \<open>int\<close> reads the low half of its slot.
  An argument of another kind than the one asked for is undefined (\<^const>\<open>None\<close>).
\<close>

datatype arg = AInt u64 | ADbl u64 | AStr cstr

fun arg_int :: "arg list \<Rightarrow> (u64 \<times> arg list) option" where
  "arg_int (AInt w # as) = Some (w, as)"
| "arg_int _ = None"

fun arg_dbl :: "arg list \<Rightarrow> (u64 \<times> arg list) option" where
  "arg_dbl (ADbl w # as) = Some (w, as)"
| "arg_dbl _ = None"

fun arg_str :: "arg list \<Rightarrow> (cstr \<times> arg list) option" where
  "arg_str (AStr s # as) = Some (s, as)"
| "arg_str _ = None"

definition low_int :: "u64 \<Rightarrow> int" where
  "low_int w = sint (ucast w :: 32 word)"

section \<open>Conversion specifications\<close>

fun fmt_flags :: "cstr \<Rightarrow> bool \<Rightarrow> bool \<Rightarrow> bool \<times> bool \<times> cstr" where
  "fmt_flags (c # f) zero psign =
     (if c = 48 then fmt_flags f True psign
      else if c = 43 then fmt_flags f zero True
      else if c = 45 \<or> c = 32 then fmt_flags f zero psign
      else (zero, psign, c # f))"
| "fmt_flags [] zero psign = (zero, psign, [])"

fun fmt_number :: "cstr \<Rightarrow> int \<Rightarrow> int \<times> cstr" where
  "fmt_number (c # f) n = (if is_digit c then fmt_number f (n * 10 + int (digit_val c)) else (n, c # f))"
| "fmt_number [] n = (n, [])"

definition fmt_prec :: "cstr \<Rightarrow> arg list \<Rightarrow> (int \<times> cstr \<times> arg list) option" where
  "fmt_prec f as =
     (if f \<noteq> [] \<and> hd f = 46 then
        (if tl f \<noteq> [] \<and> hd (tl f) = 42 then
           map_option (\<lambda>(w, as1). (low_int w, tl (tl f), as1)) (arg_int as)
         else (case fmt_number (tl f) 0 of (p, f1) \<Rightarrow> Some (p, f1, as)))
      else Some (- 1, f, as))"

fun fmt_longs :: "cstr \<Rightarrow> nat \<Rightarrow> nat \<times> cstr" where
  "fmt_longs (c # f) n = (if c = 108 then fmt_longs f (n + 1) else (n, c # f))"
| "fmt_longs [] n = (n, [])"

record fmt_spec =
  sp_zero :: bool
  sp_plus :: bool
  sp_width :: int
  sp_prec :: int
  sp_long :: nat

definition fmt_parse :: "cstr \<Rightarrow> arg list \<Rightarrow> (fmt_spec \<times> cstr \<times> arg list) option" where
  "fmt_parse f as =
     (case fmt_flags f False False of (zero, psign, f1) \<Rightarrow>
      case fmt_number f1 0 of (width, f2) \<Rightarrow>
      map_option
        (\<lambda>(prec, f3, as1).
           case fmt_longs f3 0 of (l, f4) \<Rightarrow>
             (\<lparr> sp_zero = zero, sp_plus = psign, sp_width = width, sp_prec = prec, sp_long = l \<rparr>, f4, as1))
        (fmt_prec f2 as))"

text \<open>What is left after a specification is not longer.\<close>

lemma fmt_flags_shorter: "fmt_flags f z p = (z', p', f') \<Longrightarrow> length f' \<le> length f"
  by (induction f z p rule: fmt_flags.induct) (auto split: if_splits)

lemma fmt_number_shorter: "fmt_number f n = (n', f') \<Longrightarrow> length f' \<le> length f"
  by (induction f n rule: fmt_number.induct) (auto split: if_splits)

lemma fmt_longs_shorter: "fmt_longs f n = (n', f') \<Longrightarrow> length f' \<le> length f"
  by (induction f n rule: fmt_longs.induct) (auto split: if_splits)

lemma fmt_prec_shorter: "fmt_prec f as = Some (p, f', as') \<Longrightarrow> length f' \<le> length f"
  using fmt_number_shorter [of "tl f" 0]
  by (fastforce simp: fmt_prec_def split: if_splits prod.splits)

lemma fmt_parse_shorter: "fmt_parse f as = Some (sp, f', as') \<Longrightarrow> length f' \<le> length f"
proof -
  assume a: "fmt_parse f as = Some (sp, f', as')"
  obtain z p f1 where 1: "fmt_flags f False False = (z, p, f1)" by (rule prod_cases3)
  obtain w f2 where 2: "fmt_number f1 0 = (w, f2)" by (rule prod.exhaust)
  obtain q f3 as1 where 3: "fmt_prec f2 as = Some (q, f3, as1)" using a by (auto simp: fmt_parse_def 1 2)
  have "fmt_longs f3 0 = (sp_long sp, f')" using a by (auto simp: fmt_parse_def 1 2 3 split: prod.splits)
  with fmt_flags_shorter [OF 1] fmt_number_shorter [OF 2] fmt_prec_shorter [OF 3] fmt_longs_shorter
  show ?thesis by fastforce
qed

section \<open>Numbers\<close>

text \<open>The digits of \<open>v\<close> in a base, from the last on, and \<open>unum\<close>.\<close>

definition dig_char :: "bool \<Rightarrow> u64 \<Rightarrow> u8" where
  "dig_char upper d = (if d < 10 then 48 + ucast d else (if upper then 55 else 87) + ucast d)"

function num_loop :: "u64 \<Rightarrow> u64 \<Rightarrow> bool \<Rightarrow> cstr" where
  "num_loop v base upper =
     (if v = 0 \<or> base < 2 then [] else dig_char upper (v mod base) # num_loop (v div base) base upper)"
  by pat_completeness auto
termination
proof (relation "measure (\<lambda>(v, base, upper). unat v)")
  fix v base :: u64 and upper assume "\<not> (v = 0 \<or> base < 2)"
  then have "0 < unat v" "1 < unat base" by (simp_all add: unat_gt_0 word_less_nat_alt not_less word_le_nat_alt)
  then have "unat v div unat base < unat v" by (simp add: div_less_dividend)
  then show "((v div base, base, upper), (v, base, upper)) \<in> measure (\<lambda>(v, base, upper). unat v)"
    by (simp add: unat_div)
qed simp

declare num_loop.simps [simp del]

definition unum :: "u64 \<Rightarrow> u64 \<Rightarrow> bool \<Rightarrow> cstr" where
  "unum v base upper = (if v = 0 then [48] else rev (num_loop v base upper))"

text \<open>
  The text of a number and its padding in the 40 bytes of \<open>body\<close>. The loop that fills up to the
  width comes first, so the text is never shorter than the width where the zeros are to be moved.
\<close>

definition emit_num :: "int \<Rightarrow> bool \<Rightarrow> cstr \<Rightarrow> cstr result" where
  "emit_num width zero body =
     (let text1 = body @ replicate (nat (width - int (length body))) (if zero then 48 else 32);
          pad = width - int (length text1);
          signs = (if hd text1 = 45 \<or> hd text1 = 43 then 1 else 0)
      in if length text1 \<ge> 40 then Wild
         else if zero \<and> pad > 0
         then Returns (take signs text1 @ replicate (nat pad) 48 @ drop signs text1)
         else Returns text1)"

section \<open>The walker of \<open>printf\<close>\<close>

definition is_dbl :: "u8 \<Rightarrow> bool" where
  "is_dbl c \<longleftrightarrow> c \<in> {101, 69, 102, 70, 103, 71}"

text \<open>The value of a \<open>d\<close> conversion: a plain \<open>int\<close>, or 64 bits after an \<open>l\<close>.\<close>

definition int_arg :: "nat \<Rightarrow> u64 \<Rightarrow> int" where
  "int_arg l w = (if l \<noteq> 0 then sint w else low_int w)"

text \<open>Its sign, and its value without the sign.\<close>

definition sign_text :: "bool \<Rightarrow> int \<Rightarrow> cstr" where
  "sign_text psign v = (if v < 0 then [45] else if psign then [43] else [])"

definition mag_word :: "int \<Rightarrow> u64" where
  "mag_word v = word_of_int (if v < 0 then - v else v)"

definition word_arg :: "nat \<Rightarrow> u64 \<Rightarrow> u64" where
  "word_arg l w = (if l \<noteq> 0 then w else ucast (ucast w :: 32 word))"

text \<open>One conversion: the bytes for the console, or status 4 for an unknown letter.\<close>

definition conv_out :: "fmt_spec \<Rightarrow> u8 \<Rightarrow> arg list \<Rightarrow> p5 \<Rightarrow> (cstr \<times> arg list \<times> p5) result" where
  "conv_out sp c as st =
     (let num = (\<lambda>as1 body. case emit_num (sp_width sp) (sp_zero sp) body of
                    Returns t \<Rightarrow> Returns (t, as1, st) | Exits e \<Rightarrow> Exits e | Wild \<Rightarrow> Wild)
      in if is_dbl c then
           (case arg_dbl as of
              Some (v, as1) \<Rightarrow>
                (case zan_fmt_double st v (sp_prec sp) c of Some (t, st1) \<Rightarrow> Returns (t, as1, st1) | None \<Rightarrow> Wild)
            | None \<Rightarrow> Wild)
         else if c = 115 then (case arg_str as of Some (s, as1) \<Rightarrow> Returns (s, as1, st) | None \<Rightarrow> Wild)
         else if c = 99 then (case arg_int as of Some (w, as1) \<Rightarrow> Returns (cstr_at [ucast w], as1, st) | None \<Rightarrow> Wild)
         else if c = 100 \<or> c = 105 then
           (case arg_int as of
              Some (w, as1) \<Rightarrow>
                (let v = int_arg (sp_long sp) w
                 in if v = - (2 ^ 63) then Wild
                    else num as1 (sign_text (sp_plus sp) v @ unum (mag_word v) 10 False))
            | None \<Rightarrow> Wild)
         else if c = 117 \<or> c = 120 \<or> c = 88 then
           (case arg_int as of
              Some (w, as1) \<Rightarrow> num as1 (unum (word_arg (sp_long sp) w) (if c = 117 then 10 else 16) (c = 88))
            | None \<Rightarrow> Wild)
         else if c = 112 then
           (case arg_int as of Some (w, as1) \<Rightarrow> Returns ([48, 120] @ unum w 16 False, as1, st) | None \<Rightarrow> Wild)
         else Exits 4)"

function mini_vprintf :: "cstr \<Rightarrow> arg list \<Rightarrow> p5 \<Rightarrow> console \<Rightarrow> (console \<times> p5) result" where
  "mini_vprintf f as st o1 =
     (case f of
        [] \<Rightarrow> Returns (oflush o1, st)
      | c # f1 \<Rightarrow>
          if c \<noteq> 37 then mini_vprintf f1 as st (oputc c o1)
          else if f1 \<noteq> [] \<and> hd f1 = 37 then mini_vprintf (tl f1) as st (oputc 37 o1)
          else (case fmt_parse f1 as of
                  None \<Rightarrow> Wild
                | Some (sp, f2, as1) \<Rightarrow>
                    (case f2 of
                       [] \<Rightarrow> Returns (oflush o1, st)
                     | spec # f3 \<Rightarrow>
                         (case conv_out sp spec as1 st of
                            Returns (t, as2, st1) \<Rightarrow> mini_vprintf f3 as2 st1 (oputs t o1)
                          | Exits e \<Rightarrow> Exits e
                          | Wild \<Rightarrow> Wild))))"
  by pat_completeness auto
termination
  by (relation "measure (\<lambda>(f, as, st, o1). length f)")
    (auto dest!: fmt_parse_shorter split: if_splits)

declare mini_vprintf.simps [simp del]

definition printf :: "cstr \<Rightarrow> arg list \<Rightarrow> p5 \<Rightarrow> console \<Rightarrow> (console \<times> p5) result" where
  "printf f as st o1 = mini_vprintf f as st o1"

section \<open>The walker of \<open>sprintf\<close> and \<open>snprintf\<close>\<close>

text \<open>The array \<open>big\<close> has 1600 bytes, and \<open>stop\<close> is its last. \<open>put_to\<close> writes up to there.\<close>

definition BIG :: nat where "BIG = 1600"

definition put_to :: "cstr \<Rightarrow> cstr \<Rightarrow> cstr" where
  "put_to d t = d @ take (BIG - 1 - length d) t"

text \<open>The padding goes after the digits that stand in reverse order in the 24 bytes of \<open>tmp\<close>.\<close>

definition pad_rev :: "cstr \<Rightarrow> int \<Rightarrow> bool \<Rightarrow> cstr result" where
  "pad_rev digits w zero =
     (let t = rev digits @ replicate (nat (w - int (length digits))) (if zero then 48 else 32)
      in if length t > 24 then Wild else Returns (rev t))"

definition conv_big :: "fmt_spec \<Rightarrow> u8 \<Rightarrow> arg list \<Rightarrow> p5 \<Rightarrow> cstr \<Rightarrow> (cstr \<times> arg list \<times> p5) result" where
  "conv_big sp c as st d =
     (if c = 115 then (case arg_str as of Some (s, as1) \<Rightarrow> Returns (put_to d s, as1, st) | None \<Rightarrow> Wild)
      else if is_dbl c then
        (case arg_dbl as of
           Some (v, as1) \<Rightarrow>
             (case zan_fmt_double st v (sp_prec sp) c of Some (t, st1) \<Rightarrow> Returns (put_to d t, as1, st1) | None \<Rightarrow> Wild)
         | None \<Rightarrow> Wild)
      else if c = 100 \<or> c = 105 then
        (case arg_int as of
           Some (w, as1) \<Rightarrow>
             (let v = int_arg (sp_long sp) w; sg = sign_text (sp_plus sp) v
              in if v = - (2 ^ 63) then Wild
                 else (case pad_rev (unum (mag_word v) 10 False) (sp_width sp - int (length sg)) (sp_zero sp) of
                         Returns t \<Rightarrow> Returns (put_to (d @ sg) t, as1, st) | Exits e \<Rightarrow> Exits e | Wild \<Rightarrow> Wild))
         | None \<Rightarrow> Wild)
      else if c = 117 then
        (case arg_int as of
           Some (w, as1) \<Rightarrow>
             (case pad_rev (unum (word_arg (sp_long sp) w) 10 False) (sp_width sp) (sp_zero sp) of
                Returns t \<Rightarrow> Returns (put_to d t, as1, st) | Exits e \<Rightarrow> Exits e | Wild \<Rightarrow> Wild)
         | None \<Rightarrow> Wild)
      else if c = 120 \<or> c = 88 then
        (case arg_int as of
           Some (w, as1) \<Rightarrow>
             (let d1 = d @ unum (word_arg (sp_long sp) w) 16 (c = 88) in if length d1 > BIG then Wild else Returns (d1, as1, st))
         | None \<Rightarrow> Wild)
      else if c = 99 then (case arg_int as of Some (w, as1) \<Rightarrow> Returns (d @ [ucast w], as1, st) | None \<Rightarrow> Wild)
      else Returns (d @ [63], as, st))"

text \<open>
  A specification that the end of the format cuts off reads the bytes behind the terminator, and
  the terminator of the result needs room in \<open>big\<close>.
\<close>

function big_loop :: "cstr \<Rightarrow> arg list \<Rightarrow> p5 \<Rightarrow> cstr \<Rightarrow> (cstr \<times> p5) result" where
  "big_loop f as st d =
     (case f of
        [] \<Rightarrow> if length d \<ge> BIG then Wild else Returns (d, st)
      | c # f1 \<Rightarrow>
          if length d \<ge> BIG - 1 then (if length d \<ge> BIG then Wild else Returns (d, st))
          else if c \<noteq> 37 then big_loop f1 as st (d @ [c])
          else if f1 \<noteq> [] \<and> hd f1 = 37 then big_loop (tl f1) as st (d @ [37])
          else (case fmt_parse f1 as of
                  None \<Rightarrow> Wild
                | Some (sp, f2, as1) \<Rightarrow>
                    (case f2 of
                       [] \<Rightarrow> Wild
                     | spec # f3 \<Rightarrow>
                         (case conv_big sp spec as1 st d of
                            Returns (d1, as2, st1) \<Rightarrow> big_loop f3 as2 st1 d1
                          | Exits e \<Rightarrow> Exits e
                          | Wild \<Rightarrow> Wild))))"
  by pat_completeness auto
termination
  by (relation "measure (\<lambda>(f, as, st, d). length f)")
    (auto dest!: fmt_parse_shorter split: if_splits)

declare big_loop.simps [simp del]

text \<open>The bytes stored in the destination, with the terminator, and the length that is returned.\<close>

definition zan_vsnfmt :: "u64 \<Rightarrow> cstr \<Rightarrow> arg list \<Rightarrow> p5 \<Rightarrow> (cstr \<times> int \<times> p5) result" where
  "zan_vsnfmt cap f as st =
     (case big_loop f as st [] of
        Returns (big, st1) \<Rightarrow>
          Returns (if cap > 0 then take (unat cap - 1) (cstr_at big) @ [0] else [], int (length big), st1)
      | Exits e \<Rightarrow> Exits e | Wild \<Rightarrow> Wild)"

definition sprintf :: "cstr \<Rightarrow> arg list \<Rightarrow> p5 \<Rightarrow> (cstr \<times> int \<times> p5) result" where
  "sprintf f as st = zan_vsnfmt (- 2) f as st"

definition snprintf :: "u64 \<Rightarrow> cstr \<Rightarrow> arg list \<Rightarrow> p5 \<Rightarrow> (cstr \<times> int \<times> p5) result" where
  "snprintf cap f as st = zan_vsnfmt cap f as st"

section \<open>What a format denotes\<close>

text \<open>
  A format without width and zero flag as a list of pieces, the text it is to produce, and its
  spelling. The decimal and hexadecimal digits are those of the number, defined independently of
  \<open>unum\<close>.
\<close>

datatype piece = Plain u8 | Percent | Conv bool "nat option" nat u8

definition conv_letter :: "u8 \<Rightarrow> bool" where
  "conv_letter c \<longleftrightarrow> is_dbl c \<or> c \<in> {115, 99, 100, 105, 117, 120, 88}"

fun piece_ok :: "piece \<Rightarrow> bool" where
  "piece_ok (Plain c) = (c \<noteq> 37)"
| "piece_ok Percent = True"
| "piece_ok (Conv s p l c) = conv_letter c"

fun spell :: "piece \<Rightarrow> cstr" where
  "spell (Plain c) = [c]"
| "spell Percent = [37, 37]"
| "spell (Conv s p l c) =
     [37] @ (if s then [43] else []) @ (case p of None \<Rightarrow> [] | Some n \<Rightarrow> 46 # dec_nat n) @ replicate l 108 @ [c]"

definition hex_char :: "bool \<Rightarrow> nat \<Rightarrow> u8" where
  "hex_char upper n = (if n < 10 then 48 + of_nat n else (if upper then 65 else 97) + of_nat (n - 10))"

fun hex_nat :: "bool \<Rightarrow> nat \<Rightarrow> cstr" where
  "hex_nat upper n = (if n < 16 then [hex_char upper n] else hex_nat upper (n div 16) @ [hex_char upper (n mod 16)])"

declare hex_nat.simps [simp del]

definition int_text :: "bool \<Rightarrow> int \<Rightarrow> cstr" where
  "int_text psign v = sign_text psign v @ dec_nat (nat (if v < 0 then - v else v))"

fun piece_text :: "piece \<Rightarrow> arg list \<Rightarrow> p5 \<Rightarrow> (cstr \<times> arg list \<times> p5) option" where
  "piece_text (Plain c) as st = Some ([c], as, st)"
| "piece_text Percent as st = Some ([37], as, st)"
| "piece_text (Conv s p l c) as st =
     (if is_dbl c then
        (case arg_dbl as of
           Some (v, as1) \<Rightarrow> map_option (\<lambda>(t, st1). (t, as1, st1)) (zan_fmt_double st v (case p of None \<Rightarrow> - 1 | Some n \<Rightarrow> int n) c)
         | None \<Rightarrow> None)
      else if c = 115 then map_option (\<lambda>(t, as1). (t, as1, st)) (arg_str as)
      else map_option
        (\<lambda>(w, as1).
           (if c = 99 then [ucast w]
            else if c = 100 \<or> c = 105 then int_text s (int_arg l w)
            else if c = 117 then dec_nat (unat (word_arg l w))
            else hex_nat (c = 88) (unat (word_arg l w)), as1, st))
        (case arg_int as of
           Some (w, as1) \<Rightarrow> if (c = 100 \<or> c = 105) \<and> int_arg l w = - (2 ^ 63) then None else Some (w, as1)
         | None \<Rightarrow> None))"

fun pieces_text :: "piece list \<Rightarrow> arg list \<Rightarrow> p5 \<Rightarrow> (cstr \<times> p5) option" where
  "pieces_text [] as st = Some ([], st)"
| "pieces_text (p # ps) as st =
     (case piece_text p as st of
        Some (t, as1, st1) \<Rightarrow> map_option (\<lambda>(ts, st2). (t @ ts, st2)) (pieces_text ps as1 st1)
      | None \<Rightarrow> None)"

section \<open>Digits\<close>

lemma unat_u64_10: "unat (10 :: u64) = 10" "unat (16 :: u64) = 16" by simp_all

lemma dig_char_dec: "n < 10 \<Longrightarrow> unat d = n \<Longrightarrow> dig_char u d = ch_0 + of_nat n"
  by (auto simp: dig_char_def word_less_nat_alt)

lemma dig_char_hex: "n < 16 \<Longrightarrow> unat d = n \<Longrightarrow> dig_char u d = hex_char u n"
proof -
  assume n: "n < 16" "unat d = n"
  have d: "ucast d = (of_nat n :: u8)" by (simp flip: n(2))
  show ?thesis
  proof (cases "n < 10")
    case True
    then have "d < 10" using n by (simp add: word_less_nat_alt)
    with True show ?thesis by (simp add: dig_char_def hex_char_def d)
  next
    case False
    then have nd: "\<not> d < 10" using n by (simp add: word_less_nat_alt)
    have "of_nat n = (10 + of_nat (n - 10) :: u8)" using False by (simp add: of_nat_diff)
    with False nd show ?thesis by (simp add: dig_char_def hex_char_def d add.assoc [symmetric])
  qed
qed

lemma num_loop_dec: "v \<noteq> 0 \<Longrightarrow> rev (num_loop v 10 u) = dec_nat (unat v)"
proof (induction v "10 :: u64" u rule: num_loop.induct)
  case (1 v u)
  have q: "unat (v div 10) = unat v div 10" "unat (v mod 10) = unat v mod 10"
    by (simp_all add: unat_div unat_mod)
  have c: "dig_char u (v mod 10) = ch_0 + of_nat (unat v mod 10)" by (rule dig_char_dec) (simp_all add: q)
  have z: "v div 10 = 0 \<longleftrightarrow> unat v < 10" by (simp flip: unat_eq_zero add: q div_eq_0_iff)
  show ?case
  proof (cases "unat v < 10")
    case True
    then show ?thesis using 1(2) c z by (simp add: num_loop.simps [of v] num_loop.simps [of 0] dec_nat.simps [of "unat v"])
  next
    case False
    then show ?thesis using 1 c z q by (simp add: num_loop.simps [of v] dec_nat.simps [of "unat v"])
  qed
qed

lemma num_loop_hex: "v \<noteq> 0 \<Longrightarrow> rev (num_loop v 16 u) = hex_nat u (unat v)"
proof (induction v "16 :: u64" u rule: num_loop.induct)
  case (1 v u)
  have q: "unat (v div 16) = unat v div 16" "unat (v mod 16) = unat v mod 16"
    by (simp_all add: unat_div unat_mod)
  have c: "dig_char u (v mod 16) = hex_char u (unat v mod 16)" by (rule dig_char_hex) (simp_all add: q)
  have z: "v div 16 = 0 \<longleftrightarrow> unat v < 16" by (simp flip: unat_eq_zero add: q div_eq_0_iff)
  show ?case
  proof (cases "unat v < 16")
    case True
    then show ?thesis using 1(2) c z by (simp add: num_loop.simps [of v] num_loop.simps [of 0] hex_nat.simps [of _ "unat v"])
  next
    case False
    then show ?thesis using 1 c z q by (simp add: num_loop.simps [of v] hex_nat.simps [of _ "unat v"])
  qed
qed

lemma unum_val: "unum v 10 u = dec_nat (unat v)" "unum v 16 u = hex_nat u (unat v)"
  using num_loop_dec [of v u] num_loop_hex [of v u]
  by (auto simp: unum_def dec_nat.simps [of 0] hex_nat.simps [of _ 0] hex_char_def)

lemma length_dec_nat: "n < 10 ^ k \<Longrightarrow> 0 < k \<Longrightarrow> length (dec_nat n) \<le> k"
proof (induction n arbitrary: k rule: dec_nat.induct)
  case (1 n)
  show ?case
  proof (cases "n < 10")
    case True
    then show ?thesis using 1(3) by (simp add: dec_nat.simps [of n])
  next
    case False
    have k: "1 < k"
    proof (rule ccontr)
      assume "\<not> 1 < k"
      then have "k = 1" using 1(3) by simp
      then show False using 1(2) False by simp
    qed
    then have "n div 10 < 10 ^ (k - 1)" using 1(2) by (cases k) (auto simp: less_mult_imp_div_less mult.commute)
    with 1(1) [OF False, of "k - 1"] k False show ?thesis by (simp add: dec_nat.simps [of n])
  qed
qed

lemma length_hex_nat: "n < 16 ^ k \<Longrightarrow> 0 < k \<Longrightarrow> length (hex_nat u n) \<le> k"
proof (induction u n arbitrary: k rule: hex_nat.induct)
  case (1 u n)
  show ?case
  proof (cases "n < 16")
    case True
    then show ?thesis using 1(3) by (simp add: hex_nat.simps [of _ n])
  next
    case False
    have k: "1 < k"
    proof (rule ccontr)
      assume "\<not> 1 < k"
      then have "k = 1" using 1(3) by simp
      then show False using 1(2) False by simp
    qed
    then have "n div 16 < 16 ^ (k - 1)" using 1(2) by (cases k) (auto simp: less_mult_imp_div_less mult.commute)
    with 1(1) [OF False, of "k - 1"] k False show ?thesis by (simp add: hex_nat.simps [of _ n])
  qed
qed

lemma length_u64_text: "length (dec_nat (unat (v :: u64))) \<le> 20" "length (hex_nat u (unat (v :: u64))) \<le> 16"
proof -
  have "unat v < 10 ^ 20" "unat v < 16 ^ 16" using u64_less [of v] by simp_all
  then show "length (dec_nat (unat v)) \<le> 20" "length (hex_nat u (unat v)) \<le> 16"
    by (simp_all add: length_dec_nat length_hex_nat)
qed

lemma int_arg_range: "- (2 ^ 63) \<le> int_arg l w" "int_arg l w < 2 ^ 63"
proof -
  have "- (2 ^ 31) \<le> low_int w" "low_int w < 2 ^ 31"
    using sint_range_size [of "ucast w :: 32 word"] by (simp_all add: low_int_def word_size)
  moreover have "- (2 ^ 63) \<le> sint w" "sint w < 2 ^ 63"
    using sint_range_size [of w] by (simp_all add: word_size)
  ultimately show "- (2 ^ 63) \<le> int_arg l w" "int_arg l w < 2 ^ 63" by (simp_all add: int_arg_def)
qed

lemma mag_word_val: "unat (mag_word (int_arg l w)) = nat (if int_arg l w < 0 then - int_arg l w else int_arg l w)"
proof -
  have "(if int_arg l w < 0 then - int_arg l w else int_arg l w) < 2 ^ LENGTH(64)" using int_arg_range [of l w] by simp
  then show ?thesis unfolding mag_word_def by (subst unsigned_of_int) (simp add: take_bit_int_eq_self)
qed

lemma int_text_val: "int_text s (int_arg l w) = sign_text s (int_arg l w) @ dec_nat (unat (mag_word (int_arg l w)))"
  by (simp only: int_text_def mag_word_val)

lemma length_int_text: "length (int_text s (int_arg l w)) \<le> 21"
  using length_u64_text(1) [of "mag_word (int_arg l w)"] by (auto simp: int_text_val sign_text_def)

section \<open>Reading a specification\<close>

lemma fmt_number_dec: "list_all is_digit ds \<Longrightarrow> \<not> is_digit c \<Longrightarrow>
  fmt_number (ds @ c # f) n = (n * 10 ^ length ds + int (digits_val ds), c # f)"
proof (induction ds arbitrary: n)
  case (Cons d ds)
  have "int (digits_val (d # ds)) = int (digit_val d) * 10 ^ length ds + int (digits_val ds)"
  proof -
    have "foldl (\<lambda>a d. 10 * a + digit_val d) b xs = b * 10 ^ length xs + foldl (\<lambda>a d. 10 * a + digit_val d) 0 xs" for b xs
    proof (induction xs arbitrary: b)
      case (Cons x xs)
      show ?case using Cons [of "10 * b + digit_val x"] Cons [of "digit_val x"] by (simp add: algebra_simps)
    qed simp
    from this [of "digit_val d" ds] show ?thesis by (simp add: digits_val_def)
  qed
  then show ?case using Cons by (simp add: algebra_simps)
qed (simp add: digits_val_def)

lemma letter_class:
  assumes "conv_letter c"
  shows "\<not> is_digit c" "c \<noteq> 46" "c \<noteq> 43" "c \<noteq> 45" "c \<noteq> 32" "c \<noteq> 48" "c \<noteq> 108" "c \<noteq> 37"
  using assms by (auto simp: conv_letter_def is_dbl_def is_digit_def)

lemma fmt_longs_val: "c \<noteq> 108 \<Longrightarrow> fmt_longs (replicate l 108 @ c # f) n = (n + l, c # f)"
  by (induction l arbitrary: n) simp_all

lemma not_digit_l: "\<not> is_digit 108" "\<not> is_digit 46" by (simp_all add: is_digit_def)

lemma fmt_parse_spell:
  assumes "conv_letter c"
  shows "fmt_parse ((if s then [43] else []) @ (case p of None \<Rightarrow> [] | Some n \<Rightarrow> 46 # dec_nat n) @ replicate l 108 @ c # f) as =
    Some (\<lparr> sp_zero = False, sp_plus = s, sp_width = 0, sp_prec = (case p of None \<Rightarrow> - 1 | Some n \<Rightarrow> int n), sp_long = l \<rparr>, c # f, as)"
proof -
  note k = letter_class [OF assms]
  let ?l = "replicate l 108 @ c # f" and ?p = "case p of None \<Rightarrow> [] | Some n \<Rightarrow> 46 # dec_nat n"
  have hd: "\<exists>b g. ?l = b # g \<and> \<not> is_digit b \<and> b \<noteq> 46 \<and> b \<noteq> 43 \<and> b \<noteq> 45 \<and> b \<noteq> 32 \<and> b \<noteq> 48"
    using k not_digit_l by (cases l) auto
  then obtain b g where b: "?l = b # g" "\<not> is_digit b" "b \<noteq> 46" "b \<noteq> 43" "b \<noteq> 45" "b \<noteq> 32" "b \<noteq> 48" by blast
  have "fmt_flags ((if s then [43] else []) @ ?p @ ?l) False False = (False, s, ?p @ ?l)"
    using b by (cases p) simp_all
  moreover have "fmt_number (?p @ ?l) 0 = (0, ?p @ ?l)"
    using b not_digit_l by (cases p) simp_all
  moreover have "fmt_prec (?p @ ?l) as = Some (case p of None \<Rightarrow> - 1 | Some n \<Rightarrow> int n, ?l, as)"
  proof (cases p)
    case None
    then show ?thesis using b by (simp add: fmt_prec_def)
  next
    case (Some n)
    obtain d ds where d: "dec_nat n = d # ds" by (cases "dec_nat n") auto
    then have "is_digit d" using dec_nat_digits [of n] by simp
    then have "d \<noteq> 42" by (auto simp: is_digit_def)
    moreover have "fmt_number (dec_nat n @ ?l) 0 = (int n, ?l)"
      using fmt_number_dec [OF dec_nat_digits b(2), of n g 0] by (simp add: b(1))
    ultimately show ?thesis using Some d by (simp add: fmt_prec_def)
  qed
  moreover have "fmt_longs ?l 0 = (l, c # f)" using fmt_longs_val [OF k(7), of l f 0] by simp
  ultimately show ?thesis by (simp add: fmt_parse_def)
qed

section \<open>The console\<close>

definition shown :: "console \<Rightarrow> cstr" where
  "shown o1 = concat (sent o1) @ obuf o1"

definition console_ok :: "console \<Rightarrow> bool" where
  "console_ok o1 \<longleftrightarrow> length (obuf o1) < OBUF \<and> 0 \<notin> set (obuf o1)"

lemma cstr_at_id: "0 \<notin> set s \<Longrightarrow> cstr_at s = s"
  by (auto simp: cstr_at_def takeWhile_eq_all_conv)

lemma oflush_ok: "console_ok o1 \<Longrightarrow> console_ok (oflush o1) \<and> shown (oflush o1) = shown o1 \<and> obuf (oflush o1) = []"
  by (auto simp: oflush_def console_ok_def shown_def cstr_at_id OBUF_def)

lemma oputc_ok: "console_ok o1 \<Longrightarrow> c \<noteq> 0 \<Longrightarrow> console_ok (oputc c o1) \<and> shown (oputc c o1) = shown o1 @ [c]"
  using oflush_ok [of o1] by (auto simp: oputc_def console_ok_def shown_def Let_def OBUF_def)

lemma oputs_ok: "console_ok o1 \<Longrightarrow> 0 \<notin> set s \<Longrightarrow> console_ok (oputs s o1) \<and> shown (oputs s o1) = shown o1 @ s"
proof (induction s arbitrary: o1)
  case (Cons c s)
  then show ?case using oputc_ok [of o1 c] oflush_ok [of "oputc 10 o1"] by (auto simp: oputc_ok)
qed simp

section \<open>One conversion\<close>

lemma emit_short: "length body < 40 \<Longrightarrow> emit_num 0 z body = Returns body"
  by (simp add: emit_num_def Let_def)

lemma pad_short: "length t \<le> 24 \<Longrightarrow> pad_rev t (- int k) z = Returns t"
  by (simp add: pad_rev_def Let_def)

lemmas text_lengths = length_u64_text [THEN order_le_less_trans] length_int_text [THEN order_le_less_trans]

text \<open>The letters, and what each leaves to show.\<close>

lemma letter_cases:
  assumes "conv_letter c"
  obtains "is_dbl c" | "c = 115" | "c = 99" | "\<not> is_dbl c" "c = 100 \<or> c = 105" | "c = 117" | "\<not> is_dbl c" "c = 120 \<or> c = 88"
  using assms by (auto simp: conv_letter_def is_dbl_def)

lemma not_dbl: "\<not> is_dbl 115" "\<not> is_dbl 99" "\<not> is_dbl 117" "\<not> is_dbl 100" "\<not> is_dbl 105" "\<not> is_dbl 120" "\<not> is_dbl 88"
  by (simp_all add: is_dbl_def)

lemma dbl_other: "is_dbl c \<Longrightarrow> c \<noteq> 115"
  by (auto simp: is_dbl_def)

lemma conv_out_text:
  assumes "conv_letter c" "piece_text (Conv s p l c) as st = Some (t, as1, st1)" "0 \<notin> set t"
  shows "conv_out \<lparr> sp_zero = z, sp_plus = s, sp_width = 0, sp_prec = (case p of None \<Rightarrow> - 1 | Some n \<Rightarrow> int n), sp_long = l \<rparr>
    c as st = Returns (t, as1, st1)"
  using assms(1)
proof (cases rule: letter_cases)
  case 1
  then show ?thesis using assms(2) by (auto simp: conv_out_def split: option.splits)
next
  case 2
  then show ?thesis using assms(2) by (auto simp: conv_out_def not_dbl)
next
  case 3
  then show ?thesis using assms(2,3) by (auto simp: conv_out_def not_dbl cstr_at_def split: option.splits)
next
  case 4
  then obtain w where w: "arg_int as = Some (w, as1)" "int_arg l w \<noteq> - (2 ^ 63)" "t = int_text s (int_arg l w)" "st1 = st"
    using assms(2) by (auto simp: not_dbl split: option.splits if_splits)
  have "length t < 40" using length_int_text [of s l w] w(3) by simp
  then show ?thesis using 4 w by (auto simp: conv_out_def not_dbl unum_val int_text_val emit_short Let_def)
next
  case 5
  then obtain w where w: "arg_int as = Some (w, as1)" "t = dec_nat (unat (word_arg l w))" "st1 = st"
    using assms(2) by (auto simp: not_dbl split: option.splits)
  have "length t < 40" using length_u64_text(1) [of "word_arg l w"] w(2) by simp
  then show ?thesis using 5 w by (simp add: conv_out_def not_dbl unum_val emit_short)
next
  case 6
  then obtain w where w: "arg_int as = Some (w, as1)" "t = hex_nat (c = 88) (unat (word_arg l w))" "st1 = st"
    using assms(2) by (auto simp: not_dbl split: option.splits)
  have "length t < 40" using length_u64_text(2) [of "c = 88" "word_arg l w"] w(2) by simp
  then show ?thesis using 6 w by (auto simp: conv_out_def not_dbl unum_val emit_short)
qed

lemma conv_big_text:
  assumes "conv_letter c" "piece_text (Conv s p l c) as st = Some (t, as1, st1)" "length d + length t < BIG - 1"
  shows "conv_big \<lparr> sp_zero = z, sp_plus = s, sp_width = 0, sp_prec = (case p of None \<Rightarrow> - 1 | Some n \<Rightarrow> int n), sp_long = l \<rparr>
    c as st d = Returns (d @ t, as1, st1)"
  using assms(1)
proof (cases rule: letter_cases)
  case 1
  then show ?thesis using assms(2,3) by (auto simp: conv_big_def put_to_def dbl_other split: option.splits)
next
  case 2
  then show ?thesis using assms(2,3) by (auto simp: conv_big_def put_to_def not_dbl)
next
  case 3
  then show ?thesis using assms(2,3) by (auto simp: conv_big_def not_dbl split: option.splits)
next
  case 4
  then obtain w where w: "arg_int as = Some (w, as1)" "int_arg l w \<noteq> - (2 ^ 63)" "t = int_text s (int_arg l w)" "st1 = st"
    using assms(2) by (auto simp: not_dbl split: option.splits if_splits)
  have "length (dec_nat (unat (mag_word (int_arg l w)))) \<le> 24"
    using length_u64_text(1) [of "mag_word (int_arg l w)"] by simp
  note pad = pad_short [OF this, of "length (sign_text s (int_arg l w))" z]
  show ?thesis
    using 4 w assms(3) by (auto simp: conv_big_def not_dbl unum_val int_text_val pad put_to_def Let_def)
next
  case 5
  then obtain w where w: "arg_int as = Some (w, as1)" "t = dec_nat (unat (word_arg l w))" "st1 = st"
    using assms(2) by (auto simp: not_dbl split: option.splits)
  have "length t \<le> 24" using length_u64_text(1) [of "word_arg l w"] w(2) by simp
  from pad_short [OF this, of 0 z] show ?thesis using 5 w assms(3) by (simp add: conv_big_def not_dbl unum_val put_to_def)
next
  case 6
  then obtain w where w: "arg_int as = Some (w, as1)" "t = hex_nat (c = 88) (unat (word_arg l w))" "st1 = st"
    using assms(2) by (auto simp: not_dbl split: option.splits)
  then show ?thesis using 6 assms(3) by (auto simp: conv_big_def not_dbl unum_val)
qed

section \<open>Both walkers on a whole format\<close>

lemma mini_vprintf_text:
  "list_all piece_ok ps \<Longrightarrow> pieces_text ps as st = Some (t, st') \<Longrightarrow> 0 \<notin> set t \<Longrightarrow> console_ok o1 \<Longrightarrow>
    \<exists>o2. mini_vprintf (concat (map spell ps)) as st o1 = Returns (o2, st') \<and> shown o2 = shown o1 @ t \<and> obuf o2 = []"
proof (induction ps arbitrary: as st t o1)
  case Nil
  then show ?case using oflush_ok [of o1] by (simp add: mini_vprintf.simps [of "[]"])
next
  case (Cons p ps)
  obtain t1 as1 st1 t2 where t: "piece_text p as st = Some (t1, as1, st1)" "pieces_text ps as1 st1 = Some (t2, st')" "t = t1 @ t2"
    using Cons.prems(2) by (auto split: option.splits)
  have z: "0 \<notin> set t1" "0 \<notin> set t2" using Cons.prems(3) t(3) by simp_all
  have ok: "list_all piece_ok ps" "piece_ok p" using Cons.prems(1) by simp_all
  have go: "\<exists>o2. mini_vprintf (concat (map spell ps)) as1 st1 o2' = Returns (o2, st') \<and> shown o2 = shown o1 @ t \<and> obuf o2 = []"
    if "console_ok o2'" "shown o2' = shown o1 @ t1" for o2'
    using Cons.IH [OF ok(1) t(2) z(2) that(1)] that(2) t(3) by simp
  show ?case
  proof (cases p)
    case (Plain c)
    then have "t1 = [c]" "as1 = as" "st1 = st" using t(1) by auto
    then have "mini_vprintf (concat (map spell (p # ps))) as st o1 = mini_vprintf (concat (map spell ps)) as1 st1 (oputc c o1)"
      using ok Plain by (simp add: mini_vprintf.simps [of "c # _"])
    then show ?thesis using go [of "oputc c o1"] oputc_ok [OF Cons.prems(4), of c] Plain t(1) z(1) by auto
  next
    case Percent
    then have "t1 = [37]" "as1 = as" "st1 = st" using t(1) by auto
    then have "mini_vprintf (concat (map spell (p # ps))) as st o1 = mini_vprintf (concat (map spell ps)) as1 st1 (oputc 37 o1)"
      using Percent by (simp add: mini_vprintf.simps [of "37 # _"])
    then show ?thesis using go [of "oputc 37 o1"] oputc_ok [OF Cons.prems(4), of 37] Percent t(1) by auto
  next
    case (Conv s q l c)
    then have c: "conv_letter c" using ok(2) by simp
    let ?f = "concat (map spell ps)"
    let ?g = "(if s then [43] else []) @ (case q of None \<Rightarrow> [] | Some n \<Rightarrow> 46 # dec_nat n) @ replicate l 108 @ c # ?f"
    have g: "\<not> (?g \<noteq> [] \<and> hd ?g = 37)" using letter_class [OF c] by (cases s; cases q; cases l) simp_all
    have sp: "concat (map spell (p # ps)) = 37 # ?g" using Conv by simp
    have "mini_vprintf (37 # ?g) as st o1 = mini_vprintf ?f as1 st1 (oputs t1 o1)"
      unfolding mini_vprintf.simps [of "37 # ?g"]
      using g fmt_parse_spell [OF c, of s q l ?f as] conv_out_text [OF c t(1) [unfolded Conv] z(1), of False] by simp
    then show ?thesis unfolding sp using go [of "oputs t1 o1"] oputs_ok [OF Cons.prems(4) z(1)] by auto
  qed
qed

lemma big_loop_text:
  "list_all piece_ok ps \<Longrightarrow> pieces_text ps as st = Some (t, st') \<Longrightarrow> length d + length t < BIG - 1 \<Longrightarrow>
    big_loop (concat (map spell ps)) as st d = Returns (d @ t, st')"
proof (induction ps arbitrary: as st t d)
  case Nil
  then show ?case by (simp add: big_loop.simps [of "[]"])
next
  case (Cons p ps)
  obtain t1 as1 st1 t2 where t: "piece_text p as st = Some (t1, as1, st1)" "pieces_text ps as1 st1 = Some (t2, st')" "t = t1 @ t2"
    using Cons.prems(2) by (auto split: option.splits)
  have ok: "list_all piece_ok ps" "piece_ok p" using Cons.prems(1) by simp_all
  have room: "\<not> length d \<ge> BIG - 1" using Cons.prems(3) by simp
  have go: "big_loop (concat (map spell ps)) as1 st1 (d @ t1) = Returns (d @ t, st')"
    using Cons.IH [OF ok(1) t(2), of "d @ t1"] Cons.prems(3) t(3) by simp
  show ?case
  proof (cases p)
    case (Plain c)
    then have "t1 = [c]" "as1 = as" "st1 = st" using t(1) by auto
    then have "big_loop (concat (map spell (p # ps))) as st d = big_loop (concat (map spell ps)) as1 st1 (d @ t1)"
      using ok Plain room by (simp add: big_loop.simps [of "c # _"])
    then show ?thesis using go by simp
  next
    case Percent
    then have "t1 = [37]" "as1 = as" "st1 = st" using t(1) by auto
    then have "big_loop (concat (map spell (p # ps))) as st d = big_loop (concat (map spell ps)) as1 st1 (d @ t1)"
      using Percent room by (simp add: big_loop.simps [of "37 # _"])
    then show ?thesis using go by simp
  next
    case (Conv s q l c)
    then have c: "conv_letter c" using ok(2) by simp
    let ?f = "concat (map spell ps)"
    let ?g = "(if s then [43] else []) @ (case q of None \<Rightarrow> [] | Some n \<Rightarrow> 46 # dec_nat n) @ replicate l 108 @ c # ?f"
    have g: "\<not> (?g \<noteq> [] \<and> hd ?g = 37)" using letter_class [OF c] by (cases s; cases q; cases l) simp_all
    have sp: "concat (map spell (p # ps)) = 37 # ?g" using Conv by simp
    have "length d + length t1 < BIG - 1" using Cons.prems(3) t(3) by simp
    then have "big_loop (37 # ?g) as st d = big_loop ?f as1 st1 (d @ t1)"
      unfolding big_loop.simps [of "37 # ?g"]
      using g room fmt_parse_spell [OF c, of s q l ?f as] conv_big_text [OF c t(1) [unfolded Conv], of d False] by simp
    then show ?thesis unfolding sp using go by simp
  qed
qed

section \<open>Properties\<close>


definition demo_pieces :: "piece list" where
  "demo_pieces = [Conv True None 0 100, Percent, Conv False None 1 120, Plain 10, Conv False None 0 115]"

lemma demo_pieces_facts:
  "list_all piece_ok demo_pieces" "0 \<notin> set ([43, 55, 37, 102, 102, 10, 104, 105] :: cstr)"
  "concat (map spell demo_pieces) = [37, 43, 100, 37, 37, 37, 108, 120, 10, 37, 115]"
  "pieces_text demo_pieces [AInt 7, AInt 255, AStr [104, 105]] st = Some ([43, 55, 37, 102, 102, 10, 104, 105], st)"
  by (simp_all add: demo_pieces_def conv_letter_def is_dbl_def int_text_def sign_text_def int_arg_def low_int_def word_arg_def
      dec_nat.simps hex_nat.simps hex_char_def)


text \<open>
  \<open>snprintf\<close> stores the same text: for the same formats, and a text shorter than the internal
  buffer, the destination holds as much of it as fits with the terminator, and the whole length is
  returned even when it does not fit.
\<close>

theorem snprintf_text:
  assumes "list_all piece_ok ps" "pieces_text ps as st = Some (t, st')" "0 \<notin> set t" "length t < BIG - 1"
  shows "snprintf cap (concat (map spell ps)) as st =
    Returns (if cap > 0 then take (unat cap - 1) t @ [0] else [], int (length t), st')"
  using big_loop_text [OF assms(1,2), of "[]"] assms(3,4) by (simp add: snprintf_def zan_vsnfmt_def cstr_at_id)

theorem snprintf_text_witness:
  "snprintf 4 [37, 43, 100, 37, 37, 37, 108, 120, 10, 37, 115] [AInt 7, AInt 255, AStr [104, 105]] p5_boot =
    Returns ([43, 55, 37, 0], 8, p5_boot)"
  using snprintf_text [OF demo_pieces_facts(1,4,2), of 4 p5_boot] by (simp add: BIG_def demo_pieces_facts(3))

text \<open>
  What the code does with a width: \<open>%5d\<close> of 42 pads behind the number on the console, and \<open>%05d\<close>
  of it prints 42000; \<open>snprintf\<close> puts the blanks of \<open>%5d\<close> between the sign and the digits; a
  width of 25 leaves the array, and a format that ends in a percent sign is read past its end.
\<close>

lemma printf_width:
  "printf [37, 48, 53, 100] [AInt 42] p5_boot \<lparr> obuf = [], sent = [] \<rparr> =
    Returns (\<lparr> obuf = [], sent = [[52, 50, 48, 48, 48]] \<rparr>, p5_boot)"
  "printf [37, 53, 100] [AInt 42] p5_boot \<lparr> obuf = [], sent = [] \<rparr> =
    Returns (\<lparr> obuf = [], sent = [[52, 50, 32, 32, 32]] \<rparr>, p5_boot)"
  by code_simp+

lemma snprintf_width:
  "snprintf 9 [37, 53, 100] [AInt (- 3)] p5_boot = Returns ([45, 32, 32, 32, 51, 0], 5, p5_boot)"
  "snprintf 9 [37, 50, 53, 100] [AInt 3] p5_boot = Wild"
  "snprintf 9 [37] [] p5_boot = Wild"
  by code_simp+

end
