(* ===== verification/Boot_Files.thy ===== *)
theory Boot_Files
  imports Boot_Format
begin

text \<open>
  Files of the freestanding libc (\<open>scripts/crossboot/stub.c\<close>): a table of eight slots over the
  semihosting calls of the host. The host is not part of the repository: it is the parameter \<open>sys\<close>,
  a function from a call and the state of the host to a result word, the bytes that it read into
  memory, and the new state.
\<close>

section \<open>State\<close>

datatype sh_call =
    ShOpen cstr i64 i64
  | ShClose i64
  | ShWrite i64 "u8 list"
  | ShRead i64 u64
  | ShSeek i64 i64
  | ShFlen i64
  | ShRemove i64

type_synonym 'w host = "sh_call \<Rightarrow> 'w \<Rightarrow> (i64 \<times> u8 list) \<times> 'w"

record shfile =
  sf_sh :: "32 word"
  sf_pos :: i64
  sf_tmp :: bool

record files =
  sh_files :: "shfile list"
  sh_tmp_counter :: u32
  sh_stdin_slot :: shfile

definition files_boot :: files where
  "files_boot = \<lparr> sh_files = replicate 8 \<lparr> sf_sh = 0, sf_pos = 0, sf_tmp = False \<rparr>, sh_tmp_counter = 0,
     sh_stdin_slot = \<lparr> sf_sh = 0, sf_pos = 0, sf_tmp = False \<rparr> \<rparr>"

text \<open>A \<open>FILE\<close> pointer, and the slot behind it.\<close>

datatype fref = Null | Slot nat | Stdin

fun file_of :: "files \<Rightarrow> fref \<Rightarrow> shfile option" where
  "file_of fs Null = None"
| "file_of fs (Slot i) = (if i < length (sh_files fs) then Some (sh_files fs ! i) else None)"
| "file_of fs Stdin = Some (sh_stdin_slot fs)"

fun set_file :: "files \<Rightarrow> fref \<Rightarrow> shfile \<Rightarrow> files" where
  "set_file fs Null x = fs"
| "set_file fs (Slot i) x = fs\<lparr> sh_files := (sh_files fs)[i := x] \<rparr>"
| "set_file fs Stdin x = fs\<lparr> sh_stdin_slot := x \<rparr>"

text \<open>The slot of an open file; the handle as the word that goes into the parameter block.\<close>

definition open_file :: "files \<Rightarrow> fref \<Rightarrow> shfile option" where
  "open_file fs f = (case file_of fs f of Some x \<Rightarrow> if sf_sh x = 0 then None else Some x | None \<Rightarrow> None)"

definition handle :: "shfile \<Rightarrow> i64" where
  "handle x = scast (sf_sh x)"

section \<open>Opening and closing\<close>

fun mode_loop :: "cstr \<Rightarrow> int \<Rightarrow> int \<Rightarrow> int \<Rightarrow> int" where
  "mode_loop [] base b upd = base + b * 1 + upd * 2"
| "mode_loop (c # m) base b upd =
     (if c = 114 then mode_loop m 0 b upd
      else if c = 119 then mode_loop m 4 b upd
      else if c = 97 then mode_loop m 8 b upd
      else if c = 98 then mode_loop m base 1 upd
      else if c = 43 then mode_loop m base b 1
      else mode_loop m base b upd)"

definition sh_mode :: "cstr \<Rightarrow> int" where
  "sh_mode m = mode_loop m 0 0 0"

definition fopen :: "'w host \<Rightarrow> cstr option \<Rightarrow> cstr option \<Rightarrow> files \<Rightarrow> 'w \<Rightarrow> fref \<times> files \<times> 'w" where
  "fopen sys p m fs w =
     (case (p, m) of
        (Some p, Some m) \<Rightarrow>
          (case first_index (\<lambda>x. sf_sh x = 0) (sh_files fs) of
             Some i \<Rightarrow>
               (case sys (ShOpen p (word_of_int (sh_mode m)) (of_nat (length p))) w of
                  ((h, d), w1) \<Rightarrow>
                    if h \<le>s 0 then (Null, fs, w1)
                    else (Slot i, set_file fs (Slot i) \<lparr> sf_sh = ucast h, sf_pos = 0, sf_tmp = False \<rparr>, w1))
           | None \<Rightarrow> (Null, fs, w))
      | _ \<Rightarrow> (Null, fs, w))"

definition tmpfile :: "'w host \<Rightarrow> files \<Rightarrow> 'w \<Rightarrow> fref \<times> files \<times> 'w" where
  "tmpfile sys fs w =
     (let name = [122, 97, 110, 95, 116, 109, 112, 95] @ unum (ucast (sh_tmp_counter fs)) 10 False @ [46, 116, 109, 112];
          fs1 = fs\<lparr> sh_tmp_counter := sh_tmp_counter fs + 1 \<rparr>
      in case fopen sys (Some name) (Some [119, 43]) fs1 w of
           (f, fs2, w1) \<Rightarrow>
             (f, (case file_of fs2 f of Some x \<Rightarrow> set_file fs2 f (x\<lparr> sf_tmp := True \<rparr>) | None \<Rightarrow> fs2), w1))"

text \<open>
  Closing a temporary file asks the host to remove it, with the parameter block of the close: its
  only word is the handle, where the call expects the address of a name.
\<close>

definition fclose :: "'w host \<Rightarrow> fref \<Rightarrow> files \<Rightarrow> 'w \<Rightarrow> int \<times> files \<times> 'w" where
  "fclose sys f fs w =
     (case open_file fs f of
        None \<Rightarrow> (- 1, fs, w)
      | Some x \<Rightarrow>
          (let w1 = snd (sys (ShClose (handle x)) w);
               w2 = (if sf_tmp x then snd (sys (ShRemove (handle x)) w1) else w1)
           in (0, set_file fs f (x\<lparr> sf_sh := 0 \<rparr>), w2)))"

definition fflush :: "fref \<Rightarrow> int" where
  "fflush f = 0"

section \<open>Reading, writing, seeking\<close>

text \<open>
  The host returns the number of bytes that it did not transfer; a negative result counts as none
  transferred. Sizes and positions are words that wrap around.
\<close>

definition fread :: "'w host \<Rightarrow> u64 \<Rightarrow> u64 \<Rightarrow> fref \<Rightarrow> files \<Rightarrow> 'w \<Rightarrow> u64 \<times> u8 list \<times> files \<times> 'w" where
  "fread sys sz n f fs w =
     (let total = sz * n
      in case open_file fs f of
           None \<Rightarrow> (0, [], fs, w)
         | Some x \<Rightarrow>
             if total = 0 then (0, [], fs, w)
             else (case sys (ShRead (handle x) total) w of
                ((r, d), w1) \<Rightarrow>
                  let notread = (if r <s 0 then total else r); got = total - notread
                  in (if sz \<noteq> 0 then got div sz else 0, d, set_file fs f (x\<lparr> sf_pos := sf_pos x + got \<rparr>), w1)))"

text \<open>\<open>b\<close> is the memory from the buffer on; it must hold \<open>sz * n\<close> bytes.\<close>

definition fwrite :: "'w host \<Rightarrow> u8 list \<Rightarrow> u64 \<Rightarrow> u64 \<Rightarrow> fref \<Rightarrow> files \<Rightarrow> 'w \<Rightarrow> u64 \<times> files \<times> 'w" where
  "fwrite sys b sz n f fs w =
     (let total = sz * n
      in case open_file fs f of
           None \<Rightarrow> (0, fs, w)
         | Some x \<Rightarrow>
             if total = 0 then (0, fs, w)
             else (case sys (ShWrite (handle x) (take (unat total) b)) w of
                ((r, d), w1) \<Rightarrow>
                  let notwritten = (if r <s 0 then total else r); put = total - notwritten
                  in (if sz \<noteq> 0 then put div sz else 0, set_file fs f (x\<lparr> sf_pos := sf_pos x + put \<rparr>), w1)))"

definition fseek :: "'w host \<Rightarrow> fref \<Rightarrow> i64 \<Rightarrow> int \<Rightarrow> files \<Rightarrow> 'w \<Rightarrow> int \<times> files \<times> 'w" where
  "fseek sys f off whence fs w =
     (case open_file fs f of
        None \<Rightarrow> (- 1, fs, w)
      | Some x \<Rightarrow>
          (case (if whence = 0 then (off, w)
                 else if whence = 1 then (sf_pos x + off, w)
                 else (case sys (ShFlen (handle x)) w of ((len, d), w1) \<Rightarrow> ((if len <s 0 then 0 else len) + off, w1)))
           of (target, w1) \<Rightarrow>
             if target <s 0 then (- 1, fs, w1)
             else (case sys (ShSeek (handle x) target) w1 of
                     ((r, d), w2) \<Rightarrow>
                       if r \<noteq> 0 then (- 1, fs, w2) else (0, set_file fs f (x\<lparr> sf_pos := target \<rparr>), w2))))"

definition ftell :: "fref \<Rightarrow> files \<Rightarrow> i64" where
  "ftell f fs = (case open_file fs f of None \<Rightarrow> - 1 | Some x \<Rightarrow> sf_pos x)"

definition rewind :: "'w host \<Rightarrow> fref \<Rightarrow> files \<Rightarrow> 'w \<Rightarrow> files \<times> 'w" where
  "rewind sys f fs w = snd (fseek sys f 0 0 fs w)"

section \<open>Bytes and lines\<close>

definition fputc :: "'w host \<Rightarrow> 32 word \<Rightarrow> fref \<Rightarrow> files \<Rightarrow> 'w \<Rightarrow> int \<times> files \<times> 'w" where
  "fputc sys b f fs w =
     (case fwrite sys [ucast b] 1 1 f fs w of
        (r, fs1, w1) \<Rightarrow> (if r \<noteq> 1 then - 1 else uint (ucast b :: u8), fs1, w1))"

text \<open>\<^const>\<open>None\<close>: the host claims a byte and delivers none, so that an unset variable is returned.\<close>

definition fgetc :: "'w host \<Rightarrow> fref \<Rightarrow> files \<Rightarrow> 'w \<Rightarrow> int option \<times> files \<times> 'w" where
  "fgetc sys f fs w =
     (case fread sys 1 1 f fs w of
        (r, d, fs1, w1) \<Rightarrow>
          (if r \<noteq> 1 then Some (- 1) else (case d of c # _ \<Rightarrow> Some (uint c) | [] \<Rightarrow> None), fs1, w1))"

text \<open>
  The loop of \<open>fgets\<close>: at most \<open>k\<close> more bytes. Only the result 1 means the end; after any other
  result the byte in memory is taken, and without one it is unset (\<open>Wild\<close>).
\<close>

fun gets_loop :: "'w host \<Rightarrow> i64 \<Rightarrow> nat \<Rightarrow> cstr \<Rightarrow> 'w \<Rightarrow> (cstr \<times> 'w) result" where
  "gets_loop sys h 0 s w = Returns (s, w)"
| "gets_loop sys h (Suc k) s w =
     (case sys (ShRead h 1) w of
        ((r, d), w1) \<Rightarrow>
          if r = 1 then Returns (s, w1)
          else (case d of
                  [] \<Rightarrow> Wild
                | c # _ \<Rightarrow> if c = 10 then Returns (s @ [c], w1) else gets_loop sys h k (s @ [c]) w1))"

text \<open>
  The first call on a closed slot opens the console \<open>:tt\<close>, with the address of the text \<open>r\<close> as the
  mode, \<open>raddr\<close>, and 1 as the length of the name.
\<close>

definition fgets :: "'w host \<Rightarrow> i64 \<Rightarrow> int \<Rightarrow> fref \<Rightarrow> files \<Rightarrow> 'w \<Rightarrow> (cstr option \<times> files \<times> 'w) result" where
  "fgets sys raddr n f fs w =
     (if n \<le> 0 then Returns (None, fs, w)
      else case file_of fs f of
             None \<Rightarrow> Wild
           | Some x \<Rightarrow>
               (let lines = (\<lambda>x fs w. case gets_loop sys (handle x) (nat (n - 1)) [] w of
                       Returns (s, w1) \<Rightarrow> Returns (if s = [] then None else Some (s @ [0]), fs, w1)
                     | Exits e \<Rightarrow> Exits e | Wild \<Rightarrow> Wild)
                in if sf_sh x = 0 then
                     (case sys (ShOpen [58, 116, 116] raddr 1) w of
                        ((h, d), w1) \<Rightarrow>
                          if h \<le>s 0 then Returns (None, fs, w1)
                          else let x1 = \<lparr> sf_sh = ucast h, sf_pos = 0, sf_tmp = False \<rparr> in lines x1 (set_file fs f x1) w1)
                   else lines x fs w))"

section \<open>\<open>fprintf\<close>\<close>

text \<open>
  A walker of its own, for \<open>%d\<close>, \<open>%i\<close>, \<open>%u\<close>, \<open>%x\<close>, \<open>%s\<close> and \<open>%%\<close>: 511 bytes of output in one
  write. Other letters become a question mark.
\<close>

definition put_511 :: "cstr \<Rightarrow> cstr \<Rightarrow> cstr" where
  "put_511 d t = d @ take (511 - length d) t"

definition conv_file :: "nat \<Rightarrow> u8 \<Rightarrow> arg list \<Rightarrow> cstr \<Rightarrow> (cstr \<times> arg list) option" where
  "conv_file l c as d =
     (if c = 115 then map_option (\<lambda>(s, as1). (put_511 d s, as1)) (arg_str as)
      else if c = 100 \<or> c = 105 then
        (case arg_int as of
           Some (w, as1) \<Rightarrow>
             (let v = int_arg l w
              in if v = - (2 ^ 63) then None
                 else Some (put_511 (d @ sign_text False v) (unum (mag_word v) 10 False), as1))
         | None \<Rightarrow> None)
      else if c = 117 \<or> c = 120 then
        map_option (\<lambda>(w, as1). (put_511 d (unum (word_arg l w) (if c = 120 then 16 else 10) False), as1)) (arg_int as)
      else Some (d @ [63], as))"

function file_loop :: "cstr \<Rightarrow> arg list \<Rightarrow> cstr \<Rightarrow> cstr option" where
  "file_loop f as d =
     (case f of
        [] \<Rightarrow> Some d
      | c # f1 \<Rightarrow>
          if length d \<ge> 511 then Some d
          else if c \<noteq> 37 then file_loop f1 as (d @ [c])
          else if f1 \<noteq> [] \<and> hd f1 = 37 then file_loop (tl f1) as (d @ [37])
          else (case fmt_longs f1 0 of
                  (l, []) \<Rightarrow> Some d
                | (l, spec # f3) \<Rightarrow>
                    (case conv_file l spec as d of
                       Some (d1, as1) \<Rightarrow> file_loop f3 as1 d1
                     | None \<Rightarrow> None)))"
  by pat_completeness auto
termination
  by (relation "measure (\<lambda>(f, as, d). length f)")
    (auto dest!: fmt_longs_shorter [OF sym] split: if_splits)

declare file_loop.simps [simp del]

definition fprintf :: "'w host \<Rightarrow> fref \<Rightarrow> cstr \<Rightarrow> arg list \<Rightarrow> files \<Rightarrow> 'w \<Rightarrow> (files \<times> 'w) result" where
  "fprintf sys f fmt as fs w =
     (case open_file fs f of
        None \<Rightarrow> Returns (fs, w)
      | Some x \<Rightarrow>
          (case file_loop fmt as [] of
             None \<Rightarrow> Wild
           | Some big \<Rightarrow>
               let text1 = cstr_at big in Returns (snd (fwrite sys text1 1 (of_nat (length text1)) f fs w))))"

section \<open>The rest of the host surface\<close>

text \<open>
  A function that the fixtures do not reach prints its name and ends the program with status 5. Some
  others report failure, or count calls.
\<close>

definition unreached :: "cstr \<Rightarrow> console \<Rightarrow> console \<times> nat" where
  "unreached name o1 =
     (oflush (oputs ([115, 116, 117, 98, 58, 32, 114, 101, 97, 99, 104, 101, 100, 32, 117, 110, 114, 101, 97, 99, 104,
        101, 100, 32, 104, 111, 115, 116, 32, 102, 110, 32] @ name @ [10]) o1), 5)"

definition mkdir :: "cstr \<Rightarrow> int \<Rightarrow> int" where "mkdir p mode = - 1"

definition readlink :: "cstr \<Rightarrow> u64 \<Rightarrow> int" where "readlink p n = - 1"

definition time0 :: "i64 \<times> bool \<Rightarrow> i64 \<times> i64" where
  "time0 a = (case a of (t, given) \<Rightarrow> (0, if given then 0 else t))"

definition strftime :: "u64 \<Rightarrow> cstr \<Rightarrow> u64 \<times> cstr" where
  "strftime m s = (0, if m > 0 then [0] @ tl s else s)"

definition clock_gettime :: "i64 \<Rightarrow> int \<times> i64 \<times> i64 \<times> i64" where
  "clock_gettime ticks = (let t = ticks + 1 in (0, t, 0, t))"

section \<open>A host as documented\<close>

text \<open>
  What the library relies on of a file with handle \<open>h\<close>: its contents and position. A write puts the
  bytes at the position, a seek within the file moves it, and a read delivers what is there, each
  returning the number of bytes left over.
\<close>

definition documented :: "'w host \<Rightarrow> i64 \<Rightarrow> ('w \<Rightarrow> u8 list) \<Rightarrow> ('w \<Rightarrow> nat) \<Rightarrow> bool" where
  "documented sys h cont fpos \<longleftrightarrow>
     (\<forall>w d. fpos w \<le> length (cont w) \<longrightarrow>
        (\<exists>w'. sys (ShWrite h d) w = ((0, []), w') \<and>
          cont w' = take (fpos w) (cont w) @ d @ drop (fpos w + length d) (cont w) \<and> fpos w' = fpos w + length d)) \<and>
     (\<forall>w p. unat p \<le> length (cont w) \<longrightarrow>
        (\<exists>w'. sys (ShSeek h p) w = ((0, []), w') \<and> cont w' = cont w \<and> fpos w' = unat p)) \<and>
     (\<forall>w n. \<exists>w'. sys (ShRead h n) w =
          ((n - of_nat (length (take (unat n) (drop (fpos w) (cont w)))), take (unat n) (drop (fpos w) (cont w))), w') \<and>
        cont w' = cont w \<and> fpos w' = fpos w + length (take (unat n) (drop (fpos w) (cont w))))"

lemma doc_write:
  assumes "documented sys h cont fpos" "fpos w = length (cont w)"
  obtains w' where "sys (ShWrite h d) w = ((0, []), w')" "cont w' = cont w @ d" "fpos w' = fpos w + length d"
proof -
  have "fpos w \<le> length (cont w)" using assms(2) by simp
  then obtain w' where "sys (ShWrite h d) w = ((0, []), w')"
    "cont w' = take (fpos w) (cont w) @ d @ drop (fpos w + length d) (cont w)" "fpos w' = fpos w + length d"
    using assms(1) unfolding documented_def by blast
  then show thesis using that [of w'] assms(2) by simp
qed

lemma doc_seek:
  assumes "documented sys h cont fpos" "unat p \<le> length (cont w)"
  obtains w' where "sys (ShSeek h p) w = ((0, []), w')" "cont w' = cont w" "fpos w' = unat p"
  using assms unfolding documented_def by blast

lemma doc_read:
  assumes "documented sys h cont fpos" "t = take (unat n) (drop (fpos w) (cont w))"
  obtains w' where "sys (ShRead h n) w = ((n - of_nat (length t), t), w')" "cont w' = cont w" "fpos w' = fpos w + length t"
  using assms unfolding documented_def by blast

text \<open>One file in memory is such a host.\<close>

fun mem_host :: "(u8 list \<times> nat) host" where
  "mem_host (ShOpen p m l) w = ((1, []), w)"
| "mem_host (ShWrite h d) (c, i) = ((0, []), (take i c @ d @ drop (i + length d) c, i + length d))"
| "mem_host (ShRead h n) (c, i) =
     (let d = take (unat n) (drop i c) in ((n - of_nat (length d), d), (c, i + length d)))"
| "mem_host (ShSeek h p) (c, i) = ((0, []), (c, unat p))"
| "mem_host (ShFlen h) (c, i) = ((of_nat (length c), []), (c, i))"
| "mem_host (ShClose h) w = ((0, []), w)"
| "mem_host (ShRemove h) w = ((0, []), w)"

lemma mem_host_documented: "documented mem_host h fst snd"
  by (auto simp: documented_def Let_def)

lemma open_set: "open_file fs f = Some x \<Longrightarrow> open_file (set_file fs f (x\<lparr> sf_pos := p \<rparr>)) f = Some (x\<lparr> sf_pos := p \<rparr>)"
  by (cases f) (auto simp: open_file_def split: if_splits)

lemma u64_of_length: "length d < 9223372036854775808 \<Longrightarrow> unat (of_nat (length d) :: u64) = length d"
  by (simp add: unat_of_nat)

lemma not_neg: "unat (r :: i64) < 9223372036854775808 \<Longrightarrow> \<not> r <s 0"
proof -
  assume "unat r < 9223372036854775808"
  then have "uint r < 9223372036854775808" by (metis of_nat_less_iff of_nat_numeral uint_nat)
  moreover have "- 9223372036854775808 \<le> uint r" by (rule order_trans [of _ 0]) simp_all
  ultimately have "sint r = uint r" using signed_take_bit_int_eq_self [of 63 "uint r"] by (simp add: sint_uint)
  then show ?thesis by (simp add: word_sless_alt)
qed

lemma handle_pos [simp]: "handle (x\<lparr> sf_pos := p \<rparr>) = handle x"
  by (simp add: handle_def)

section \<open>Properties\<close>

text \<open>The bytes of a line, at most \<open>k\<close>.\<close>

fun line_of :: "nat \<Rightarrow> cstr \<Rightarrow> cstr" where
  "line_of 0 s = []"
| "line_of (Suc k) [] = []"
| "line_of (Suc k) (c # s) = c # (if c = 10 then [] else line_of k s)"

lemma gets_loop_line:
  assumes "documented sys h cont fpos"
  shows "\<exists>w'. gets_loop sys h k s w = Returns (s @ line_of k (drop (fpos w) (cont w)), w') \<and>
    cont w' = cont w \<and> fpos w' = fpos w + length (line_of k (drop (fpos w) (cont w)))"
proof (induction k arbitrary: s w)
  case (Suc k)
  define rest where "rest = drop (fpos w) (cont w)"
  obtain w1 where r: "sys (ShRead h 1) w = ((1 - of_nat (length (take 1 rest)), take 1 rest), w1)"
    "cont w1 = cont w" "fpos w1 = fpos w + length (take 1 rest)"
    by (rule doc_read [OF assms, of "take 1 rest" 1 w]) (simp_all add: rest_def)
  show ?case
  proof (cases rest)
    case Nil
    then show ?thesis using r by (auto simp: rest_def [symmetric])
  next
    case (Cons c cs)
    have "drop (fpos w1) (cont w1) = cs"
      using Cons r(2,3) by (simp add: rest_def drop_Suc flip: tl_drop)
    then show ?thesis using Suc.IH [of "s @ [c]" w1] r Cons by (auto simp: rest_def [symmetric])
  qed
qed simp


definition demo_files :: files where
  "demo_files = files_boot\<lparr> sh_files := (sh_files files_boot)[2 := \<lparr> sf_sh = 1, sf_pos = 0, sf_tmp = False \<rparr>] \<rparr>"

lemma demo_open: "open_file demo_files (Slot 2) = Some \<lparr> sf_sh = 1, sf_pos = 0, sf_tmp = False \<rparr>"
  by (simp add: open_file_def demo_files_def files_boot_def numeral_nat)

lemma line_of_demo: "line_of 8 [104, 105, 10, 33] = [104, 105, 10]"
  by code_simp


text \<open>
  What was written is read back: on an open file at its end, \<open>fwrite\<close>, a seek back to where
  the bytes start, and \<open>fread\<close> return the same bytes, all of them, and the same count from both.
\<close>

theorem fwrite_fread:
  assumes "documented sys (handle x) cont fpos" "open_file fs f = Some x"
    "fpos w = length (cont w)" "unat (sf_pos x) = fpos w" "length (cont w) + length d < 9223372036854775808" "d \<noteq> []"
    "fwrite sys d 1 (of_nat (length d)) f fs w = (r1, fs1, w1)"
    "fseek sys f (sf_pos x) 0 fs1 w1 = (r2, fs2, w2)"
    "fread sys 1 (of_nat (length d)) f fs2 w2 = (r3, d', fs3, w3)"
  shows "r1 = of_nat (length d) \<and> r2 = 0 \<and> r3 = of_nat (length d) \<and> d' = d"
proof -
  define n where "n = (of_nat (length d) :: u64)"
  have n: "unat n = length d" "n \<noteq> 0"
    using u64_of_length [of d] assms(5,6) by (auto simp: n_def simp flip: unat_eq_zero)
  obtain w1' where a: "sys (ShWrite (handle x) d) w = ((0, []), w1')" "cont w1' = cont w @ d" "fpos w1' = fpos w + length d"
    by (rule doc_write [OF assms(1,3)])
  have w1: "r1 = n" "w1 = w1'" "fs1 = set_file fs f (x\<lparr> sf_pos := sf_pos x + n \<rparr>)"
    using assms(2,7) n a(1) by (auto simp: fwrite_def Let_def simp flip: n_def)
  have o1: "open_file fs1 f = Some (x\<lparr> sf_pos := sf_pos x + n \<rparr>)" unfolding w1(3) by (rule open_set [OF assms(2)])
  obtain w2' where b: "sys (ShSeek (handle x) (sf_pos x)) w1 = ((0, []), w2')" "cont w2' = cont w @ d" "fpos w2' = length (cont w)"
    using doc_seek [OF assms(1), of "sf_pos x" w1] assms(3,4) a(2) by (auto simp: w1(2))
  have np: "\<not> sf_pos x <s 0" using assms(3,4,5) by (intro not_neg) simp
  have w2: "r2 = 0" "w2 = w2'" "fs2 = set_file fs1 f (x\<lparr> sf_pos := sf_pos x \<rparr>)"
    using assms(8) b(1) np by (simp_all add: fseek_def o1)
  have o2: "open_file fs2 f = Some (x\<lparr> sf_pos := sf_pos x \<rparr>)"
    using open_set [OF o1, of "sf_pos x"] by (simp add: w2(3))
  have tk: "take (unat n) (drop (fpos w2) (cont w2)) = d" by (simp add: w2(2) b(2,3) n)
  obtain w3' where c: "sys (ShRead (handle x) n) w2 = ((n - of_nat (length d), d), w3')"
    by (rule doc_read [OF assms(1) tk [symmetric]])
  have "n - of_nat (length d) = 0" by (simp add: n_def)
  with c have "r3 = n" "d' = d" using assms(9) n by (simp_all add: fread_def Let_def o2 flip: n_def)
  with w1(1) w2(1) show ?thesis by (simp add: n_def)
qed

theorem fwrite_fread_witness:
  "\<exists>fs1 w1 fs2 w2 fs3 w3. fwrite mem_host [7, 8] 1 2 (Slot 2) demo_files ([], 0) = (2, fs1, w1) \<and>
    fseek mem_host (Slot 2) 0 0 fs1 w1 = (0, fs2, w2) \<and> fread mem_host 1 2 (Slot 2) fs2 w2 = (2, [7, 8], fs3, w3)"
proof -
  obtain r1 fs1 w1 where 1: "fwrite mem_host [7, 8] 1 2 (Slot 2) demo_files ([], 0) = (r1, fs1, w1)" by (rule prod_cases3)
  obtain r2 fs2 w2 where 2: "fseek mem_host (Slot 2) 0 0 fs1 w1 = (r2, fs2, w2)" by (rule prod_cases3)
  obtain r3 d' fs3 w3 where 3: "fread mem_host 1 2 (Slot 2) fs2 w2 = (r3, d', fs3, w3)" by (rule prod_cases4)
  have "r1 = of_nat (length [7, 8 :: u8]) \<and> r2 = 0 \<and> r3 = of_nat (length [7, 8 :: u8]) \<and> d' = [7, 8]"
    by (rule fwrite_fread [OF mem_host_documented demo_open, of "([], 0)" "[7, 8]" r1 fs1 w1 r2 fs2 w2 r3 d' fs3 w3])
      (use 1 2 3 in simp_all)
  then have "r1 = 2" "r2 = 0" "r3 = 2" "d' = [7, 8]" by simp_all
  with 1 2 3 show ?thesis by blast
qed

text \<open>
  A temporary file is not removed: closing it passes the handle to the host where the address of
  the name belongs.
\<close>

lemma fclose_tmp:
  assumes "open_file fs f = Some x" "sf_tmp x"
  shows "fclose sys f fs w =
    (0, set_file fs f (x\<lparr> sf_sh := 0 \<rparr>), snd (sys (ShRemove (handle x)) (snd (sys (ShClose (handle x)) w))))"
  using assms by (simp add: fclose_def Let_def)

text \<open>The first \<open>fgets\<close> from the console does not ask for mode \<open>r\<close>, which is 0, but for an address.\<close>

lemma fgets_console:
  assumes "0 < n" "sys (ShOpen [58, 116, 116] raddr 1) w = ((- 1, []), w1)"
  shows "fgets sys raddr n Stdin files_boot w = Returns (None, files_boot, w1)"
  using assms by (simp add: fgets_def files_boot_def word_sle_eq)

end
