(* ===== verification/Boot_Heap.thy ===== *)
theory Boot_Heap
  imports Boot_Text
begin

text \<open>
  The bump heap of the freestanding libc (\<open>scripts/crossboot/stub.c\<close>): one array of 96 MiB and
  the offset of its first free byte. A pointer is an offset into the array, which is 16-aligned.
  Sizes are 64-bit words, with the wrap-around of the code.
\<close>

section \<open>State and operations\<close>

definition HEAP :: nat where "HEAP = 96 * 1024 * 1024"

record heap =
  heap_at :: u64
  heap_mem :: "nat \<Rightarrow> u8"

definition heap_boot :: heap where
  "heap_boot = \<lparr> heap_at = 0, heap_mem = (\<lambda>_. 0) \<rparr>"

definition malloc :: "u64 \<Rightarrow> heap \<Rightarrow> (u64 \<times> heap) result" where
  "malloc n0 h =
     (let n = (n0 + 15) AND NOT 15
      in if heap_at h + n > of_nat HEAP then Exits 3
         else Returns (heap_at h, h\<lparr> heap_at := heap_at h + n \<rparr>))"

text \<open>The loops of \<open>calloc\<close> and \<open>realloc\<close>, byte by byte from the first.\<close>

fun zero_loop :: "(nat \<Rightarrow> u8) \<Rightarrow> nat \<Rightarrow> nat \<Rightarrow> nat \<Rightarrow> u8" where
  "zero_loop m p 0 = m"
| "zero_loop m p (Suc k) = zero_loop (m(p := 0)) (p + 1) k"

fun copy_loop :: "(nat \<Rightarrow> u8) \<Rightarrow> nat \<Rightarrow> nat \<Rightarrow> nat \<Rightarrow> nat \<Rightarrow> u8" where
  "copy_loop m q p 0 = m"
| "copy_loop m q p (Suc k) = copy_loop (m(q := m p)) (q + 1) (p + 1) k"

definition calloc :: "u64 \<Rightarrow> u64 \<Rightarrow> heap \<Rightarrow> (u64 \<times> heap) result" where
  "calloc n sz h =
     (case malloc (n * sz) h of
        Returns (p, h1) \<Rightarrow>
          if unat p + unat (n * sz) \<le> HEAP
          then Returns (p, h1\<lparr> heap_mem := zero_loop (heap_mem h1) (unat p) (unat (n * sz)) \<rparr>)
          else Wild
      | Exits c \<Rightarrow> Exits c | Wild \<Rightarrow> Wild)"

definition free :: "u64 option \<Rightarrow> heap \<Rightarrow> heap" where
  "free p h = h"

definition realloc :: "u64 option \<Rightarrow> u64 \<Rightarrow> heap \<Rightarrow> (u64 \<times> heap) result" where
  "realloc p n h =
     (case p of
        None \<Rightarrow> malloc n h
      | Some a \<Rightarrow>
          (case malloc n h of
             Returns (q, h1) \<Rightarrow>
               if unat a + unat n \<le> HEAP \<and> unat q + unat n \<le> HEAP
               then Returns (q, h1\<lparr> heap_mem := copy_loop (heap_mem h1) (unat q) (unat a) (unat n) \<rparr>)
               else Wild
           | Exits c \<Rightarrow> Exits c | Wild \<Rightarrow> Wild))"

section \<open>Histories\<close>

datatype heap_call = Malloc u64 | Calloc u64 u64 | Realloc "u64 option" u64 | Free "u64 option"

text \<open>A call, with the block that it returned, if any: its start and the size asked for.\<close>

definition heap_step :: "heap_call \<Rightarrow> heap \<Rightarrow> ((u64 \<times> nat) option \<times> heap) result" where
  "heap_step c h =
     (let tag = (\<lambda>n r. case r of Returns (p, h1) \<Rightarrow> Returns (Some (p, n), h1) | Exits e \<Rightarrow> Exits e | Wild \<Rightarrow> Wild)
      in case c of
           Malloc n \<Rightarrow> tag (unat n) (malloc n h)
         | Calloc n sz \<Rightarrow> tag (unat n * unat sz) (calloc n sz h)
         | Realloc p n \<Rightarrow> tag (unat n) (realloc p n h)
         | Free p \<Rightarrow> Returns (None, free p h))"

fun heap_run :: "heap_call list \<Rightarrow> heap \<Rightarrow> ((u64 \<times> nat) list \<times> heap) result" where
  "heap_run [] h = Returns ([], h)"
| "heap_run (c # cs) h =
     (case heap_step c h of
        Returns (b, h1) \<Rightarrow>
          (case heap_run cs h1 of
             Returns (bs, h2) \<Rightarrow> Returns ((case b of Some x \<Rightarrow> x # bs | None \<Rightarrow> bs), h2)
           | Exits e \<Rightarrow> Exits e | Wild \<Rightarrow> Wild)
      | Exits e \<Rightarrow> Exits e | Wild \<Rightarrow> Wild)"

section \<open>Rounding sizes\<close>

definition round16 :: "nat \<Rightarrow> nat" where
  "round16 n = (n + 15) div 16 * 16"

lemma round16_ge: "n \<le> round16 n"
  unfolding round16_def by presburger

lemma round16_less: "round16 n < n + 16"
  unfolding round16_def by presburger

lemma round16_dvd: "16 dvd round16 n"
  by (simp add: round16_def)

lemma unat_round16:
  assumes "unat n \<le> 9223372036854775808"
  shows "unat ((n + 15) AND NOT 15 :: u64) = round16 (unat n)"
proof -
  have m: "(n + 15) AND NOT (mask 4) = push_bit 4 (drop_bit 4 (n + 15))"
    by (rule bit_word_eqI) (auto simp: bit_simps)
  have u: "unat (n + 15) = unat n + 15" using assms by (simp add: unat_word_ariths)
  have "unat (push_bit 4 (drop_bit 4 (n + 15))) = unat (drop_bit 4 (n + 15)) * 16"
  proof -
    have "unat (drop_bit 4 (n + 15)) = (unat n + 15) div 16"
      by (simp only: unat_drop_bit_eq u) (simp add: drop_bit_eq_div)
    moreover have "(unat n + 15) div 16 * 16 < 18446744073709551616" using assms by linarith
    ultimately show ?thesis by (simp only: unsigned_push_bit_eq) (simp add: push_bit_eq_mult take_bit_eq_mod)
  qed
  moreover have "unat (drop_bit 4 (n + 15)) = (unat n + 15) div 16"
    by (simp only: unat_drop_bit_eq u) (simp add: drop_bit_eq_div)
  ultimately show ?thesis using m by (simp add: mask_eq_exp_minus_1 round16_def)
qed

section \<open>The invariant\<close>

text \<open>The free offset is aligned and inside the array.\<close>

definition heap_inv :: "heap \<Rightarrow> bool" where
  "heap_inv h \<longleftrightarrow> unat (heap_at h) \<le> HEAP \<and> 16 dvd unat (heap_at h)"

lemma heap_boot_inv: "heap_inv heap_boot"
  by (simp add: heap_inv_def heap_boot_def)

text \<open>The bytes a call asks for, and requests of at most \<open>2^63\<close> bytes.\<close>

fun need :: "heap_call \<Rightarrow> nat option" where
  "need (Malloc n) = Some (unat n)"
| "need (Calloc n sz) = Some (unat n * unat sz)"
| "need (Realloc p n) = Some (unat n)"
| "need (Free p) = None"

definition sane :: "heap_call \<Rightarrow> bool" where
  "sane c \<longleftrightarrow> (case need c of Some n \<Rightarrow> n \<le> 9223372036854775808 | None \<Rightarrow> True)"

lemma malloc_val:
  assumes "heap_inv h" "unat n \<le> 9223372036854775808"
  shows "malloc n h =
      (if unat (heap_at h) + round16 (unat n) \<le> HEAP
       then Returns (heap_at h, h\<lparr> heap_at := heap_at h + ((n + 15) AND NOT 15) \<rparr>) else Exits 3)"
    "unat (heap_at h) + round16 (unat n) \<le> HEAP \<Longrightarrow>
      unat (heap_at h + ((n + 15) AND NOT 15)) = unat (heap_at h) + round16 (unat n)"
proof -
  have H: "HEAP = 100663296" by (simp add: HEAP_def)
  have "unat (heap_at h) + round16 (unat n) < 18446744073709551616"
    using assms round16_less [of "unat n"] by (simp add: heap_inv_def H)
  then have a: "unat (heap_at h + ((n + 15) AND NOT 15)) = unat (heap_at h) + round16 (unat n)"
    by (simp only: unat_word_ariths unat_round16 [OF assms(2)]) simp
  then show "unat (heap_at h) + round16 (unat n) \<le> HEAP \<Longrightarrow>
      unat (heap_at h + ((n + 15) AND NOT 15)) = unat (heap_at h) + round16 (unat n)" by blast
  have "heap_at h + ((n + 15) AND NOT 15) > of_nat HEAP \<longleftrightarrow> \<not> unat (heap_at h) + round16 (unat n) \<le> HEAP"
    by (simp only: word_less_nat_alt a) (simp add: H unat_of_nat not_le)
  then show "malloc n h =
      (if unat (heap_at h) + round16 (unat n) \<le> HEAP
       then Returns (heap_at h, h\<lparr> heap_at := heap_at h + ((n + 15) AND NOT 15) \<rparr>) else Exits 3)"
    by (simp add: malloc_def Let_def)
qed

lemma calloc_size: "sane (Calloc n sz) \<Longrightarrow> unat (n * sz) = unat n * unat sz"
  by (simp add: sane_def unat_word_ariths)

text \<open>A call that returns took the memory from the free offset on, and moved it past the block.\<close>

lemma heap_step_took:
  assumes "heap_inv h" "sane c" "heap_step c h = Returns (b, h1)"
  shows "case need c of
      None \<Rightarrow> b = None \<and> h1 = h
    | Some n \<Rightarrow> b = Some (heap_at h, n) \<and> unat (heap_at h1) = unat (heap_at h) + round16 n \<and> unat (heap_at h1) \<le> HEAP"
proof (cases c)
  case (Malloc n)
  with assms malloc_val [OF assms(1), of n] show ?thesis
    by (auto simp: heap_step_def sane_def split: if_splits)
next
  case (Calloc n sz)
  with assms(2) have "sane (Calloc n sz)" by simp
  note e = calloc_size [OF this]
  with Calloc assms malloc_val [OF assms(1), of "n * sz"] show ?thesis
    by (auto simp: heap_step_def calloc_def sane_def split: if_splits)
next
  case (Realloc p n)
  with assms malloc_val [OF assms(1), of n] show ?thesis
    by (auto simp: heap_step_def realloc_def sane_def split: if_splits option.splits)
next
  case (Free p)
  with assms show ?thesis by (simp add: heap_step_def free_def)
qed

lemma heap_step_inv: "heap_inv h \<Longrightarrow> sane c \<Longrightarrow> heap_step c h = Returns (b, h1) \<Longrightarrow> heap_inv h1"
  using heap_step_took [of h c b h1] round16_dvd by (auto simp: heap_inv_def split: option.splits)

section \<open>Blocks\<close>

text \<open>The start of a block as a number, and the end of its rounded size.\<close>

definition blk_lo :: "u64 \<times> nat \<Rightarrow> nat" where "blk_lo b = unat (fst b)"
definition blk_hi :: "u64 \<times> nat \<Rightarrow> nat" where "blk_hi b = unat (fst b) + round16 (snd b)"

lemma heap_run_blocks:
  "heap_inv h \<Longrightarrow> list_all sane cs \<Longrightarrow> heap_run cs h = Returns (bs, h') \<Longrightarrow>
    sorted_wrt (\<lambda>b c. blk_hi b \<le> blk_lo c) bs \<and> heap_inv h' \<and>
    list_all (\<lambda>b. unat (heap_at h) \<le> blk_lo b \<and> blk_hi b \<le> unat (heap_at h') \<and> 16 dvd blk_lo b) bs \<and>
    unat (heap_at h) \<le> unat (heap_at h')"
proof (induction cs arbitrary: h bs)
  case (Cons c cs)
  obtain b h1 where s: "heap_step c h = Returns (b, h1)" using Cons.prems(3) by (cases "heap_step c h") auto
  obtain bs1 where r: "heap_run cs h1 = Returns (bs1, h')" "bs = (case b of Some x \<Rightarrow> x # bs1 | None \<Rightarrow> bs1)"
    using Cons.prems(3) s by (cases "heap_run cs h1") auto
  have c: "sane c" "list_all sane cs" using Cons.prems(2) by simp_all
  note inv = heap_step_inv [OF Cons.prems(1) c(1) s]
  note ih = Cons.IH [OF inv c(2) r(1)] and t = heap_step_took [OF Cons.prems(1) c(1) s]
  show ?case
  proof (cases "need c")
    case None
    then show ?thesis using ih t r(2) by simp
  next
    case (Some n)
    then have b: "b = Some (heap_at h, n)" "unat (heap_at h1) = unat (heap_at h) + round16 n" using t by simp_all
    have "list_all (\<lambda>b. unat (heap_at h) \<le> blk_lo b) bs1"
      using ih b(2) by (auto simp: list_all_iff)
    then show ?thesis
      using ih b Cons.prems(1) r(2) by (auto simp: list_all_iff blk_lo_def blk_hi_def heap_inv_def)
  qed
qed simp

section \<open>Serving requests\<close>

text \<open>Whether the \<open>realloc\<close> calls of a history pass addresses below the free offset of their time.\<close>

definition own_ptr :: "heap_call \<Rightarrow> heap \<Rightarrow> bool" where
  "own_ptr c h = (case c of Realloc (Some p) n \<Rightarrow> p \<le> heap_at h | _ \<Rightarrow> True)"

fun own :: "heap_call list \<Rightarrow> heap \<Rightarrow> bool" where
  "own [] h = True"
| "own (c # cs) h = (own_ptr c h \<and> (case heap_step c h of Returns (b, h1) \<Rightarrow> own cs h1 | _ \<Rightarrow> True))"

definition cost :: "heap_call \<Rightarrow> nat" where
  "cost c = (case need c of Some n \<Rightarrow> round16 n | None \<Rightarrow> 0)"

lemma heap_step_serves:
  assumes "heap_inv h" "sane c" "own_ptr c h"
  shows "(\<exists>b h1. heap_step c h = Returns (b, h1)) \<longleftrightarrow> unat (heap_at h) + cost c \<le> HEAP" "heap_step c h \<noteq> Wild"
proof -
  have "if unat (heap_at h) + cost c \<le> HEAP then \<exists>b h1. heap_step c h = Returns (b, h1) else heap_step c h = Exits 3"
  proof (cases c)
    case (Malloc n)
    with assms malloc_val(1) [OF assms(1), of n] show ?thesis
      by (simp add: heap_step_def sane_def cost_def)
  next
    case (Calloc n sz)
    with assms(2) have "sane (Calloc n sz)" by simp
    note e = calloc_size [OF this]
    have "unat (heap_at h) + unat n * unat sz \<le> HEAP" if "unat (heap_at h) + round16 (unat n * unat sz) \<le> HEAP"
      using that round16_ge [of "unat n * unat sz"] by simp
    with Calloc assms e malloc_val(1) [OF assms(1), of "n * sz"] show ?thesis
      by (simp add: heap_step_def calloc_def sane_def cost_def)
  next
    case (Realloc p n)
    have "unat a + unat n \<le> HEAP" if "unat (heap_at h) + round16 (unat n) \<le> HEAP" "p = Some a" for a
      using that assms(3) round16_ge [of "unat n"] by (simp add: Realloc own_ptr_def word_le_nat_alt)
    moreover have "unat (heap_at h) + unat n \<le> HEAP" if "unat (heap_at h) + round16 (unat n) \<le> HEAP"
      using that round16_ge [of "unat n"] by simp
    ultimately show ?thesis
      using Realloc assms malloc_val(1) [OF assms(1), of n]
      by (auto simp: heap_step_def realloc_def sane_def cost_def split: option.splits)
  next
    case (Free p)
    with assms show ?thesis by (simp add: heap_step_def cost_def heap_inv_def)
  qed
  then show "(\<exists>b h1. heap_step c h = Returns (b, h1)) \<longleftrightarrow> unat (heap_at h) + cost c \<le> HEAP" "heap_step c h \<noteq> Wild"
    by (auto split: if_splits)
qed

lemma heap_step_cost:
  "heap_inv h \<Longrightarrow> sane c \<Longrightarrow> heap_step c h = Returns (b, h1) \<Longrightarrow> unat (heap_at h1) = unat (heap_at h) + cost c"
  using heap_step_took [of h c b h1] by (auto simp: cost_def split: option.splits)

lemma heap_run_serves:
  "heap_inv h \<Longrightarrow> list_all sane cs \<Longrightarrow> own cs h \<Longrightarrow>
    (\<exists>bs h'. heap_run cs h = Returns (bs, h')) \<longleftrightarrow> unat (heap_at h) + sum_list (map cost cs) \<le> HEAP"
proof (induction cs arbitrary: h)
  case (Cons c cs)
  have c: "sane c" "own_ptr c h" "list_all sane cs" using Cons.prems(2,3) by simp_all
  show ?case
  proof (cases "heap_step c h")
    case (Returns x)
    obtain b h1 where s: "heap_step c h = Returns (b, h1)" using Returns by (cases x) auto
    have "own cs h1" using Cons.prems(3) s by simp
    then have "(\<exists>bs h'. heap_run cs h1 = Returns (bs, h')) \<longleftrightarrow> unat (heap_at h1) + sum_list (map cost cs) \<le> HEAP"
      by (intro Cons.IH [OF heap_step_inv [OF Cons.prems(1) c(1) s] c(3)])
    moreover have "(\<exists>bs h'. heap_run (c # cs) h = Returns (bs, h')) \<longleftrightarrow> (\<exists>bs h'. heap_run cs h1 = Returns (bs, h'))"
      by (auto simp: s split: result.splits)
    ultimately show ?thesis using heap_step_cost [OF Cons.prems(1) c(1) s] by (simp add: add.assoc)
  next
    case (Exits e)
    then show ?thesis using heap_step_serves(1) [OF Cons.prems(1) c(1,2)] by auto
  next
    case Wild
    then show ?thesis using heap_step_serves(2) [OF Cons.prems(1) c(1,2)] by simp
  qed
qed (simp add: heap_inv_def)

section \<open>Contents\<close>

lemma copy_loop_below: "a < q \<Longrightarrow> copy_loop m q p k a = m a"
  by (induction m q p k rule: copy_loop.induct) simp_all

lemma copy_loop_at: "i < k \<Longrightarrow> p + i < q \<Longrightarrow> copy_loop m q p k (q + i) = m (p + i)"
proof (induction k arbitrary: m q p i)
  case (Suc k)
  show ?case
  proof (cases i)
    case 0
    then show ?thesis by (simp add: copy_loop_below)
  next
    case (Suc j)
    then show ?thesis using Suc.IH [of j "p + 1" "q + 1" "m(q := m p)"] Suc.prems by (simp add: fun_upd_def)
  qed
qed simp

section \<open>Properties\<close>



text \<open>
  The heap serves every history whose rounded requests fit its 96 MiB together, and only those:
  \<open>free\<close> gives nothing back, and a \<open>realloc\<close> costs a whole new block.
\<close>

theorem heap_serves:
  assumes "list_all sane cs" "own cs heap_boot"
  shows "(\<exists>bs h. heap_run cs heap_boot = Returns (bs, h)) \<longleftrightarrow> sum_list (map cost cs) \<le> HEAP"
  using heap_run_serves [OF heap_boot_inv assms] by (simp add: heap_boot_def)

theorem heap_serves_witness:
  "(\<exists>bs h. heap_run [Malloc 50331648, Realloc (Some 0) 50331648, Free (Some 0)] heap_boot = Returns (bs, h)) \<longleftrightarrow>
    round16 50331648 + (round16 50331648 + 0) \<le> HEAP"
  using heap_serves [of "[Malloc 50331648, Realloc (Some 0) 50331648, Free (Some 0)]"]
  by (simp add: sane_def own_ptr_def heap_step_def malloc_def heap_boot_def cost_def HEAP_def split: result.splits)

text \<open>
  \<open>realloc\<close> keeps the bytes of the old block, up to the smaller of the two sizes, and leaves
  all memory below the new block as it was.
\<close>

theorem realloc_keeps:
  assumes "heap_inv h" "unat n \<le> 9223372036854775808" "unat p + old \<le> unat (heap_at h)"
    "realloc (Some p) n h = Returns (q, h')"
  shows "(\<forall>k<min old (unat n). heap_mem h' (unat q + k) = heap_mem h (unat p + k)) \<and>
    (\<forall>a<unat q. heap_mem h' a = heap_mem h a)"
proof -
  have h': "q = heap_at h" "heap_mem h' = copy_loop (heap_mem h) (unat q) (unat p) (unat n)"
    using assms(4) malloc_val(1) [OF assms(1,2)] by (auto simp: realloc_def split: if_splits)
  show ?thesis
    unfolding h'(2) using assms(3) h'(1) by (auto simp: copy_loop_at copy_loop_below)
qed

theorem realloc_keeps_witness:
  "\<exists>h'. realloc (Some 0) 2 \<lparr> heap_at = 16, heap_mem = (\<lambda>_. 7) \<rparr> = Returns (16, h') \<and> heap_mem h' 17 = 7"
proof -
  let ?h = "\<lparr> heap_at = 16, heap_mem = (\<lambda>_. 7) \<rparr>"
  obtain h' where r: "realloc (Some 0) 2 ?h = Returns (16, h')"
    by (simp add: realloc_def malloc_def HEAP_def)
  have "(\<forall>k<min 3 (unat (2 :: u64)). heap_mem h' (unat (16 :: u64) + k) = heap_mem ?h (unat (0 :: u64) + k)) \<and>
      (\<forall>a<unat (16 :: u64). heap_mem h' a = heap_mem ?h a)"
    by (rule realloc_keeps [OF _ _ _ r]) (simp_all add: heap_inv_def HEAP_def)
  from this [THEN conjunct1, rule_format, of 1] have "heap_mem h' 17 = 7" by simp
  with r show ?thesis by blast
qed

text \<open>
  Without the bound on the sizes: a request whose sum with the free offset wraps around moves the
  offset back, and the next block lies inside the first; and \<open>calloc\<close> hands out an empty block
  when the product of its arguments wraps around to 0.
\<close>

lemma heap_wraps:
  "\<exists>h. heap_run [Malloc 32, Malloc 18446744073709551600, Malloc 16] heap_boot =
    Returns ([(0, 32), (32, 18446744073709551600), (16, 16)], h)"
  by (simp add: heap_step_def malloc_def heap_boot_def HEAP_def)

lemma calloc_wraps:
  "\<exists>h. heap_run [Calloc 4294967296 4294967296, Malloc 16] heap_boot = Returns ([(0, 18446744073709551616), (0, 16)], h)"
  by (simp add: heap_step_def malloc_def calloc_def heap_boot_def HEAP_def)

end
