(* ===== verification/Boot_Math.thy ===== *)
theory Boot_Math
  imports Boot_Round "HOL-Library.Log_Nat"
begin

text \<open>
  The arithmetic of doubles, and the mathematical functions of the freestanding libc
  (\<open>scripts/crossboot/stub.c\<close>) that are built on it. A double is its 64 bits. The operations of C on
  doubles are those of IEEE 754: the exact result, rounded to the nearest double, ties to even.
\<close>

section \<open>Doubles\<close>

abbreviation (input) frac_unit :: nat where "frac_unit \<equiv> 4503599627370496"

definition d_neg :: "u64 \<Rightarrow> bool" where
  "d_neg x \<longleftrightarrow> 9223372036854775808 \<le> unat x"

definition d_mag :: "u64 \<Rightarrow> nat" where
  "d_mag x = unat x mod 9223372036854775808"

definition d_nan :: "u64 \<Rightarrow> bool" where "d_nan x \<longleftrightarrow> inf_bits < d_mag x"
definition d_inf :: "u64 \<Rightarrow> bool" where "d_inf x \<longleftrightarrow> d_mag x = inf_bits"
definition d_fin :: "u64 \<Rightarrow> bool" where "d_fin x \<longleftrightarrow> d_mag x < inf_bits"

text \<open>The significand and its exponent: the value of finite bits is their product.\<close>

definition d_sig :: "u64 \<Rightarrow> nat" where
  "d_sig x = (let m = d_mag x mod frac_unit in if d_mag x div frac_unit = 0 then m else m + frac_unit)"

definition d_exp :: "u64 \<Rightarrow> int" where
  "d_exp x = (if d_mag x div frac_unit = 0 then - 1074 else int (d_mag x div frac_unit) - 1075)"

definition d_val :: "u64 \<Rightarrow> real" where
  "d_val x = (if d_neg x then - mag_val (d_mag x) else mag_val (d_mag x))"

definition d_pack :: "bool \<Rightarrow> nat \<Rightarrow> u64" where
  "d_pack neg m = of_nat (if neg then m + 9223372036854775808 else m)"

definition q_nan :: u64 where "q_nan = 9221120237041090560"

section \<open>Rounding\<close>

text \<open>\<open>n div 2 ^ k\<close> to the nearest, ties to even.\<close>

definition shift_even :: "nat \<Rightarrow> nat \<Rightarrow> nat" where
  "shift_even n k =
     (let q = n div 2 ^ k; r = n mod 2 ^ k
      in if 2 * r < 2 ^ k then q else if 2 ^ k < 2 * r then q + 1 else if even q then q else q + 1)"

text \<open>The bits of the double nearest to \<open>n * 2 ^ e\<close>.\<close>

definition d_bits :: "nat \<Rightarrow> int \<Rightarrow> nat" where
  "d_bits n e =
     (let u = max (- 1074) (int (floorlog 2 n) + e - 53);
          q = (if u \<le> e then n * 2 ^ nat (e - u) else shift_even n (nat (u - e)))
      in min inf_bits (q + nat (u + 1074) * frac_unit))"

section \<open>Operations\<close>

definition d_minus :: "u64 \<Rightarrow> u64" where
  "d_minus x = d_pack (\<not> d_neg x) (d_mag x)"

definition d_key :: "u64 \<Rightarrow> int" where
  "d_key x = (if d_neg x then - int (d_mag x) else int (d_mag x))"

definition d_lt :: "u64 \<Rightarrow> u64 \<Rightarrow> bool" where
  "d_lt x y \<longleftrightarrow> \<not> d_nan x \<and> \<not> d_nan y \<and> d_key x < d_key y"

definition d_le :: "u64 \<Rightarrow> u64 \<Rightarrow> bool" where
  "d_le x y \<longleftrightarrow> \<not> d_nan x \<and> \<not> d_nan y \<and> d_key x \<le> d_key y"

definition d_eq :: "u64 \<Rightarrow> u64 \<Rightarrow> bool" where
  "d_eq x y \<longleftrightarrow> \<not> d_nan x \<and> \<not> d_nan y \<and> d_key x = d_key y"

definition d_add :: "u64 \<Rightarrow> u64 \<Rightarrow> u64" where
  "d_add x y =
     (if d_nan x \<or> d_nan y \<or> (d_inf x \<and> d_inf y \<and> d_neg x \<noteq> d_neg y) then q_nan
      else if d_inf x then x
      else if d_inf y then y
      else let e = min (d_exp x) (d_exp y);
               a = int (d_sig x) * 2 ^ nat (d_exp x - e); b = int (d_sig y) * 2 ^ nat (d_exp y - e);
               s = (if d_neg x then - a else a) + (if d_neg y then - b else b)
           in if s = 0 then d_pack (d_neg x \<and> d_neg y) 0 else d_pack (s < 0) (d_bits (nat \<bar>s\<bar>) e))"

definition d_sub :: "u64 \<Rightarrow> u64 \<Rightarrow> u64" where
  "d_sub x y = d_add x (d_minus y)"

definition d_mul :: "u64 \<Rightarrow> u64 \<Rightarrow> u64" where
  "d_mul x y =
     (let neg = (d_neg x \<noteq> d_neg y) in
      if d_nan x \<or> d_nan y \<or> (d_inf x \<and> d_sig y = 0) \<or> (d_inf y \<and> d_sig x = 0) then q_nan
      else if d_inf x \<or> d_inf y then d_pack neg inf_bits
      else if d_sig x = 0 \<or> d_sig y = 0 then d_pack neg 0
      else d_pack neg (d_bits (d_sig x * d_sig y) (d_exp x + d_exp y)))"

text \<open>The quotient is computed to more than 55 digits, and what is left of it sets one more, lowest digit.\<close>

definition d_div :: "u64 \<Rightarrow> u64 \<Rightarrow> u64" where
  "d_div x y =
     (let neg = (d_neg x \<noteq> d_neg y) in
      if d_nan x \<or> d_nan y \<or> (d_inf x \<and> d_inf y) \<or> (d_sig x = 0 \<and> d_sig y = 0) then q_nan
      else if d_inf x \<or> d_sig y = 0 then d_pack neg inf_bits
      else if d_inf y \<or> d_sig x = 0 then d_pack neg 0
      else let n = d_sig x * 2 ^ 110; q = 2 * (n div d_sig y) + (if n mod d_sig y = 0 then 0 else 1)
           in d_pack neg (d_bits q (d_exp x - d_exp y - 111)))"

text \<open>The conversions of C: from an integer, and the truncation to one, which is undefined out of range.\<close>

definition d_of_int :: "int \<Rightarrow> u64" where
  "d_of_int t = (if t = 0 then 0 else d_pack (t < 0) (d_bits (nat \<bar>t\<bar>) 0))"

definition d_trunc :: "u64 \<Rightarrow> int" where
  "d_trunc x =
     (let a = int (if 0 \<le> d_exp x then d_sig x * 2 ^ nat (d_exp x) else d_sig x div 2 ^ nat (- d_exp x))
      in if d_neg x then - a else a)"

definition d_to_i64 :: "u64 \<Rightarrow> int option" where
  "d_to_i64 x =
     (if d_fin x \<and> - 9223372036854775808 \<le> d_trunc x \<and> d_trunc x < 9223372036854775808 then Some (d_trunc x) else None)"

section \<open>The functions\<close>

definition d_one :: u64 where "d_one = 4607182418800017408"
definition d_half :: u64 where "d_half = 4602678819172646912"
definition d_two53 :: u64 where "d_two53 = 4845873199050653696"

definition d_absolute :: "u64 \<Rightarrow> u64" where
  "d_absolute x = (if d_lt x 0 then d_minus x else x)"

text \<open>NaN, infinity and what has no fraction is returned as it is.\<close>

definition d_whole :: "u64 \<Rightarrow> bool" where
  "d_whole x \<longleftrightarrow> \<not> d_eq x x \<or> d_le d_two53 (d_absolute x)"

definition round_d :: "u64 \<Rightarrow> u64" where
  "round_d x = (if d_whole x then x else d_of_int (d_trunc (d_add x (if d_le 0 x then d_half else d_minus d_half))))"

definition fabs :: "u64 \<Rightarrow> u64" where
  "fabs x = x AND NOT (push_bit 63 1)"

definition floor_d :: "u64 \<Rightarrow> u64" where
  "floor_d x =
     (if d_whole x then x
      else let t = d_trunc x; t1 = (if d_lt x 0 \<and> \<not> d_eq (d_of_int t) x then t - 1 else t) in d_of_int t1)"

definition ceil_d :: "u64 \<Rightarrow> u64" where
  "ceil_d x =
     (if d_whole x then x
      else let t = d_trunc x; t1 = (if d_lt 0 x \<and> \<not> d_eq (d_of_int t) x then t + 1 else t) in d_of_int t1)"

definition fmax :: "u64 \<Rightarrow> u64 \<Rightarrow> u64" where
  "fmax a b = (if \<not> d_eq a a then b else if \<not> d_eq b b then a else if d_lt b a then a else b)"

definition fmin :: "u64 \<Rightarrow> u64 \<Rightarrow> u64" where
  "fmin a b = (if \<not> d_eq a a then b else if \<not> d_eq b b then a else if d_lt a b then a else b)"

section \<open>Powers\<close>

definition d_two :: u64 where "d_two = 4611686018427387904"
definition d_sqrt2 :: u64 where "d_sqrt2 = 4609047870845172685"
definition d_sqrt_half :: u64 where "d_sqrt_half = 4604544271217802189"
definition d_ln2 :: u64 where "d_ln2 = 4604418534313441775"
definition d_709 :: u64 where "d_709 = 4649447645771726848"

function pow_loop :: "nat \<Rightarrow> u64 \<Rightarrow> u64 \<Rightarrow> u64" where
  "pow_loop n acc base =
     (if n = 0 then acc
      else let acc1 = (if odd n then d_mul acc base else acc); n1 = n div 2
           in pow_loop n1 acc1 (if n1 \<noteq> 0 then d_mul base base else base))"
  by auto
termination by (relation "measure fst") auto

declare pow_loop.simps [simp del]

text \<open>The loops that bring the argument of the logarithm near 1. They need not end.\<close>

partial_function (option) ln_down :: "u64 \<Rightarrow> u64 \<Rightarrow> (u64 \<times> u64) option" where
  "ln_down lx k = (if d_lt d_sqrt2 lx then ln_down (d_mul lx d_half) (d_add k d_one) else Some (lx, k))"

partial_function (option) ln_up :: "u64 \<Rightarrow> u64 \<Rightarrow> (u64 \<times> u64) option" where
  "ln_up lx k = (if d_lt lx d_sqrt_half then ln_up (d_mul lx d_two) (d_sub k d_one) else Some (lx, k))"

definition ln_series :: "u64 \<Rightarrow> u64" where
  "ln_series z =
     fst (fold (\<lambda>i (acc, zp). (d_add acc (d_div zp (d_of_int i)), d_mul zp (d_mul z z))) [1, 3, 5, 7, 9, 11, 13, 15, 17, 19] (0, z))"

definition exp_series :: "u64 \<Rightarrow> u64" where
  "exp_series r =
     fst (fold (\<lambda>i (acc, term). let t = d_div (d_mul term r) (d_of_int i) in (d_add acc t, t)) [1..14] (d_one, d_one))"

partial_function (option) scale_up :: "u64 \<Rightarrow> u64 \<Rightarrow> (u64 \<times> u64) option" where
  "scale_up k acc = (if d_lt 0 k then scale_up (d_sub k d_one) (d_mul acc d_two) else Some (k, acc))"

partial_function (option) scale_down :: "u64 \<Rightarrow> u64 \<Rightarrow> (u64 \<times> u64) option" where
  "scale_down k acc = (if d_lt k 0 then scale_down (d_add k d_one) (d_mul acc d_half) else Some (k, acc))"

text \<open>\<open>exp\<close> of the product of the exponent and the logarithm.\<close>

definition pow_exp :: "u64 \<Rightarrow> u64 option" where
  "pow_exp s0 =
     (let below = d_lt s0 0; s = (if below then d_minus s0 else s0) in
      if d_lt d_709 s then Some (if below then 0 else d_pack False inf_bits)
      else case d_to_i64 (d_div s d_ln2) of
        None \<Rightarrow> None
      | Some t \<Rightarrow>
          let k = d_of_int t; acc = exp_series (d_sub s (d_mul k d_ln2))
          in (case scale_up k acc of
                None \<Rightarrow> None
              | Some (k1, acc1) \<Rightarrow>
                  map_option (\<lambda>(k2, acc2). if below then d_div d_one acc2 else acc2) (scale_down k1 acc1)))"

definition pow_frac :: "u64 \<Rightarrow> u64 \<Rightarrow> u64 option" where
  "pow_frac x y =
     (if d_lt x 0 then Some q_nan
      else if d_eq x 0 then Some 0
      else case ln_down x 0 of
        None \<Rightarrow> None
      | Some (l1, k1) \<Rightarrow>
          (case ln_up l1 k1 of
             None \<Rightarrow> None
           | Some (l2, k2) \<Rightarrow>
               let z = d_div (d_sub l2 d_one) (d_add l2 d_one)
               in pow_exp (d_mul y (d_add (d_mul d_two (ln_series z)) (d_mul k2 d_ln2)))))"

definition pow :: "u64 \<Rightarrow> u64 \<Rightarrow> u64 option" where
  "pow x y =
     (if d_eq y 0 then Some d_one
      else case d_to_i64 y of
        None \<Rightarrow> None
      | Some n \<Rightarrow>
          if d_eq (d_of_int n) y \<and> - 512 \<le> n \<and> n \<le> 512
          then let acc = pow_loop (nat \<bar>n\<bar>) d_one x in Some (if n < 0 then d_div d_one acc else acc)
          else pow_frac x y)"

section \<open>Sine and cosine\<close>

definition d_pi2_hi :: u64 where "d_pi2_hi = 4609753056924675352"
definition d_pi2_mid :: u64 where "d_pi2_mid = 4364452196894661639"
definition d_pi2_lo :: u64 where "d_pi2_lo = 4118069129077382181"
definition d_quarter :: u64 where "d_quarter = 4598175219545276416"

text \<open>The series from the term \<open>i\<close> on, with the divisor of each term; it ends when a term no longer counts.\<close>

fun trig_loop :: "nat \<Rightarrow> (int \<Rightarrow> int) \<Rightarrow> u64 \<Rightarrow> int \<Rightarrow> u64 \<Rightarrow> u64 \<Rightarrow> u64" where
  "trig_loop 0 d x2 i t acc = acc"
| "trig_loop (Suc n) d x2 i t acc =
     (let t1 = d_div (d_mul t x2) (d_of_int (d i)); acc1 = (if odd i then d_sub acc t1 else d_add acc t1)
      in if d_eq acc1 (d_add acc1 (d_mul t1 d_quarter)) then acc1 else trig_loop n d x2 (i + 1) t1 acc1)"

definition d_sin_core :: "u64 \<Rightarrow> u64" where
  "d_sin_core r = trig_loop 12 (\<lambda>i. (2 * i) * (2 * i + 1)) (d_mul r r) 1 r r"

definition d_cos_core :: "u64 \<Rightarrow> u64" where
  "d_cos_core r = trig_loop 13 (\<lambda>i. (2 * i - 1) * (2 * i)) (d_mul r r) 1 d_one d_one"

text \<open>\<open>__builtin_round\<close>: the nearest integer, halves away from zero.\<close>

definition builtin_round :: "u64 \<Rightarrow> u64" where
  "builtin_round x =
     (if \<not> d_fin x \<or> 0 \<le> d_exp x then x
      else let a = (2 * d_sig x div 2 ^ nat (- d_exp x) + 1) div 2
           in if a = 0 then d_pack (d_neg x) 0 else d_of_int (if d_neg x then - int a else int a))"

definition pi2_parts :: "u64 \<Rightarrow> u64 \<times> u64" where
  "pi2_parts x =
     (let k = builtin_round (d_div x d_pi2_hi)
      in (k, d_sub (d_sub (d_sub x (d_mul k d_pi2_hi)) (d_mul k d_pi2_mid)) (d_mul k d_pi2_lo)))"

definition sin_d :: "u64 \<Rightarrow> u64 option" where
  "sin_d x =
     (if \<not> d_eq x x then Some x
      else if d_eq x 0 then Some x
      else let (k, r) = pi2_parts x in
        map_option (\<lambda>q. if q mod 4 = 0 then d_sin_core r else if q mod 4 = 1 then d_cos_core r
                        else if q mod 4 = 2 then d_minus (d_sin_core r) else d_minus (d_cos_core r)) (d_to_i64 k))"

definition cos_d :: "u64 \<Rightarrow> u64 option" where
  "cos_d x =
     (if \<not> d_eq x x then Some x
      else let (k, r) = pi2_parts x in
        map_option (\<lambda>q. if q mod 4 = 0 then d_cos_core r else if q mod 4 = 1 then d_minus (d_sin_core r)
                        else if q mod 4 = 2 then d_minus (d_cos_core r) else d_sin_core r) (d_to_i64 k))"

section \<open>Values\<close>

lemma d_val_sig: "d_val x = (if d_neg x then -1 else 1) * (real (d_sig x) * 2 powi d_exp x)"
  by (simp add: d_val_def mag_val_def d_sig_def d_exp_def Let_def)

lemma d_mag_less: "d_mag x < 9223372036854775808"
  by (simp add: d_mag_def)

lemma d_pack_simps:
  assumes "m < 9223372036854775808"
  shows "d_mag (d_pack neg m) = m" "d_neg (d_pack neg m) = neg"
proof -
  let ?k = "if neg then m + 9223372036854775808 else m"
  have "?k < 2 ^ 64" using assms by simp
  then have u: "unat (d_pack neg m) = ?k" unfolding d_pack_def unat_of_nat by (intro mod_less) simp
  show "d_mag (d_pack neg m) = m" unfolding d_mag_def u using assms by (cases neg) (simp_all only: if_True if_False mod_add_self2 mod_less)
  show "d_neg (d_pack neg m) = neg" unfolding d_neg_def u using assms by (cases neg) simp_all
qed

lemma shift_even_rne: "int (shift_even n k) = rne (real n / 2 ^ k)"
proof -
  define q r where "q = n div 2 ^ k" and "r = n mod 2 ^ k"
  have n: "real n = real q * 2 ^ k + real r"
  proof -
    have "n = q * 2 ^ k + r" by (simp only: q_def r_def div_mult_mod_eq)
    then have "real n = real (q * 2 ^ k + r)" by (rule arg_cong)
    then show ?thesis by simp
  qed
  have r: "real r < 2 ^ k" by (simp add: r_def)
  have eq: "real n / 2 ^ k = of_int (int q) + real r / 2 ^ k" by (simp add: n add_divide_distrib)
  have "(real r / 2 ^ k < 1 / 2) = (real (2 * r) < real (2 ^ k))" "(real r / 2 ^ k > 1 / 2) = (real (2 ^ k) < real (2 * r))"
    by (simp_all add: divide_less_eq less_divide_eq mult.commute)
  then have c: "(real r / 2 ^ k < 1 / 2) = (2 * r < 2 ^ k)" "(real r / 2 ^ k > 1 / 2) = (2 ^ k < 2 * r)"
    by (simp_all only: of_nat_less_iff)
  have d: "0 \<le> real r / 2 ^ k" "real r / 2 ^ k < 1" using r by simp_all
  have "shift_even n k = (if 2 * r < 2 ^ k then q else if 2 ^ k < 2 * r then q + 1 else if even q then q else q + 1)"
    by (simp only: shift_even_def Let_def q_def r_def)
  moreover have "rne (real n / 2 ^ k) =
    int (if 2 * r < 2 ^ k then q else if 2 ^ k < 2 * r then q + 1 else if even q then q else q + 1)"
    unfolding eq rne_of_int_add [OF d] c by simp
  ultimately show ?thesis by simp
qed

lemma floorlog_pos:
  assumes "0 < n"
  shows "0 < floorlog 2 n" "2 ^ (floorlog 2 n - 1) \<le> n" "n < 2 ^ floorlog 2 n"
  using floorlog_bounds [of n 2] assms by (auto simp: floorlog_eq_zero_iff intro!: gr0I)

lemma ulp_exp_sig:
  assumes "0 < n"
  shows "ulp_exp (real n * 2 powi e) = max (- 1074) (int (floorlog 2 n) + e - 53)"
proof -
  let ?L = "floorlog 2 n"
  note L = floorlog_pos [OF assms]
  have "real (2 ^ (?L - 1)) \<le> real n" "real n < real (2 ^ ?L)" using L(2,3) by (simp_all only: of_nat_le_iff of_nat_less_iff)
  then have r: "2 powi (int ?L - 1) \<le> real n" "real n < 2 powi int ?L"
    using L(1) by (simp_all add: powi_nat nat_diff_distrib')
  have lo: "2 powi (int ?L - 1 + e) \<le> real n * 2 powi e"
    unfolding powi_split using r(1) by (intro mult_right_mono) auto
  have hi: "real n * 2 powi e < 2 powi (int ?L - 1 + e + 1)"
  proof -
    have "real n * 2 powi e < 2 powi int ?L * 2 powi e" using r(2) by (intro mult_strict_right_mono) simp_all
    also have "\<dots> = 2 powi (int ?L - 1 + e + 1)" by (simp only: powi_split [symmetric]) simp
    finally show ?thesis .
  qed
  show ?thesis unfolding ulp_exp_def floor_log2 [OF lo hi] by simp
qed

lemma rne_whole [simp]: "rne (of_int k) = k"
  by (simp add: rne_def)

lemma d_bits_round:
  assumes "0 < n"
  shows "d_bits n e = round_bits (real n * 2 powi e)"
proof -
  define u where "u = max (- 1074) (int (floorlog 2 n) + e - 53)"
  define q where "q = (if u \<le> e then n * 2 ^ nat (e - u) else shift_even n (nat (u - e)))"
  have quot: "real n * 2 powi e / 2 powi u = real n * 2 powi (e - u)"
    by (simp add: power_int_diff)
  have "rne (real n * 2 powi (e - u)) = int q"
  proof (cases "u \<le> e")
    case True
    then have "real n * 2 powi (e - u) = of_int (int q)" by (simp add: q_def powi_nat)
    then show ?thesis by (simp only: rne_whole)
  next
    case False
    then have "e - u = - int (nat (u - e))" by simp
    then have "real n * 2 powi (e - u) = real n / 2 ^ nat (u - e)"
      by (simp only: power_int_minus power_int_of_nat) (simp add: divide_inverse)
    then show ?thesis using False by (simp add: q_def shift_even_rne [symmetric])
  qed
  moreover have "- 1074 \<le> u" by (simp add: u_def)
  ultimately have "nat (rne (real n * 2 powi e / 2 powi u) + (u + 1074) * 4503599627370496) = q + nat (u + 1074) * frac_unit"
    by (simp add: quot nat_add_distrib nat_mult_distrib)
  then show ?thesis
    unfolding round_bits_def ulp_exp_sig [OF assms] d_bits_def u_def [symmetric] Let_def q_def [symmetric] by simp
qed

lemma round_bits_mag:
  assumes "0 < c" "c < inf_bits"
  shows "round_bits (mag_val c) = c"
proof -
  have pos: "0 < mag_val c" using mag_val_strict [OF assms(1)] by (simp add: mag_val_def)
  have "mag_val c \<le> mag_val 9218868437227405311" using assms(2) by (intro mag_val_mono) (simp add: inf_bits_def)
  also have "\<dots> < 18014398509481983 * 2 powi 970"
    using powi_split [of 1 970] by (simp add: mag_val_def)
  finally have n: "round_bits (mag_val c) < inf_bits" "\<bar>mag_val (round_bits (mag_val c)) - mag_val c\<bar> \<le> \<bar>mag_val c - mag_val c\<bar>"
    using round_bits_nearest [OF pos] assms(2) by (auto simp: nearest_double_def not_le)
  then have "mag_val (round_bits (mag_val c)) = mag_val c" by simp
  then show ?thesis using mag_val_strict by (metis linorder_neq_iff less_irrefl)
qed

text \<open>What is the value of a double is rounded to that double.\<close>

lemma d_bits_exact:
  assumes "0 < n" "real n * 2 powi e = mag_val c" "c < inf_bits"
  shows "d_bits n e = c"
proof -
  have "0 < c" using assms(1,2) by (cases c) (simp_all add: mag_val_def)
  then show ?thesis using assms by (simp add: d_bits_round round_bits_mag)
qed

text \<open>The bits of a small significand.\<close>

lemma small_sig:
  assumes "0 < n" "n < 9007199254740992" "- 1074 \<le> e" "int (floorlog 2 n) + e \<le> 1024"
  obtains c where "c < inf_bits" "mag_val c = real n * 2 powi e"
proof -
  define u where "u = max (- 1074) (int (floorlog 2 n) + e - 53)"
  define j where "j = n * 2 ^ nat (e - u)"
  have "2 ^ (floorlog 2 n - 1) \<le> n" by (rule floorlog_pos(2) [OF assms(1)])
  with assms(2) have "(2 :: nat) ^ (floorlog 2 n - 1) < 2 ^ 53" by simp
  then have "floorlog 2 n - 1 < 53" by (rule power_less_imp_less_exp [rotated]) simp
  then have L: "floorlog 2 n \<le> 53" by simp
  have u: "- 1074 \<le> u" "u \<le> e" "u \<le> 971" using assms(3,4) L by (auto simp: u_def)
  have v: "real n * 2 powi e = real j * 2 powi u"
  proof -
    have "real j * 2 powi u = real n * (2 powi (e - u) * 2 powi u)"
      using u(2) by (simp add: j_def powi_nat)
    then show ?thesis by (simp only: powi_split [symmetric]) simp
  qed
  have j: "j < 9007199254740992"
  proof -
    have "real n < 2 ^ floorlog 2 n" using floorlog_pos(3) [OF assms(1)] by (metis of_nat_less_iff of_nat_numeral of_nat_power)
    then have "n * 2 ^ nat (e - u) < 2 ^ floorlog 2 n * 2 ^ nat (e - u)"
      using floorlog_pos(3) [OF assms(1)] by simp
    also have "\<dots> \<le> 2 ^ 53"
    proof -
      have "floorlog 2 n + nat (e - u) \<le> 53" using u(2) L by (auto simp: u_def)
      then show ?thesis by (simp only: power_add [symmetric]) (rule power_increasing, simp_all)
    qed
    finally show ?thesis by (simp add: j_def)
  qed
  have lo: "nat (u + 1074) = 0 \<or> 4503599627370496 \<le> j"
  proof (cases "u = - 1074")
    case False
    then have "nat (e - u) = 53 - floorlog 2 n" using L by (auto simp: u_def)
    then have "2 ^ (floorlog 2 n - 1) * 2 ^ (53 - floorlog 2 n) \<le> j"
      using floorlog_pos(2) [OF assms(1)] by (simp add: j_def)
    moreover have "(2 :: nat) ^ (floorlog 2 n - 1) * 2 ^ (53 - floorlog 2 n) = 2 ^ 52"
      using L floorlog_pos(1) [OF assms(1)] by (simp add: power_add [symmetric])
    ultimately show ?thesis by simp
  qed simp
  show ?thesis
  proof (rule that [of "nat (u + 1074) * frac_unit + j"])
    show "nat (u + 1074) * frac_unit + j < inf_bits" using j u(3) by (simp add: inf_bits_def)
    show "mag_val (nat (u + 1074) * frac_unit + j) = real n * 2 powi e"
      using mag_val_units [OF lo] j u(1) by (simp add: v)
  qed
qed

section \<open>Order\<close>

lemma mag_val_less [simp]: "mag_val a < mag_val b \<longleftrightarrow> a < b"
  using mag_val_strict mag_val_mono by (metis linorder_not_le)

lemma mag_val_le [simp]: "mag_val a \<le> mag_val b \<longleftrightarrow> a \<le> b"
  by (simp flip: not_less)

lemma mag_val_eq [simp]: "mag_val a = mag_val b \<longleftrightarrow> a = b"
  by (auto simp: eq_iff)

lemma mag_val_0 [simp]: "mag_val 0 = 0"
  by (simp add: mag_val_def)

lemma mag_val_pos [simp]: "0 < mag_val a \<longleftrightarrow> 0 < a" "0 \<le> mag_val a"
  using mag_val_less [of 0 a] mag_val_le [of 0 a] by simp_all

lemma d_key_less: "d_key x < d_key y \<longleftrightarrow> d_val x < d_val y"
proof -
  have no: "\<not> mag_val a < - mag_val b" for a b
    using mag_val_pos(2) [of a] mag_val_pos(2) [of b] by linarith
  have opp: "- mag_val a < mag_val b \<longleftrightarrow> 0 < a \<or> 0 < b" for a b
  proof (cases "0 < a \<or> 0 < b")
    case True
    then have "0 < mag_val a + mag_val b" by (auto intro: add_pos_nonneg add_nonneg_pos)
    with True show ?thesis by auto
  qed simp
  show ?thesis by (auto simp: d_key_def d_val_def opp no)
qed

lemma d_order:
  assumes "\<not> d_nan x" "\<not> d_nan y"
  shows "d_lt x y \<longleftrightarrow> d_val x < d_val y" "d_le x y \<longleftrightarrow> d_val x \<le> d_val y" "d_eq x y \<longleftrightarrow> d_val x = d_val y"
  using assms d_key_less [of x y] d_key_less [of y x] by (auto simp: d_lt_def d_le_def d_eq_def)

lemma fin_not_nan [simp]: "d_fin x \<Longrightarrow> \<not> d_nan x"
  by (simp add: d_fin_def d_nan_def)

lemma d_minus_simps:
  "d_val (d_minus x) = - d_val x" "d_nan (d_minus x) = d_nan x" "d_fin (d_minus x) = d_fin x"
  using d_pack_simps [OF d_mag_less [of x]] by (simp_all add: d_minus_def d_val_def d_nan_def d_fin_def)

lemma d_consts:
  "d_val 0 = 0" "d_val d_half = 1 / 2" "d_val d_one = 1" "d_val d_two53 = 9007199254740992"
  "d_fin 0" "d_fin d_half" "d_fin d_one" "d_fin d_two53"
  by (simp_all add: d_val_def d_neg_def d_mag_def d_half_def d_one_def d_two53_def mag_val_def d_fin_def inf_bits_def
    power_int_minus)

lemma d_absolute_val: "\<not> d_nan x \<Longrightarrow> d_val (d_absolute x) = \<bar>d_val x\<bar> \<and> \<not> d_nan (d_absolute x)"
  using d_order(1) [of x 0] by (auto simp: d_absolute_def d_minus_simps d_consts)

lemma d_whole_fin: "d_fin x \<Longrightarrow> d_whole x \<longleftrightarrow> 9007199254740992 \<le> \<bar>d_val x\<bar>"
  using d_order(2) [of d_two53 "d_absolute x"] d_order(3) [of x x] d_absolute_val [of x]
  by (simp add: d_whole_def d_consts)

section \<open>Conversions\<close>

lemma d_trunc_val: "d_trunc x = (if d_neg x then - \<lfloor>\<bar>d_val x\<bar>\<rfloor> else \<lfloor>\<bar>d_val x\<bar>\<rfloor>)"
proof -
  have "\<lfloor>real (d_sig x) * 2 powi d_exp x\<rfloor> = int (if 0 \<le> d_exp x then d_sig x * 2 ^ nat (d_exp x) else d_sig x div 2 ^ nat (- d_exp x))"
  proof (cases "0 \<le> d_exp x")
    case True
    then have "real (d_sig x) * 2 powi d_exp x = of_int (int (d_sig x * 2 ^ nat (d_exp x)))" by (simp add: powi_nat)
    then show ?thesis using True by (simp only: floor_of_int if_True)
  next
    case False
    then have "d_exp x = - int (nat (- d_exp x))" by simp
    then have "(2 :: real) powi d_exp x = inverse (2 ^ nat (- d_exp x))" by (metis power_int_minus power_int_of_nat)
    then have "real (d_sig x) * 2 powi d_exp x = real (d_sig x) / real (2 ^ nat (- d_exp x))" by (simp add: divide_inverse)
    then show ?thesis using False by (simp only: floor_divide_of_nat_eq if_False)
  qed
  then show ?thesis by (simp add: d_trunc_def Let_def d_val_sig)
qed

text \<open>Integers of at most 53 digits are doubles.\<close>

lemma d_of_int_val:
  assumes "\<bar>t\<bar> \<le> 9007199254740992"
  shows "d_val (d_of_int t) = of_int t \<and> d_fin (d_of_int t)"
proof (cases "t = 0")
  case False
  define n where "n = nat \<bar>t\<bar>"
  have n: "0 < n" "n \<le> 9007199254740992" using False assms by (auto simp: n_def)
  obtain c where c: "c < inf_bits" "mag_val c = real n * 2 powi 0"
  proof (cases "n = 9007199254740992")
    case True
    have "mag_val (1076 * frac_unit) = 9007199254740992" by (simp add: mag_val_def)
    then show ?thesis using that [of "1076 * frac_unit"] True by (simp add: inf_bits_def)
  next
    case False
    with n have lt: "n < 9007199254740992" by simp
    have L: "floorlog 2 n \<le> 53"
      using floorlog_mono [of n 9007199254740991 2] n False floorlog_le_iff [of 2 9007199254740991 53] by simp
    obtain c1 where "c1 < inf_bits" "mag_val c1 = real n * 2 powi 0"
      by (rule small_sig [OF n(1) lt, of 0]) (use L in simp_all)
    then show ?thesis by (rule that)
  qed
  have bits: "d_bits n 0 = c" using n(1) c by (intro d_bits_exact) simp_all
  have "c < 9223372036854775808" using c(1) by (simp add: inf_bits_def)
  note pk = d_pack_simps [OF this]
  have "real n = \<bar>of_int t\<bar>" by (simp add: n_def)
  then show ?thesis
    using False c by (auto simp: d_of_int_def bits d_val_def pk d_fin_def simp flip: n_def)
qed (simp add: d_of_int_def d_consts)

lemma d_neg_val: "d_neg x \<Longrightarrow> d_val x \<le> 0" "\<not> d_neg x \<Longrightarrow> 0 \<le> d_val x"
  by (simp_all add: d_val_def)

section \<open>Floor and ceiling\<close>

text \<open>Finite doubles from \<open>2 ^ 53\<close> on are integers.\<close>

lemma whole_int:
  assumes "d_fin x" "9007199254740992 \<le> \<bar>d_val x\<bar>"
  shows "of_int \<lfloor>d_val x\<rfloor> = d_val x"
proof -
  have "mag_val 4845873199050653696 = 9007199254740992" by (simp add: mag_val_def)
  then have "mag_val 4845873199050653696 \<le> mag_val (d_mag x)"
    using assms(2) by (simp add: d_val_def del: mag_val_le split: if_splits)
  then have "1076 \<le> d_mag x div frac_unit" by (simp add: less_eq_div_iff_mult_less_eq)
  then have e: "0 \<le> d_exp x" by (simp add: d_exp_def)
  then have "d_val x = of_int ((if d_neg x then -1 else 1) * int (d_sig x) * 2 ^ nat (d_exp x))"
    by (simp add: d_val_sig powi_nat)
  then show ?thesis by (simp only: floor_of_int)
qed

lemma trunc_small:
  assumes "\<bar>d_val x\<bar> < 9007199254740992"
  shows "\<bar>d_trunc x\<bar> < 9007199254740992" "d_neg x \<Longrightarrow> d_trunc x = \<lceil>d_val x\<rceil>" "\<not> d_neg x \<Longrightarrow> d_trunc x = \<lfloor>d_val x\<rfloor>"
proof -
  have "0 \<le> \<lfloor>\<bar>d_val x\<bar>\<rfloor>" "\<lfloor>\<bar>d_val x\<bar>\<rfloor> < 9007199254740992" using assms by (simp_all add: floor_less_iff)
  then show "\<bar>d_trunc x\<bar> < 9007199254740992" by (simp add: d_trunc_val)
  show "d_trunc x = \<lceil>d_val x\<rceil>" if "d_neg x" using d_neg_val(1) [OF that] that by (simp add: d_trunc_val ceiling_def)
  show "d_trunc x = \<lfloor>d_val x\<rfloor>" if "\<not> d_neg x" using d_neg_val(2) [OF that] that by (simp add: d_trunc_val)
qed

lemma floor_ceiling_step: "\<lceil>v\<rceil> = (if of_int \<lfloor>v\<rfloor> = v then \<lfloor>v\<rfloor> else \<lfloor>v\<rfloor> + 1)" for v :: real
  by (auto simp: ceiling_altdef)

lemma floor_d_val:
  assumes "d_fin x"
  shows "d_fin (floor_d x) \<and> d_val (floor_d x) = of_int \<lfloor>d_val x\<rfloor>"
proof (cases "d_whole x")
  case True
  have w: "of_int \<lfloor>d_val x\<rfloor> = d_val x" by (rule whole_int [OF assms]) (use True d_whole_fin [OF assms] in simp)
  have f: "floor_d x = x" by (simp add: floor_d_def True)
  show ?thesis unfolding f w using assms by simp
next
  case False
  then have small: "\<bar>d_val x\<bar> < 9007199254740992" using d_whole_fin [OF assms] by simp
  define t where "t = d_trunc x"
  have t: "d_val (d_of_int t) = of_int t \<and> d_fin (d_of_int t)"
    using trunc_small(1) [OF small] by (intro d_of_int_val) (simp add: t_def)
  define t1 where "t1 = (if d_lt x 0 \<and> \<not> d_eq (d_of_int t) x then t - 1 else t)"
  have "t1 = \<lfloor>d_val x\<rfloor>"
  proof (cases "d_neg x")
    case True
    then have "t = \<lceil>d_val x\<rceil>" "d_val x \<le> 0" using trunc_small(2) [OF small] d_neg_val by (simp_all add: t_def)
    then show ?thesis
      using d_order(1) [of x 0] d_order(3) [of "d_of_int t" x] t assms
      by (auto simp: t1_def d_consts floor_ceiling_step split: if_splits) (metis of_int_1 of_int_add)
  next
    case False
    then have "t = \<lfloor>d_val x\<rfloor>" "0 \<le> d_val x" using trunc_small(3) [OF small] d_neg_val by (simp_all add: t_def)
    then show ?thesis using d_order(1) [of x 0] assms by (simp add: t1_def d_consts)
  qed
  moreover have "\<bar>\<lfloor>d_val x\<rfloor>\<bar> \<le> 9007199254740992" using small by linarith
  ultimately show ?thesis
    using False d_of_int_val [of t1] by (simp add: floor_d_def Let_def flip: t_def t1_def)
qed

lemma ceil_d_val:
  assumes "d_fin x"
  shows "d_fin (ceil_d x) \<and> d_val (ceil_d x) = of_int \<lceil>d_val x\<rceil>"
proof (cases "d_whole x")
  case True
  have w: "of_int \<lfloor>d_val x\<rfloor> = d_val x" by (rule whole_int [OF assms]) (use True d_whole_fin [OF assms] in simp)
  then have c: "of_int \<lceil>d_val x\<rceil> = d_val x" by (metis ceiling_of_int)
  have f: "ceil_d x = x" by (simp add: ceil_d_def True)
  show ?thesis unfolding f c using assms by simp
next
  case False
  then have small: "\<bar>d_val x\<bar> < 9007199254740992" using d_whole_fin [OF assms] by simp
  define t where "t = d_trunc x"
  have t: "d_val (d_of_int t) = of_int t \<and> d_fin (d_of_int t)"
    using trunc_small(1) [OF small] by (intro d_of_int_val) (simp add: t_def)
  define t1 where "t1 = (if d_lt 0 x \<and> \<not> d_eq (d_of_int t) x then t + 1 else t)"
  have "t1 = \<lceil>d_val x\<rceil>"
  proof (cases "d_neg x")
    case True
    then have "t = \<lceil>d_val x\<rceil>" "d_val x \<le> 0" using trunc_small(2) [OF small] d_neg_val by (simp_all add: t_def)
    then show ?thesis using d_order(1) [of 0 x] assms by (simp add: t1_def d_consts)
  next
    case False
    then have "t = \<lfloor>d_val x\<rfloor>" "0 \<le> d_val x" using trunc_small(3) [OF small] d_neg_val by (simp_all add: t_def)
    then show ?thesis
      using d_order(1) [of 0 x] d_order(3) [of "d_of_int t" x] t assms
      by (auto simp: t1_def d_consts floor_ceiling_step split: if_splits)
  qed
  moreover have "\<bar>\<lceil>d_val x\<rceil>\<bar> \<le> 9007199254740992" using small by linarith
  ultimately show ?thesis
    using False d_of_int_val [of t1] by (simp add: ceil_d_def Let_def flip: t_def t1_def)
qed

section \<open>Sums\<close>

text \<open>The sum of finite doubles is the double nearest to the sum of their values.\<close>

definition d_round :: "real \<Rightarrow> u64" where
  "d_round v = d_pack (v < 0) (round_bits \<bar>v\<bar>)"

lemma d_add_round:
  assumes "d_fin x" "d_fin y" "d_val x + d_val y \<noteq> 0"
  shows "d_add x y = d_round (d_val x + d_val y)"
proof -
  define e where "e = min (d_exp x) (d_exp y)"
  define a b where "a = int (d_sig x) * 2 ^ nat (d_exp x - e)" and "b = int (d_sig y) * 2 ^ nat (d_exp y - e)"
  define s where "s = (if d_neg x then - a else a) + (if d_neg y then - b else b)"
  have scale: "real (d_sig z) * 2 powi d_exp z = of_int (int (d_sig z) * 2 ^ nat (d_exp z - e)) * 2 powi e" if "e \<le> d_exp z" for z
  proof -
    have "(2 :: real) powi d_exp z = 2 powi (d_exp z - e) * 2 powi e" by (simp only: powi_split [symmetric]) simp
    then show ?thesis using that by (simp add: powi_nat)
  qed
  have "real (d_sig x) * 2 powi d_exp x = of_int a * 2 powi e" "real (d_sig y) * 2 powi d_exp y = of_int b * 2 powi e"
    unfolding a_def b_def by (rule scale, simp add: e_def)+
  then have v: "d_val x + d_val y = of_int s * 2 powi e"
    unfolding d_val_sig s_def by (simp add: algebra_simps)
  then have s: "s \<noteq> 0" using assms(3) by auto
  have "\<not> d_inf x" "\<not> d_inf y" using assms(1,2) by (simp_all add: d_fin_def d_inf_def)
  then have "d_add x y = d_pack (s < 0) (d_bits (nat \<bar>s\<bar>) e)"
    unfolding d_add_def Let_def e_def [symmetric] a_def [symmetric] b_def [symmetric] s_def [symmetric]
    using assms(1,2) s by simp
  also have "\<dots> = d_round (d_val x + d_val y)"
    using s by (simp add: d_round_def v d_bits_round abs_mult mult_less_0_iff not_less [THEN iffD2] zero_le_power_int)
  finally show ?thesis .
qed

section \<open>Rounding half away from zero\<close>

abbreviation (input) near :: "real \<Rightarrow> real" where "near w \<equiv> mag_val (round_bits w)"

lemma near_le:
  assumes "0 < w" "w < 18014398509481984" "c < inf_bits"
  shows "\<bar>near w - w\<bar> \<le> \<bar>mag_val c - w\<bar>" "round_bits w < inf_bits"
proof -
  have "(18014398509481984 :: real) \<le> 18014398509481983 * 2 powi 970"
  proof -
    have "(1 :: real) * 2 \<le> 2 powi 970 * 1" using powi_split [of 1 969] one_le_power_int [of 2 969] by simp
    then show ?thesis by simp
  qed
  with assms round_bits_nearest [of w] show "\<bar>near w - w\<bar> \<le> \<bar>mag_val c - w\<bar>" "round_bits w < inf_bits"
    by (auto simp: nearest_double_def split: if_splits)
qed

text \<open>From \<open>2 ^ 52\<close> on half a unit is a tie.\<close>

lemma near_tie:
  assumes "4503599627370496 \<le> n" "n < 9007199254740992"
  shows "near (real n + 1 / 2) = real (if even n then n else n + 1)"
proof -
  have u: "ulp_exp (real n + 1 / 2) = 0"
    using floor_log2 [of 52 "real n + 1 / 2"] assms by (simp add: ulp_exp_def)
  have r: "rne (real n + 1 / 2) = int (if even n then n else n + 1)"
    using rne_of_int_add [of "1 / 2" "int n"] by simp
  define j where "j = (if even n then n else n + 1)"
  have j: "4503599627370496 \<le> j" "j \<le> 9007199254740992" using assms by (auto simp: j_def)
  have "round_bits (real n + 1 / 2) = 1074 * frac_unit + j"
    using j r by (simp add: round_bits_def u inf_bits_def flip: j_def)
  then show ?thesis using mag_val_units [of 1074 j] j by (simp add: j_def)
qed

lemma near_half:
  assumes v: "v = mag_val c" "c < inf_bits" "1 / 2 \<le> v" "v < 4503599627370496"
  shows "\<lfloor>near (v + 1 / 2)\<rfloor> = \<lfloor>v + 1 / 2\<rfloor>"
proof -
  define f m where "f = c div frac_unit" and "m = c mod frac_unit"
  define E where "E = int f - 1075"
  have "mag_val 4602678819172646912 = 1 / 2" by (simp add: mag_val_def power_int_minus)
  then have "mag_val 4602678819172646912 \<le> mag_val c" using v(1,3) by (simp del: mag_val_le)
  then have f: "f \<noteq> 0" by (simp add: f_def)
  have m: "m < frac_unit" by (simp add: m_def)
  define j where "j = m + frac_unit"
  have vj: "v = real j * 2 powi E" using f unfolding v(1) mag_val_def by (simp add: Let_def E_def j_def flip: f_def m_def)
  have j: "4503599627370496 \<le> j" "j < 9007199254740992" using m by (simp_all add: j_def)
  have P: "0 < (2 :: real) powi E" by simp
  have E_neg: "E \<le> - 1"
  proof (rule ccontr)
    assume "\<not> E \<le> - 1"
    then have "(1 :: real) \<le> 2 powi E" by (intro one_le_power_int) auto
    then have "real j * 1 \<le> v" unfolding vj by (intro mult_left_mono) auto
    with v(4) j(1) show False by simp
  qed
  have top: "v < 2 powi (53 + E)"
    unfolding vj powi_split using j(2) by (intro mult_strict_right_mono) auto
  have E_low: "0 \<le> 53 + E"
  proof (rule ccontr)
    assume "\<not> 0 \<le> 53 + E"
    then have "(2 :: real) powi (53 + E) \<le> 2 powi (- 1)" by (intro power_int_increasing) auto
    with top v(3) show False by (simp add: power_int_minus)
  qed
  define i where "i = j + 2 ^ nat (- 1 - E)"
  have w: "v + 1 / 2 = real i * 2 powi E"
  proof -
    have "2 powi (- 1 - E) * 2 powi E = (2 :: real) powi (- 1)" by (simp only: powi_split [symmetric]) simp
    moreover have "real (2 ^ nat (- 1 - E)) = 2 powi (- 1 - E)" using E_neg by (simp add: powi_nat)
    ultimately show ?thesis by (simp add: i_def vj distrib_right power_int_minus)
  qed
  have range: "0 < v + 1 / 2" "v + 1 / 2 < 18014398509481984" using v(3,4) by simp_all
  show ?thesis
  proof (cases "i < 9007199254740992")
    case True
    have "0 < i" using j(1) by (simp add: i_def)
    have "floorlog 2 i \<le> 53" using True floorlog_le_iff [of 2 i 53] by simp
    then obtain d where "d < inf_bits" "mag_val d = real i * 2 powi E"
      by (rule_tac small_sig [OF \<open>0 < i\<close> True, of E]) (use E_neg E_low in auto)
    then have "near (v + 1 / 2) = v + 1 / 2" using near_le(1) [OF range, of d] w by simp
    then show ?thesis by simp
  next
    case False
    then have "9007199254740992 * 2 powi E \<le> v + 1 / 2" unfolding w using P by (intro mult_right_mono) auto
    then have low: "2 powi (53 + E) \<le> v + 1 / 2" unfolding powi_split by simp
    have int: "(2 :: real) powi (53 + E) = of_int (2 ^ nat (53 + E))" using E_low by (simp add: powi_nat)
    obtain d where "d < inf_bits" "mag_val d = real 1 * 2 powi (53 + E)"
      by (rule small_sig [of 1 "53 + E"]) (use E_neg E_low in \<open>auto simp: floorlog_eq_if [of 1 1] floorlog_def\<close>)
    then have "\<bar>near (v + 1 / 2) - (v + 1 / 2)\<bar> \<le> v + 1 / 2 - 2 powi (53 + E)"
      using near_le(1) [OF range, of d] low by simp
    then have "2 powi (53 + E) \<le> near (v + 1 / 2)" "near (v + 1 / 2) < 2 powi (53 + E) + 1" using top by linarith+
    then have "\<lfloor>near (v + 1 / 2)\<rfloor> = 2 ^ nat (53 + E)" unfolding int by (simp add: floor_eq_iff)
    moreover have "\<lfloor>v + 1 / 2\<rfloor> = 2 ^ nat (53 + E)" using low top unfolding int by (simp add: floor_eq_iff)
    ultimately show ?thesis by simp
  qed
qed

lemma near_small:
  assumes "c < 4602678819172646911"
  shows "\<lfloor>near (mag_val c + 1 / 2)\<rfloor> = 0"
proof -
  have "mag_val c \<le> mag_val 4602678819172646910" using assms by simp
  also have "mag_val 4602678819172646910 = 1 / 2 - 2 powi (- 53)"
    by (simp add: mag_val_def power_int_minus)
  finally have v: "mag_val c \<le> 1 / 2 - 2 powi (- 53)" .
  have D: "mag_val 4607182418800017407 = 1 - 2 powi (- 53)" by (simp add: mag_val_def power_int_minus)
  have range: "0 < mag_val c + 1 / 2" "mag_val c + 1 / 2 < 18014398509481984"
    using v by (auto intro: add_nonneg_pos simp: power_int_minus)
  have "\<bar>near (mag_val c + 1 / 2) - (mag_val c + 1 / 2)\<bar> \<le> 1 - 2 powi (- 53) - (mag_val c + 1 / 2)"
    using near_le(1) [OF range, of 4607182418800017407] v D by (simp add: inf_bits_def)
  then have "near (mag_val c + 1 / 2) < 1" by (simp add: power_int_minus)
  then show ?thesis by (simp add: floor_eq_iff)
qed

lemma near_below_half: "near (mag_val 4602678819172646911 + 1 / 2) = 1"
proof -
  have w: "mag_val 4602678819172646911 + 1 / 2 = 1 - 2 powi (- 54)" by (simp add: mag_val_def power_int_minus)
  have u: "ulp_exp (1 - 2 powi (- 54)) = - 53"
    using floor_log2 [of "- 1" "1 - 2 powi (- 54)"] by (simp add: ulp_exp_def power_int_minus)
  have "(1 - 2 powi (- 54)) / 2 powi (- 53) = of_int 9007199254740991 + (1 / 2 :: real)" by (simp add: power_int_minus)
  then have "rne ((1 - 2 powi (- 54)) / 2 powi (- 53)) = 9007199254740992"
    using rne_of_int_add [of "1 / 2" 9007199254740991] by simp
  then have "round_bits (1 - 2 powi (- 54)) = 4607182418800017408"
    unfolding round_bits_def u by (simp add: inf_bits_def)
  then show ?thesis unfolding w by (simp add: mag_val_def power_int_minus)
qed

definition half_away :: "real \<Rightarrow> int" where
  "half_away v = (if v < 0 then - \<lfloor>\<bar>v\<bar> + 1 / 2\<rfloor> else \<lfloor>\<bar>v\<bar> + 1 / 2\<rfloor>)"

text \<open>Below \<open>2 ^ 53\<close> the function takes the integer part of the rounded sum.\<close>

lemma round_d_near:
  assumes "d_fin x" "\<bar>d_val x\<bar> < 9007199254740992"
  shows "d_val (round_d x) = of_int (if d_val x < 0 then - \<lfloor>near (\<bar>d_val x\<bar> + 1 / 2)\<rfloor> else \<lfloor>near (\<bar>d_val x\<bar> + 1 / 2)\<rfloor>)"
proof -
  define v where "v = d_val x"
  define h where "h = (if d_le 0 x then d_half else d_minus d_half)"
  have nw: "\<not> d_whole x" using assms d_whole_fin [OF assms(1)] by simp
  have le: "d_le 0 x \<longleftrightarrow> 0 \<le> v" using d_order(2) [of 0 x] assms(1) by (simp add: d_consts v_def)
  have h: "d_fin h" "d_val h = (if v < 0 then - (1 / 2) else 1 / 2)"
    by (simp_all add: h_def le d_consts d_minus_simps)
  have sum: "v + d_val h = (if v < 0 then - (\<bar>v\<bar> + 1 / 2) else \<bar>v\<bar> + 1 / 2)" by (simp add: h)
  then have "d_add x h = d_round (if v < 0 then - (\<bar>v\<bar> + 1 / 2) else \<bar>v\<bar> + 1 / 2)"
    using d_add_round [OF assms(1) h(1)] by (auto simp: v_def)
  also have "\<dots> = d_pack (v < 0) (round_bits (\<bar>v\<bar> + 1 / 2))" by (simp add: d_round_def)
  finally have y: "d_add x h = d_pack (v < 0) (round_bits (\<bar>v\<bar> + 1 / 2))" .
  have range: "0 < \<bar>v\<bar> + 1 / 2" "\<bar>v\<bar> + 1 / 2 < 18014398509481984" using assms(2) by (auto simp: v_def)
  have fin: "round_bits (\<bar>v\<bar> + 1 / 2) < inf_bits" using near_le(2) [OF range, of 0] by (simp add: inf_bits_def)
  then have "round_bits (\<bar>v\<bar> + 1 / 2) < 9223372036854775808" by (simp add: inf_bits_def)
  note pk = d_pack_simps [OF this]
  have t: "d_trunc (d_add x h) = (if v < 0 then - \<lfloor>near (\<bar>v\<bar> + 1 / 2)\<rfloor> else \<lfloor>near (\<bar>v\<bar> + 1 / 2)\<rfloor>)"
    unfolding d_trunc_val y d_val_def pk by simp
  have "near (\<bar>v\<bar> + 1 / 2) < 9007199254740993"
  proof -
    have "mag_val 4845873199050653696 = 9007199254740992" by (simp add: mag_val_def)
    then have "\<bar>near (\<bar>v\<bar> + 1 / 2) - (\<bar>v\<bar> + 1 / 2)\<bar> \<le> \<bar>9007199254740992 - (\<bar>v\<bar> + 1 / 2)\<bar>"
      using near_le(1) [OF range, of 4845873199050653696] by (simp add: inf_bits_def)
    then show ?thesis using assms(2) unfolding v_def [symmetric] by linarith
  qed
  moreover define F where "F = \<lfloor>near (\<bar>v\<bar> + 1 / 2)\<rfloor>"
  ultimately have "0 \<le> F \<and> F \<le> 9007199254740992" by (simp only: floor_le_iff) simp
  then have "\<bar>d_trunc (d_add x h)\<bar> \<le> 9007199254740992" unfolding t F_def [symmetric] by simp
  then show ?thesis using nw d_of_int_val t by (simp add: round_d_def v_def flip: h_def)
qed

text \<open>From \<open>2 ^ 52\<close> on doubles are integers.\<close>

lemma big_int:
  assumes "4503599627370496 \<le> mag_val c"
  obtains n where "mag_val c = real n"
proof -
  have "mag_val 4841369599423283200 = 4503599627370496" by (simp add: mag_val_def)
  then have "mag_val 4841369599423283200 \<le> mag_val c" using assms by (simp del: mag_val_le)
  then have "1075 \<le> c div frac_unit" by (simp add: less_eq_div_iff_mult_less_eq)
  then have "mag_val c = real ((c mod frac_unit + frac_unit) * 2 ^ nat (int (c div frac_unit) - 1075))"
    by (simp add: mag_val_def powi_nat)
  then show ?thesis by (rule that)
qed

lemma near_floor_iff:
  assumes "c < inf_bits" "mag_val c < 9007199254740992"
  shows "\<lfloor>near (mag_val c + 1 / 2)\<rfloor> = \<lfloor>mag_val c + 1 / 2\<rfloor> \<longleftrightarrow>
    \<not> (c = 4602678819172646911 \<or> 4503599627370496 \<le> mag_val c \<and> odd \<lfloor>mag_val c\<rfloor>)"
proof -
  have half: "mag_val 4602678819172646912 = 1 / 2" by (simp add: mag_val_def power_int_minus)
  consider "4503599627370496 \<le> mag_val c" | "1 / 2 \<le> mag_val c" "mag_val c < 4503599627370496" | "mag_val c < 1 / 2"
    by linarith
  then show ?thesis
  proof cases
    case 1
    then obtain n where n: "mag_val c = real n" by (rule big_int)
    have "4503599627370496 \<le> n" "n < 9007199254740992" using 1 assms(2) n by simp_all
    note tie = near_tie [OF this]
    have "\<lfloor>real n + 1 / 2\<rfloor> = int n" by (simp add: floor_eq_iff)
    moreover have "c \<noteq> 4602678819172646911"
    proof
      assume "c = 4602678819172646911"
      then have "mag_val c < mag_val 4602678819172646912" by simp
      with 1 half show False by simp
    qed
    ultimately show ?thesis using 1 unfolding n tie by simp
  next
    case 2
    then have "mag_val 4602678819172646912 \<le> mag_val c" using half by (simp del: mag_val_le)
    then show ?thesis using near_half [OF refl assms(1) 2] 2 by simp
  next
    case 3
    then have "mag_val c < mag_val 4602678819172646912" using half by (simp del: mag_val_less)
    then have c: "c < 4602678819172646912" by simp
    have f: "\<lfloor>mag_val c + 1 / 2\<rfloor> = 0" using 3 by (auto simp: floor_eq_iff intro: add_nonneg_nonneg)
    show ?thesis
    proof (cases "c = 4602678819172646911")
      case True
      then show ?thesis using near_below_half f by simp
    next
      case False
      then show ?thesis using near_small [of c] c f 3 by simp
    qed
  qed
qed

section \<open>Quotients\<close>

text \<open>What lies between two integers above the rounding point is rounded alike.\<close>

lemma rne_between:
  assumes "0 \<le> t" "t < 1" "0 \<le> t'" "t' < 1" "t = 0 \<longleftrightarrow> t' = 0" "0 < k"
  shows "rne ((real f + t) / 2 ^ k) = rne ((real f + t') / 2 ^ k)"
proof -
  define Q R H where "Q = f div 2 ^ k" and "R = f mod 2 ^ k" and "H = (2 :: nat) ^ (k - 1)"
  have H: "(2 :: nat) ^ k = 2 * H" using assms(6) unfolding H_def by (simp flip: power_Suc)
  have Hp: "0 < H" by (simp add: H_def)
  have "f = Q * 2 ^ k + R" by (simp only: Q_def R_def div_mult_mod_eq)
  then have "real f = real (Q * 2 ^ k + R)" by (rule arg_cong)
  then have f: "real f = real Q * (2 * real H) + real R" by (simp add: H of_nat_power [symmetric] del: of_nat_power)
  have R: "R < 2 * H" unfolding R_def H [symmetric] by simp
  have split: "rne ((real f + u) / 2 ^ k) =
      (if R < H then int Q else if R = H \<and> u = 0 then (if even Q then int Q else int Q + 1) else int Q + 1)"
    if u: "0 \<le> u" "u < 1" for u
  proof -
    have p: "(2 :: real) ^ k = 2 * real H" using H by (metis of_nat_mult of_nat_numeral of_nat_power)
    have eq: "(real f + u) / 2 ^ k = of_int (int Q) + (real R + u) / (2 * real H)"
      using Hp by (simp add: p f add_divide_distrib)
    have d: "0 \<le> (real R + u) / (2 * real H)" "(real R + u) / (2 * real H) < 1"
    proof -
      have "real R + 1 \<le> 2 * real H" using R by linarith
      then show "(real R + u) / (2 * real H) < 1" using u Hp by (simp add: divide_less_eq)
    qed (use u in simp)
    have c: "((real R + u) / (2 * real H) < 1 / 2) = (R < H)" "((real R + u) / (2 * real H) > 1 / 2) = (H < R \<or> (R = H \<and> u \<noteq> 0))"
    proof -
      have "((real R + u) / (2 * real H) < 1 / 2) = (real R + u < real H)" "((real R + u) / (2 * real H) > 1 / 2) = (real H < real R + u)"
        using Hp by (auto simp: divide_less_eq less_divide_eq)
      moreover have "(real R + u < real H) = (R < H)"
      proof
        assume "R < H"
        then have "real R + 1 \<le> real H" by linarith
        with u show "real R + u < real H" by linarith
      qed (use u in linarith)
      moreover have "(real H < real R + u) = (H < R \<or> (R = H \<and> u \<noteq> 0))"
      proof
        assume "real H < real R + u"
        then have "H < R + 1" using u by linarith
        with \<open>real H < real R + u\<close> show "H < R \<or> (R = H \<and> u \<noteq> 0)" by auto
      qed (use u in auto)
      ultimately show "((real R + u) / (2 * real H) < 1 / 2) = (R < H)" "((real R + u) / (2 * real H) > 1 / 2) = (H < R \<or> (R = H \<and> u \<noteq> 0))"
        by simp_all
    qed
    show ?thesis unfolding eq rne_of_int_add [OF d] c using Hp by auto
  qed
  show ?thesis unfolding split [OF assms(1,2)] split [OF assms(3,4)] using assms(5) by simp
qed

text \<open>So one digit that tells whether anything is left suffices below 54 digits of the quotient.\<close>

lemma round_bits_sticky:
  assumes t: "0 \<le> t" "t < 1" "0 \<le> t'" "t' < 1" "t = 0 \<longleftrightarrow> t' = 0" and f: "2 ^ 54 \<le> f"
  shows "round_bits ((real f + t) * 2 powi e) = round_bits ((real f + t') * 2 powi e)"
proof -
  have "0 < f" using f by (rule less_le_trans [rotated]) simp
  define L where "L = floorlog 2 f"
  note fl = floorlog_pos [OF \<open>0 < f\<close>, folded L_def]
  have "(2 :: nat) ^ 54 < 2 ^ L" using f fl(3) by linarith
  then have L: "54 < L" by (rule power_less_imp_less_exp [rotated]) simp
  have u: "ulp_exp ((real f + v) * 2 powi e) = max (- 1074) (int L + e - 53)" if v: "0 \<le> v" "v < 1" for v
  proof -
    have "2 ^ (L - 1) \<le> real f" using fl(2) by (metis of_nat_le_iff of_nat_numeral of_nat_power)
    moreover have "real f + 1 \<le> 2 ^ L" using fl(3) by (metis Suc_leI of_nat_Suc of_nat_le_iff of_nat_numeral of_nat_power add.commute)
    moreover have "(2 :: real) powi (int L - 1) = 2 ^ (L - 1)" using L by (simp add: powi_nat nat_diff_distrib')
    ultimately have r: "2 powi (int L - 1) \<le> real f + v" "real f + v < 2 powi int L"
      using v unfolding power_int_of_nat by linarith+
    have "2 powi (int L - 1 + e) \<le> (real f + v) * 2 powi e"
      unfolding powi_split using r(1) by (intro mult_right_mono) auto
    moreover have "(real f + v) * 2 powi e < 2 powi (int L - 1 + e + 1)"
    proof -
      have "(real f + v) * 2 powi e < 2 powi int L * 2 powi e" using r(2) by (intro mult_strict_right_mono) simp_all
      also have "\<dots> = 2 powi (int L - 1 + e + 1)" by (simp only: powi_split [symmetric]) simp
      finally show ?thesis .
    qed
    ultimately show ?thesis using floor_log2 [of "int L - 1 + e"] by (simp add: ulp_exp_def)
  qed
  define w where "w = max (- 1074) (int L + e - 53)"
  define k where "k = nat (w - e)"
  have k: "0 < k" "int k = w - e" using L by (auto simp: k_def w_def)
  have q: "(real f + v) * 2 powi e / 2 powi w = (real f + v) / 2 ^ k" for v
  proof -
    have "2 powi e / 2 powi w = inverse ((2 :: real) powi int k)"
      unfolding k(2) power_int_minus [symmetric] by (simp add: power_int_diff)
    then show ?thesis by (simp add: divide_inverse mult.assoc)
  qed
  show ?thesis
    unfolding round_bits_def u [OF t(1,2)] u [OF t(3,4)] w_def [symmetric] q rne_between [OF t k(1)] ..
qed

lemma d_div_round:
  assumes x: "d_fin x" "\<not> d_neg x" "0 < d_val x" and y: "d_fin y" "\<not> d_neg y" "0 < d_val y"
  shows "d_div x y = d_pack False (round_bits (d_val x / d_val y))"
proof -
  have sx: "0 < d_sig x" "d_val x = real (d_sig x) * 2 powi d_exp x" using x by (auto simp: d_val_sig intro!: gr0I)
  have sy: "0 < d_sig y" "d_val y = real (d_sig y) * 2 powi d_exp y" using y by (auto simp: d_val_sig intro!: gr0I)
  define n d where "n = d_sig x * 2 ^ 110" and "d = d_sig y"
  define f t where "f = n div d" and "t = real (n mod d) / real d"
  define t' :: real where "t' = (if n mod d = 0 then 0 else 1 / 2)"
  define e where "e = d_exp x - d_exp y - 110"
  have d: "0 < d" "d < 9007199254740992"
  proof -
    have "d_mag y mod frac_unit < frac_unit" by (rule mod_less_divisor) simp
    then show "d < 9007199254740992" by (auto simp: d_def d_sig_def Let_def)
  qed (simp add: d_def sy)
  have "2 ^ 54 * d \<le> 2 ^ 54 * 9007199254740992" using d by simp
  also have "\<dots> \<le> 1 * (2 :: nat) ^ 110" by simp
  also have "\<dots> \<le> n" unfolding n_def using sx(1) by (intro mult_le_mono) simp_all
  finally have f: "2 ^ 54 \<le> f" using d(1) unfolding f_def by (simp only: less_eq_div_iff_mult_less_eq)
  have nd: "real n / real d = real f + t"
  proof -
    have "n = f * d + n mod d" by (simp only: f_def div_mult_mod_eq)
    then have "real n = real (f * d + n mod d)" by (rule arg_cong)
    then show ?thesis using d(1) by (simp add: t_def add_divide_distrib)
  qed
  have t: "0 \<le> t" "t < 1" "0 \<le> t'" "t' < 1" "t = 0 \<longleftrightarrow> t' = 0"
    using d(1) by (simp_all add: t_def t'_def)
  have "d_val x / d_val y = real n / real d * 2 powi e"
  proof -
    have "(2 :: real) powi d_exp x = 2 ^ 110 * 2 powi e * 2 powi d_exp y"
      using powi_nat [of 110] by (simp only: powi_split [symmetric] nat_numeral [symmetric]) (simp add: e_def power_int_add power_int_diff)
    then show ?thesis by (simp add: sx sy n_def d_def)
  qed
  then have "round_bits (d_val x / d_val y) = round_bits ((real f + t') * 2 powi e)"
    using round_bits_sticky [OF t f] by (simp add: nd)
  moreover have "real (2 * f + (if n mod d = 0 then 0 else 1)) * 2 powi (e - 1) = (real f + t') * 2 powi e"
  proof -
    have "(2 :: real) powi e = 2 * 2 powi (e - 1)" using powi_split [of 1 "e - 1"] by simp
    then show ?thesis by (simp add: t'_def)
  qed
  moreover have "0 < 2 * f + (if n mod d = 0 then 0 else 1)" using f by (auto intro!: gr0I)
  ultimately have "d_bits (2 * f + (if n mod d = 0 then 0 else 1)) (e - 1) = round_bits (d_val x / d_val y)"
    by (simp only: d_bits_round)
  moreover have "\<not> d_inf x" "\<not> d_inf y" using x y by (simp_all add: d_fin_def d_inf_def)
  moreover have "e - 1 = d_exp x - d_exp y - 111" by (simp add: e_def)
  ultimately show ?thesis
    using x y sx(1) sy(1) unfolding d_div_def Let_def n_def [symmetric] d_def [symmetric] f_def [symmetric]
    by (simp add: d_def)
qed

section \<open>Exact powers\<close>

text \<open>A positive double with the value \<open>m * 2 ^ k\<close>.\<close>

definition is_dbl :: "u64 \<Rightarrow> nat \<Rightarrow> int \<Rightarrow> bool" where
  "is_dbl a m k \<longleftrightarrow> d_fin a \<and> \<not> d_neg a \<and> 0 < m \<and> d_val a = real m * 2 powi k"

lemma is_dbl_one: "is_dbl d_one 1 0"
proof -
  have "\<not> d_neg d_one" by (simp add: d_neg_def d_one_def)
  then show ?thesis by (simp add: is_dbl_def d_consts)
qed

lemma d_mul_exact:
  assumes a: "is_dbl a m k" and b: "is_dbl b n j" and small: "m * n < 9007199254740992" "- 1074 \<le> k + j" "k + j \<le> 900"
  shows "is_dbl (d_mul a b) (m * n) (k + j)"
proof -
  have sa: "0 < d_sig a" "real (d_sig a) * 2 powi d_exp a = real m * 2 powi k"
    using a by (auto simp: is_dbl_def d_val_sig intro!: gr0I)
  have sb: "0 < d_sig b" "real (d_sig b) * 2 powi d_exp b = real n * 2 powi j"
    using b by (auto simp: is_dbl_def d_val_sig intro!: gr0I)
  have pos: "0 < m * n" using a b by (simp add: is_dbl_def)
  have L: "floorlog 2 (m * n) \<le> 53" using small(1) floorlog_le_iff [of 2 "m * n" 53] by simp
  obtain c where c: "c < inf_bits" "mag_val c = real (m * n) * 2 powi (k + j)"
    by (rule small_sig [OF pos small(1,2)]) (use L small(3) in auto)
  have "real (d_sig a * d_sig b) * 2 powi (d_exp a + d_exp b) = (real (d_sig a) * 2 powi d_exp a) * (real (d_sig b) * 2 powi d_exp b)"
    by (simp add: powi_split)
  also have "\<dots> = mag_val c" by (simp add: sa sb c(2) powi_split)
  finally have "d_bits (d_sig a * d_sig b) (d_exp a + d_exp b) = c"
    using sa(1) sb(1) c(1) by (intro d_bits_exact) simp_all
  moreover have "\<not> d_inf a" "\<not> d_inf b" "\<not> d_nan a" "\<not> d_nan b" "\<not> d_neg a" "\<not> d_neg b"
    using a b by (simp_all add: is_dbl_def d_fin_def d_inf_def d_nan_def)
  ultimately have "d_mul a b = d_pack False c" using sa(1) sb(1) by (simp add: d_mul_def)
  moreover have "c < 9223372036854775808" using c(1) by (simp add: inf_bits_def)
  ultimately show ?thesis
    using d_pack_simps [of c False] c pos by (simp add: is_dbl_def d_val_def d_fin_def)
qed

lemma pow_loop_exact:
  assumes "is_dbl acc ma ka" "is_dbl base m k" "ma * m ^ n < 9007199254740992" "0 \<le> ka" "0 \<le> k" "ka + k * int n \<le> 900"
  shows "is_dbl (pow_loop n acc base) (ma * m ^ n) (ka + k * int n)"
  using assms
proof (induction n arbitrary: acc base ma ka m k rule: less_induct)
  case (less n)
  show ?case
  proof (cases "n = 0")
    case True
    with less.prems show ?thesis by (simp add: pow_loop.simps)
  next
    case False
    define n1 where "n1 = n div 2"
    have n: "n = 2 * n1 + n mod 2" "n1 < n" using False by (simp_all add: n1_def)
    have m: "0 < m" "0 < ma" using less.prems(1,2) by (simp_all add: is_dbl_def)
    define acc1 where "acc1 = (if odd n then d_mul acc base else acc)"
    define m1 k1 where "m1 = ma * m ^ (n mod 2)" and "k1 = ka + k * int (n mod 2)"
    define base1 where "base1 = (if n1 \<noteq> 0 then d_mul base base else base)"
    have mm: "m1 * (m * m) ^ n1 = ma * m ^ n"
    proof -
      have "m ^ n = m ^ (n mod 2) * (m * m) ^ n1"
        by (subst n(1)) (simp add: power_add power_mult power2_eq_square power_mult_distrib mult.commute)
      then show ?thesis by (simp add: m1_def)
    qed
    have kk: "k1 + (k + k) * int n1 = ka + k * int n"
    proof -
      have "int n = 2 * int n1 + int (n mod 2)" using n(1) by (metis of_nat_add of_nat_mult of_nat_numeral)
      then show ?thesis by (simp add: k1_def algebra_simps)
    qed
    have m1: "m1 \<le> ma * m ^ n" using mm m by (metis mult_le_mono2 nat_mult_1_right one_le_power Suc_leI nat_0_less_mult_iff One_nat_def)
    have k1: "0 \<le> k1" "k1 \<le> 900" using less.prems(4-6) kk by (auto simp: k1_def) (smt (verit) mult_nonneg_nonneg of_nat_0_le_iff)
    have acc1: "is_dbl acc1 m1 k1"
    proof (cases "odd n")
      case True
      then have "n mod 2 = 1" by presburger
      then have e: "m1 = ma * m" "k1 = ka + k" by (simp_all add: m1_def k1_def)
      have "m1 < 9007199254740992" using m1 less.prems(3) by (rule le_less_trans)
      then have "is_dbl (d_mul acc base) (ma * m) (ka + k)"
        by (intro d_mul_exact [OF less.prems(1,2)]) (use k1 e in auto)
      then show ?thesis using True e by (simp add: acc1_def)
    qed (use less.prems(1) in \<open>simp add: acc1_def m1_def k1_def\<close>)
    show ?thesis
    proof (cases "n1 = 0")
      case True
      then show ?thesis
        using acc1 mm kk False by (simp add: pow_loop.simps [of n] pow_loop.simps [of 0] Let_def flip: n1_def acc1_def)
    next
      case False
      have "m * m \<le> (m * m) ^ n1" using m False by (cases n1) simp_all
      also have "\<dots> \<le> m1 * (m * m) ^ n1" using m by (simp add: m1_def)
      finally have "m * m < 9007199254740992" using mm less.prems(3) by simp
      moreover have "k + k \<le> (k + k) * int n1" using False less.prems(5) by (simp add: mult_le_cancel_left1)
      ultimately have base1: "is_dbl (d_mul base base) (m * m) (k + k)"
        using less.prems(2,5,6) kk k1 by (intro d_mul_exact) auto
      have "is_dbl (pow_loop n1 acc1 (d_mul base base)) (m1 * (m * m) ^ n1) (k1 + (k + k) * int n1)"
        by (rule less.IH [OF n(2) acc1 base1]) (use mm kk k1 less.prems in auto)
      then show ?thesis
        using \<open>n \<noteq> 0\<close> False mm kk by (simp add: pow_loop.simps [of n] Let_def flip: n1_def acc1_def)
    qed
  qed
qed

lemma d_to_i64_int:
  assumes "\<bar>t\<bar> \<le> 9007199254740992"
  shows "d_to_i64 (d_of_int t) = Some t" "d_eq (d_of_int t) (d_of_int t)" "d_eq (d_of_int t) 0 \<longleftrightarrow> t = 0"
proof -
  note v = d_of_int_val [OF assms]
  have "d_trunc (d_of_int t) = t"
    using v d_neg_val [of "d_of_int t"] by (cases "d_neg (d_of_int t)") (auto simp: d_trunc_val)
  moreover have "- 9223372036854775808 \<le> t" "t < 9223372036854775808" using assms by auto
  ultimately show "d_to_i64 (d_of_int t) = Some t" using v by (simp add: d_to_i64_def)
  show "d_eq (d_of_int t) (d_of_int t)" "d_eq (d_of_int t) 0 \<longleftrightarrow> t = 0"
    using v d_order(3) [of "d_of_int t"] by (simp_all add: d_consts)
qed

section \<open>Properties\<close>

text \<open>
  \<open>floor\<close> and \<open>ceil\<close> are exact: for every finite double the result is finite and its value is
  the floor, or the ceiling, of the value.
\<close>

theorem floor_ceil_exact:
  assumes "d_fin x"
  shows "d_fin (floor_d x) \<and> d_val (floor_d x) = of_int \<lfloor>d_val x\<rfloor> \<and>
    d_fin (ceil_d x) \<and> d_val (ceil_d x) = of_int \<lceil>d_val x\<rceil>"
  using floor_d_val [OF assms] ceil_d_val [OF assms] by blast+

text \<open>
  C38. \<open>round\<close> is right except at known places. Its value is the nearest integer, halves away from
  zero, for every finite double but those next to one half in the direction of zero, where it gives 1
  instead of 0, and the odd integers between \<open>2 ^ 52\<close> and \<open>2 ^ 53\<close>, which it moves to the next even
  number.
\<close>

theorem round_correct_iff:
  assumes "d_fin x"
  shows "d_val (round_d x) = of_int (half_away (d_val x)) \<longleftrightarrow>
    \<not> (d_mag x = 4602678819172646911 \<or>
       4503599627370496 \<le> \<bar>d_val x\<bar> \<and> \<bar>d_val x\<bar> < 9007199254740992 \<and> odd \<lfloor>\<bar>d_val x\<bar>\<rfloor>)"
proof -
  define c where "c = d_mag x"
  have v: "\<bar>d_val x\<bar> = mag_val c" "c < inf_bits" using assms by (simp_all add: c_def d_val_def d_fin_def)
  show ?thesis
  proof (cases "\<bar>d_val x\<bar> < 9007199254740992")
    case True
    then have "d_val (round_d x) = of_int (half_away (d_val x)) \<longleftrightarrow> \<lfloor>near (mag_val c + 1 / 2)\<rfloor> = \<lfloor>mag_val c + 1 / 2\<rfloor>"
      using round_d_near [OF assms] by (auto simp: half_away_def v(1))
    then show ?thesis using near_floor_iff [OF v(2)] True by (simp add: v(1) flip: c_def)
  next
    case False
    then have big: "9007199254740992 \<le> \<bar>d_val x\<bar>" by simp
    have "round_d x = x" using d_whole_fin [OF assms] big by (simp add: round_d_def)
    moreover have "of_int (half_away (d_val x)) = d_val x"
    proof -
      have "4503599627370496 \<le> mag_val c" using big by (simp add: v(1))
      then obtain n where n: "mag_val c = real n" by (rule big_int)
      have "\<lfloor>real n + 1 / 2\<rfloor> = int n" by (simp add: floor_eq_iff)
      then show ?thesis using n v(1) by (auto simp: half_away_def)
    qed
    moreover have "c \<noteq> 4602678819172646911"
    proof
      assume "c = 4602678819172646911"
      then have "mag_val c < mag_val 4602678819172646912" by simp
      also have "\<dots> = 1 / 2" by (simp add: mag_val_def power_int_minus)
      finally show False using big v(1) by linarith
    qed
    ultimately show ?thesis using False by (simp flip: c_def)
  qed
qed

text \<open>The double before one half.\<close>

theorem round_correct_iff_witness:
  "d_val (round_d 4602678819172646911) \<noteq> of_int (half_away (d_val 4602678819172646911))"
  using round_correct_iff [of 4602678819172646911] by (simp add: d_fin_def d_mag_def inf_bits_def)



text \<open>The products on the way to the power 33 of 10.\<close>

lemma floorlog_eqI: "2 ^ k \<le> n \<Longrightarrow> n < 2 ^ Suc k \<Longrightarrow> floorlog 2 n = Suc k"
  by (intro antisym floorlog_leI floorlog_geI) simp_all

lemmas d_eval = d_mul_def d_nan_def d_inf_def d_mag_def d_neg_def d_sig_def d_exp_def inf_bits_def Let_def d_bits_def
  shift_even_def d_pack_def

lemma products_of_10:
  "d_mul 4621819117588971520 4621819117588971520 = 4636737291354636288"
  "d_mul 4636737291354636288 4636737291354636288 = 4666723172467343360"
  "d_mul 4666723172467343360 4666723172467343360 = 4726483295884279808"
  "d_mul 4726483295884279808 4726483295884279808 = 4846369599423283200"
  "d_mul 4846369599423283200 4846369599423283200 = 5085611494797045271"
  "d_mul 4621819117588971520 5085611494797045271 = 5100510072459938205"
  "d_mul 4607182418800017408 4621819117588971520 = 4621819117588971520"
proof -
  have f0: "floorlog 2 (31691265005705735037417580134400 :: nat) = Suc 104"
    by (rule floorlog_eqI) simp_all
  have f1: "floorlog 2 (49517601571415210995964968960000 :: nat) = Suc 105"
    by (rule floorlog_eqI) simp_all
  have f2: "floorlog 2 (30223145490365729367654400000000 :: nat) = Suc 104"
    by (rule floorlog_eqI) simp_all
  have f3: "floorlog 2 (45035996273704960000000000000000 :: nat) = Suc 105"
    by (rule floorlog_eqI) simp_all
  have f4: "floorlog 2 (25000000000000000000000000000000 :: nat) = Suc 104"
    by (rule floorlog_eqI) simp_all
  have f5: "floorlog 2 (31250000000000001676925688872960 :: nat) = Suc 104"
    by (rule floorlog_eqI) simp_all
  have f6: "floorlog 2 (25353012004564588029934064107520 :: nat) = Suc 104"
    by (rule floorlog_eqI) simp_all
  show "d_mul 4621819117588971520 4621819117588971520 = 4636737291354636288"
    by (simp add: d_eval f0)
  show "d_mul 4636737291354636288 4636737291354636288 = 4666723172467343360"
    by (simp add: d_eval f1)
  show "d_mul 4666723172467343360 4666723172467343360 = 4726483295884279808"
    by (simp add: d_eval f2)
  show "d_mul 4726483295884279808 4726483295884279808 = 4846369599423283200"
    by (simp add: d_eval f3)
  show "d_mul 4846369599423283200 4846369599423283200 = 5085611494797045271"
    by (simp add: d_eval f4)
  show "d_mul 4621819117588971520 5085611494797045271 = 5100510072459938205"
    by (simp add: d_eval f5)
  show "d_mul 4607182418800017408 4621819117588971520 = 4621819117588971520"
    by (simp add: d_eval f6)
qed

text \<open>
  Repeated squaring is not exact in general: \<open>pow (10, 33)\<close> is the double after the one nearest to
  \<open>10 ^ 33\<close>, because two of its products are rounded.
\<close>

theorem pow_10_33:
  "pow 4621819117588971520 (d_of_int 33) = Some 5100510072459938205 \<and>
   d_pack False (round_bits (10 ^ 33)) = 5100510072459938204"
proof
  have i: "\<bar>33 :: int\<bar> \<le> 9007199254740992" by simp
  have "pow_loop 33 d_one 4621819117588971520 = 5100510072459938205"
    by (simp add: pow_loop.simps [of 33] pow_loop.simps [of 16] pow_loop.simps [of 8] pow_loop.simps [of 4]
      pow_loop.simps [of 2] pow_loop.simps [of 1] pow_loop.simps [of 0] d_one_def products_of_10 del: One_nat_def)
  then show "pow 4621819117588971520 (d_of_int 33) = Some 5100510072459938205"
    using d_to_i64_int [OF i] by (simp add: pow_def Let_def)
  have "floorlog 2 (1000000000000000000000000000000000 :: nat) = Suc 109"
    by (rule floorlog_eqI) simp_all
  then have "d_bits 1000000000000000000000000000000000 0 = 5100510072459938204"
    by (simp add: d_bits_def shift_even_def inf_bits_def)
  then show "d_pack False (round_bits (10 ^ 33)) = 5100510072459938204"
    using d_bits_round [of 1000000000000000000000000000000000 0] by (simp add: d_pack_def)
qed

lemma d_mul_inf: "d_mul (d_pack False inf_bits) d_half = d_pack False inf_bits"
  by (simp add: d_mul_def d_nan_def d_inf_def d_mag_def d_neg_def d_sig_def d_half_def inf_bits_def d_pack_def)

text \<open>
  \<open>pow\<close> hangs on an infinite base: for infinity to the power one half, the loop that halves the
  argument of the logarithm makes no progress, and the call never returns.
\<close>

lemma ln_down_inf: "ln_down (d_pack False inf_bits) k = None"
proof (rule ccontr)
  assume "ln_down (d_pack False inf_bits) k \<noteq> None"
  then obtain r where run: "ln_down (d_pack False inf_bits) k = Some r" by blast
  have more: "d_lt d_sqrt2 (d_pack False inf_bits)"
    by (simp add: d_lt_def d_nan_def d_mag_def d_key_def d_neg_def d_sqrt2_def inf_bits_def d_pack_def)
  have "lx \<noteq> d_pack False inf_bits" if "ln_down lx k = Some r" for lx k r
  proof (rule ln_down.raw_induct [where P = "\<lambda>lx k r. lx \<noteq> d_pack False inf_bits", OF _ that], goal_cases)
    case (1 f lx k r)
    show ?case
    proof
      assume lx: "lx = d_pack False inf_bits"
      then have "f (d_pack False inf_bits) (d_add k d_one) = Some r" using 1(2) more d_mul_inf by simp
      from 1(1) [OF this] show False by simp
    qed
  qed
  with run show False by blast
qed

theorem pow_infinity_hangs: "pow (d_pack False inf_bits) d_half = None"
proof -
  have "d_to_i64 d_half = Some 0" "\<not> d_eq (d_of_int 0) d_half" "\<not> d_eq d_half 0"
    by (simp_all add: d_to_i64_def d_fin_def d_mag_def d_trunc_def d_sig_def d_exp_def d_neg_def d_half_def inf_bits_def d_eq_def
      d_of_int_def d_key_def d_nan_def)
  moreover have "\<not> d_lt (d_pack False inf_bits) 0" "\<not> d_eq (d_pack False inf_bits) 0"
    by (simp_all add: d_lt_def d_eq_def d_nan_def d_mag_def d_key_def d_neg_def inf_bits_def d_pack_def)
  ultimately show ?thesis by (simp add: pow_def pow_frac_def ln_down_inf)
qed

section \<open>Zeros\<close>

lemmas d_bits_defs = d_fin_def d_mag_def d_trunc_def d_sig_def d_exp_def d_neg_def d_half_def inf_bits_def d_eq_def d_lt_def d_le_def
  d_of_int_def d_key_def d_nan_def d_inf_def d_pack_def d_minus_def

text \<open>The sign of a zero result is lost: \<open>floor\<close> of the negative zero and \<open>ceil\<close> of \<open>-0.5\<close> are the positive zero.\<close>

lemma zero_sign_lost: "floor_d 9223372036854775808 = 0" "ceil_d (d_minus d_half) = 0"
  by (simp_all add: floor_d_def ceil_d_def d_whole_def d_absolute_def d_two53_def d_bits_defs Let_def)

lemma add_zero: "d_fin z \<Longrightarrow> d_val z = 0 \<Longrightarrow> d_add d_one z = d_one"
proof -
  assume z: "d_fin z" "d_val z = 0"
  have "mag_val 4607182418800017408 = 1" using d_consts(3) by (simp add: d_val_def d_neg_def d_mag_def d_one_def)
  then have "round_bits 1 = 4607182418800017408" using round_bits_mag [of 4607182418800017408] by (simp add: inf_bits_def)
  then show ?thesis
    using d_add_round [OF d_consts(7) z(1)] z(2) d_consts(3) by (simp add: d_round_def d_pack_def d_one_def)
qed

lemma cos_core_zero: "d_cos_core 0 = d_one"
proof -
  have "floorlog 2 (2 :: nat) = 2" using floorlog_eqI [of 1 2] by simp
  then have two: "d_of_int 2 = d_two" by (simp add: d_of_int_def d_bits_def d_pack_def d_two_def inf_bits_def)
  have "d_div 0 d_two = 0" by (simp add: d_div_def d_two_def d_bits_defs)
  moreover have "d_mul 0 0 = 0" "d_mul d_one 0 = 0" "d_mul 0 d_quarter = 0"
    by (simp_all add: d_mul_def d_one_def d_quarter_def d_bits_defs)
  ultimately have t: "d_mul 0 0 = 0" "d_mul d_one 0 = 0" "d_div 0 (d_of_int 2) = 0" "d_mul 0 d_quarter = 0"
    by (simp_all add: two)
  have m: "d_fin (d_minus 0)" "d_val (d_minus 0) = 0" "d_fin 0" "d_val 0 = 0" by (simp_all add: d_minus_simps d_consts)
  have "d_eq d_one d_one" using d_order(3) [of d_one d_one] d_consts(7) by simp
  then show ?thesis
    unfolding d_cos_core_def by (simp add: numeral_eq_Suc t d_sub_def add_zero m Let_def)
qed

lemma sin_cos_zero: "sin_d 0 = Some 0" "sin_d 9223372036854775808 = Some 9223372036854775808" "cos_d 0 = Some d_one"
proof -
  show "sin_d 0 = Some 0" "sin_d 9223372036854775808 = Some 9223372036854775808"
    by (simp_all add: sin_d_def d_bits_defs)
  have "d_div 0 d_pi2_hi = 0" "builtin_round 0 = 0" "d_mul 0 d_pi2_hi = 0" "d_mul 0 d_pi2_mid = 0" "d_mul 0 d_pi2_lo = 0" "d_sub 0 0 = 0"
    by (simp_all add: d_div_def builtin_round_def d_mul_def d_sub_def d_add_def d_pi2_hi_def d_pi2_mid_def d_pi2_lo_def d_bits_defs Let_def)
  then have "pi2_parts 0 = (0, 0)" by (simp add: pi2_parts_def Let_def)
  moreover have "d_to_i64 0 = Some 0" "d_eq 0 0" by (simp_all add: d_to_i64_def d_bits_defs)
  ultimately show "cos_d 0 = Some d_one" by (simp add: cos_d_def cos_core_zero)
qed

text \<open>The larger and the smaller of two finite doubles.\<close>

lemma fmax_fmin: "d_fin a \<Longrightarrow> d_fin b \<Longrightarrow> d_val (fmax a b) = max (d_val a) (d_val b) \<and> d_val (fmin a b) = min (d_val a) (d_val b)"
  using d_order [of a a] d_order [of b b] d_order(1) [of a b] d_order(1) [of b a] by (simp add: fmax_def fmin_def)

end
