(* ===== verification/Native_Memory.thy ===== *)
theory Native_Memory
  imports Zan_Prelude
begin

text \<open>
  The memory functions of the runtime (\<open>crt-transition/zanstubs.c\<close>, \<open>zan_alloc\<close> to \<open>GetString\<close>) on
  one block of bytes: a position in the block stands for a pointer. What C leaves undefined, an
  access outside of the block or a negative length that becomes a huge one, is \<^const>\<open>None\<close>.
\<close>

section \<open>The functions\<close>

text \<open>\<open>calloc\<close> of at least one byte; whether it succeeds is an argument.\<close>

definition zan_alloc :: "(nat \<Rightarrow> bool) \<Rightarrow> int \<Rightarrow> u8 list option" where
  "zan_alloc avail n0 =
     (let n = nat (if n0 > 0 then n0 else 1) in if avail n then Some (replicate n 0) else None)"

definition in_block :: "u8 list \<Rightarrow> int \<Rightarrow> int \<Rightarrow> bool" where
  "in_block m p n \<longleftrightarrow> 0 \<le> n \<and> 0 \<le> p \<and> p + n \<le> int (length m)"

definition nm_copy :: "u8 list \<Rightarrow> int \<Rightarrow> int \<Rightarrow> int \<Rightarrow> u8 list option" where
  "nm_copy m dst src n =
     (if in_block m dst n \<and> in_block m src n then Some (buf_store (nat dst) (buf_load (nat src) (nat n) m) m) else None)"

definition nm_fill :: "u8 list \<Rightarrow> int \<Rightarrow> int \<Rightarrow> int \<Rightarrow> u8 list option" where
  "nm_fill m p v n = (if in_block m p n then Some (buf_store (nat p) (replicate (nat n) (word_of_int v)) m) else None)"

text \<open>Of the result of \<open>memcmp\<close> only the sign is determined.\<close>

fun memcmp_sign :: "u8 list \<Rightarrow> u8 list \<Rightarrow> int" where
  "memcmp_sign (a # as) (b # bs) = (if a = b then memcmp_sign as bs else if a < b then -1 else 1)"
| "memcmp_sign as bs = 0"

definition nm_compare :: "u8 list \<Rightarrow> int \<Rightarrow> int \<Rightarrow> int \<Rightarrow> int option" where
  "nm_compare m a b n =
     (if in_block m a n \<and> in_block m b n
      then Some (memcmp_sign (buf_load (nat a) (nat n) m) (buf_load (nat b) (nat n) m)) else None)"

text \<open>\<open>memchr\<close>, which looks at no byte after the first match.\<close>

fun memchr_from :: "u8 list \<Rightarrow> nat \<Rightarrow> u8 \<Rightarrow> nat \<Rightarrow> nat option option" where
  "memchr_from m i b 0 = Some None"
| "memchr_from m i b (Suc n) =
     (if length m \<le> i then None else if m ! i = b then Some (Some i) else memchr_from m (i + 1) b n)"

definition nm_find :: "u8 list \<Rightarrow> int \<Rightarrow> int \<Rightarrow> int \<Rightarrow> int option" where
  "nm_find m off b n =
     (if n < 0 \<or> off < 0 then None
      else map_option (\<lambda>hit. case hit of Some i \<Rightarrow> int i | None \<Rightarrow> -1) (memchr_from m (nat off) (word_of_int b) (nat n)))"

definition nm_put_string :: "u8 list \<Rightarrow> int \<Rightarrow> u8 list option \<Rightarrow> int \<Rightarrow> u8 list option" where
  "nm_put_string m off s len =
     (case s of
        Some t \<Rightarrow>
          if len > 0 then (if in_block m off len \<and> len \<le> int (length t) then Some (buf_store (nat off) (take (nat len) t) m) else None)
          else Some m
      | None \<Rightarrow> Some m)"

text \<open>
  A string object: the count of references, a header with the magic number and the length, the bytes
  and a terminator. The pointer that the program sees is 16 bytes into it. The inner \<^const>\<open>None\<close> is the
  null pointer for a failed allocation.
\<close>

definition string_object :: "u8 list \<Rightarrow> u8 list" where
  "string_object data = le64 1 @ le64 (0x5A414E5300000000 OR of_nat (length data)) @ data @ [0]"

definition nm_get_string :: "bool \<Rightarrow> u8 list option \<Rightarrow> int \<Rightarrow> int \<Rightarrow> u8 list option option" where
  "nm_get_string avail p off len =
     (case p of
        None \<Rightarrow> Some (if avail then Some (string_object []) else None)
      | Some m \<Rightarrow>
          if \<not> avail then Some None
          else if len \<le> 0 then Some (Some (string_object []))
          else if in_block m off len then Some (Some (string_object (buf_load (nat off) (nat len) m))) else None)"

section \<open>Facts\<close>

lemma load_store: "in_block m off len \<Longrightarrow> length t = nat len \<Longrightarrow> buf_load (nat off) (nat len) (buf_store (nat off) t m) = t"
  unfolding in_block_def by (intro buf_load_store_same) auto

lemma in_block_store:
  assumes "in_block m off (int (length t))"
  shows "in_block (buf_store (nat off) t m) off (int (length t))"
proof -
  have "nat off + length t \<le> length m" using assms by (auto simp: in_block_def)
  from length_buf_store [OF this] show ?thesis using assms by (simp add: in_block_def)
qed

text \<open>A copy reads the source before it writes, so it is right for every overlap.\<close>

lemma nm_copy_reads_first:
  "nm_copy m dst src n = Some r \<Longrightarrow> buf_load (nat dst) (nat n) r = buf_load (nat src) (nat n) m"
  by (auto simp: nm_copy_def in_block_def split: if_splits) (rule buf_load_store_same, simp_all add: buf_load_def)

lemma memcmp_sign_zero: "length as = length bs \<Longrightarrow> memcmp_sign as bs = 0 \<longleftrightarrow> as = bs"
  by (induction as bs rule: memcmp_sign.induct) auto

lemma memchr_first:
  "memchr_from m i b n = Some (Some j) \<Longrightarrow> i \<le> j \<and> j < i + n \<and> j < length m \<and> m ! j = b \<and> (\<forall>k. i \<le> k \<and> k < j \<longrightarrow> m ! k \<noteq> b)"
proof (induction n arbitrary: i)
  case (Suc n)
  show ?case
  proof (cases "m ! i = b")
    case False
    with Suc.prems have "memchr_from m (i + 1) b n = Some (Some j)" by (simp split: if_splits)
    from Suc.IH [OF this] False show ?thesis by (auto simp: le_eq_less_or_eq Suc_le_eq) (metis Suc_lessI)
  qed (use Suc.prems in \<open>auto split: if_splits\<close>)
qed simp

text \<open>The result of \<open>Find\<close> counts from the pointer, not from the offset where the search starts.\<close>

lemma nm_find_first:
  assumes "nm_find m off b n = Some r" "r \<noteq> -1"
  shows "off \<le> r \<and> r < off + n \<and> m ! nat r = word_of_int b"
  using assms memchr_first [of m "nat off" "word_of_int b" "nat n"]
  by (auto simp: nm_find_def split: if_splits option.splits)

lemma negative_length: "n < 0 \<Longrightarrow> nm_copy m d s n = None \<and> nm_fill m d v n = None \<and> nm_compare m d s n = None \<and> nm_find m d v n = None"
  by (simp add: nm_copy_def nm_fill_def nm_compare_def nm_find_def in_block_def)

section \<open>Properties\<close>

text \<open>
  A string that was put into a block is got back as an object with the same bytes, whose
  header holds the count 1 and the length.
\<close>

theorem put_get_string:
  assumes "nm_put_string m off (Some t) (int (length t)) = Some r" "t \<noteq> []" "length t < 2147483648"
  shows "nm_get_string True (Some r) off (int (length t)) = Some (Some (string_object t)) \<and>
    un_le64 (take 8 (string_object t)) = 1 \<and>
    un_le64 (take 8 (drop 8 (string_object t))) = 0x5A414E5300000000 OR of_nat (length t) \<and>
    take (length t) (drop 16 (string_object t)) = t"
proof -
  have b: "in_block m off (int (length t))" and r: "r = buf_store (nat off) t m"
    using assms(1,2) by (auto simp: nm_put_string_def split: if_splits)
  then have "in_block r off (int (length t))" by (simp add: in_block_store)
  moreover have "buf_load (nat off) (length t) r = t" using load_store [OF b, of t] by (simp add: r)
  ultimately show ?thesis using assms(2) by (simp add: nm_get_string_def string_object_def)
qed

theorem put_get_string_witness:
  "nm_get_string True (Some [9, 65, 66, 9]) 1 2 = Some (Some (string_object [65, 66])) \<and>
    take (length [65 :: u8, 66]) (drop 16 (string_object [65, 66])) = [65, 66]"
  using put_get_string [of "[9, 9, 9, 9]" 1 "[65, 66]" "[9, 65, 66, 9]"]
  by (simp add: nm_put_string_def in_block_def buf_store_def)

end
