(* ===== verification/Io_Sockets.thy ===== *)
theory Io_Sockets
  imports Net_Address
begin

text \<open>
  The socket calls of the runtime (\<open>crt-transition/zanstubs.c\<close>) that are made without the reactor:
  sending and receiving, the connection with a limit of time, and the tests of a descriptor. The
  kernel is a record of functions on a state of its own; \<^const>\<open>None\<close> is a call that never returns,
  because the kernel interrupts it for ever.
\<close>

section \<open>The kernel\<close>

datatype sig_read = SigUnknown | SigDefault | SigSet
datatype send_answer = Sent int | SendBlocked | SendIntr | SendError
datatype connect_answer = Connected | Pending | ConnectError int
datatype select_answer = SelReady bool bool int | SelTimeout | SelIntr | SelError

text \<open>A limit of time, in seconds and microseconds; \<^const>\<open>None\<close> is the null pointer.\<close>

type_synonym timeval = "(int \<times> int) option"

record 'w sock_os =
  s_sigpipe :: "'w \<Rightarrow> sig_read \<times> 'w"
  s_ignore :: "'w \<Rightarrow> 'w"
  s_send :: "int \<Rightarrow> u8 list \<Rightarrow> int \<Rightarrow> 'w \<Rightarrow> send_answer \<times> 'w"
  s_recv :: "int \<Rightarrow> int \<Rightarrow> int \<Rightarrow> 'w \<Rightarrow> (int \<times> u8 list) \<times> 'w"
  s_getfl :: "int \<Rightarrow> 'w \<Rightarrow> int \<times> 'w"
  s_setfl :: "int \<Rightarrow> int \<Rightarrow> 'w \<Rightarrow> int \<times> 'w"
  s_nonblock :: "int \<Rightarrow> int"
  s_connect :: "int \<Rightarrow> sockaddr \<Rightarrow> int \<Rightarrow> 'w \<Rightarrow> connect_answer \<times> 'w"
  s_select :: "int \<Rightarrow> bool \<Rightarrow> timeval \<Rightarrow> 'w \<Rightarrow> (select_answer \<times> timeval) \<times> 'w"
  s_error :: "int \<Rightarrow> 'w \<Rightarrow> int option \<times> 'w"
  s_getfd :: "int \<Rightarrow> 'w \<Rightarrow> int \<times> 'w"

definition FD_SETSIZE :: int where "FD_SETSIZE = 1024"
definition int_max :: int where "int_max = 2147483647"

section \<open>Sending and receiving\<close>

definition zt_io_ignore_sigpipe :: "'w sock_os \<Rightarrow> 'w \<Rightarrow> 'w" where
  "zt_io_ignore_sigpipe K w = (case s_sigpipe K w of (r, w1) \<Rightarrow> if r = SigSet then w1 else s_ignore K w1)"

partial_function (option) send_loop :: "'w sock_os \<Rightarrow> int \<Rightarrow> u8 list \<Rightarrow> int \<Rightarrow> 'w \<Rightarrow> (int \<times> 'w) option" where
  "send_loop K fd bytes flags w =
     (case s_send K fd bytes flags w of (r, w1) \<Rightarrow>
        (case r of
           Sent n \<Rightarrow> Some (n, w1)
         | SendBlocked \<Rightarrow> Some (-1, w1)
         | SendIntr \<Rightarrow> send_loop K fd bytes flags w1
         | SendError \<Rightarrow> Some (-2, w1)))"

definition zan_io_socket_send :: "'w sock_os \<Rightarrow> int \<Rightarrow> u8 list \<Rightarrow> int \<Rightarrow> int \<Rightarrow> 'w \<Rightarrow> (int \<times> 'w) option" where
  "zan_io_socket_send K fd buf len flags w =
     (let w1 = zt_io_ignore_sigpipe K w in
      if len \<le> 0 then Some (if len = 0 then 0 else -2, w1)
      else send_loop K fd (take (nat (if len > int_max then int_max else len)) buf) flags w1)"

definition zan_io_socket_recv :: "'w sock_os \<Rightarrow> int \<Rightarrow> int \<Rightarrow> int \<Rightarrow> 'w \<Rightarrow> (int \<times> u8 list) \<times> 'w" where
  "zan_io_socket_recv K fd len flags w =
     (if len < 0 then ((-2, []), w) else s_recv K fd (if len > int_max then int_max else len) flags w)"

section \<open>Connecting\<close>

definition zan_io_set_nonblocking :: "'w sock_os \<Rightarrow> int \<Rightarrow> 'w \<Rightarrow> int \<times> 'w" where
  "zan_io_set_nonblocking K fd w =
     (case s_getfl K fd w of (flags, w1) \<Rightarrow> if flags < 0 then (-1, w1) else s_setfl K fd (s_nonblock K flags) w1)"

definition zan_io_connect_sa_start :: "'w sock_os \<Rightarrow> int \<Rightarrow> sockaddr option \<Rightarrow> int \<Rightarrow> 'w \<Rightarrow> int \<times> 'w" where
  "zan_io_connect_sa_start K fd sa salen w =
     (case sa of
        None \<Rightarrow> (-1, w)
      | Some a \<Rightarrow>
          if zan_io_sockaddr_family sa salen = AF_UNSPEC then (-1, w)
          else case zan_io_set_nonblocking K fd w of (s, w1) \<Rightarrow>
            if s \<noteq> 0 then (-1, w1)
            else case s_connect K fd a salen w1 of (r, w2) \<Rightarrow>
              (case r of
                 Connected \<Rightarrow> (0, w2)
               | Pending \<Rightarrow> (-2, w2)
               | ConnectError e \<Rightarrow> (if e > 0 then e else -1, w2)))"

text \<open>The sets of descriptors are those of before after an interrupted call; the limit is what the kernel left in it.\<close>

partial_function (option) select_loop :: "'w sock_os \<Rightarrow> int \<Rightarrow> timeval \<Rightarrow> 'w \<Rightarrow> (select_answer \<times> 'w) option" where
  "select_loop K fd tv w =
     (case s_select K fd True tv w of ((r, tv1), w1) \<Rightarrow>
        if r = SelIntr then select_loop K fd tv1 w1 else Some (r, w1))"

definition limit_of :: "int \<Rightarrow> timeval" where
  "limit_of timeout_ms = (if timeout_ms \<ge> 0 then Some (timeout_ms div 1000, timeout_ms mod 1000 * 1000) else None)"

definition so_error :: "'w sock_os \<Rightarrow> int \<Rightarrow> 'w \<Rightarrow> int \<times> 'w" where
  "so_error K fd w = (case s_error K fd w of (e, w1) \<Rightarrow> (case e of None \<Rightarrow> -1 | Some e \<Rightarrow> e, w1))"

definition zan_io_connect_sa :: "'w sock_os \<Rightarrow> int \<Rightarrow> sockaddr option \<Rightarrow> int \<Rightarrow> int \<Rightarrow> 'w \<Rightarrow> (int \<times> 'w) option" where
  "zan_io_connect_sa K fd sa salen timeout_ms w =
     (case zan_io_connect_sa_start K fd sa salen (zt_io_ignore_sigpipe K w) of (r, w1) \<Rightarrow>
        if r \<noteq> -2 then Some (r, w1)
        else if fd < 0 \<or> fd \<ge> FD_SETSIZE then Some (-1, w1)
        else (case select_loop K fd (limit_of timeout_ms) w1 of
          None \<Rightarrow> None
        | Some (a, w2) \<Rightarrow>
            (case a of
               SelReady wr ex n \<Rightarrow> Some (so_error K fd w2)
             | SelTimeout \<Rightarrow> Some (-3, w2)
             | _ \<Rightarrow> Some (-1, w2))))"

definition zan_io_connect_status :: "'w sock_os \<Rightarrow> int \<Rightarrow> 'w \<Rightarrow> int \<times> 'w" where
  "zan_io_connect_status K fd w =
     (if fd < 0 \<or> fd \<ge> FD_SETSIZE then (-1, w)
      else case s_select K fd True (Some (0, 0)) w of ((a, tv), w1) \<Rightarrow>
        (case a of
           SelReady wr ex n \<Rightarrow>
             if ex then (case so_error K fd w1 of (e, w2) \<Rightarrow> (if e \<noteq> 0 then e else -1, w2))
             else if wr then so_error K fd w1
             else (-2, w1)
         | SelTimeout \<Rightarrow> (-2, w1)
         | _ \<Rightarrow> (-1, w1)))"

definition zan_io_socket_ready :: "'w sock_os \<Rightarrow> int \<Rightarrow> int \<Rightarrow> 'w \<Rightarrow> int \<times> 'w" where
  "zan_io_socket_ready K fd write_ready w =
     (if fd < 0 \<or> fd \<ge> FD_SETSIZE then (-1, w)
      else case s_select K fd (write_ready \<noteq> 0) (Some (0, 0)) w of ((a, tv), w1) \<Rightarrow>
        ((case a of SelReady wr ex n \<Rightarrow> n | SelTimeout \<Rightarrow> 0 | _ \<Rightarrow> -1), w1))"

definition zan_io_socket_alive :: "'w sock_os \<Rightarrow> int \<Rightarrow> 'w \<Rightarrow> int \<times> 'w" where
  "zan_io_socket_alive K fd w =
     (if fd < 0 then (0, w) else case s_getfd K fd w of (r, w1) \<Rightarrow> (if r \<noteq> -1 then 1 else 0, w1))"

section \<open>Facts\<close>

lemma send_loop_returns:
  assumes "\<And>w. fst (s_send K fd bytes flags w) = SendIntr \<Longrightarrow> \<mu> (snd (s_send K fd bytes flags w)) < (\<mu> w :: nat)"
  shows "\<exists>r w'. send_loop K fd bytes flags w = Some (r, w')"
proof (induction "\<mu> w" arbitrary: w rule: less_induct)
  case less
  obtain a w1 where s: "s_send K fd bytes flags w = (a, w1)" by fastforce
  then show ?case
    using less [of w1] assms [of w] by (subst send_loop.simps) (auto split: send_answer.splits)
qed

lemma select_loop_returns:
  assumes "\<And>tv w. fst (fst (s_select K fd True tv w)) = SelIntr \<Longrightarrow> \<mu> (snd (s_select K fd True tv w)) < (\<mu> w :: nat)"
  shows "\<exists>a w'. select_loop K fd tv w = Some (a, w') \<and> a \<noteq> SelIntr"
proof (induction "\<mu> w" arbitrary: w tv rule: less_induct)
  case less
  obtain a tv1 w1 where s: "s_select K fd True tv w = ((a, tv1), w1)" by (metis surj_pair)
  then show ?case
    using less [of w1 tv1] assms [of tv w] by (subst select_loop.simps) auto
qed


text \<open>A kernel that interrupts as often as its state says, and then reports the connection.\<close>

definition slow_net :: "nat sock_os" where
  "slow_net = \<lparr> s_sigpipe = (\<lambda>w. (SigDefault, w)), s_ignore = (\<lambda>w. w), s_send = (\<lambda>_ _ _ w. (SendError, w)),
     s_recv = (\<lambda>_ _ _ w. ((-1, []), w)), s_getfl = (\<lambda>_ w. (0, w)), s_setfl = (\<lambda>_ _ w. (0, w)), s_nonblock = (\<lambda>f. f),
     s_connect = (\<lambda>_ _ _ w. (Pending, w)),
     s_select = (\<lambda>_ _ tv w. if w > 0 then ((SelIntr, tv), w - 1) else ((SelReady True False 1, tv), w)),
     s_error = (\<lambda>_ w. (Some 0, w)), s_getfd = (\<lambda>_ w. (0, w)) \<rparr>"


text \<open>The code of a status: 0 only without a pending error.\<close>

lemma zan_io_connect_status_zero:
  "zan_io_connect_status K fd w = (0, w') \<Longrightarrow> \<exists>v. s_error K fd v = (Some 0, w')"
  by (auto simp: zan_io_connect_status_def so_error_def split: select_answer.splits option.splits if_splits prod.splits)

end
