(* ===== verification/Spec2Isabelle.thy ===== *)
theory Spec2Isabelle
  imports Dispatch_Queue Shared_Clients Checksums Wide_Text Boot_Print Io_Waiting Dns_Handoff Co_Scheduler Sync_Locks Host_Locks Host_Files Host_Network Cef_Slots Boot_Files Boot_Heap Boot_Math Native_Memory Io_Sockets
begin

text \<open>
  A verification development for the C runtime of the zan self-host repository.
\<close>

end
